(* ===== verification/Prelude.thy ===== *)
theory Prelude
  imports Main "HOL-Library.Sublist"
begin

text \<open>
  Shared vocabulary of the development: the types the model uses for the machine types of the
  Rust sources, their checked and saturating arithmetic, the slice functions of the standard
  library the sources call, and the list lemmas the components share.

  A byte is a \<^typ>\<open>char\<close> (Isabelle's characters are exactly the 256 bytes), so a byte string
  literal of the source is a string literal of the model.  Unsigned integers are \<^typ>\<open>nat\<close>
  with the width written out at every operation that checks or saturates; \<open>usize\<close> is 64 bits
  wide on every host the program supports.
\<close>

section \<open>Types\<close>

type_synonym byte = char
type_synonym bytes = "char list"
type_synonym ('e, 'a) result = "'e + 'a"

abbreviation Ok :: "'a \<Rightarrow> ('e, 'a) result" where "Ok \<equiv> Inr"
abbreviation Err :: "'e \<Rightarrow> ('e, 'a) result" where "Err \<equiv> Inl"

abbreviation ESC :: byte where "ESC \<equiv> CHR 0x1B"
abbreviation BEL :: byte where "BEL \<equiv> CHR 0x07"
abbreviation BACKSLASH :: byte where "BACKSLASH \<equiv> CHR 0x5C"

named_theorems u64_defs \<open>definitions of the fixed-width operations\<close>
named_theorems slice_simps \<open>rewriting slices of a byte history\<close>

section \<open>Fixed-width unsigned arithmetic\<close>

definition u64_max :: nat where
  "u64_max = 18446744073709551615"

definition u64_checked_add :: "nat \<Rightarrow> nat \<Rightarrow> nat option" where
  "u64_checked_add a b = (if a + b \<le> u64_max then Some (a + b) else None)"

definition u64_checked_sub :: "nat \<Rightarrow> nat \<Rightarrow> nat option" where
  "u64_checked_sub a b = (if b \<le> a then Some (a - b) else None)"

definition u64_saturating_add :: "nat \<Rightarrow> nat \<Rightarrow> nat" where
  "u64_saturating_add a b = (if a + b \<le> u64_max then a + b else u64_max)"

text \<open>The conversion \<open>u64::try_from(n)\<close> of a \<open>usize\<close>, and the one back.\<close>

definition u64_try_from :: "nat \<Rightarrow> nat option" where
  "u64_try_from n = (if n \<le> u64_max then Some n else None)"

definition unwrap_or :: "'a option \<Rightarrow> 'a \<Rightarrow> 'a" where
  "unwrap_or x d = (case x of None \<Rightarrow> d | Some y \<Rightarrow> y)"

declare u64_checked_add_def [u64_defs] u64_checked_sub_def [u64_defs]
  u64_saturating_add_def [u64_defs] u64_try_from_def [u64_defs] unwrap_or_def [u64_defs]

lemma unwrap_or_simps [simp]: "unwrap_or None d = d" "unwrap_or (Some y) d = y"
  by (simp_all add: unwrap_or_def)

lemma u64_try_from_small [simp]: "n \<le> u64_max \<Longrightarrow> u64_try_from n = Some n"
  by (simp add: u64_try_from_def)

lemma u64_saturating_add_small [simp]:
  "a + b \<le> u64_max \<Longrightarrow> u64_saturating_add a b = a + b"
  by (simp add: u64_saturating_add_def)

lemma u64_checked_add_small [simp]:
  "a + b \<le> u64_max \<Longrightarrow> u64_checked_add a b = Some (a + b)"
  by (simp add: u64_checked_add_def)

lemma u64_checked_add_overflow [simp]:
  "u64_max < a + b \<Longrightarrow> u64_checked_add a b = None"
  by (simp add: u64_checked_add_def)

lemma u64_checked_add_SomeD:
  "u64_checked_add a b = Some c \<Longrightarrow> c = a + b \<and> c \<le> u64_max"
  by (simp add: u64_checked_add_def split: if_splits)

section \<open>Slices of a history\<close>

text \<open>\<open>slice xs i j\<close> is Rust's \<open>xs[i..j]\<close> for a range inside the list.\<close>

definition slice :: "'a list \<Rightarrow> nat \<Rightarrow> nat \<Rightarrow> 'a list" where
  "slice xs i j = take (j - i) (drop i xs)"

lemma length_slice [simp]: "j \<le> length xs \<Longrightarrow> length (slice xs i j) = j - i"
  by (simp add: slice_def)

lemma slice_empty [simp]: "j \<le> i \<Longrightarrow> slice xs i j = []"
  by (simp add: slice_def)

lemma slice_append_left [slice_simps]:
  "j \<le> length xs \<Longrightarrow> slice (xs @ ys) i j = slice xs i j"
  by (cases "i \<le> length xs") (simp_all add: slice_def)

lemma slice_append_right [slice_simps]:
  "i = length xs \<Longrightarrow> j = length xs + length ys \<Longrightarrow> slice (xs @ ys) i j = ys"
  by (simp add: slice_def)

lemma slice_join [slice_simps]:
  "i \<le> j \<Longrightarrow> j \<le> k \<Longrightarrow> slice xs i j @ slice xs j k = slice xs i k"
proof -
  assume ij: "i \<le> j" and jk: "j \<le> k"
  have "slice xs j k = take (k - j) (drop (j - i) (drop i xs))"
    using ij by (simp add: slice_def)
  moreover have "k - i = (j - i) + (k - j)"
    using ij jk by simp
  ultimately show ?thesis
    by (simp add: slice_def take_add)
qed

lemma slice_to_end: "slice xs i (length xs) = drop i xs"
  by (simp add: slice_def)

lemma slice_of_drop:
  "i \<le> j \<Longrightarrow> take n (drop (j - i) (drop i xs)) = slice xs j (j + n)"
  by (simp add: slice_def)

lemma slice_take_min:
  "slice xs i (i + min n (length xs - i)) = slice xs i (i + n)"
  by (simp add: slice_def min_def)

section \<open>Fixed-size chunks\<close>

text \<open>
  Rust's \<open>slice::chunks\<close>: consecutive pieces of \<open>n\<close> elements, the last one possibly shorter.
  A size of zero panics in Rust; every caller passes a positive size.
\<close>

function chunks :: "nat \<Rightarrow> 'a list \<Rightarrow> 'a list list" where
  "chunks n xs = (if n = 0 \<or> xs = [] then [] else take n xs # chunks n (drop n xs))"
  by pat_completeness auto
termination
  by (relation "measure (\<lambda>(n, xs). length xs)") auto

declare chunks.simps [simp del]

lemma chunks_Nil [simp]: "chunks n [] = []"
  by (simp add: chunks.simps)

lemma chunks_step: "0 < n \<Longrightarrow> xs \<noteq> [] \<Longrightarrow> chunks n xs = take n xs # chunks n (drop n xs)"
  by (subst chunks.simps) simp

lemma concat_chunks: "0 < n \<Longrightarrow> concat (chunks n xs) = xs"
proof (induction n xs rule: chunks.induct)
  case (1 n xs)
  then show ?case by (cases "xs = []") (simp_all add: chunks_step)
qed

lemma chunks_nonempty: "c \<in> set (chunks n xs) \<Longrightarrow> c \<noteq> [] \<and> length c \<le> n"
proof (induction n xs rule: chunks.induct)
  case (1 n xs)
  show ?case
  proof (cases "n = 0 \<or> xs = []")
    case True
    with "1.prems" show ?thesis by (simp add: chunks.simps [of n xs])
  next
    case False
    then have "chunks n xs = take n xs # chunks n (drop n xs)"
      by (intro chunks_step) auto
    with "1.prems" "1.IH" False show ?thesis by auto
  qed
qed

section \<open>Fallible computations\<close>

text \<open>\<open>Result::and_then\<close>, which is what the \<open>?\<close> operator of the sources does.\<close>

definition and_then :: "('e, 'a) result \<Rightarrow> ('a \<Rightarrow> ('e, 'b) result) \<Rightarrow> ('e, 'b) result" where
  "and_then r f = (case r of Inl e \<Rightarrow> Err e | Inr x \<Rightarrow> f x)"

lemma and_then_simps [simp]: "and_then (Ok x) f = f x" "and_then (Err e) f = Err e"
  by (simp_all add: and_then_def)

lemma and_then_cong [fundef_cong]:
  "r = r' \<Longrightarrow> (\<And>x. r' = Ok x \<Longrightarrow> f x = f' x) \<Longrightarrow> and_then r f = and_then r' f'"
  by (cases r') simp_all

lemma and_then_OkE:
  assumes "and_then r f = Ok y"
  obtains x where "r = Ok x" and "f x = Ok y"
  using assms by (cases r) auto

section \<open>First match in a list\<close>

lemma find_Some_in: "List.find P xs = Some x \<Longrightarrow> x \<in> set xs \<and> P x"
  by (induction xs) (auto split: if_splits)

section \<open>Machines fed byte by byte\<close>

text \<open>
  The contract of a stateful scanner: feeding a list of inputs is stepping through them.  Every
  scanner of the development that provides it is insensitive to how the stream is cut into
  reads, and inherits invariants from its step.
\<close>

locale byte_machine =
  fixes step :: "'s \<Rightarrow> 'b \<Rightarrow> 's"
    and feed :: "'s \<Rightarrow> 'b list \<Rightarrow> 's"
  assumes feed_Nil: "feed s [] = s"
    and feed_Cons: "feed s (b # bs) = feed (step s b) bs"
begin

lemma feed_append: "feed s (xs @ ys) = feed (feed s xs) ys"
  by (induction xs arbitrary: s) (simp_all add: feed_Nil feed_Cons)

lemma feed_fragments: "foldl feed s frags = feed s (concat frags)"
  by (induction frags arbitrary: s) (simp_all add: feed_Nil feed_append)

text \<open>An invariant that relates the state to everything fed so far.\<close>

lemma feed_history:
  assumes "\<And>H s b. I H s \<Longrightarrow> I (H @ [b]) (step s b)" and "I H s"
  shows "I (H @ bs) (feed s bs)"
  using assms(2)
proof (induction bs arbitrary: H s)
  case (Cons b bs)
  from Cons.IH [OF assms(1) [OF Cons.prems]] show ?case by (simp add: feed_Cons)
qed (simp add: feed_Nil)

end

section \<open>Sources that are polled until they are idle\<close>

primrec drain :: "('s \<Rightarrow> 's \<times> 'e option) \<Rightarrow> nat \<Rightarrow> 's \<Rightarrow> 's \<times> 'e list" where
  "drain poll 0 s = (s, [])"
| "drain poll (Suc k) s =
     (case poll s of
        (s', None) \<Rightarrow> (s', [])
      | (s', Some e) \<Rightarrow> (case drain poll k s' of (s'', es) \<Rightarrow> (s'', e # es)))"

lemma drain_Some:
  "poll s = (s', Some e) \<Longrightarrow> drain poll (Suc k) s = (fst (drain poll k s'), e # snd (drain poll k s'))"
  by (simp add: case_prod_unfold)

lemma drain_None: "poll s = (s', None) \<Longrightarrow> drain poll (Suc k) s = (s', [])"
  by simp

text \<open>
  The contract of a source whose every event uses up some of a finite backlog: with as many polls
  as the backlog is large, the source is drained, and it stays as it is.
\<close>

locale draining_source =
  fixes good :: "'s \<Rightarrow> bool"
    and rank :: "'s \<Rightarrow> nat"
    and poll :: "'s \<Rightarrow> 's \<times> 'e option"
  assumes poll_progress: "good s \<Longrightarrow> poll s = (s', Some e) \<Longrightarrow> good s' \<and> rank s' < rank s"
    and poll_idle: "good s \<Longrightarrow> poll s = (s', None) \<Longrightarrow> s' = s"
begin

lemma drain_good: "good s \<Longrightarrow> good (fst (drain poll k s))"
proof (induction k arbitrary: s)
  case (Suc k)
  obtain s' e where "poll s = (s', e)" by (cases "poll s")
  then show ?case
    using Suc.IH [of s'] Suc.prems poll_progress [of s s'] poll_idle [of s s']
    by (cases e) (auto split: prod.splits)
qed simp

lemma drain_idle:
  "good s \<Longrightarrow> rank s \<le> k \<Longrightarrow> poll (fst (drain poll (Suc k) s)) = (fst (drain poll (Suc k) s), None)"
proof (induction k arbitrary: s)
  case 0
  obtain s' e where "poll s = (s', e)" by (cases "poll s")
  then show ?case using 0 poll_progress [of s s'] poll_idle [of s s'] by (cases e) auto
next
  case (Suc k)
  obtain s' e where p: "poll s = (s', e)" by (cases "poll s")
  show ?case
  proof (cases e)
    case None
    then show ?thesis using Suc.prems p poll_idle [of s s'] by simp
  next
    case (Some x)
    then have "good s'" and "rank s' \<le> k" using Suc.prems p poll_progress [of s s' x] by auto
    from Suc.IH [OF this] show ?thesis using p Some by (simp only: drain_Some fst_conv)
  qed
qed

lemma drain_length: "good s \<Longrightarrow> length (snd (drain poll k s)) \<le> rank s"
proof (induction k arbitrary: s)
  case (Suc k)
  obtain s' e where p: "poll s = (s', e)" by (cases "poll s")
  show ?case
  proof (cases e)
    case (Some x)
    then have "good s'" and "rank s' < rank s" using Suc.prems p poll_progress [of s s' x] by auto
    with Suc.IH [of s'] show ?thesis using p Some by (simp add: drain_Some del: drain.simps)
  qed (use p in simp)
qed simp

end

section \<open>Steps that keep something\<close>

text \<open>
  The contract of a step relation whose every step keeps an invariant and relates the states in a
  way that adds up: so does every sequence of steps.
\<close>

locale step_relation =
  fixes step :: "'s \<Rightarrow> 's \<Rightarrow> bool"
    and good :: "'s \<Rightarrow> bool"
    and kept :: "'s \<Rightarrow> 's \<Rightarrow> bool"
  assumes chain_good: "step s s' \<Longrightarrow> good s \<Longrightarrow> good s'"
    and step_chain: "step s s' \<Longrightarrow> good s \<Longrightarrow> kept s s'"
    and chain_refl: "good s \<Longrightarrow> kept s s"
    and chain_trans: "kept a b \<Longrightarrow> kept b c \<Longrightarrow> kept a c"
begin

lemma steps_good: "step\<^sup>*\<^sup>* s s' \<Longrightarrow> good s \<Longrightarrow> good s'"
  by (induction rule: rtranclp_induct) (auto intro: chain_good)

lemma steps_chain: "step\<^sup>*\<^sup>* s s' \<Longrightarrow> good s \<Longrightarrow> kept s s'"
proof (induction rule: rtranclp_induct)
  case (step y z)
  then show ?case using chain_trans [OF step(3) step_chain [OF step(2) steps_good [OF step(1)]]] by blast
qed (rule chain_refl)

end

end
