(* ===== verification/Rust_Text.thy ===== *)
theory Rust_Text
  imports Prelude
begin

text \<open>
  The text operations of Rust's standard library that the sources call on byte strings:
  UTF-8 validation (\<open>str::from_utf8\<close>), lossy decoding (\<open>String::from_utf8_lossy\<close>), the ASCII
  classes, \<open>char::is_control\<close>, \<open>split\<close>, \<open>split_once\<close>, \<open>starts_with\<close>, \<open>strip_prefix\<close> and
  \<open>strip_suffix\<close>.  A string is its UTF-8 encoding.
\<close>

section \<open>Byte classes\<close>

abbreviation byte_val :: "byte \<Rightarrow> nat" where "byte_val \<equiv> of_char"

definition is_ascii_digit :: "byte \<Rightarrow> bool" where
  "is_ascii_digit b \<longleftrightarrow> 48 \<le> byte_val b \<and> byte_val b \<le> 57"

definition is_ascii_lower :: "byte \<Rightarrow> bool" where
  "is_ascii_lower b \<longleftrightarrow> 97 \<le> byte_val b \<and> byte_val b \<le> 122"

definition is_ascii_upper :: "byte \<Rightarrow> bool" where
  "is_ascii_upper b \<longleftrightarrow> 65 \<le> byte_val b \<and> byte_val b \<le> 90"

definition is_ascii_alphanumeric :: "byte \<Rightarrow> bool" where
  "is_ascii_alphanumeric b \<longleftrightarrow> is_ascii_digit b \<or> is_ascii_lower b \<or> is_ascii_upper b"

lemmas byte_class_defs =
  is_ascii_digit_def is_ascii_lower_def is_ascii_upper_def is_ascii_alphanumeric_def

definition is_ascii :: "byte \<Rightarrow> bool" where
  "is_ascii b \<longleftrightarrow> byte_val b < 128"

lemma alphanumeric_ascii: "is_ascii_alphanumeric b \<Longrightarrow> is_ascii b"
  by (auto simp: byte_class_defs is_ascii_def)

section \<open>UTF-8\<close>

definition utf8_cont :: "byte \<Rightarrow> bool" where
  "utf8_cont b \<longleftrightarrow> 128 \<le> byte_val b \<and> byte_val b \<le> 191"

text \<open>
  Bounds on the second byte of a sequence of three or four bytes, by its lead byte: they exclude
  overlong forms, surrogates and code points above U+10FFFF.
\<close>

definition utf8_second_ok :: "nat \<Rightarrow> byte \<Rightarrow> bool" where
  "utf8_second_ok lead b =
     (if lead = 224 then 160 \<le> byte_val b \<and> byte_val b \<le> 191
      else if lead = 237 then 128 \<le> byte_val b \<and> byte_val b \<le> 159
      else if lead = 240 then 144 \<le> byte_val b \<and> byte_val b \<le> 191
      else if lead = 244 then 128 \<le> byte_val b \<and> byte_val b \<le> 143
      else utf8_cont b)"

text \<open>
  The sequence at the front of a non-empty byte string: whether it is well formed, and how many
  bytes it takes.  An ill-formed sequence takes the longest prefix of a well-formed one.
\<close>

fun utf8_front :: "bytes \<Rightarrow> bool \<times> nat" where
  "utf8_front [] = (True, 0)"
| "utf8_front (b # rest) =
     (let v = byte_val b in
      if v < 128 then (True, 1)
      else if 194 \<le> v \<and> v \<le> 223 then
        (case rest of c # _ \<Rightarrow> if utf8_cont c then (True, 2) else (False, 1) | [] \<Rightarrow> (False, 1))
      else if 224 \<le> v \<and> v \<le> 239 then
        (case rest of
           c # rest2 \<Rightarrow>
             if utf8_second_ok v c
             then (case rest2 of d # _ \<Rightarrow> if utf8_cont d then (True, 3) else (False, 2) | [] \<Rightarrow> (False, 2))
             else (False, 1)
         | [] \<Rightarrow> (False, 1))
      else if 240 \<le> v \<and> v \<le> 244 then
        (case rest of
           c # rest2 \<Rightarrow>
             if utf8_second_ok v c
             then (case rest2 of
                     d # rest3 \<Rightarrow>
                       if utf8_cont d
                       then (case rest3 of
                               e # _ \<Rightarrow> if utf8_cont e then (True, 4) else (False, 3)
                             | [] \<Rightarrow> (False, 3))
                       else (False, 2)
                   | [] \<Rightarrow> (False, 2))
             else (False, 1)
         | [] \<Rightarrow> (False, 1))
      else (False, 1))"

lemma utf8_front_pos: "xs \<noteq> [] \<Longrightarrow> 0 < snd (utf8_front xs)"
  by (cases xs) (auto simp: Let_def split: list.splits)

function is_utf8 :: "bytes \<Rightarrow> bool" where
  "is_utf8 xs =
     (if xs = [] then True
      else fst (utf8_front xs) \<and> is_utf8 (drop (snd (utf8_front xs)) xs))"
  by pat_completeness auto
termination
  by (relation "measure length") (auto simp: utf8_front_pos)

text \<open>\<open>String::from_utf8_lossy\<close>: every ill-formed sequence becomes U+FFFD.\<close>

function from_utf8_lossy :: "bytes \<Rightarrow> bytes" where
  "from_utf8_lossy xs =
     (if xs = [] then []
      else (let (good, n) = utf8_front xs in
            (if good then take n xs else [CHR 0xEF, CHR 0xBF, CHR 0xBD])
            @ from_utf8_lossy (drop n xs)))"
  by pat_completeness auto
termination
proof (relation "measure length", goal_cases)
  case 1
  show ?case by simp
next
  case (2 xs x good n)
  with utf8_front_pos [of xs] show ?case by (cases "utf8_front xs") simp
qed

declare is_utf8.simps [simp del] from_utf8_lossy.simps [simp del]

definition from_utf8 :: "bytes \<Rightarrow> bytes option" where
  "from_utf8 xs = (if is_utf8 xs then Some xs else None)"

lemma is_utf8_Nil [simp]: "is_utf8 []"
  by (simp add: is_utf8.simps)

lemma is_utf8_ascii_Cons [simp]: "is_ascii b \<Longrightarrow> is_utf8 (b # xs) = is_utf8 xs"
  by (subst is_utf8.simps) (simp add: is_ascii_def)

lemma from_utf8_lossy_Nil [simp]: "from_utf8_lossy [] = []"
  by (simp add: from_utf8_lossy.simps)

lemma from_utf8_lossy_valid: "is_utf8 xs \<Longrightarrow> from_utf8_lossy xs = xs"
proof (induction xs rule: from_utf8_lossy.induct)
  case (1 xs)
  show ?case
  proof (cases "xs = []")
    case False
    obtain good n where gn: "utf8_front xs = (good, n)" by fastforce
    from "1.prems" False gn have good: "good" and rest: "is_utf8 (drop n xs)"
      by (auto simp: is_utf8.simps [of xs])
    from "1.IH" [OF False] gn rest have "from_utf8_lossy (drop n xs) = drop n xs" by simp
    then show ?thesis
      using False gn good by (subst from_utf8_lossy.simps) simp
  qed simp
qed

lemma is_utf8_ascii: "\<forall>b \<in> set xs. is_ascii b \<Longrightarrow> is_utf8 xs"
  by (induction xs) auto

lemma is_utf8_ascii_append: "\<forall>b \<in> set xs. is_ascii b \<Longrightarrow> is_utf8 (xs @ ys) = is_utf8 ys"
  by (induction xs) auto

text \<open>
  \<open>text.chars().any(char::is_control)\<close> on UTF-8 text: the control characters are U+0000 to
  U+001F, U+007F and U+0080 to U+009F, whose encodings are the single bytes and the pairs with
  lead byte C2 below.
\<close>

fun has_control :: "bytes \<Rightarrow> bool" where
  "has_control [] = False"
| "has_control (b # rest) =
     (byte_val b < 32 \<or> byte_val b = 127 \<or>
      (byte_val b = 194 \<and> (case rest of c # _ \<Rightarrow> 128 \<le> byte_val c \<and> byte_val c \<le> 159 | [] \<Rightarrow> False)) \<or>
      has_control rest)"

section \<open>Characters\<close>

text \<open>\<open>str::chars\<close>, each character as its encoding.\<close>

function utf8_chars :: "bytes \<Rightarrow> bytes list" where
  "utf8_chars xs =
     (if xs = [] then [] else take (snd (utf8_front xs)) xs # utf8_chars (drop (snd (utf8_front xs)) xs))"
  by pat_completeness auto
termination
  by (relation "measure length") (auto simp: utf8_front_pos)

declare utf8_chars.simps [simp del]

text \<open>\<open>char::is_whitespace\<close>: the encodings of the code points with the White_Space property.\<close>

definition is_whitespace :: "bytes \<Rightarrow> bool" where
  "is_whitespace c \<longleftrightarrow>
     (case map byte_val c of
        [a] \<Rightarrow> (9 \<le> a \<and> a \<le> 13) \<or> a = 32
      | [a, b] \<Rightarrow> a = 0xC2 \<and> (b = 0x85 \<or> b = 0xA0)
      | [a, b, d] \<Rightarrow>
          (a = 0xE1 \<and> b = 0x9A \<and> d = 0x80) \<or>
          (a = 0xE2 \<and> b = 0x80 \<and> ((0x80 \<le> d \<and> d \<le> 0x8A) \<or> d = 0xA8 \<or> d = 0xA9 \<or> d = 0xAF)) \<or>
          (a = 0xE2 \<and> b = 0x81 \<and> d = 0x9F) \<or> (a = 0xE3 \<and> b = 0x80 \<and> d = 0x80)
      | _ \<Rightarrow> False)"

text \<open>\<open>str::trim\<close> on the characters of a text.\<close>

definition trim_chars :: "bytes list \<Rightarrow> bytes list" where
  "trim_chars cs = rev (dropWhile is_whitespace (rev (dropWhile is_whitespace cs)))"

text \<open>\<open>slice::join\<close> with a separator.\<close>

fun join_with :: "bytes \<Rightarrow> bytes list \<Rightarrow> bytes" where
  "join_with sep [] = []"
| "join_with sep [x] = x"
| "join_with sep (x # xs) = x @ sep @ join_with sep xs"

section \<open>Splitting\<close>

text \<open>\<open>text.split(c)\<close>: at least one piece, the pieces between the separators.\<close>

fun split_on :: "'a \<Rightarrow> 'a list \<Rightarrow> 'a list list" where
  "split_on c [] = [[]]"
| "split_on c (x # xs) =
     (if x = c then [] # split_on c xs
      else (case split_on c xs of p # ps \<Rightarrow> (x # p) # ps | [] \<Rightarrow> [[x]]))"

definition split_once :: "'a \<Rightarrow> 'a list \<Rightarrow> ('a list \<times> 'a list) option" where
  "split_once c xs =
     (if c \<in> set xs then Some (takeWhile (\<lambda>x. x \<noteq> c) xs, tl (dropWhile (\<lambda>x. x \<noteq> c) xs)) else None)"

lemma split_on_nonempty: "split_on c xs \<noteq> []"
  by (induction xs) (auto split: list.splits)

lemma split_on_plain: "c \<notin> set xs \<Longrightarrow> split_on c xs = [xs]"
  by (induction xs) auto

lemma split_on_append: "c \<notin> set xs \<Longrightarrow> split_on c (xs @ c # ys) = xs # split_on c ys"
  by (induction xs) auto

lemma split_once_append: "c \<notin> set xs \<Longrightarrow> split_once c (xs @ c # ys) = Some (xs, ys)"
proof -
  assume "c \<notin> set xs"
  then have "takeWhile (\<lambda>x. x \<noteq> c) (xs @ c # ys) = xs"
    and "dropWhile (\<lambda>x. x \<noteq> c) (xs @ c # ys) = c # ys"
    by (induction xs) auto
  then show ?thesis by (simp add: split_once_def)
qed

definition strip_prefix :: "'a list \<Rightarrow> 'a list \<Rightarrow> 'a list option" where
  "strip_prefix p xs = (if prefix p xs then Some (drop (length p) xs) else None)"

definition strip_suffix :: "'a list \<Rightarrow> 'a list \<Rightarrow> 'a list option" where
  "strip_suffix s xs = (if suffix s xs then Some (take (length xs - length s) xs) else None)"

lemma strip_prefix_append [simp]: "strip_prefix p (p @ xs) = Some xs"
  by (simp add: strip_prefix_def)

lemma strip_suffix_append [simp]: "strip_suffix s (xs @ s) = Some xs"
  by (simp add: strip_suffix_def suffix_def)

lemma strip_prefix_SomeD: "strip_prefix p xs = Some ys \<Longrightarrow> xs = p @ ys"
  by (auto simp: strip_prefix_def prefix_def split: if_splits)

text \<open>
  \<open>str::lines\<close>: the pieces between line feeds without a carriage return before the line feed; a
  line feed at the end starts no further line.
\<close>

definition str_lines :: "bytes \<Rightarrow> bytes list" where
  "str_lines xs =
     (let ps = split_on (CHR 0x0A) xs;
          ended = map (\<lambda>p. case strip_suffix [CHR 0x0D] p of None \<Rightarrow> p | Some q \<Rightarrow> q) (butlast ps)
      in ended @ (if last ps = [] then [] else [last ps]))"

section \<open>Splitting at the last separator\<close>

definition rsplit_once :: "'a \<Rightarrow> 'a list \<Rightarrow> ('a list \<times> 'a list) option" where
  "rsplit_once c xs = map_option (\<lambda>(p, s). (rev s, rev p)) (split_once c (rev xs))"

lemma rsplit_once_append: "c \<notin> set ys \<Longrightarrow> rsplit_once c (xs @ c # ys) = Some (xs, ys)"
  using split_once_append [of c "rev ys" "rev xs"] by (simp add: rsplit_once_def)

lemma split_once_SomeD: "split_once c xs = Some (p, s) \<Longrightarrow> xs = p @ c # s"
  by (induction xs arbitrary: p) (auto simp: split_once_def split: if_splits)

lemma rsplit_once_SomeD: "rsplit_once c xs = Some (p, s) \<Longrightarrow> xs = p @ c # s"
proof -
  assume "rsplit_once c xs = Some (p, s)"
  then obtain a b where ab: "split_once c (rev xs) = Some (a, b)" "p = rev b" "s = rev a"
    by (auto simp: rsplit_once_def)
  then have "rev xs = a @ c # b" using split_once_SomeD by metis
  then show ?thesis using ab by (metis rev.simps(2) rev_append rev_swap append.assoc append_Cons append_Nil)
qed

section \<open>Decimal numbers\<close>

text \<open>\<open>str::parse::<u64>\<close>: an optional plus sign, then digits whose number fits.\<close>

fun parse_digits :: "nat \<Rightarrow> bytes \<Rightarrow> nat option" where
  "parse_digits acc [] = Some acc"
| "parse_digits acc (d # ds) =
     (if is_ascii_digit d
      then (let v = acc * 10 + (byte_val d - 48) in if v \<le> u64_max then parse_digits v ds else None)
      else None)"

definition parse_u64 :: "bytes \<Rightarrow> nat option" where
  "parse_u64 xs =
     (let ds = (case xs of CHR ''+'' # rest \<Rightarrow> rest | _ \<Rightarrow> xs) in if ds = [] then None else parse_digits 0 ds)"

definition digit :: "nat \<Rightarrow> byte" where "digit n = char_of (48 + n)"

fun show_nat :: "nat \<Rightarrow> bytes" where
  "show_nat n = (if n < 10 then [digit n] else show_nat (n div 10) @ [digit (n mod 10)])"

declare show_nat.simps [simp del]

lemma digit_val: "n < 10 \<Longrightarrow> is_ascii_digit (digit n) \<and> byte_val (digit n) = 48 + n"
  by (simp add: digit_def is_ascii_digit_def)

lemma parse_digits_snoc:
  "parse_digits acc (xs @ [d]) = (case parse_digits acc xs of None \<Rightarrow> None | Some v \<Rightarrow> parse_digits v [d])"
  by (induction acc xs rule: parse_digits.induct) (auto simp: Let_def)

lemma parse_show_digits: "n \<le> u64_max \<Longrightarrow> parse_digits 0 (show_nat n) = Some n"
proof (induction n rule: show_nat.induct)
  case (1 n)
  show ?case
  proof (cases "n < 10")
    case True
    then show ?thesis using 1 digit_val [OF True] by (subst show_nat.simps) simp
  next
    case False
    have "n div 10 \<le> u64_max" using "1.prems" by linarith
    with "1.IH" [OF False] have "parse_digits 0 (show_nat (n div 10)) = Some (n div 10)" by simp
    then show ?thesis
      using False "1.prems" digit_val [of "n mod 10"] by (subst show_nat.simps) (simp add: parse_digits_snoc)
  qed
qed

lemma show_nat_digits: "d \<in> set (show_nat n) \<Longrightarrow> is_ascii_digit d"
proof (induction n rule: show_nat.induct)
  case (1 n)
  then show ?case
    using digit_val [of n] digit_val [of "n mod 10"] by (auto simp: show_nat.simps [of n] split: if_splits)
qed

lemma show_nat_nonempty [simp]: "show_nat n \<noteq> []"
  by (subst show_nat.simps) simp

lemma parse_show_nat:
  assumes "n \<le> u64_max"
  shows "parse_u64 (show_nat n) = Some n"
proof -
  have "hd (show_nat n) \<in> set (show_nat n)" by simp
  from show_nat_digits [OF this] have "hd (show_nat n) \<noteq> CHR ''+''" by (auto simp: is_ascii_digit_def)
  then have "(case show_nat n of CHR ''+'' # rest \<Rightarrow> rest | _ \<Rightarrow> show_nat n) = show_nat n"
    by (cases "show_nat n") (auto split: char.splits bool.splits)
  then show ?thesis unfolding parse_u64_def Let_def using parse_show_digits [OF assms] by simp
qed

end
