(* ===== verification/Worker_Identity.thy ===== *)
theory Worker_Identity
  imports Rust_Text
begin

text \<open>
  Identifiers and protocol versions of the worker protocol (\<open>crates/worker-protocol/src/id.rs\<close>,
  \<open>version.rs\<close>).  Every identifier type of the source is a newtype around a validated string; the
  model is the string with the validation.  A version is a newtype around a nonzero number, ordered
  by it.
\<close>

section \<open>Identifiers\<close>

definition MAX_ID_BYTES :: nat where "MAX_ID_BYTES = 128"

datatype id_error = IdEmpty | IdTooLong nat nat | IdInvalidByte nat | IdReserved

type_synonym ident = bytes

definition id_byte :: "byte \<Rightarrow> bool" where
  "id_byte b \<longleftrightarrow> is_ascii_alphanumeric b \<or> b = CHR ''-'' \<or> b = CHR ''_'' \<or> b = CHR ''.''"

definition id_validate :: "bytes \<Rightarrow> (id_error, unit) result" where
  "id_validate v =
     (if v = [] then Err IdEmpty
      else if MAX_ID_BYTES < length v then Err (IdTooLong (length v) MAX_ID_BYTES)
      else if v = ''.'' \<or> v = ''..'' then Err IdReserved
      else case List.find (\<lambda>ib. \<not> id_byte (snd ib)) (List.enumerate 0 v) of
             Some ib \<Rightarrow> Err (IdInvalidByte (fst ib))
           | None \<Rightarrow> Ok ())"

definition id_new :: "bytes \<Rightarrow> (id_error, ident) result" where
  "id_new v = (case id_validate v of Inl e \<Rightarrow> Err e | Inr u \<Rightarrow> Ok v)"

definition id_try_from :: "bytes \<Rightarrow> (id_error, ident) result" where
  "id_try_from v = (case id_validate v of Inl e \<Rightarrow> Err e | Inr u \<Rightarrow> Ok v)"

lemma find_enumerate_None:
  "List.find (\<lambda>ib. \<not> P (snd ib)) (List.enumerate n xs) = None \<longleftrightarrow> (\<forall>x \<in> set xs. P x)"
  by (induction xs arbitrary: n) auto

lemma find_enumerate_Some:
  "List.find (\<lambda>ib. \<not> P (snd ib)) (List.enumerate n xs) = Some (i, x) \<Longrightarrow>
     n \<le> i \<and> i < n + length xs \<and> xs ! (i - n) = x \<and> \<not> P x \<and> (\<forall>j < i - n. P (xs ! j))"
proof (induction xs arbitrary: n)
  case (Cons y ys)
  show ?case
  proof (cases "P y")
    case False
    then show ?thesis using Cons.prems by auto
  next
    case True
    then have "List.find (\<lambda>ib. \<not> P (snd ib)) (List.enumerate (Suc n) ys) = Some (i, x)"
      using Cons.prems by simp
    from Cons.IH [OF this] have ih: "Suc n \<le> i" "i < Suc n + length ys" "ys ! (i - Suc n) = x" "\<not> P x"
      "\<forall>j < i - Suc n. P (ys ! j)" by auto
    have "i - n = Suc (i - Suc n)" using ih(1) by simp
    then show ?thesis using ih True by (auto simp: nth_Cons split: nat.splits)
  qed
qed simp

section \<open>Versions\<close>

datatype version = Version (version_get: nat)

datatype version_error =
    VersionZero
  | InvalidRange version version
  | Incompatible version version version version

instantiation version :: linorder
begin

definition less_eq_version :: "version \<Rightarrow> version \<Rightarrow> bool" where
  "less_eq_version a b \<longleftrightarrow> version_get a \<le> version_get b"

definition less_version :: "version \<Rightarrow> version \<Rightarrow> bool" where
  "less_version a b \<longleftrightarrow> version_get a < version_get b"

instance
  by standard (auto simp: less_eq_version_def less_version_def version.expand)

end

definition CURRENT_VERSION :: version where "CURRENT_VERSION = Version 8"
definition PREVIOUS_VERSION :: version where "PREVIOUS_VERSION = Version 7"
definition ATTACH_SNAPSHOT_VERSION :: version where "ATTACH_SNAPSHOT_VERSION = Version 3"
definition CONTROL_PLANE_OBSERVATION_VERSION :: version where "CONTROL_PLANE_OBSERVATION_VERSION = Version 4"
definition SUBAGENT_OBSERVATION_VERSION :: version where "SUBAGENT_OBSERVATION_VERSION = Version 5"
definition ACTIVE_IDENTITY_FORWARD_VERSION :: version where "ACTIVE_IDENTITY_FORWARD_VERSION = Version 8"
definition PROMPT_EVIDENCE_VERSION :: version where "PROMPT_EVIDENCE_VERSION = Version 8"

definition version_new :: "nat \<Rightarrow> (version_error, version) result" where
  "version_new n = (if n = 0 then Err VersionZero else Ok (Version n))"

record version_range =
  vr_minimum :: version
  vr_maximum :: version

definition SUPPORTED_RANGE :: version_range where
  "SUPPORTED_RANGE = \<lparr>vr_minimum = PREVIOUS_VERSION, vr_maximum = CURRENT_VERSION\<rparr>"

definition version_range_new :: "version \<Rightarrow> version \<Rightarrow> (version_error, version_range) result" where
  "version_range_new lo hi =
     (if version_get hi < version_get lo then Err (InvalidRange lo hi)
      else Ok \<lparr>vr_minimum = lo, vr_maximum = hi\<rparr>)"

definition version_range_contains :: "version_range \<Rightarrow> version \<Rightarrow> bool" where
  "version_range_contains r v \<longleftrightarrow>
     version_get (vr_minimum r) \<le> version_get v \<and> version_get v \<le> version_get (vr_maximum r)"

definition negotiate :: "version_range \<Rightarrow> version_range \<Rightarrow> (version_error, version) result" where
  "negotiate lcl remote =
     (let lo = (if version_get (vr_minimum remote) < version_get (vr_minimum lcl)
                then vr_minimum lcl else vr_minimum remote);
          hi = (if version_get (vr_maximum lcl) < version_get (vr_maximum remote)
                then vr_maximum lcl else vr_maximum remote)
      in if version_get hi < version_get lo
         then Err (Incompatible (vr_minimum lcl) (vr_maximum lcl) (vr_minimum remote) (vr_maximum remote))
         else Ok hi)"

lemma contains_iff: "version_range_contains r v \<longleftrightarrow> vr_minimum r \<le> v \<and> v \<le> vr_maximum r"
  by (simp add: version_range_contains_def less_eq_version_def)

lemma negotiate_max:
  "negotiate a b =
     (if min (vr_maximum a) (vr_maximum b) < max (vr_minimum a) (vr_minimum b)
      then Err (Incompatible (vr_minimum a) (vr_maximum a) (vr_minimum b) (vr_maximum b))
      else Ok (min (vr_maximum a) (vr_maximum b)))"
  by (auto simp: negotiate_def Let_def min_def max_def less_eq_version_def less_version_def
      intro: version.expand)

section \<open>Properties\<close>

text \<open>
  Negotiation selects the highest version both peers support, gives both peers the same
  answer, and fails exactly when no version is supported by both.
\<close>

theorem negotiate_highest_common:
  assumes "version_range_new (vr_minimum a) (vr_maximum a) = Ok a"
    and "version_range_new (vr_minimum b) (vr_maximum b) = Ok b"
  shows "(case negotiate a b of
      Inr v \<Rightarrow> negotiate b a = Ok v \<and> version_range_contains a v \<and> version_range_contains b v \<and>
               (\<forall>w. version_range_contains a w \<and> version_range_contains b w \<longrightarrow> w \<le> v)
    | Inl e \<Rightarrow> \<not> (\<exists>w. version_range_contains a w \<and> version_range_contains b w))"
proof (cases "min (vr_maximum a) (vr_maximum b) < max (vr_minimum a) (vr_minimum b)")
  case True
  then show ?thesis by (auto simp: negotiate_max contains_iff min_def max_def split: if_splits)
next
  case False
  have "vr_minimum a \<le> vr_maximum a" "vr_minimum b \<le> vr_maximum b"
    using assms by (auto simp: version_range_new_def less_eq_version_def split: if_splits)
  moreover have "max (vr_minimum a) (vr_minimum b) \<le> min (vr_maximum a) (vr_maximum b)"
    using False by (simp only: not_less)
  ultimately show ?thesis
    using False by (auto simp: negotiate_max contains_iff min.commute max.commute)
qed

theorem negotiate_highest_common_witness:
  "negotiate SUPPORTED_RANGE \<lparr>vr_minimum = Version 3, vr_maximum = Version 7\<rparr> = Ok (Version 7) \<and>
   negotiate \<lparr>vr_minimum = Version 3, vr_maximum = Version 7\<rparr> SUPPORTED_RANGE = Ok (Version 7) \<and>
   version_range_contains SUPPORTED_RANGE (Version 7)"
proof -
  have "negotiate SUPPORTED_RANGE \<lparr>vr_minimum = Version 3, vr_maximum = Version 7\<rparr> = Ok (Version 7)"
    by code_simp
  then show ?thesis
    using negotiate_highest_common [of SUPPORTED_RANGE "\<lparr>vr_minimum = Version 3, vr_maximum = Version 7\<rparr>"]
    by (simp add: version_range_new_def SUPPORTED_RANGE_def PREVIOUS_VERSION_def CURRENT_VERSION_def)
qed

text \<open>
  An identifier is accepted exactly when it has 1 to 128 bytes of the identifier alphabet and
  is no reserved path component, so an accepted identifier contains no path separator; a rejection
  for a byte names the first offending index.
\<close>

theorem id_new_exact:
  "(case id_new v of
      Inr w \<Rightarrow> w = v \<and> 1 \<le> length v \<and> length v \<le> MAX_ID_BYTES \<and> list_all id_byte v \<and>
               v \<noteq> ''.'' \<and> v \<noteq> ''..'' \<and> CHR ''/'' \<notin> set v
    | Inl (IdInvalidByte i) \<Rightarrow> i < length v \<and> \<not> id_byte (v ! i) \<and> list_all id_byte (take i v)
    | Inl IdEmpty \<Rightarrow> v = []
    | Inl (IdTooLong n m) \<Rightarrow> n = length v \<and> m = MAX_ID_BYTES \<and> m < n
    | Inl IdReserved \<Rightarrow> v = ''.'' \<or> v = ''..'')"
proof -
  have slash: "\<not> id_byte (CHR ''/'')" by code_simp
  show ?thesis
  proof (cases "v \<noteq> [] \<and> length v \<le> MAX_ID_BYTES \<and> v \<noteq> ''.'' \<and> v \<noteq> ''..''")
    case False
    then show ?thesis by (auto simp: id_new_def id_validate_def)
  next
    case True
    then have len: "1 \<le> length v" by (cases v) auto
    show ?thesis
    proof (cases "List.find (\<lambda>ib. \<not> id_byte (snd ib)) (List.enumerate 0 v)")
      case None
      then have "\<forall>x \<in> set v. id_byte x" by (simp add: find_enumerate_None)
      then show ?thesis
        using None True len slash by (auto simp: id_new_def id_validate_def list_all_iff)
    next
      case (Some ib)
      obtain i x where ib: "ib = (i, x)" by (cases ib)
      from find_enumerate_Some [OF Some [unfolded ib]]
      have "i < length v" "\<not> id_byte (v ! i)" "\<forall>j < i. id_byte (v ! j)" by auto
      then show ?thesis
        using Some ib True by (auto simp: id_new_def id_validate_def list_all_length)
    qed
  qed
qed

end
