(* ===== verification/Token_Vault.thy ===== *)
theory Token_Vault
  imports Worker_Identity "HOL-Library.AList"
begin

text \<open>
  The one-use credentials of data streams (\<open>crates/worker-protocol/src/token.rs\<close>).  The hash map of
  the source is an association list with distinct keys; no operation depends on its order.
\<close>

section \<open>State and operations\<close>

record token_claims =
  claim_lease_id :: ident
  claim_worker_instance_id :: ident
  claim_stream_id :: ident
  claim_expires_at_ms :: nat

datatype token_error =
  InvalidCapacity | Full nat | Duplicate | AlreadyExpired | Unknown | Expired | ScopeMismatch

record token_vault =
  vault_entries :: "(ident \<times> token_claims) list"
  vault_maximum :: nat

definition vault_new :: "nat \<Rightarrow> (token_error, token_vault) result" where
  "vault_new maximum =
     (if maximum = 0 then Err InvalidCapacity else Ok \<lparr>vault_entries = [], vault_maximum = maximum\<rparr>)"

definition vault_purge_expired :: "token_vault \<Rightarrow> nat \<Rightarrow> token_vault \<times> nat" where
  "vault_purge_expired v now_ms =
     (let before = length (vault_entries v);
          kept = filter (\<lambda>(t, c). now_ms < claim_expires_at_ms c) (vault_entries v)
      in (v\<lparr>vault_entries := kept\<rparr>, before - length kept))"

definition vault_insert :: "token_vault \<Rightarrow> ident \<Rightarrow> token_claims \<Rightarrow> nat \<Rightarrow> token_vault \<times> (token_error, unit) result" where
  "vault_insert v token claims now_ms =
     (if claim_expires_at_ms claims \<le> now_ms then (v, Err AlreadyExpired)
      else
        (let v' = fst (vault_purge_expired v now_ms) in
         if map_of (vault_entries v') token \<noteq> None then (v', Err Duplicate)
         else if vault_maximum v' \<le> length (vault_entries v') then (v', Err (Full (vault_maximum v')))
         else (v'\<lparr>vault_entries := AList.update token claims (vault_entries v')\<rparr>, Ok ())))"

definition vault_redeem ::
  "token_vault \<Rightarrow> ident \<Rightarrow> ident \<Rightarrow> ident \<Rightarrow> ident \<Rightarrow> nat \<Rightarrow> token_vault \<times> (token_error, token_claims) result" where
  "vault_redeem v token lease_id worker_instance_id stream_id now_ms =
     (case map_of (vault_entries v) token of
        None \<Rightarrow> (v, Err Unknown)
      | Some claims \<Rightarrow>
          (let v' = v\<lparr>vault_entries := AList.delete token (vault_entries v)\<rparr> in
           if claim_expires_at_ms claims \<le> now_ms then (v', Err Expired)
           else if claim_lease_id claims \<noteq> lease_id \<or> claim_worker_instance_id claims \<noteq> worker_instance_id \<or>
                   claim_stream_id claims \<noteq> stream_id
           then (v', Err ScopeMismatch)
           else (v', Ok claims)))"

definition vault_len :: "token_vault \<Rightarrow> nat" where
  "vault_len v = length (vault_entries v)"

definition vault_is_empty :: "token_vault \<Rightarrow> bool" where
  "vault_is_empty v \<longleftrightarrow> vault_entries v = []"

section \<open>Invariant\<close>

definition vault_inv :: "token_vault \<Rightarrow> bool" where
  "vault_inv v \<longleftrightarrow>
     distinct (map fst (vault_entries v)) \<and> length (vault_entries v) \<le> vault_maximum v \<and> 0 < vault_maximum v"

lemma distinct_filter_keys: "distinct (map fst xs) \<Longrightarrow> distinct (map fst (filter P xs))"
  by (induction xs) auto

lemma vault_purge_inv: "vault_inv v \<Longrightarrow> vault_inv (fst (vault_purge_expired v now))"
  by (auto simp: vault_inv_def vault_purge_expired_def Let_def distinct_filter_keys
      intro: order_trans [OF length_filter_le])

lemma length_update_new: "map_of xs k = None \<Longrightarrow> length (AList.update k v xs) = Suc (length xs)"
  by (induction xs) (auto split: if_splits)

lemma vault_insert_inv:
  assumes "vault_inv v"
  shows "vault_inv (fst (vault_insert v token claims now))"
proof -
  let ?v = "fst (vault_purge_expired v now)"
  have inv: "vault_inv ?v" using vault_purge_inv [OF assms] .
  show ?thesis
  proof (cases "map_of (vault_entries ?v) token")
    case None
    then have "length (AList.update token claims (vault_entries ?v)) = Suc (length (vault_entries ?v))"
      by (rule length_update_new)
    then show ?thesis
      using inv assms by (simp add: vault_insert_def Let_def vault_inv_def distinct_update None)
  next
    case (Some c)
    then show ?thesis using inv assms by (simp add: vault_insert_def Let_def)
  qed
qed

lemma vault_redeem_inv: "vault_inv v \<Longrightarrow> vault_inv (fst (vault_redeem v t l w s now))"
  by (auto simp: vault_redeem_def vault_inv_def Let_def distinct_delete split: option.splits
      intro: order_trans [OF length_delete_le])

section \<open>Histories\<close>

datatype vault_op =
    VInsert ident token_claims nat
  | VRedeem ident ident ident ident nat
  | VPurge nat

text \<open>An accepted insertion and a successful redemption of one token.\<close>

datatype vault_outcome = Inserted | Redeemed token_claims | Refused | Purged

definition vault_step :: "token_vault \<Rightarrow> vault_op \<Rightarrow> token_vault \<times> vault_outcome" where
  "vault_step v opn =
     (case opn of
        VInsert t c now \<Rightarrow> (case vault_insert v t c now of (v', Inr u) \<Rightarrow> (v', Inserted) | (v', Inl e) \<Rightarrow> (v', Refused))
      | VRedeem t l w s now \<Rightarrow>
          (case vault_redeem v t l w s now of (v', Inr c) \<Rightarrow> (v', Redeemed c) | (v', Inl e) \<Rightarrow> (v', Refused))
      | VPurge now \<Rightarrow> (fst (vault_purge_expired v now), Purged))"

fun vault_run :: "token_vault \<Rightarrow> vault_op list \<Rightarrow> (vault_op \<times> vault_outcome) list" where
  "vault_run v [] = []"
| "vault_run v (opn # ops) = (case vault_step v opn of (v', out) \<Rightarrow> (opn, out) # vault_run v' ops)"

definition inserts_of :: "ident \<Rightarrow> (vault_op \<times> vault_outcome) list \<Rightarrow> nat" where
  "inserts_of t trace = length (filter (\<lambda>x. case x of (VInsert t' c now, Inserted) \<Rightarrow> t' = t | _ \<Rightarrow> False) trace)"

definition redeems_of :: "ident \<Rightarrow> (vault_op \<times> vault_outcome) list \<Rightarrow> nat" where
  "redeems_of t trace =
     length (filter (\<lambda>x. case x of (VRedeem t' l w s now, Redeemed c) \<Rightarrow> t' = t | _ \<Rightarrow> False) trace)"

definition held :: "ident \<Rightarrow> token_vault \<Rightarrow> nat" where
  "held t v = (if map_of (vault_entries v) t = None then 0 else 1)"

lemma map_of_filter_None: "map_of xs t = None \<Longrightarrow> map_of (filter P xs) t = None"
  by (induction xs) (auto split: if_splits)

lemma held_purge: "held t (fst (vault_purge_expired v now)) \<le> held t v"
  using map_of_filter_None [of "vault_entries v" t]
  by (auto simp: held_def vault_purge_expired_def Let_def)

lemma held_insert:
  "vault_insert v t c now = (v', Inr u) \<Longrightarrow> held t v' \<le> Suc (held t v)"
  "vault_insert v t' c now = (v', r) \<Longrightarrow> r = Inl e \<or> t' \<noteq> t \<Longrightarrow> held t v' \<le> held t v"
  using held_purge [of t v now]
  by (auto simp: vault_insert_def Let_def held_def update_conv' split: if_splits)

lemma held_redeem:
  "vault_redeem v t l w s now = (v', Inr c) \<Longrightarrow> Suc (held t v') \<le> held t v"
  "held t (fst (vault_redeem v t' l w s now)) \<le> held t v"
  by (auto simp: vault_redeem_def held_def Let_def delete_conv' split: option.splits if_splits)

lemma redeems_bounded: "redeems_of t (vault_run v ops) \<le> inserts_of t (vault_run v ops) + held t v"
proof (induction ops arbitrary: v)
  case Nil
  show ?case by (simp add: redeems_of_def inserts_of_def)
next
  case (Cons opn ops)
  obtain v' out where st: "vault_step v opn = (v', out)" by (cases "vault_step v opn")
  note ih = Cons.IH [of v']
  show ?case
  proof (cases opn)
    case (VInsert t' c now)
    obtain r where r: "vault_insert v t' c now = (v', r)" and out: "out = (case r of Inl e \<Rightarrow> Refused | Inr u \<Rightarrow> Inserted)"
      using st VInsert by (auto simp: vault_step_def split: prod.splits sum.splits)
    show ?thesis
    proof (cases "t' = t \<and> (\<exists>u. r = Inr u)")
      case True
      then have "held t v' \<le> Suc (held t v)" using held_insert(1) r by blast
      then show ?thesis using ih st VInsert out True by (auto simp: redeems_of_def inserts_of_def)
    next
      case False
      then have "held t v' \<le> held t v"
        using held_insert(2) [OF r] by (cases r) auto
      then show ?thesis using ih st VInsert out False by (cases r) (auto simp: redeems_of_def inserts_of_def)
    qed
  next
    case (VRedeem t' l w s now)
    obtain r where r: "vault_redeem v t' l w s now = (v', r)" and out: "out = (case r of Inl e \<Rightarrow> Refused | Inr c \<Rightarrow> Redeemed c)"
      using st VRedeem by (auto simp: vault_step_def split: prod.splits sum.splits)
    have "held t v' \<le> held t v" using held_redeem(2) [of t v t' l w s now] r by simp
    then show ?thesis
      using ih st VRedeem r out held_redeem(1) [of v t l w s now v']
      by (cases r; cases "t' = t") (auto simp: redeems_of_def inserts_of_def)
  next
    case (VPurge now)
    then have "held t v' \<le> held t v" using st held_purge [of t v now] by (auto simp: vault_step_def)
    then show ?thesis using ih st VPurge by (auto simp: redeems_of_def inserts_of_def vault_step_def)
  qed
qed

section \<open>Properties\<close>

text \<open>
  A data token is one-use: over every history of a new vault a token is redeemed successfully
  at most as often as it was registered, whatever redemptions are attempted in between.
\<close>

theorem token_redeemed_once:
  assumes "vault_new maximum = Ok v"
  shows "redeems_of t (vault_run v ops) \<le> inserts_of t (vault_run v ops)"
proof -
  have "held t v = 0" using assms by (auto simp: vault_new_def held_def split: if_splits)
  then show ?thesis using redeems_bounded [of t v ops] by simp
qed

definition demo_claims :: token_claims where
  "demo_claims = \<lparr>claim_lease_id = ''lease'', claim_worker_instance_id = ''rt'', claim_stream_id = ''s'',
    claim_expires_at_ms = 20\<rparr>"

theorem token_redeemed_once_witness:
  "let ops = [VInsert ''tok'' demo_claims 10, VRedeem ''tok'' ''lease'' ''rt'' ''s'' 11,
              VRedeem ''tok'' ''lease'' ''rt'' ''s'' 12];
       trace = vault_run \<lparr>vault_entries = [], vault_maximum = 4\<rparr> ops
   in redeems_of ''tok'' trace \<le> inserts_of ''tok'' trace \<and> inserts_of ''tok'' trace = 1"
proof -
  let ?v = "\<lparr>vault_entries = [], vault_maximum = 4\<rparr> :: token_vault"
  let ?ops = "[VInsert ''tok'' demo_claims 10, VRedeem ''tok'' ''lease'' ''rt'' ''s'' 11,
    VRedeem ''tok'' ''lease'' ''rt'' ''s'' 12]"
  have "vault_new 4 = Ok ?v" by (simp add: vault_new_def)
  moreover have "inserts_of ''tok'' (vault_run ?v ?ops) = 1" by code_simp
  ultimately show ?thesis using token_redeemed_once [of 4 ?v "''tok''" ?ops] by (simp add: Let_def)
qed

text \<open>
  A redemption succeeds exactly for a held token presented before its expiry with the lease,
  runtime and stream it was minted for; every attempt on a held token, successful or not, consumes
  it; and the vault never holds more than its maximum nor two entries for one token.
\<close>

theorem redeem_exact:
  assumes "vault_inv v" and "vault_redeem v token l w s now = (v', r)"
  shows "vault_inv v' \<and> map_of (vault_entries v') token = None \<and>
    (\<forall>t. t \<noteq> token \<longrightarrow> map_of (vault_entries v') t = map_of (vault_entries v) t) \<and>
    (\<forall>c. r = Ok c \<longleftrightarrow>
       map_of (vault_entries v) token = Some c \<and> now < claim_expires_at_ms c \<and> claim_lease_id c = l \<and>
       claim_worker_instance_id c = w \<and> claim_stream_id c = s)"
  using assms(2) vault_redeem_inv [OF assms(1), of token l w s now]
  by (auto simp: vault_redeem_def Let_def delete_conv' split: option.splits if_splits)

theorem redeem_exact_witness:
  "vault_redeem \<lparr>vault_entries = [(''tok'', demo_claims)], vault_maximum = 4\<rparr> ''tok'' ''other'' ''rt'' ''s'' 11
     = (\<lparr>vault_entries = [], vault_maximum = 4\<rparr>, Err ScopeMismatch) \<and>
   map_of (vault_entries (\<lparr>vault_entries = [], vault_maximum = 4\<rparr> :: token_vault)) ''tok'' = None"
proof -
  have r: "vault_redeem \<lparr>vault_entries = [(''tok'', demo_claims)], vault_maximum = 4\<rparr> ''tok'' ''other'' ''rt'' ''s'' 11
     = (\<lparr>vault_entries = [], vault_maximum = 4\<rparr>, Err ScopeMismatch)"
    by code_simp
  moreover have "vault_inv \<lparr>vault_entries = [(''tok'', demo_claims)], vault_maximum = 4\<rparr>"
    by (simp add: vault_inv_def)
  ultimately show ?thesis using redeem_exact [OF _ r] by blast
qed

end
