(* ===== verification/Output_Ring.thy ===== *)
theory Output_Ring
  imports Prelude
begin

text \<open>
  The bounded history of PTY output (\<open>crates/session-worker/src/output.rs\<close>, \<open>OutputRing\<close> and
  \<open>OutputChunk\<close>).  The state is the retained suffix of everything the PTY produced, the offset
  of its first byte and the offset after its last byte.  The lemmas relate it to the complete
  history \<open>H\<close> of pushed bytes: the ring holds the last \<open>ring_limit\<close> bytes of \<open>H\<close>, and every read
  returns the slice of \<open>H\<close> its offsets name.
\<close>

section \<open>Data\<close>

datatype ring_error =
    InvalidLimit string
  | OffsetOverflow
  | OffsetAhead nat nat
  | Closed

record output_chunk =
  chunk_offset :: nat
  chunk_bytes :: bytes

definition chunk_end :: "output_chunk \<Rightarrow> nat" where
  "chunk_end c =
     u64_saturating_add (chunk_offset c) (unwrap_or (u64_try_from (length (chunk_bytes c))) u64_max)"

record output_ring =
  ring_bytes :: bytes
  ring_limit :: nat
  ring_start_offset :: nat
  ring_next_offset :: nat

section \<open>Operations\<close>

definition ring_new :: "nat \<Rightarrow> output_ring" where
  "ring_new limit =
     \<lparr>ring_bytes = [], ring_limit = limit, ring_start_offset = 0, ring_next_offset = 0\<rparr>"

text \<open>The eviction loop of \<open>OutputRing::push\<close>: one byte leaves the front per iteration.\<close>

function ring_evict :: "output_ring \<Rightarrow> output_ring \<times> (ring_error, unit) result" where
  "ring_evict r =
     (if ring_limit r < length (ring_bytes r)
      then (let r' = r\<lparr>ring_bytes := tl (ring_bytes r)\<rparr> in
            case u64_checked_add (ring_start_offset r) 1 of
              None \<Rightarrow> (r', Err OffsetOverflow)
            | Some s \<Rightarrow> ring_evict (r'\<lparr>ring_start_offset := s\<rparr>))
      else (r, Ok ()))"
  by pat_completeness auto
termination
  by (relation "measure (\<lambda>r. length (ring_bytes r))") auto

declare ring_evict.simps [simp del]

definition ring_push :: "output_ring \<Rightarrow> bytes \<Rightarrow> output_ring \<times> (ring_error, output_chunk) result" where
  "ring_push r bs =
     (case u64_checked_add (ring_next_offset r) (unwrap_or (u64_try_from (length bs)) u64_max) of
        None \<Rightarrow> (r, Err OffsetOverflow)
      | Some nxt \<Rightarrow>
          (let chunk = \<lparr>chunk_offset = ring_next_offset r, chunk_bytes = bs\<rparr>;
               r1 = r\<lparr>ring_bytes := ring_bytes r @ bs, ring_next_offset := nxt\<rparr>
           in case ring_evict r1 of
                (r2, Inl e) \<Rightarrow> (r2, Err e)
              | (r2, Inr u) \<Rightarrow> (r2, Ok chunk)))"

definition ring_bytes_from :: "output_ring \<Rightarrow> nat \<Rightarrow> bytes" where
  "ring_bytes_from r off =
     drop (unwrap_or (u64_try_from (off - ring_start_offset r)) (length (ring_bytes r))) (ring_bytes r)"

definition ring_bytes_from_limited :: "output_ring \<Rightarrow> nat \<Rightarrow> nat \<Rightarrow> bytes" where
  "ring_bytes_from_limited r off limit =
     take limit
       (drop (unwrap_or (u64_try_from (off - ring_start_offset r)) (length (ring_bytes r)))
          (ring_bytes r))"

definition ring_chunk :: "output_ring \<Rightarrow> nat \<Rightarrow> nat \<Rightarrow> nat \<Rightarrow> output_chunk option" where
  "ring_chunk r off fin limit =
     (if off < ring_start_offset r \<or> fin \<le> off \<or> ring_next_offset r < fin then None
      else case Option.bind (u64_checked_sub off (ring_start_offset r)) u64_try_from of
             None \<Rightarrow> None
           | Some relative \<Rightarrow>
               (case Option.bind (u64_checked_sub fin off) u64_try_from of
                  None \<Rightarrow> None
                | Some remaining \<Rightarrow>
                    Some \<lparr>chunk_offset = off,
                          chunk_bytes = take (min remaining limit) (drop relative (ring_bytes r))\<rparr>))"

section \<open>The ring holds the last bytes of the history\<close>

definition ring_inv :: "bytes \<Rightarrow> output_ring \<Rightarrow> bool" where
  "ring_inv H r \<longleftrightarrow>
     length H \<le> u64_max \<and> ring_next_offset r = length H \<and>
     ring_start_offset r = length H - ring_limit r \<and>
     ring_bytes r = drop (ring_start_offset r) H"

lemma ring_inv_new [simp, intro]: "ring_inv [] (ring_new limit)"
  by (simp add: ring_inv_def ring_new_def)

lemma ring_inv_start_le: "ring_inv H r \<Longrightarrow> ring_start_offset r \<le> length H"
  by (simp add: ring_inv_def)

lemma ring_inv_next: "ring_inv H r \<Longrightarrow> ring_next_offset r = length H"
  by (simp add: ring_inv_def)

lemma ring_inv_width: "ring_inv H r \<Longrightarrow> length H \<le> u64_max"
  by (simp add: ring_inv_def)

lemma ring_inv_bound: "ring_inv H r \<Longrightarrow> length (ring_bytes r) \<le> ring_limit r"
  by (simp add: ring_inv_def)

text \<open>The loop drops exactly the surplus, and its overflow branch is dead for in-range offsets.\<close>

lemma ring_evict_drops:
  assumes "ring_start_offset r + length (ring_bytes r) \<le> u64_max"
  shows "ring_evict r =
    (r\<lparr>ring_bytes := drop (length (ring_bytes r) - ring_limit r) (ring_bytes r),
       ring_start_offset := ring_start_offset r + (length (ring_bytes r) - ring_limit r)\<rparr>, Ok ())"
  using assms
proof (induction r rule: ring_evict.induct)
  case (1 r)
  show ?case
  proof (cases "ring_limit r < length (ring_bytes r)")
    case False
    then show ?thesis by (simp add: ring_evict.simps [of r])
  next
    case True
    then obtain b bs where bs: "ring_bytes r = b # bs"
      by (cases "ring_bytes r") auto
    let ?s = "ring_start_offset r + 1"
    let ?r = "r\<lparr>ring_bytes := bs, ring_start_offset := ?s\<rparr>"
    from "1.prems" bs have s: "u64_checked_add (ring_start_offset r) 1 = Some ?s"
      by simp
    have "ring_evict ?r =
      (?r\<lparr>ring_bytes := drop (length bs - ring_limit r) bs,
          ring_start_offset := ?s + (length bs - ring_limit r)\<rparr>, Ok ())"
      using "1.IH" [OF True refl s] "1.prems" bs by simp
    moreover have "ring_evict r = ring_evict ?r"
      using True s bs by (simp add: ring_evict.simps [of r])
    moreover have "length (ring_bytes r) - ring_limit r = Suc (length bs - ring_limit r)"
      using True bs by simp
    ultimately show ?thesis using bs by simp
  qed
qed

lemma ring_push_overflow:
  assumes "ring_inv H r" and "u64_max < length H + length bs" and "length bs \<le> u64_max"
  shows "ring_push r bs = (r, Err OffsetOverflow)"
  using assms by (simp add: ring_push_def ring_inv_def)

lemma ring_push_ok:
  assumes inv: "ring_inv H r" and fits: "length H + length bs \<le> u64_max"
  shows "\<exists>r'. ring_push r bs = (r', Ok \<lparr>chunk_offset = length H, chunk_bytes = bs\<rparr>) \<and>
              ring_inv (H @ bs) r' \<and> ring_limit r' = ring_limit r"
proof -
  let ?r1 = "r\<lparr>ring_bytes := ring_bytes r @ bs, ring_next_offset := length H + length bs\<rparr>"
  from inv have st: "ring_start_offset r \<le> length H"
    and bytes: "ring_bytes r = drop (ring_start_offset r) H"
    and nxt: "ring_next_offset r = length H"
    and start: "ring_start_offset r = length H - ring_limit r"
    by (simp_all add: ring_inv_def)
  have fit1: "ring_start_offset ?r1 + length (ring_bytes ?r1) \<le> u64_max"
    using st bytes fits by simp
  let ?k = "length (ring_bytes r @ bs) - ring_limit r"
  let ?r2 = "?r1\<lparr>ring_bytes := drop ?k (ring_bytes r @ bs),
                 ring_start_offset := ring_start_offset r + ?k\<rparr>"
  have ev: "ring_evict ?r1 = (?r2, Ok ())"
    using ring_evict_drops [OF fit1] by simp
  have joined: "ring_bytes r @ bs = drop (ring_start_offset r) (H @ bs)"
    using st bytes by simp
  have start2: "ring_start_offset r + ?k = length (H @ bs) - ring_limit r"
    using st start bytes by simp
  have "drop ?k (ring_bytes r @ bs) = drop (ring_start_offset r + ?k) (H @ bs)"
    unfolding joined by (simp only: drop_drop add.commute)
  then have "ring_inv (H @ bs) ?r2"
    unfolding ring_inv_def using fits start2 by simp
  moreover have "ring_push r bs = (?r2, Ok \<lparr>chunk_offset = length H, chunk_bytes = bs\<rparr>)"
    using nxt fits ev by (simp add: ring_push_def)
  ultimately show ?thesis by simp
qed

lemma ring_bytes_from_slice:
  assumes "ring_inv H r" and "ring_start_offset r \<le> off" and "off \<le> length H"
  shows "ring_bytes_from r off = drop off H"
proof -
  have "off - ring_start_offset r \<le> u64_max"
    using ring_inv_width [OF assms(1)] assms(3) by linarith
  then show ?thesis using assms by (simp add: ring_bytes_from_def ring_inv_def)
qed

lemma ring_bytes_from_limited_slice:
  assumes "ring_inv H r" and "ring_start_offset r \<le> off" and "off \<le> length H"
  shows "ring_bytes_from_limited r off limit = slice H off (off + limit)"
proof -
  have "off - ring_start_offset r \<le> u64_max"
    using ring_inv_width [OF assms(1)] assms(3) by linarith
  then show ?thesis using assms
    by (simp add: ring_bytes_from_limited_def ring_inv_def slice_def)
qed

lemma ring_chunk_slice:
  assumes inv: "ring_inv H r" and lo: "ring_start_offset r \<le> off" and "off < fin" and "fin \<le> length H"
  shows "ring_chunk r off fin limit =
    Some \<lparr>chunk_offset = off, chunk_bytes = slice H off (min fin (off + limit))\<rparr>"
proof -
  have "off - ring_start_offset r \<le> u64_max" and "fin - off \<le> u64_max"
    using ring_inv_width [OF inv] assms(3,4) by linarith+
  moreover have "min fin (off + limit) - off = min (fin - off) limit"
    using \<open>off < fin\<close> by simp
  ultimately show ?thesis using assms
    by (simp add: ring_chunk_def ring_inv_def slice_def u64_checked_sub_def)
qed

lemma ring_chunk_evicted:
  "off < ring_start_offset r \<Longrightarrow> ring_chunk r off fin limit = None"
  by (simp add: ring_chunk_def)

lemma chunk_end_slice:
  "off + length bs \<le> u64_max \<Longrightarrow> chunk_end \<lparr>chunk_offset = off, chunk_bytes = bs\<rparr> = off + length bs"
  by (simp add: chunk_end_def)

section \<open>Reading a retained log in pages\<close>

text \<open>
  The contract a paging reader relies on: a state that represents a history, the first offset
  still readable, and a bounded read.  Whatever provides it, reading page after page from any
  readable offset returns exactly the rest of the history, and needs no more than one page per
  remaining element.
\<close>

primrec read_pages :: "('s \<Rightarrow> nat \<Rightarrow> nat \<Rightarrow> 'a list) \<Rightarrow> nat \<Rightarrow> 's \<Rightarrow> nat \<Rightarrow> nat \<Rightarrow> 'a list" where
  "read_pages page 0 s off m = []"
| "read_pages page (Suc k) s off m =
     (let p = page s off m in if p = [] then [] else p @ read_pages page k s (off + length p) m)"

locale paged_log =
  fixes represents :: "'a list \<Rightarrow> 's \<Rightarrow> bool"
    and first_offset :: "'s \<Rightarrow> nat"
    and page :: "'s \<Rightarrow> nat \<Rightarrow> nat \<Rightarrow> 'a list"
  assumes page_exact:
    "represents H s \<Longrightarrow> first_offset s \<le> off \<Longrightarrow> off \<le> length H \<Longrightarrow> 0 < m \<Longrightarrow>
       page s off m = slice H off (off + m)"
begin

lemma page_bounded:
  assumes "represents H s" and "first_offset s \<le> off" and "off \<le> length H" and "0 < m"
  shows "length (page s off m) \<le> m"
  using assms by (simp add: page_exact slice_def)

lemma read_pages_rest:
  assumes "represents H s" and "first_offset s \<le> off" and "off \<le> length H" and "0 < m"
    and "length H - off \<le> k"
  shows "read_pages page k s off m = drop off H"
  using assms
proof (induction k arbitrary: off)
  case 0
  then show ?case by simp
next
  case (Suc k)
  have p: "page s off m = slice H off (off + m)"
    using Suc.prems by (simp add: page_exact)
  show ?case
  proof (cases "off = length H")
    case True
    with p show ?thesis by (simp add: slice_def)
  next
    case False
    with Suc.prems have lt: "off < length H" by simp
    then have ne: "page s off m \<noteq> []"
      using p \<open>0 < m\<close> by (simp add: slice_def)
    have len: "length (page s off m) = min m (length H - off)"
      by (simp add: p slice_def)
    have "read_pages page k s (off + length (page s off m)) m = drop (off + length (page s off m)) H"
      using Suc.prems lt len by (intro Suc.IH) auto
    moreover have "page s off m @ drop (off + length (page s off m)) H = drop off H"
      unfolding p by (simp add: slice_def)
        (metis add.commute append_take_drop_id drop_all drop_drop length_drop linorder_le_cases min.absorb1 min.absorb2 take_all)
    ultimately show ?thesis using ne by (simp add: Let_def)
  qed
qed

end

interpretation ring_log: paged_log ring_inv ring_start_offset ring_bytes_from_limited
  by unfold_locales (rule ring_bytes_from_limited_slice)

end
