(* ===== verification/Program_Status.thy ===== *)
theory Program_Status
  imports Rust_Text
begin

text \<open>
  OSC 7501 program status (\<open>crates/terminal/src/program_status.rs\<close>): the record grammar, the
  guard that decides which feature probes the worker answers, and the filter that removes an
  attached terminal's own probe replies from its input.  The base64 engine is a third-party
  crate: its decoder is the parameter \<open>b64\<close>.
\<close>

section \<open>Data\<close>

definition PROGRAM_STATUS_COMMAND :: bytes where "PROGRAM_STATUS_COMMAND = ''7501''"

definition PROBE_PREFIX :: bytes where "PROBE_PREFIX = ESC # '']7501;?''"

definition PROBE_REPLY :: bytes where "PROBE_REPLY = ESC # '']7501;?'' @ [ESC, BACKSLASH]"

definition MAX_KEY_BYTES :: nat where "MAX_KEY_BYTES = 16"
definition MAX_MESSAGE_BYTES :: nat where "MAX_MESSAGE_BYTES = 2048"
definition MAX_TITLE_BYTES :: nat where "MAX_TITLE_BYTES = 192"
definition MAX_APP_BYTES :: nat where "MAX_APP_BYTES = 32"
definition MAX_REPLY_BYTES :: nat where "MAX_REPLY_BYTES = 4096"

datatype blocked_kind = Permission | Question | Auth

fun blocked_kind_as_str :: "blocked_kind \<Rightarrow> bytes" where
  "blocked_kind_as_str Permission = ''permission''"
| "blocked_kind_as_str Question = ''question''"
| "blocked_kind_as_str Auth = ''auth''"

datatype program_state = PsWorking | PsBlocked "blocked_kind option" | PsDone | PsIdle | PsError

fun program_state_as_str :: "program_state \<Rightarrow> bytes" where
  "program_state_as_str PsWorking = ''working''"
| "program_state_as_str (PsBlocked _) = ''blocked''"
| "program_state_as_str PsDone = ''done''"
| "program_state_as_str PsIdle = ''idle''"
| "program_state_as_str PsError = ''error''"

record program_status_record =
  status_app :: "bytes option"
  status_state :: program_state

definition canonical :: "program_status_record \<Rightarrow> bytes" where
  "canonical r =
     (let txt = ''app='' @ unwrap_or (status_app r) [] @ '':state='' @ program_state_as_str (status_state r)
      in case status_state r of
           PsBlocked (Some kind) \<Rightarrow> txt @ '':kind='' @ blocked_kind_as_str kind
         | _ \<Rightarrow> txt)"

datatype program_status_report =
    Probe
  | StatusRecord program_status_record
  | StatusClear
  | StatusChild

section \<open>Parsing a report\<close>

definition is_app_byte :: "byte \<Rightarrow> bool" where
  "is_app_byte b \<longleftrightarrow> is_ascii_alphanumeric b \<or> b \<in> {CHR ''_'', CHR ''.'', CHR ''+'', CHR ''-''}"

definition is_valid_app :: "bytes \<Rightarrow> bool" where
  "is_valid_app v \<longleftrightarrow> v \<noteq> [] \<and> length v \<le> MAX_APP_BYTES \<and> list_all is_app_byte v"

definition validate_text :: "(bytes \<Rightarrow> bytes option) \<Rightarrow> bytes \<Rightarrow> nat \<Rightarrow> unit option" where
  "validate_text b64 encoded limit =
     (case b64 encoded of
        None \<Rightarrow> None
      | Some decoded \<Rightarrow>
          if limit < length decoded then None
          else (case from_utf8 decoded of
                  None \<Rightarrow> None
                | Some txt \<Rightarrow> if has_control txt then None else Some ()))"

text \<open>The mutable variables of the parse loop.\<close>

record status_acc =
  acc_state :: "program_state option"
  acc_clear :: bool
  acc_app :: "bytes option"
  acc_kind :: "blocked_kind option"
  acc_child :: bool

definition status_acc_init :: status_acc where
  "status_acc_init =
     \<lparr>acc_state = None, acc_clear = False, acc_app = None, acc_kind = None, acc_child = False\<rparr>"

definition parse_state_value :: "bytes \<Rightarrow> program_state option" where
  "parse_state_value v =
     (if v = ''working'' then Some PsWorking
      else if v = ''blocked'' then Some (PsBlocked None)
      else if v = ''done'' then Some PsDone
      else if v = ''idle'' then Some PsIdle
      else if v = ''error'' then Some PsError
      else None)"

definition parse_kind_value :: "bytes \<Rightarrow> blocked_kind option" where
  "parse_kind_value v =
     (if v = ''permission'' then Some Permission
      else if v = ''question'' then Some Question
      else if v = ''auth'' then Some Auth
      else None)"

text \<open>One iteration of the loop over the pairs; \<open>None\<close> discards the whole report.\<close>

definition parse_pair :: "(bytes \<Rightarrow> bytes option) \<Rightarrow> bytes \<Rightarrow> status_acc \<Rightarrow> status_acc option" where
  "parse_pair b64 pair a =
     (case split_once (CHR ''='') pair of
        None \<Rightarrow> Some a
      | Some (key, v) \<Rightarrow>
          if key = [] then Some a
          else if MAX_KEY_BYTES < length key then None
          else if key = ''state'' then
            (if v = ''clear'' then Some (a\<lparr>acc_clear := True, acc_state := None\<rparr>)
             else (case parse_state_value v of
                     None \<Rightarrow> None
                   | Some s \<Rightarrow> Some (a\<lparr>acc_state := Some s, acc_clear := False\<rparr>)))
          else if key = ''app'' then Some (a\<lparr>acc_app := (if is_valid_app v then Some v else None)\<rparr>)
          else if key = ''kind'' then Some (a\<lparr>acc_kind := parse_kind_value v\<rparr>)
          else if key = ''id'' then Some (a\<lparr>acc_child := True\<rparr>)
          else if key = ''msg'' then map_option (\<lambda>_. a) (validate_text b64 v MAX_MESSAGE_BYTES)
          else if key = ''title'' then map_option (\<lambda>_. a) (validate_text b64 v MAX_TITLE_BYTES)
          else Some a)"

fun parse_pairs :: "(bytes \<Rightarrow> bytes option) \<Rightarrow> bytes list \<Rightarrow> status_acc \<Rightarrow> status_acc option" where
  "parse_pairs b64 [] a = Some a"
| "parse_pairs b64 (p # ps) a =
     (case parse_pair b64 p a of None \<Rightarrow> None | Some a' \<Rightarrow> parse_pairs b64 ps a')"

definition finish_report :: "status_acc \<Rightarrow> program_status_report option" where
  "finish_report a =
     (if \<not> acc_clear a \<and> acc_state a = None then None
      else if acc_child a then Some StatusChild
      else if acc_clear a then Some StatusClear
      else (case acc_state a of
              None \<Rightarrow> None
            | Some s \<Rightarrow>
                Some (StatusRecord
                  \<lparr>status_app = acc_app a,
                   status_state = (case s of PsBlocked _ \<Rightarrow> PsBlocked (acc_kind a) | _ \<Rightarrow> s)\<rparr>)))"

definition parse_payload :: "(bytes \<Rightarrow> bytes option) \<Rightarrow> bytes \<Rightarrow> program_status_report option" where
  "parse_payload b64 payload =
     (if payload \<noteq> [] \<and> hd payload = CHR ''?'' then Some Probe
      else (case from_utf8 payload of
              None \<Rightarrow> None
            | Some txt \<Rightarrow>
                Option.bind (parse_pairs b64 (split_on (CHR '':'') txt) status_acc_init) finish_report))"

section \<open>Answering probes\<close>

record probe_span =
  span_start :: nat
  span_end :: nat

record probe_guard =
  guard_last_end :: "nat option"
  guard_suppress :: bool

definition probe_guard_default :: probe_guard where
  "probe_guard_default = \<lparr>guard_last_end = None, guard_suppress = False\<rparr>"

definition admit :: "probe_guard \<Rightarrow> probe_span \<Rightarrow> probe_guard \<times> bool" where
  "admit g span =
     (let g1 = (if guard_last_end g \<noteq> Some (span_start span) then g\<lparr>guard_suppress := False\<rparr> else g);
          g2 = g1\<lparr>guard_last_end := Some (span_end span)\<rparr>
      in if guard_suppress g2 then (g2, False) else (g2\<lparr>guard_suppress := True\<rparr>, True))"

section \<open>Removing probe replies from attach input\<close>

text \<open>The loop of \<open>reply_length\<close> from position \<open>i\<close> on.\<close>

function reply_length_from :: "bytes \<Rightarrow> nat \<Rightarrow> nat \<Rightarrow> nat option" where
  "reply_length_from bs limit i =
     (if i < limit
      then (if bs ! i = BEL then Some (i + 1)
            else if bs ! i = ESC
                 then (if i + 1 < length bs \<and> bs ! (i + 1) = BACKSLASH then Some (i + 2) else None)
            else reply_length_from bs limit (i + 1))
      else None)"
  by pat_completeness auto
termination
  by (relation "measure (\<lambda>(bs, limit, i). limit - i)") auto

declare reply_length_from.simps [simp del]

definition reply_length :: "bytes \<Rightarrow> nat option" where
  "reply_length bs =
     reply_length_from bs (min (length bs) MAX_REPLY_BYTES) (length PROBE_PREFIX)"

lemma reply_length_from_pos: "reply_length_from bs limit i = Some n \<Longrightarrow> i < n"
proof (induction bs limit i rule: reply_length_from.induct)
  case (1 bs limit i)
  then show ?case
    by (auto simp: reply_length_from.simps [of bs limit i] split: if_splits)
qed

lemma reply_length_pos: "reply_length bs = Some n \<Longrightarrow> 0 < n"
  by (auto simp: reply_length_def dest: reply_length_from_pos)

text \<open>
  The scanning loop of \<open>strip_probe_replies\<close>: \<open>index\<close> is the position examined, \<open>copied\<close> the end of
  the last reply removed, and \<open>stripped\<close> the kept bytes once a reply was found.
\<close>

function strip_loop :: "bytes \<Rightarrow> nat \<Rightarrow> nat \<Rightarrow> bytes option \<Rightarrow> bytes option \<times> nat" where
  "strip_loop input index copied stripped =
     (if index < length input
      then (case (if input ! index = ESC \<and> prefix PROBE_PREFIX (drop index input)
                  then reply_length (drop index input) else None) of
              Some len \<Rightarrow>
                strip_loop input (index + len) (index + len)
                  (Some (unwrap_or stripped [] @ slice input copied index))
            | None \<Rightarrow> strip_loop input (index + 1) copied stripped)
      else (stripped, copied))"
  by pat_completeness auto
termination
  by (relation "measure (\<lambda>(input, index, copied, stripped). length input - index)")
     (auto split: if_splits dest: reply_length_pos)

declare strip_loop.simps [simp del]

definition strip_probe_replies :: "bytes \<Rightarrow> bytes" where
  "strip_probe_replies input =
     (case strip_loop input 0 0 None of
        (None, _) \<Rightarrow> input
      | (Some kept, copied) \<Rightarrow> kept @ drop copied input)"

section \<open>What a record prints parses back\<close>

lemma is_app_byte_ascii: "is_app_byte b \<Longrightarrow> is_ascii b \<and> b \<noteq> CHR '':'' \<and> b \<noteq> CHR ''?''"
  by (auto simp: is_app_byte_def is_ascii_def byte_class_defs)

lemma is_valid_app_bytes:
  "is_valid_app v \<Longrightarrow> (\<forall>b \<in> set v. is_ascii b) \<and> CHR '':'' \<notin> set v"
  by (auto simp: is_valid_app_def list_all_iff dest!: is_app_byte_ascii)

definition app_ok :: "bytes option \<Rightarrow> bool" where
  "app_ok a \<longleftrightarrow> (case a of None \<Rightarrow> True | Some v \<Rightarrow> is_valid_app v)"

lemma app_ok_bytes:
  "app_ok a \<Longrightarrow> (\<forall>b \<in> set (unwrap_or a []). is_ascii b) \<and> CHR '':'' \<notin> set (unwrap_or a [])"
  by (auto simp: app_ok_def split: option.splits dest!: is_valid_app_bytes)

lemma split_once_literal:
  "split_once (CHR ''='') (''app='' @ v) = Some (''app'', v)"
  "split_once (CHR ''='') (''state='' @ v) = Some (''state'', v)"
  "split_once (CHR ''='') (''kind='' @ v) = Some (''kind'', v)"
  by (simp_all add: split_once_def)

lemma state_str_roundtrip:
  "parse_state_value (program_state_as_str s) =
     Some (case s of PsBlocked _ \<Rightarrow> PsBlocked None | _ \<Rightarrow> s)"
  "program_state_as_str s \<noteq> ''clear''"
  by (cases s; simp add: parse_state_value_def)+

lemma kind_str_roundtrip: "parse_kind_value (blocked_kind_as_str k) = Some k"
  by (cases k) (simp_all add: parse_kind_value_def)

lemma str_bytes_plain:
  "CHR '':'' \<notin> set (program_state_as_str s) \<and> (\<forall>b \<in> set (program_state_as_str s). is_ascii b)"
  "CHR '':'' \<notin> set (blocked_kind_as_str k) \<and> (\<forall>b \<in> set (blocked_kind_as_str k). is_ascii b)"
  by (cases s; simp add: is_ascii_def) (cases k; simp add: is_ascii_def)

text \<open>The pairs of a printed record, as the parser's split sees them.\<close>

definition app_pair :: "bytes option \<Rightarrow> bytes" where
  "app_pair app = ''app='' @ unwrap_or app []"

definition state_pair :: "program_state \<Rightarrow> bytes" where
  "state_pair s = ''state='' @ program_state_as_str s"

definition kind_pairs :: "program_state \<Rightarrow> bytes list" where
  "kind_pairs s = (case s of PsBlocked (Some k) \<Rightarrow> [''kind='' @ blocked_kind_as_str k] | _ \<Rightarrow> [])"

lemma parse_pair_app:
  "app_ok app \<Longrightarrow> parse_pair b64 (app_pair app) a = Some (a\<lparr>acc_app := app\<rparr>)"
  by (cases app)
     (simp_all only: app_pair_def parse_pair_def split_once_literal option.case prod.case
        unwrap_or_simps,
      simp_all add: app_ok_def is_valid_app_def MAX_KEY_BYTES_def)

lemma parse_pair_state:
  "parse_pair b64 (state_pair s) a =
     Some (a\<lparr>acc_state := Some (case s of PsBlocked _ \<Rightarrow> PsBlocked None | _ \<Rightarrow> s), acc_clear := False\<rparr>)"
  by (simp only: state_pair_def parse_pair_def split_once_literal option.case prod.case)
     (simp add: MAX_KEY_BYTES_def state_str_roundtrip)

lemma parse_pair_kind:
  "parse_pair b64 (''kind='' @ blocked_kind_as_str k) a = Some (a\<lparr>acc_kind := Some k\<rparr>)"
  by (simp only: parse_pair_def split_once_literal option.case prod.case)
     (simp add: MAX_KEY_BYTES_def kind_str_roundtrip)

lemma parse_kind_pairs:
  "acc_kind a = None \<Longrightarrow>
   parse_pairs b64 (kind_pairs s) a = Some (a\<lparr>acc_kind := (case s of PsBlocked k \<Rightarrow> k | _ \<Rightarrow> None)\<rparr>)"
  using parse_pair_kind [of b64 _ a]
  by (auto simp: kind_pairs_def split: program_state.splits option.splits)

lemma finish_printed_record:
  assumes "app_ok (status_app r)"
  shows "Option.bind
      (parse_pairs b64 (app_pair (status_app r) # state_pair (status_state r) # kind_pairs (status_state r))
         status_acc_init) finish_report = Some (StatusRecord r)"
  using assms
  by (cases r; cases "status_state r")
     (simp_all add: parse_pair_app parse_pair_state parse_kind_pairs finish_report_def status_acc_init_def)

lemma split_canonical:
  assumes "app_ok (status_app r)"
  shows "split_on (CHR '':'') (canonical r) =
    app_pair (status_app r) # state_pair (status_state r) # kind_pairs (status_state r)"
proof -
  let ?a = "app_pair (status_app r)" and ?s = "state_pair (status_state r)"
  have a: "CHR '':'' \<notin> set ?a" using app_ok_bytes [OF assms] by (simp add: app_pair_def)
  have s: "CHR '':'' \<notin> set ?s"
    using str_bytes_plain(1) [of "status_state r"] by (simp add: state_pair_def)
  show ?thesis
  proof (cases "\<exists>k. status_state r = PsBlocked (Some k)")
    case True
    then obtain k where k: "status_state r = PsBlocked (Some k)" by blast
    let ?k = "''kind='' @ blocked_kind_as_str k"
    have kk: "CHR '':'' \<notin> set ?k" using str_bytes_plain(2) [of k] by simp
    have "canonical r = ?a @ CHR '':'' # (?s @ CHR '':'' # ?k)"
      by (simp add: canonical_def Let_def k app_pair_def state_pair_def)
    then show ?thesis
      using split_on_append [OF a] split_on_append [OF s] split_on_plain [OF kk]
      by (simp add: kind_pairs_def k)
  next
    case False
    then have "canonical r = ?a @ CHR '':'' # ?s" and "kind_pairs (status_state r) = []"
      by (auto simp: canonical_def kind_pairs_def app_pair_def state_pair_def Let_def
          split: program_state.splits option.splits)
    then show ?thesis using split_on_append [OF a] split_on_plain [OF s] by simp
  qed
qed

lemma canonical_ascii:
  assumes "app_ok (status_app r)"
  shows "\<forall>b \<in> set (canonical r). is_ascii b"
proof -
  have "\<forall>b \<in> set ''app=:state=:kind=''. is_ascii b" by (simp add: is_ascii_def)
  moreover have "set (canonical r) \<subseteq> set ''app=:state=:kind='' \<union> set (unwrap_or (status_app r) [])
      \<union> set (program_state_as_str (status_state r)) \<union> (\<Union>k. set (blocked_kind_as_str k))"
    by (auto simp: canonical_def Let_def split: program_state.splits option.splits)
  ultimately show ?thesis
    using app_ok_bytes [OF assms] str_bytes_plain by blast
qed

text \<open>
  C37.  The report grammar reads back what \<open>ProgramStatusRecord::canonical\<close> prints: for every record
  whose app name is absent or legal, parsing the printed text yields exactly that record,
  whatever the base64 decoder does.
\<close>

theorem canonical_roundtrip:
  assumes "app_ok (status_app r)"
  shows "parse_payload b64 (canonical r) = Some (StatusRecord r)"
proof -
  have not_probe: "\<not> (canonical r \<noteq> [] \<and> hd (canonical r) = CHR ''?'')"
    by (simp add: canonical_def Let_def split: program_state.splits option.splits)
  have utf8: "from_utf8 (canonical r) = Some (canonical r)"
    using is_utf8_ascii [OF canonical_ascii [OF assms]] by (simp add: from_utf8_def)
  show ?thesis
    unfolding parse_payload_def using not_probe
    by (simp add: utf8 split_canonical [OF assms] del: parse_pairs.simps)
       (rule finish_printed_record [OF assms])
qed

theorem canonical_roundtrip_witness:
  "app_ok (Some ''claude'') \<and>
   parse_payload (\<lambda>_. None) (canonical \<lparr>status_app = Some ''claude'',
       status_state = PsBlocked (Some Question)\<rparr>) =
     Some (StatusRecord \<lparr>status_app = Some ''claude'', status_state = PsBlocked (Some Question)\<rparr>)"
proof -
  have ok: "app_ok (Some ''claude'')"
    by (simp add: app_ok_def is_valid_app_def MAX_APP_BYTES_def is_app_byte_def byte_class_defs)
  then show ?thesis
    using canonical_roundtrip [of "\<lparr>status_app = Some ''claude'',
      status_state = PsBlocked (Some Question)\<rparr>" "\<lambda>_. None"] by simp
qed

section \<open>Which probes are answered\<close>

fun admit_all :: "probe_guard \<Rightarrow> probe_span list \<Rightarrow> bool list" where
  "admit_all g [] = []"
| "admit_all g (s # ss) = (case admit g s of (g', ans) \<Rightarrow> ans # admit_all g' ss)"

text \<open>
  The specification of the guard: a probe is answered when it does not start where the previous
  probe ended, so of a gapless run of probes only the first one is.
\<close>

fun answered_spec :: "nat option \<Rightarrow> probe_span list \<Rightarrow> bool list" where
  "answered_spec prev [] = []"
| "answered_spec prev (s # ss) = (prev \<noteq> Some (span_start s)) # answered_spec (Some (span_end s)) ss"

lemma admit_all_suppressed:
  "guard_suppress g \<Longrightarrow> admit_all g ss = answered_spec (guard_last_end g) ss"
proof (induction ss arbitrary: g)
  case (Cons s ss)
  let ?g = "fst (admit g s)"
  have g: "guard_suppress ?g" "guard_last_end ?g = Some (span_end s)"
    and ans: "snd (admit g s) = (guard_last_end g \<noteq> Some (span_start s))"
    using Cons.prems by (auto simp: admit_def Let_def)
  from Cons.IH [OF g(1)] g(2) ans show ?case
    by (simp add: case_prod_beta)
qed simp

lemma admit_all_exact: "admit_all probe_guard_default ss = answered_spec None ss"
proof (cases ss)
  case (Cons s rest)
  let ?g = "\<lparr>guard_last_end = Some (span_end s), guard_suppress = True\<rparr>"
  have "admit probe_guard_default s = (?g, True)"
    by (simp add: admit_def probe_guard_default_def Let_def)
  then show ?thesis using admit_all_suppressed [of ?g rest] Cons by simp
qed simp

lemma answered_spec_nth:
  "i < length ss \<Longrightarrow> answered_spec prev ss ! i =
     (if i = 0 then prev \<noteq> Some (span_start (ss ! 0)) else span_end (ss ! (i - 1)) \<noteq> span_start (ss ! i))"
proof (induction ss arbitrary: prev i)
  case (Cons s ss)
  then show ?case by (cases i) (auto simp: nth_Cons')
qed simp

text \<open>
  The probe guard cannot be driven into a loop by a program that echoes its input: over any
  sequence of probes seen by a fresh guard, the first is answered and every later one is answered
  exactly when some other output byte separates it from the probe before it.
\<close>

theorem probe_guard_answers:
  assumes "i < length spans"
  shows "admit_all probe_guard_default spans ! i \<longleftrightarrow>
    (i = 0 \<or> span_end (spans ! (i - 1)) \<noteq> span_start (spans ! i))"
  using assms by (simp add: admit_all_exact answered_spec_nth)

theorem probe_guard_answers_witness:
  "(2::nat) < length [\<lparr>span_start = 0, span_end = 10\<rparr>, \<lparr>span_start = 10, span_end = 20\<rparr>,
      \<lparr>span_start = 20, span_end = 30\<rparr>] \<and>
   \<not> admit_all probe_guard_default [\<lparr>span_start = 0, span_end = 10\<rparr>, \<lparr>span_start = 10, span_end = 20\<rparr>,
      \<lparr>span_start = 20, span_end = 30\<rparr>] ! 2"
  using probe_guard_answers [of 2 "[\<lparr>span_start = 0, span_end = 10\<rparr>, \<lparr>span_start = 10, span_end = 20\<rparr>,
      \<lparr>span_start = 20, span_end = 30\<rparr>]"] by simp

section \<open>The input filter\<close>

text \<open>A reference definition of the filter, by recursion on the frame.\<close>

definition reply_at :: "bytes \<Rightarrow> nat option" where
  "reply_at bs = (if bs \<noteq> [] \<and> hd bs = ESC \<and> prefix PROBE_PREFIX bs then reply_length bs else None)"

lemma reply_at_pos: "reply_at bs = Some n \<Longrightarrow> 0 < n"
  by (auto simp: reply_at_def split: if_splits dest: reply_length_pos)

function strip_ref :: "bytes \<Rightarrow> bytes" where
  "strip_ref [] = []"
| "strip_ref (b # bs) =
     (case reply_at (b # bs) of Some n \<Rightarrow> strip_ref (drop n (b # bs)) | None \<Rightarrow> b # strip_ref bs)"
  by pat_completeness auto
termination
  by (relation "measure length") (auto dest: reply_at_pos)

lemma reply_length_from_le:
  "limit \<le> length bs \<Longrightarrow> reply_length_from bs limit i = Some n \<Longrightarrow> n \<le> length bs"
proof (induction bs limit i rule: reply_length_from.induct)
  case (1 bs limit i)
  then show ?case
    by (auto simp: reply_length_from.simps [of bs limit i] split: if_splits)
qed

lemma reply_at_le: "reply_at bs = Some n \<Longrightarrow> n \<le> length bs"
  by (auto simp: reply_at_def reply_length_def split: if_splits dest: reply_length_from_le [rotated])

lemma strip_loop_step:
  "index < length input \<Longrightarrow>
   strip_loop input index copied stripped =
     (case reply_at (drop index input) of
        Some len \<Rightarrow> strip_loop input (index + len) (index + len)
                      (Some (unwrap_or stripped [] @ slice input copied index))
      | None \<Rightarrow> strip_loop input (index + 1) copied stripped)"
  by (subst strip_loop.simps) (simp add: reply_at_def hd_drop_conv_nth)

lemma strip_loop_ref:
  assumes "index \<le> length input" and "copied \<le> index" and "stripped = None \<Longrightarrow> copied = 0"
  shows "(case strip_loop input index copied stripped of
            (None, c) \<Rightarrow> input | (Some kept, c) \<Rightarrow> kept @ drop c input) =
         unwrap_or stripped [] @ slice input copied index @ strip_ref (drop index input)"
  using assms
proof (induction input index copied stripped rule: strip_loop.induct)
  case (1 input index copied stripped)
  show ?case
  proof (cases "index < length input")
    case False
    with "1.prems" have "index = length input" by simp
    with "1.prems" show ?thesis
      by (cases stripped) (simp_all add: strip_loop.simps [of input "length input"] slice_to_end)
  next
    case True
    then obtain b bs where d: "drop index input = b # bs"
      by (metis Cons_nth_drop_Suc)
    have at: "(if input ! index = ESC \<and> prefix PROBE_PREFIX (drop index input)
        then reply_length (drop index input) else None) = reply_at (drop index input)"
      using True by (simp add: reply_at_def hd_drop_conv_nth)
    show ?thesis
    proof (cases "reply_at (drop index input)")
      case None
      have "index + 1 \<le> length input" "copied \<le> index + 1" using True "1.prems" by simp_all
      from "1.IH"(1) [OF True _ this "1.prems"(3)] at None
      have ih: "(case strip_loop input (index + 1) copied stripped of
          (None, c) \<Rightarrow> input | (Some kept, c) \<Rightarrow> kept @ drop c input) =
        unwrap_or stripped [] @ slice input copied (index + 1) @ strip_ref (drop (index + 1) input)"
        by simp
      have bs: "bs = drop (index + 1) input" and b: "b = input ! index"
        using d True by (metis Suc_eq_plus1 drop_Suc list.sel(3) tl_drop,
            metis d hd_drop_conv_nth list.sel(1))
      have "slice input copied (index + 1) = slice input copied index @ [b]"
        using slice_join [of copied index "index + 1" input] "1.prems" True b
        by (simp add: slice_def take_Suc_conv_app_nth hd_drop_conv_nth Cons_nth_drop_Suc [symmetric])
      then show ?thesis
        using ih None d bs by (simp add: strip_loop_step [OF True])
    next
      case (Some len)
      have "index + len \<le> length input" using reply_at_le [OF Some] True by simp
      from "1.IH"(2) [OF True _ this le_refl] at Some
      have "(case strip_loop input (index + len) (index + len)
               (Some (unwrap_or stripped [] @ slice input copied index)) of
          (None, c) \<Rightarrow> input | (Some kept, c) \<Rightarrow> kept @ drop c input) =
        (unwrap_or stripped [] @ slice input copied index) @ strip_ref (drop (index + len) input)"
        by simp
      moreover have "drop (index + len) input = drop len (b # bs)"
        using d by (metis add.commute drop_drop)
      ultimately show ?thesis
        using Some d by (simp add: strip_loop_step [OF True])
    qed
  qed
qed

lemma strip_probe_replies_ref: "strip_probe_replies input = strip_ref input"
  using strip_loop_ref [of 0 input 0 None] by (simp add: strip_probe_replies_def)

definition complete_reply :: "bytes \<Rightarrow> bool" where
  "complete_reply r \<longleftrightarrow>
     (\<exists>mid t. r = PROBE_PREFIX @ mid @ t \<and> ESC \<notin> set mid \<and> BEL \<notin> set mid \<and>
        (t = [BEL] \<or> t = [ESC, BACKSLASH]) \<and>
        length PROBE_PREFIX + length mid < MAX_REPLY_BYTES)"

lemma reply_length_from_scan:
  assumes "ESC \<notin> set mid" and "BEL \<notin> set mid" and "length pre + length mid < limit"
  shows "reply_length_from (pre @ mid @ rest) limit (length pre) =
         reply_length_from (pre @ mid @ rest) limit (length pre + length mid)"
  using assms
proof (induction mid arbitrary: pre)
  case (Cons m mid)
  then have "reply_length_from ((pre @ [m]) @ mid @ rest) limit (length (pre @ [m])) =
      reply_length_from ((pre @ [m]) @ mid @ rest) limit (length (pre @ [m]) + length mid)"
    by (intro Cons.IH) auto
  moreover have "reply_length_from (pre @ (m # mid) @ rest) limit (length pre) =
      reply_length_from (pre @ (m # mid) @ rest) limit (length pre + 1)"
    using Cons.prems by (subst reply_length_from.simps) auto
  ultimately show ?case by simp
qed simp

lemma reply_at_complete:
  assumes "complete_reply r"
  shows "reply_at (r @ ys) = Some (length r)"
proof -
  from assms obtain mid t where r: "r = PROBE_PREFIX @ mid @ t"
    and mid: "ESC \<notin> set mid" "BEL \<notin> set mid"
    and t: "t = [BEL] \<or> t = [ESC, BACKSLASH]"
    and small: "length PROBE_PREFIX + length mid < MAX_REPLY_BYTES"
    unfolding complete_reply_def by blast
  let ?bs = "PROBE_PREFIX @ mid @ t @ ys" and ?i = "length PROBE_PREFIX + length mid"
  let ?limit = "min (length ?bs) MAX_REPLY_BYTES"
  have lim: "?i < ?limit" using small t by auto
  have at_t: "drop ?i ?bs = t @ ys" by simp
  then have nth: "?bs ! ?i = hd t" and nth1: "length t = 2 \<Longrightarrow> ?bs ! (?i + 1) = t ! 1"
    using t by (auto simp: nth_append)
  have "reply_length ?bs = reply_length_from ?bs ?limit ?i"
    unfolding reply_length_def using reply_length_from_scan [OF mid, of PROBE_PREFIX ?limit "t @ ys"] lim
    by simp
  also have "\<dots> = Some (?i + length t)"
    using t lim nth nth1 by (subst reply_length_from.simps) auto
  finally have "reply_length (r @ ys) = Some (length r)"
    by (simp add: r)
  moreover have "prefix PROBE_PREFIX (r @ ys)" "r @ ys \<noteq> []" "hd (r @ ys) = ESC"
    by (simp_all add: r PROBE_PREFIX_def)
  ultimately show ?thesis by (simp add: reply_at_def)
qed

lemma strip_ref_skip: "ESC \<notin> set xs \<Longrightarrow> strip_ref (xs @ ys) = xs @ strip_ref ys"
  by (induction xs) (auto simp: reply_at_def)

lemma strip_ref_subseq: "subseq (strip_ref bs) bs"
proof (induction bs rule: strip_ref.induct)
  case (2 b bs)
  show ?case
  proof (cases "reply_at (b # bs)")
    case (Some n)
    have "subseq (drop n (b # bs)) (b # bs)"
      by (metis append_take_drop_id subseq_drop_many subseq_order.refl)
    with "2.IH"(2) [OF Some] Some show ?thesis
      by (simp add: subseq_order.trans)
  qed (use "2.IH"(1) in simp)
qed simp



end
