(* ===== verification/Osc_Tracker.thy ===== *)
theory Osc_Tracker
  imports Program_Status
begin

text \<open>
  The worker's terminal model (\<open>crates/terminal/src/snapshot.rs\<close>): the bounded OSC scanner that
  follows titles, progress and feature probes, and the tracker that combines it with the VT
  emulator.  The emulator is the third-party crate \<open>vt100\<close>: its operations are the record
  parameter \<open>vt\<close> of the definitions that use it.
\<close>

section \<open>The OSC scanner\<close>

definition MAX_OSC_BYTES :: nat where "MAX_OSC_BYTES = 4096"

datatype osc_state =
  OscGround | OscEscape | OscCommand | OscPayload | OscPayloadEscape | OscDiscard | OscDiscardEscape

record osc_tracker =
  trk_state :: osc_state
  trk_command :: bytes
  trk_payload :: bytes
  trk_title :: "bytes option"
  trk_progress :: "bytes option"
  trk_consumed :: nat
  trk_escape_at :: nat
  trk_osc_start :: nat
  trk_probes :: "probe_span list"

definition osc_tracker_new :: osc_tracker where
  "osc_tracker_new =
     \<lparr>trk_state = OscGround, trk_command = [], trk_payload = [], trk_title = None,
      trk_progress = None, trk_consumed = 0, trk_escape_at = 0, trk_osc_start = 0, trk_probes = []\<rparr>"

definition tracker_record :: "osc_tracker \<Rightarrow> osc_tracker" where
  "tracker_record t =
     (let payload = from_utf8_lossy (trk_payload t) in
      case from_utf8 (trk_command t) of
        None \<Rightarrow> t
      | Some number \<Rightarrow>
          if number = ''0'' \<or> number = ''2'' then t\<lparr>trk_title := Some payload\<rparr>
          else if number = ''9'' then t\<lparr>trk_progress := Some payload\<rparr>
          else if number = PROGRAM_STATUS_COMMAND \<and> trk_payload t \<noteq> [] \<and> hd (trk_payload t) = CHR ''?''
          then t\<lparr>trk_probes := trk_probes t @
                   [\<lparr>span_start = trk_osc_start t, span_end = trk_consumed t + 1\<rparr>]\<rparr>
          else t)"

definition tracker_finish :: "osc_tracker \<Rightarrow> osc_tracker" where
  "tracker_finish t =
     (tracker_record t)\<lparr>trk_state := OscGround, trk_command := [], trk_payload := []\<rparr>"

definition tracker_advance :: "osc_tracker \<Rightarrow> byte \<Rightarrow> osc_tracker" where
  "tracker_advance t b =
     (case trk_state t of
        OscGround \<Rightarrow>
          if b = ESC then t\<lparr>trk_escape_at := trk_consumed t, trk_state := OscEscape\<rparr> else t
      | OscEscape \<Rightarrow>
          if b = CHR '']''
          then t\<lparr>trk_osc_start := trk_escape_at t, trk_command := [], trk_payload := [],
                 trk_state := OscCommand\<rparr>
          else t\<lparr>trk_state := OscGround\<rparr>
      | OscCommand \<Rightarrow>
          if b = CHR '';'' then t\<lparr>trk_state := OscPayload\<rparr>
          else if b = BEL then tracker_finish t
          else if length (trk_command t) < MAX_OSC_BYTES then t\<lparr>trk_command := trk_command t @ [b]\<rparr>
          else t\<lparr>trk_state := OscDiscard\<rparr>
      | OscPayload \<Rightarrow>
          if b = BEL then tracker_finish t
          else if b = ESC then t\<lparr>trk_state := OscPayloadEscape\<rparr>
          else if length (trk_payload t) < MAX_OSC_BYTES then t\<lparr>trk_payload := trk_payload t @ [b]\<rparr>
          else t\<lparr>trk_state := OscDiscard\<rparr>
      | OscPayloadEscape \<Rightarrow>
          if b = BACKSLASH then tracker_finish t
          else if length (trk_payload t) < MAX_OSC_BYTES
               then t\<lparr>trk_payload := trk_payload t @ [ESC, b], trk_state := OscPayload\<rparr>
               else t\<lparr>trk_state := OscDiscard\<rparr>
      | OscDiscard \<Rightarrow>
          if b = BEL then t\<lparr>trk_state := OscGround\<rparr>
          else if b = ESC then t\<lparr>trk_state := OscDiscardEscape\<rparr> else t
      | OscDiscardEscape \<Rightarrow>
          if b = BACKSLASH then t\<lparr>trk_state := OscGround\<rparr> else t\<lparr>trk_state := OscDiscard\<rparr>)"

text \<open>One iteration of the loop of \<open>OscTracker::feed\<close>, and the loop.\<close>

definition tracker_step :: "osc_tracker \<Rightarrow> byte \<Rightarrow> osc_tracker" where
  "tracker_step t b = (let t' = tracker_advance t b in t'\<lparr>trk_consumed := trk_consumed t' + 1\<rparr>)"

fun tracker_feed :: "osc_tracker \<Rightarrow> bytes \<Rightarrow> osc_tracker" where
  "tracker_feed t [] = t"
| "tracker_feed t (b # bs) = tracker_feed (tracker_step t b) bs"

interpretation osc_scanner: byte_machine tracker_step tracker_feed
  by unfold_locales simp_all

section \<open>The terminal tracker\<close>

record 'v vt100 =
  vt_new :: "nat \<Rightarrow> nat \<Rightarrow> nat \<Rightarrow> 'v"
  vt_process :: "'v \<Rightarrow> bytes \<Rightarrow> 'v"
  vt_set_size :: "'v \<Rightarrow> nat \<Rightarrow> nat \<Rightarrow> 'v"
  vt_size :: "'v \<Rightarrow> nat \<times> nat"
  vt_cursor_position :: "'v \<Rightarrow> nat \<times> nat"
  vt_alternate_screen :: "'v \<Rightarrow> bool"
  vt_hide_cursor :: "'v \<Rightarrow> bool"
  vt_input_mode_formatted :: "'v \<Rightarrow> bytes"
  vt_contents_formatted :: "'v \<Rightarrow> bytes"
  vt_cursor_state_formatted :: "'v \<Rightarrow> bytes"
  vt_contents :: "'v \<Rightarrow> bytes"

record terminal_snapshot =
  ts_watermark :: nat
  ts_rows :: nat
  ts_cols :: nat
  ts_cursor_row :: nat
  ts_cursor_col :: nat
  ts_cursor_visible :: bool
  ts_alternate_screen :: bool
  ts_title :: "bytes option"
  ts_progress :: "bytes option"
  ts_visible_text :: bytes
  ts_ansi :: bytes

record 'v terminal_tracker =
  tt_parser :: 'v
  tt_osc :: osc_tracker

definition terminal_new :: "'v vt100 \<Rightarrow> nat \<Rightarrow> nat \<Rightarrow> 'v terminal_tracker" where
  "terminal_new vt rows cols = \<lparr>tt_parser = vt_new vt rows cols 0, tt_osc = osc_tracker_new\<rparr>"

definition terminal_feed :: "'v vt100 \<Rightarrow> 'v terminal_tracker \<Rightarrow> bytes \<Rightarrow> 'v terminal_tracker" where
  "terminal_feed vt t bs =
     t\<lparr>tt_parser := vt_process vt (tt_parser t) bs, tt_osc := tracker_feed (tt_osc t) bs\<rparr>"

definition terminal_take_probes :: "'v terminal_tracker \<Rightarrow> 'v terminal_tracker \<times> probe_span list" where
  "terminal_take_probes t = (t\<lparr>tt_osc := (tt_osc t)\<lparr>trk_probes := []\<rparr>\<rparr>, trk_probes (tt_osc t))"

definition terminal_resize :: "'v vt100 \<Rightarrow> 'v terminal_tracker \<Rightarrow> nat \<Rightarrow> nat \<Rightarrow> 'v terminal_tracker" where
  "terminal_resize vt t rows cols = t\<lparr>tt_parser := vt_set_size vt (tt_parser t) rows cols\<rparr>"

definition take_snapshot :: "'v vt100 \<Rightarrow> 'v terminal_tracker \<Rightarrow> nat \<Rightarrow> terminal_snapshot" where
  "take_snapshot vt t watermark =
     (let screen = tt_parser t; alternate = vt_alternate_screen vt screen in
      \<lparr>ts_watermark = watermark,
       ts_rows = fst (vt_size vt screen),
       ts_cols = snd (vt_size vt screen),
       ts_cursor_row = fst (vt_cursor_position vt screen),
       ts_cursor_col = snd (vt_cursor_position vt screen),
       ts_cursor_visible = (\<not> vt_hide_cursor vt screen),
       ts_alternate_screen = alternate,
       ts_title = trk_title (tt_osc t),
       ts_progress = trk_progress (tt_osc t),
       ts_visible_text = vt_contents vt screen,
       ts_ansi =
         (if alternate then ESC # ''[?1049h'' else [])
         @ (ESC # ''[2J'') @ (ESC # ''[H'')
         @ vt_input_mode_formatted vt screen
         @ vt_contents_formatted vt screen
         @ vt_cursor_state_formatted vt screen\<rparr>)"

lemma take_snapshot_watermark [simp]: "ts_watermark (take_snapshot vt t w) = w"
  by (simp add: take_snapshot_def Let_def)

lemma take_snapshot_ansi_nonempty [simp]: "ts_ansi (take_snapshot vt t w) \<noteq> []"
  by (simp add: take_snapshot_def Let_def)

section \<open>The scanner's state mirrors the stream\<close>

definition probe_text :: "bytes \<Rightarrow> bool" where
  "probe_text s \<longleftrightarrow> (\<exists>rest t. s = PROBE_PREFIX @ rest @ t \<and> (t = [BEL] \<or> t = [ESC, BACKSLASH]))"

definition probe_ok :: "bytes \<Rightarrow> probe_span \<Rightarrow> bool" where
  "probe_ok H p \<longleftrightarrow>
     span_start p < span_end p \<and> span_end p \<le> length H \<and> probe_text (slice H (span_start p) (span_end p))"

text \<open>What the bytes since the introducing escape are, in each state.\<close>

definition scan_inv :: "bytes \<Rightarrow> osc_tracker \<Rightarrow> bool" where
  "scan_inv H t \<longleftrightarrow>
     (case trk_state t of
        OscEscape \<Rightarrow> drop (trk_escape_at t) H = [ESC]
      | OscCommand \<Rightarrow> drop (trk_osc_start t) H = ESC # CHR '']'' # trk_command t \<and> trk_payload t = []
      | OscPayload \<Rightarrow>
          drop (trk_osc_start t) H = ESC # CHR '']'' # trk_command t @ CHR '';'' # trk_payload t
      | OscPayloadEscape \<Rightarrow>
          drop (trk_osc_start t) H = ESC # CHR '']'' # trk_command t @ CHR '';'' # trk_payload t @ [ESC]
      | _ \<Rightarrow> True)"

definition probe_floor :: "bytes \<Rightarrow> osc_tracker \<Rightarrow> nat" where
  "probe_floor H t =
     (case trk_state t of
        OscEscape \<Rightarrow> trk_escape_at t
      | OscCommand \<Rightarrow> trk_osc_start t
      | OscPayload \<Rightarrow> trk_osc_start t
      | OscPayloadEscape \<Rightarrow> trk_osc_start t
      | _ \<Rightarrow> length H)"

definition tracker_inv :: "bytes \<Rightarrow> osc_tracker \<Rightarrow> bool" where
  "tracker_inv H t \<longleftrightarrow>
     trk_consumed t = length H \<and> scan_inv H t \<and>
     length (trk_command t) \<le> MAX_OSC_BYTES \<and> length (trk_payload t) \<le> MAX_OSC_BYTES + 1 \<and>
     (\<forall>p \<in> set (trk_probes t). probe_ok H p \<and> span_end p \<le> probe_floor H t) \<and>
     sorted_wrt (\<lambda>p q. span_end p \<le> span_start q) (trk_probes t)"

lemma probe_ok_append: "probe_ok H p \<Longrightarrow> probe_ok (H @ bs) p"
  by (simp add: probe_ok_def slice_append_left)

lemma tracker_inv_new [simp, intro]: "tracker_inv [] osc_tracker_new"
  by (simp add: tracker_inv_def scan_inv_def osc_tracker_new_def)

lemma drop_eq_ConsD: "drop n H = x # xs \<Longrightarrow> n < length H"
  by (metis drop_all list.distinct(1) not_le)

lemma drop_snoc: "n \<le> length H \<Longrightarrow> drop n (H @ [b]) = drop n H @ [b]"
  by simp

lemma drop_snoc_Cons: "drop n H = x # xs \<Longrightarrow> drop n (H @ [b]) = x # xs @ [b]"
  using drop_eq_ConsD [of n H x xs] by simp

lemma tracker_record_frame [simp]:
  "trk_consumed (tracker_record t) = trk_consumed t"
  "trk_command (tracker_record t) = trk_command t"
  "trk_payload (tracker_record t) = trk_payload t"
  "trk_state (tracker_record t) = trk_state t"
  by (auto simp: tracker_record_def Let_def split: option.splits)

text \<open>
  A sequence that completes adds at most one probe, and only when the bytes since its escape
  are a probe.
\<close>

lemma tracker_record_probes:
  "trk_probes (tracker_record t) = trk_probes t \<or>
   trk_probes (tracker_record t) =
     trk_probes t @ [\<lparr>span_start = trk_osc_start t, span_end = trk_consumed t + 1\<rparr>] \<and>
   trk_command t = PROGRAM_STATUS_COMMAND \<and> (\<exists>rest. trk_payload t = CHR ''?'' # rest)"
  by (cases "trk_payload t")
     (auto simp: tracker_record_def Let_def from_utf8_def split: option.splits if_splits)

lemma tracker_finish_inv:
  assumes inv: "tracker_inv H t"
    and floor: "probe_floor H t = trk_osc_start t"
    and seq: "drop (trk_osc_start t) (H @ [b]) = ESC # CHR '']'' # trk_command t @ tail"
    and tail: "\<And>rest. trk_payload t = CHR ''?'' # rest \<Longrightarrow>
      tail = CHR '';'' # trk_payload t @ closer \<and> (closer = [BEL] \<or> closer = [ESC, BACKSLASH])"
  shows "tracker_inv (H @ [b]) ((tracker_finish t)\<lparr>trk_consumed := trk_consumed t + 1\<rparr>)"
proof -
  let ?span = "\<lparr>span_start = trk_osc_start t, span_end = trk_consumed t + 1\<rparr>"
  let ?t = "(tracker_finish t)\<lparr>trk_consumed := trk_consumed t + 1\<rparr>"
  have cons: "trk_consumed t = length H" using inv by (simp add: tracker_inv_def)
  have lt: "trk_osc_start t < length (H @ [b])"
    using drop_eq_ConsD [OF seq] .
  have old: "probe_ok (H @ [b]) p \<and> span_end p \<le> trk_osc_start t" if "p \<in> set (trk_probes t)" for p
    using that inv floor by (auto simp: tracker_inv_def intro: probe_ok_append)
  have new: "probe_ok (H @ [b]) ?span"
    if "trk_command t = PROGRAM_STATUS_COMMAND" and "trk_payload t = CHR ''?'' # rest" for rest
  proof -
    have "slice (H @ [b]) (trk_osc_start t) (trk_consumed t + 1) = drop (trk_osc_start t) (H @ [b])"
      using cons by (simp add: slice_def)
    also have "\<dots> = PROBE_PREFIX @ rest @ closer"
      using seq tail [OF that(2)] that by (simp add: PROBE_PREFIX_def PROGRAM_STATUS_COMMAND_def)
    finally show ?thesis
      using tail [OF that(2)] lt cons by (auto simp: probe_ok_def probe_text_def)
  qed
  have "(\<forall>p \<in> set (trk_probes (tracker_record t)).
           probe_ok (H @ [b]) p \<and> span_end p \<le> length (H @ [b])) \<and>
        sorted_wrt (\<lambda>p q. span_end p \<le> span_start q) (trk_probes (tracker_record t))"
    using tracker_record_probes [of t]
  proof
    assume "trk_probes (tracker_record t) = trk_probes t"
    then show ?thesis using old lt inv by (fastforce simp: tracker_inv_def)
  next
    assume *: "trk_probes (tracker_record t) = trk_probes t @ [?span] \<and>
      trk_command t = PROGRAM_STATUS_COMMAND \<and> (\<exists>rest. trk_payload t = CHR ''?'' # rest)"
    then have "probe_ok (H @ [b]) ?span" using new by blast
    with * old lt inv cons show ?thesis
      by (fastforce simp: tracker_inv_def sorted_wrt_append)
  qed
  then show ?thesis
    using cons by (simp add: tracker_inv_def tracker_finish_def scan_inv_def probe_floor_def)
qed

lemma tracker_inv_move:
  assumes "tracker_inv H t" and "trk_probes t' = trk_probes t" and "trk_consumed t' = length H + 1"
    and "scan_inv (H @ [b]) t'" and "probe_floor H t \<le> probe_floor (H @ [b]) t'"
    and "length (trk_command t') \<le> MAX_OSC_BYTES" and "length (trk_payload t') \<le> MAX_OSC_BYTES + 1"
  shows "tracker_inv (H @ [b]) t'"
  using assms by (fastforce simp: tracker_inv_def intro: probe_ok_append)

lemma tracker_inv_consumed: "tracker_inv H t \<Longrightarrow> trk_consumed t = length H"
  by (simp add: tracker_inv_def)

lemma tracker_inv_bounds:
  "tracker_inv H t \<Longrightarrow> length (trk_command t) \<le> MAX_OSC_BYTES \<and> length (trk_payload t) \<le> MAX_OSC_BYTES + 1"
  by (simp add: tracker_inv_def)

lemma tracker_inv_scan: "tracker_inv H t \<Longrightarrow> scan_inv H t"
  by (simp add: tracker_inv_def)

lemma tracker_step_finish:
  assumes "tracker_advance t b = tracker_finish t"
  shows "tracker_step t b = (tracker_finish t)\<lparr>trk_consumed := trk_consumed t + 1\<rparr>"
  using assms by (simp add: tracker_step_def Let_def tracker_finish_def)

lemmas step_defs = tracker_step_def tracker_advance_def Let_def scan_inv_def probe_floor_def

lemma scan_start_less:
  assumes "tracker_inv H t"
  shows "trk_state t = OscEscape \<Longrightarrow> trk_escape_at t < length H"
    and "trk_state t \<in> {OscCommand, OscPayload, OscPayloadEscape} \<Longrightarrow> trk_osc_start t < length H"
  using tracker_inv_scan [OF assms] by (auto simp: scan_inv_def dest: drop_eq_ConsD)

text \<open>The bytes that complete a sequence, and the bytes of the closer they complete.\<close>

definition closes :: "osc_tracker \<Rightarrow> byte \<Rightarrow> bool" where
  "closes t b \<longleftrightarrow>
     (trk_state t \<in> {OscCommand, OscPayload} \<and> b = BEL) \<or> (trk_state t = OscPayloadEscape \<and> b = BACKSLASH)"

lemma step_inv_close:
  assumes inv: "tracker_inv H t" and cl: "closes t b"
  shows "tracker_inv (H @ [b]) (tracker_step t b)"
proof -
  let ?closer = "if trk_state t = OscPayloadEscape then [ESC, BACKSLASH] else [BEL]"
  let ?tail = "if trk_state t = OscCommand then [BEL] else CHR '';'' # trk_payload t @ ?closer"
  have "tracker_inv (H @ [b]) ((tracker_finish t)\<lparr>trk_consumed := trk_consumed t + 1\<rparr>)"
    using cl tracker_inv_scan [OF inv] scan_start_less [OF inv]
    by (intro tracker_finish_inv [OF inv, where tail = ?tail and closer = ?closer])
       (auto simp: scan_inv_def probe_floor_def closes_def)
  then show ?thesis
    using cl by (subst tracker_step_finish) (auto simp: tracker_advance_def closes_def)
qed

lemma step_inv_keep:
  assumes inv: "tracker_inv H t" and cl: "\<not> closes t b"
  shows "tracker_inv (H @ [b]) (tracker_step t b)"
  using cl tracker_inv_consumed [OF inv] tracker_inv_bounds [OF inv] tracker_inv_scan [OF inv]
    scan_start_less [OF inv]
  by (intro tracker_inv_move [OF inv]; cases "trk_state t") (simp_all add: step_defs closes_def)

lemma tracker_step_inv: "tracker_inv H t \<Longrightarrow> tracker_inv (H @ [b]) (tracker_step t b)"
  using step_inv_close step_inv_keep by blast

lemma tracker_feed_inv: "tracker_inv H t \<Longrightarrow> tracker_inv (H @ bs) (tracker_feed t bs)"
  by (rule osc_scanner.feed_history [where I = tracker_inv, OF tracker_step_inv])

lemma tracker_take_probes_inv: "tracker_inv H t \<Longrightarrow> tracker_inv H (t\<lparr>trk_probes := []\<rparr>)"
  by (auto simp: tracker_inv_def scan_inv_def probe_floor_def split: osc_state.splits)

section \<open>What a complete sequence records\<close>

definition osc_sequence :: "bytes \<Rightarrow> bytes \<Rightarrow> bytes \<Rightarrow> bytes" where
  "osc_sequence cmd payload closer = ESC # CHR '']'' # cmd @ CHR '';'' # payload @ closer"

definition plain_command :: "bytes \<Rightarrow> bool" where
  "plain_command cmd \<longleftrightarrow> length cmd \<le> MAX_OSC_BYTES \<and> CHR '';'' \<notin> set cmd \<and> BEL \<notin> set cmd"

definition plain_payload :: "bytes \<Rightarrow> bool" where
  "plain_payload p \<longleftrightarrow> length p \<le> MAX_OSC_BYTES \<and> ESC \<notin> set p \<and> BEL \<notin> set p"

lemma feed_command:
  assumes "trk_state t = OscCommand" and "CHR '';'' \<notin> set cmd" and "BEL \<notin> set cmd"
    and "length (trk_command t) + length cmd \<le> MAX_OSC_BYTES"
  shows "tracker_feed t cmd =
    t\<lparr>trk_command := trk_command t @ cmd, trk_consumed := trk_consumed t + length cmd\<rparr>"
  using assms by (induction cmd arbitrary: t) (auto simp: tracker_step_def tracker_advance_def)

lemma feed_payload:
  assumes "trk_state t = OscPayload" and "ESC \<notin> set p" and "BEL \<notin> set p"
    and "length (trk_payload t) + length p \<le> MAX_OSC_BYTES"
  shows "tracker_feed t p =
    t\<lparr>trk_payload := trk_payload t @ p, trk_consumed := trk_consumed t + length p\<rparr>"
  using assms by (induction p arbitrary: t) (auto simp: tracker_step_def tracker_advance_def)

lemma feed_introducer:
  assumes "trk_state t = OscGround"
  shows "tracker_feed t [ESC, CHR '']''] =
    t\<lparr>trk_state := OscCommand, trk_command := [], trk_payload := [], trk_escape_at := trk_consumed t,
      trk_osc_start := trk_consumed t, trk_consumed := trk_consumed t + 2\<rparr>"
  using assms by (simp add: tracker_step_def tracker_advance_def)

lemma feed_closer:
  assumes "trk_state t = OscPayload" and "closer = [BEL] \<or> closer = [ESC, BACKSLASH]"
  shows "tracker_feed t closer =
    (tracker_finish (t\<lparr>trk_state := OscGround, trk_consumed := trk_consumed t + length closer - 1\<rparr>))
      \<lparr>trk_consumed := trk_consumed t + length closer\<rparr>"
  using assms
  by (auto simp: tracker_step_def tracker_advance_def tracker_finish_def tracker_record_def Let_def
        PROGRAM_STATUS_COMMAND_def split: option.splits)

lemma feed_osc_header:
  assumes "trk_state t = OscGround" and "plain_command cmd"
  shows "tracker_feed t (ESC # CHR '']'' # cmd) =
    t\<lparr>trk_state := OscCommand, trk_command := cmd, trk_payload := [], trk_escape_at := trk_consumed t,
      trk_osc_start := trk_consumed t, trk_consumed := trk_consumed t + 2 + length cmd\<rparr>"
proof -
  have "tracker_feed t (ESC # CHR '']'' # cmd) = tracker_feed (tracker_feed t [ESC, CHR '']'']) cmd"
    by simp
  also have "\<dots> = t\<lparr>trk_state := OscCommand, trk_command := cmd, trk_payload := [],
      trk_escape_at := trk_consumed t, trk_osc_start := trk_consumed t,
      trk_consumed := trk_consumed t + 2 + length cmd\<rparr>"
    unfolding feed_introducer [OF assms(1)]
    using assms(2) by (subst feed_command) (simp_all add: plain_command_def)
  finally show ?thesis .
qed

lemma feed_osc_sequence:
  assumes ground: "trk_state t = OscGround" and cmd: "plain_command cmd" and pl: "plain_payload payload"
    and closer: "closer = [BEL] \<or> closer = [ESC, BACKSLASH]"
  shows "tracker_feed t (osc_sequence cmd payload closer) =
    (let n = trk_consumed t + length (osc_sequence cmd payload closer) in
     (tracker_finish (t\<lparr>trk_command := cmd, trk_payload := payload, trk_escape_at := trk_consumed t,
        trk_osc_start := trk_consumed t, trk_state := OscGround, trk_consumed := n - 1\<rparr>))\<lparr>trk_consumed := n\<rparr>)"
proof -
  let ?a = "tracker_feed t (ESC # CHR '']'' # cmd)"
  let ?b = "tracker_step ?a (CHR '';'')"
  have b: "?b = t\<lparr>trk_state := OscPayload, trk_command := cmd, trk_payload := [],
      trk_escape_at := trk_consumed t, trk_osc_start := trk_consumed t,
      trk_consumed := trk_consumed t + 3 + length cmd\<rparr>"
    unfolding feed_osc_header [OF ground cmd] by (simp add: tracker_step_def tracker_advance_def)
  have c: "tracker_feed ?b payload =
      t\<lparr>trk_state := OscPayload, trk_command := cmd, trk_payload := payload,
        trk_escape_at := trk_consumed t, trk_osc_start := trk_consumed t,
        trk_consumed := trk_consumed t + 3 + length cmd + length payload\<rparr>"
    using pl unfolding b by (subst feed_payload) (simp_all add: plain_payload_def)
  have "tracker_feed t (osc_sequence cmd payload closer) =
      tracker_feed (tracker_feed ?b payload) closer"
    using osc_scanner.feed_append [of t "ESC # CHR '']'' # cmd" "CHR '';'' # payload @ closer"]
    by (simp add: osc_sequence_def osc_scanner.feed_append)
  also have "\<dots> = (tracker_finish ((tracker_feed ?b payload)
      \<lparr>trk_state := OscGround, trk_consumed := trk_consumed (tracker_feed ?b payload) + length closer - 1\<rparr>))
      \<lparr>trk_consumed := trk_consumed (tracker_feed ?b payload) + length closer\<rparr>"
    using closer c by (intro feed_closer) simp_all
  finally show ?thesis
    unfolding c by (simp add: osc_sequence_def Let_def algebra_simps numeral_3_eq_3)
qed

lemma tracker_record_effects:
  "trk_title (tracker_record t) =
     (if trk_command t \<in> {''0'', ''2''} then Some (from_utf8_lossy (trk_payload t)) else trk_title t)"
  "trk_progress (tracker_record t) =
     (if trk_command t = ''9'' then Some (from_utf8_lossy (trk_payload t)) else trk_progress t)"
  "trk_probes (tracker_record t) =
     (if trk_command t = PROGRAM_STATUS_COMMAND \<and> trk_payload t \<noteq> [] \<and> hd (trk_payload t) = CHR ''?''
      then trk_probes t @ [\<lparr>span_start = trk_osc_start t, span_end = trk_consumed t + 1\<rparr>]
      else trk_probes t)"
  by (auto simp: tracker_record_def Let_def from_utf8_def is_utf8_ascii is_ascii_def
        PROGRAM_STATUS_COMMAND_def split: option.splits if_splits)

lemma feed_payload_overrun:
  "\<exists>out. length (trk_payload (tracker_feed osc_tracker_new out)) = MAX_OSC_BYTES + 1"
proof -
  let ?t = "osc_tracker_new\<lparr>trk_state := OscPayload, trk_command := ''2'', trk_consumed := 4\<rparr>"
  define body where "body = replicate (MAX_OSC_BYTES - 1) (CHR ''x'')"
  have pos: "0 < MAX_OSC_BYTES" by (simp add: MAX_OSC_BYTES_def)
  have len: "length body + 1 = MAX_OSC_BYTES" using pos by (simp add: body_def)
  have intro: "tracker_feed osc_tracker_new (ESC # '']2;'') = ?t"
    using pos by (simp add: osc_tracker_new_def tracker_step_def tracker_advance_def)
  have "tracker_feed ?t body = ?t\<lparr>trk_payload := body, trk_consumed := 4 + length body\<rparr>"
    using len by (subst feed_payload) (simp_all add: osc_tracker_new_def body_def)
  then have "length (trk_payload (tracker_feed (tracker_feed ?t body) [ESC, CHR ''x''])) = MAX_OSC_BYTES + 1"
    using len by (simp add: tracker_step_def tracker_advance_def)
  then have "length (trk_payload (tracker_feed osc_tracker_new
      ((ESC # '']2;'') @ body @ [ESC, CHR ''x'']))) = MAX_OSC_BYTES + 1"
    by (simp only: osc_scanner.feed_append intro)
  then show ?thesis by (rule exI)
qed

section \<open>Properties\<close>

text \<open>
  However the PTY output is cut into reads, every probe the scanner reports is the span of
  bytes of the stream that spell a complete OSC 7501 probe, from its escape to its terminator,
  and the spans are in order and do not overlap.
\<close>

theorem probe_spans_sound:
  "let H = concat reads; ps = trk_probes (foldl tracker_feed osc_tracker_new reads) in
   list_all (probe_ok H) ps \<and> sorted_wrt (\<lambda>p q. span_end p \<le> span_start q) ps"
  using tracker_feed_inv [OF tracker_inv_new, of "concat reads"]
  by (simp add: osc_scanner.feed_fragments tracker_inv_def list_all_iff Let_def)

text \<open>
  A complete OSC sequence that starts in the ground state has exactly the effect its command
  number names, however it is cut into reads: 0 and 2 set the title, 9 the progress, 7501 with a
  payload that starts with \<open>?\<close> reports the span of the sequence, and every other number changes
  none of the three; the scanner is back in the ground state.
\<close>

theorem osc_sequence_recorded:
  assumes "trk_state t = OscGround" and "plain_command cmd" and "plain_payload payload"
    and "closer = [BEL] \<or> closer = [ESC, BACKSLASH]"
    and "concat reads = osc_sequence cmd payload closer"
  shows "let t' = foldl tracker_feed t reads in
    trk_state t' = OscGround \<and>
    trk_title t' = (if cmd \<in> {''0'', ''2''} then Some (from_utf8_lossy payload) else trk_title t) \<and>
    trk_progress t' = (if cmd = ''9'' then Some (from_utf8_lossy payload) else trk_progress t) \<and>
    trk_probes t' =
      (if cmd = PROGRAM_STATUS_COMMAND \<and> payload \<noteq> [] \<and> hd payload = CHR ''?''
       then trk_probes t @
         [\<lparr>span_start = trk_consumed t, span_end = trk_consumed t + length (concat reads)\<rparr>]
       else trk_probes t)"
proof -
  have "Suc (trk_consumed t + length (osc_sequence c payload closer) - 1) =
      trk_consumed t + length (osc_sequence c payload closer)" for c
    by (simp add: osc_sequence_def)
  then show ?thesis
    using assms
    by (simp add: osc_scanner.feed_fragments feed_osc_sequence tracker_finish_def
        tracker_record_effects Let_def)
qed

theorem osc_sequence_recorded_witness:
  "trk_title (foldl tracker_feed osc_tracker_new [[ESC, CHR '']'', CHR ''2''], '';ok'', [BEL]])
   = Some ''ok''"
  using osc_sequence_recorded [of osc_tracker_new "''2''" "''ok''" "[BEL]"
      "[[ESC, CHR '']'', CHR ''2''], '';ok'', [BEL]]"]
  by (simp add: osc_tracker_new_def plain_command_def plain_payload_def osc_sequence_def
      MAX_OSC_BYTES_def from_utf8_lossy_valid is_utf8_ascii is_ascii_def Let_def)

text \<open>
  The scanner's memory is bounded whatever the output is, by one byte more than
  \<open>MAX_OSC_BYTES\<close> for the payload, and that byte is reached: an escape that does not start a
  terminator is retained together with the byte after it under one length check.
\<close>

theorem osc_retention_bound:
  "length (trk_command (tracker_feed osc_tracker_new bs)) \<le> MAX_OSC_BYTES \<and>
   length (trk_payload (tracker_feed osc_tracker_new bs)) \<le> MAX_OSC_BYTES + 1 \<and>
   (\<exists>out. length (trk_payload (tracker_feed osc_tracker_new out)) = MAX_OSC_BYTES + 1)"
  using tracker_inv_bounds [OF tracker_feed_inv [OF tracker_inv_new, of bs]]
    feed_payload_overrun by auto

text \<open>
  C36.  A sequence with no payload that ends with the string terminator (\<open>ESC \\<close>) does not end for
  the scanner: it stays in the command state, so the title sequence that follows is read as more
  of that command and the title is lost.
\<close>

theorem bare_terminator_swallows_title:
  assumes "trk_state t = OscGround" and "plain_command cmd"
    and "length cmd + 5 \<le> MAX_OSC_BYTES" and "plain_payload payload"
  shows "trk_title (tracker_feed t
    ((ESC # CHR '']'' # cmd @ [ESC, BACKSLASH]) @ osc_sequence ''2'' payload [BEL])) = trk_title t"
proof -
  let ?cmd = "cmd @ [ESC, BACKSLASH, ESC, CHR '']'', CHR ''2'']"
  have cmd: "plain_command ?cmd" using assms by (simp add: plain_command_def)
  have "(ESC # CHR '']'' # cmd @ [ESC, BACKSLASH]) @ osc_sequence ''2'' payload [BEL]
      = osc_sequence ?cmd payload [BEL]"
    by (simp add: osc_sequence_def)
  moreover have "?cmd \<notin> {''0'', ''2''}" by (cases cmd) simp_all
  ultimately show ?thesis
    using feed_osc_sequence [OF assms(1) cmd assms(4), of "[BEL]"]
    by (simp add: tracker_finish_def tracker_record_effects Let_def)
qed

theorem bare_terminator_swallows_title_witness:
  "trk_title (tracker_feed osc_tracker_new
    ((ESC # CHR '']'' # ''104'' @ [ESC, BACKSLASH]) @ osc_sequence ''2'' ''ok'' [BEL])) = None"
  using bare_terminator_swallows_title [of osc_tracker_new "''104''" "''ok''"]
  by (simp add: osc_tracker_new_def plain_command_def plain_payload_def MAX_OSC_BYTES_def)

end
