(* ===== verification/Control_Codec.thy ===== *)
theory Control_Codec
  imports Rust_Text
begin

text \<open>
  The bounded newline-delimited control codec (\<open>crates/worker-protocol/src/codec.rs\<close>).  JSON
  encoding and decoding are those of the crate \<open>serde_json\<close> and are parameters.  The input of a
  reader is the list of results its buffered stream gives to successive reads, so that a theorem
  over all lists covers every fragmentation; the answers of a writer's stream are the number of
  bytes each write accepts.
\<close>

section \<open>Data\<close>

definition MAX_CONTROL_LINE_BYTES :: nat where "MAX_CONTROL_LINE_BYTES = 1024 * 1024"

datatype codec_error =
    CodecIo
  | CodecJson
  | LineTooLong nat nat
  | PendingLine
  | InvalidCodecLimit nat nat

definition validate_limit :: "nat \<Rightarrow> (codec_error, unit) result" where
  "validate_limit maximum =
     (if maximum = 0 \<or> MAX_CONTROL_LINE_BYTES < maximum
      then Err (InvalidCodecLimit maximum MAX_CONTROL_LINE_BYTES) else Ok ())"

definition decode_line :: "(bytes \<Rightarrow> 'a option) \<Rightarrow> bytes \<Rightarrow> (codec_error, 'a) result" where
  "decode_line dec bs = (case dec bs of None \<Rightarrow> Err CodecJson | Some v \<Rightarrow> Ok v)"

text \<open>\<open>Result::map(Some)\<close>.\<close>

definition ok_some :: "('e, 'a) result \<Rightarrow> ('e, 'a option) result" where
  "ok_some r = (case r of Inl e \<Rightarrow> Err e | Inr v \<Rightarrow> Ok (Some v))"

section \<open>Reader\<close>

text \<open>What a read of the underlying stream gives: bytes (none at the end of the stream) or an error.\<close>

datatype read_item = Data bytes | ReadError

record control_reader =
  cr_inner :: "read_item list"
  cr_buffer :: bytes
  cr_maximum :: nat

definition control_reader_new :: "read_item list \<Rightarrow> control_reader" where
  "control_reader_new inner = \<lparr>cr_inner = inner, cr_buffer = [], cr_maximum = MAX_CONTROL_LINE_BYTES\<rparr>"

definition control_reader_with_maximum :: "read_item list \<Rightarrow> nat \<Rightarrow> (codec_error, control_reader) result" where
  "control_reader_with_maximum inner maximum =
     (case validate_limit maximum of
        Inl e \<Rightarrow> Err e
      | Inr u \<Rightarrow> Ok \<lparr>cr_inner = inner, cr_buffer = [], cr_maximum = maximum\<rparr>)"

text \<open>\<open>fill_buf\<close>: the buffered bytes if there are any, else the next read; an empty result is the end.\<close>

definition fill_buf :: "read_item list \<Rightarrow> read_item \<times> read_item list" where
  "fill_buf inner = (case inner of [] \<Rightarrow> (Data [], []) | x # xs \<Rightarrow> (x, xs))"

definition position_newline :: "bytes \<Rightarrow> nat option" where
  "position_newline bs =
     (let n = length (takeWhile (\<lambda>b. b \<noteq> CHR 0x0A) bs) in if n < length bs then Some n else None)"

definition unread :: "bytes \<Rightarrow> read_item list \<Rightarrow> read_item list" where
  "unread bs xs = (if bs = [] then xs else Data bs # xs)"

definition strip_cr :: "bytes \<Rightarrow> bytes" where
  "strip_cr bs = (if bs \<noteq> [] \<and> last bs = CHR 0x0D then butlast bs else bs)"

text \<open>One iteration of the loop of \<open>ControlReader::read\<close>; \<^const>\<open>None\<close> continues the loop.\<close>

definition control_read_step ::
  "(bytes \<Rightarrow> 'a option) \<Rightarrow> control_reader \<Rightarrow> control_reader \<times> (codec_error, 'a option) result option" where
  "control_read_step dec r =
     (case fill_buf (cr_inner r) of
        (ReadError, rest) \<Rightarrow> (r\<lparr>cr_inner := rest, cr_buffer := []\<rparr>, Some (Err CodecIo))
      | (Data available, rest) \<Rightarrow>
          if available = []
          then (r\<lparr>cr_inner := rest, cr_buffer := []\<rparr>,
                Some (if cr_buffer r = [] then Ok None
                      else ok_some (decode_line dec (cr_buffer r))))
          else
            (case position_newline available of
               Some newline \<Rightarrow>
                 (let line_length = u64_saturating_add (length (cr_buffer r)) newline in
                  if cr_maximum r < line_length
                  then (r\<lparr>cr_buffer := []\<rparr>, Some (Err (LineTooLong line_length (cr_maximum r))))
                  else
                    (let line = strip_cr (cr_buffer r @ take newline available) in
                     (r\<lparr>cr_inner := unread (drop (newline + 1) available) rest, cr_buffer := []\<rparr>,
                      Some (ok_some (decode_line dec line)))))
             | None \<Rightarrow>
                 (let line_length = u64_saturating_add (length (cr_buffer r)) (length available) in
                  if cr_maximum r < line_length
                  then (r\<lparr>cr_buffer := []\<rparr>, Some (Err (LineTooLong line_length (cr_maximum r))))
                  else (r\<lparr>cr_inner := rest, cr_buffer := cr_buffer r @ available\<rparr>, None))))"

lemma control_read_step_shrinks:
  "control_read_step dec r = (r', None) \<Longrightarrow> length (cr_inner r') < length (cr_inner r)"
  by (auto simp: control_read_step_def fill_buf_def Let_def
      split: list.splits read_item.splits option.splits if_splits)

function control_read ::
  "(bytes \<Rightarrow> 'a option) \<Rightarrow> control_reader \<Rightarrow> control_reader \<times> (codec_error, 'a option) result" where
  "control_read dec r =
     (case control_read_step dec r of
        (r', Some res) \<Rightarrow> (r', res)
      | (r', None) \<Rightarrow> control_read dec r')"
  by pat_completeness auto
termination
  by (relation "measure (\<lambda>(dec, r). length (cr_inner r))")
     (auto dest: control_read_step_shrinks [OF sym])

declare control_read.simps [simp del]

section \<open>Writer\<close>

record control_writer =
  cw_accepted :: bytes
  cw_buffer :: bytes
  cw_maximum :: nat
  cw_written :: nat
  cw_pending :: bool

definition control_writer_new :: control_writer where
  "control_writer_new =
     \<lparr>cw_accepted = [], cw_buffer = [], cw_maximum = MAX_CONTROL_LINE_BYTES, cw_written = 0,
      cw_pending = False\<rparr>"

definition control_writer_with_maximum :: "nat \<Rightarrow> (codec_error, control_writer) result" where
  "control_writer_with_maximum maximum =
     (case validate_limit maximum of
        Inl e \<Rightarrow> Err e
      | Inr u \<Rightarrow> Ok \<lparr>cw_accepted = [], cw_buffer = [], cw_maximum = maximum, cw_written = 0, cw_pending = False\<rparr>)"

definition writer_discard_pending :: "control_writer \<Rightarrow> control_writer" where
  "writer_discard_pending w = w\<lparr>cw_buffer := [], cw_written := 0, cw_pending := False\<rparr>"

definition writer_encode ::
  "('a \<Rightarrow> bytes option) \<Rightarrow> control_writer \<Rightarrow> 'a \<Rightarrow> control_writer \<times> (codec_error, unit) result" where
  "writer_encode enc w v =
     (case enc v of
        None \<Rightarrow> (w\<lparr>cw_buffer := []\<rparr>, Err CodecJson)
      | Some js \<Rightarrow>
          if cw_maximum w < length js
          then (w\<lparr>cw_buffer := []\<rparr>, Err (LineTooLong (length js) (cw_maximum w)))
          else (w\<lparr>cw_buffer := js @ [CHR 0x0A]\<rparr>, Ok ()))"

definition writer_queue ::
  "('a \<Rightarrow> bytes option) \<Rightarrow> control_writer \<Rightarrow> 'a \<Rightarrow> control_writer \<times> (codec_error, unit) result" where
  "writer_queue enc w v =
     (if cw_pending w then (w, Err PendingLine)
      else case writer_encode enc w v of
             (w', Inl e) \<Rightarrow> (w', Err e)
           | (w', Inr u) \<Rightarrow> (w'\<lparr>cw_written := 0, cw_pending := True\<rparr>, Ok ()))"

text \<open>
  One write of the pending line; the answer is the number of accepted bytes, at most those offered,
  or \<^const>\<open>None\<close> for a failed write.
\<close>

definition writer_write_pending :: "control_writer \<Rightarrow> nat option \<Rightarrow> control_writer \<times> (codec_error, unit) result" where
  "writer_write_pending w answer =
     (if \<not> cw_pending w then (w, Ok ())
      else
        (case answer of
           None \<Rightarrow> (writer_discard_pending w, Err CodecIo)
         | Some n \<Rightarrow>
             (let offered = drop (cw_written w) (cw_buffer w); count = min n (length offered) in
              if count = 0 then (writer_discard_pending w, Err CodecIo)
              else
                (let w' = w\<lparr>cw_accepted := cw_accepted w @ take count offered,
                            cw_written := cw_written w + count\<rparr> in
                 (if cw_written w' = length (cw_buffer w') then writer_discard_pending w' else w', Ok ())))))"

text \<open>The loop that completes the pending line; the third component is \<^const>\<open>None\<close> while it waits.\<close>

fun writer_flush_pending ::
  "control_writer \<Rightarrow> nat option list \<Rightarrow> control_writer \<times> nat option list \<times> (codec_error, unit) result option" where
  "writer_flush_pending w answers =
     (if \<not> cw_pending w then (w, answers, Some (Ok ()))
      else
        (case answers of
           [] \<Rightarrow> (w, [], None)
         | a # rest \<Rightarrow>
             (case writer_write_pending w a of
                (w', Inl e) \<Rightarrow> (w', rest, Some (Err e))
              | (w', Inr u) \<Rightarrow> writer_flush_pending w' rest)))"

declare writer_flush_pending.simps [simp del]

text \<open>\<open>write_all\<close> of the async library: writes until everything is accepted; accepting nothing fails.\<close>

fun write_all :: "bytes \<Rightarrow> bytes \<Rightarrow> nat option list \<Rightarrow> bytes \<times> nat option list \<times> (codec_error, unit) result option" where
  "write_all accepted bs answers =
     (if bs = [] then (accepted, answers, Some (Ok ()))
      else
        (case answers of
           [] \<Rightarrow> (accepted, [], None)
         | None # rest \<Rightarrow> (accepted, rest, Some (Err CodecIo))
         | Some n # rest \<Rightarrow>
             (let count = min n (length bs) in
              if count = 0 then (accepted, rest, Some (Err CodecIo))
              else write_all (accepted @ take count bs) (drop count bs) rest)))"

declare write_all.simps [simp del]

definition writer_write ::
  "('a \<Rightarrow> bytes option) \<Rightarrow> control_writer \<Rightarrow> 'a \<Rightarrow> nat option list
     \<Rightarrow> control_writer \<times> nat option list \<times> (codec_error, unit) result option" where
  "writer_write enc w v answers =
     (case writer_flush_pending w answers of
        (w1, rest, None) \<Rightarrow> (w1, rest, None)
      | (w1, rest, Some (Inl e)) \<Rightarrow> (w1, rest, Some (Err e))
      | (w1, rest, Some (Inr u)) \<Rightarrow>
          (case writer_encode enc w1 v of
             (w2, Inl e) \<Rightarrow> (w2, rest, Some (Err e))
           | (w2, Inr u) \<Rightarrow>
               (case write_all (cw_accepted w2) (cw_buffer w2) rest of
                  (accepted, rest', res) \<Rightarrow> (w2\<lparr>cw_accepted := accepted, cw_buffer := []\<rparr>, rest', res))))"

section \<open>Reading a line under any fragmentation\<close>

abbreviation NL :: byte where "NL \<equiv> CHR 0x0A"

lemma position_newline_None: "position_newline bs = None \<longleftrightarrow> NL \<notin> set bs"
  by (induction bs) (auto simp: position_newline_def Let_def)

lemma position_newline_split: "NL \<notin> set xs \<Longrightarrow> position_newline (xs @ NL # ys) = Some (length xs)"
  by (subst position_newline_def, subst takeWhile_append2) (auto simp: Let_def)

text \<open>The bytes of fragments that are all present: no fragment is empty and no read fails.\<close>

definition fragments :: "read_item list \<Rightarrow> bytes list \<Rightarrow> bool" where
  "fragments inner frags \<longleftrightarrow> inner = map Data frags \<and> [] \<notin> set frags"

lemma fragments_unread:
  "[] \<notin> set frags \<Longrightarrow> fragments (unread bs (map Data frags)) (if bs = [] then frags else bs # frags)"
  by (simp add: fragments_def unread_def)

lemma control_read_line_from:
  assumes "fragments (cr_inner r) frags" and "cr_buffer r @ concat frags = line @ NL # rest"
    and "NL \<notin> set (cr_buffer r)" and "NL \<notin> set line"
    and "length line \<le> cr_maximum r" and "cr_maximum r \<le> u64_max"
  shows "\<exists>r' frags'. control_read dec r = (r', ok_some (decode_line dec (strip_cr line))) \<and>
    fragments (cr_inner r') frags' \<and> concat frags' = rest \<and> cr_buffer r' = [] \<and> cr_maximum r' = cr_maximum r"
  using assms
proof (induction frags arbitrary: r)
  case Nil
  have "NL \<in> set (line @ NL # rest)" by simp
  then show ?case using Nil by (metis append_Nil2 concat.simps(1))
next
  case (Cons f frags)
  have inner: "cr_inner r = Data f # map Data frags" and ne: "f \<noteq> []" "[] \<notin> set frags"
    using Cons.prems(1) by (auto simp: fragments_def)
  show ?case
  proof (cases "NL \<in> set f")
    case False
    let ?r = "r\<lparr>cr_inner := map Data frags, cr_buffer := cr_buffer r @ f\<rparr>"
    have eq: "(cr_buffer r @ f) @ concat frags = line @ NL # rest" using Cons.prems(2) by simp
    have nb: "NL \<notin> set (cr_buffer r @ f)" using Cons.prems(3) False by simp
    have "length (cr_buffer r @ f) \<le> length line"
    proof (rule ccontr)
      assume "\<not> ?thesis"
      then have "length line < length (cr_buffer r @ f)" by simp
      then have "(cr_buffer r @ f) ! length line = NL"
        using arg_cong [OF eq, of "\<lambda>xs. xs ! length line"] by (simp add: nth_append del: append_assoc)
      then show False using nb \<open>length line < length (cr_buffer r @ f)\<close> by (metis nth_mem)
    qed
    then have "control_read_step dec r = (?r, None)"
      using inner ne False Cons.prems(5,6)
      by (simp add: control_read_step_def fill_buf_def position_newline_None [THEN iffD2] Let_def)
    then have "control_read dec r = control_read dec ?r" by (simp add: control_read.simps [of dec r])
    moreover have "fragments (cr_inner ?r) frags" using ne by (simp add: fragments_def)
    ultimately show ?thesis
      using Cons.IH [of ?r] eq nb Cons.prems(4-6) by simp
  next
    case True
    then obtain xs ys where f: "f = xs @ NL # ys" and xs: "NL \<notin> set xs" by (meson split_list_first)
    have "(cr_buffer r @ xs) @ NL # (ys @ concat frags) = line @ NL # rest" using Cons.prems(2) f by simp
    then have line: "cr_buffer r @ xs = line" "ys @ concat frags = rest"
      using xs Cons.prems(3,4) by (auto simp: append_eq_append_conv2 append_eq_Cons_conv Cons_eq_append_conv)
    let ?r = "r\<lparr>cr_inner := unread ys (map Data frags), cr_buffer := []\<rparr>"
    have "control_read_step dec r = (?r, Some (ok_some (decode_line dec (strip_cr line))))"
      using inner ne f xs line(1) Cons.prems(5,6)
      by (auto simp: control_read_step_def fill_buf_def position_newline_split Let_def)
    then have "control_read dec r = (?r, ok_some (decode_line dec (strip_cr line)))"
      by (simp add: control_read.simps [of dec r])
    then show ?thesis
      using fragments_unread [OF ne(2), of ys] line(2)
      by (intro exI [of _ ?r] exI [of _ "if ys = [] then frags else ys # frags"]) auto
  qed
qed

lemma control_read_end:
  assumes "cr_inner r = []" and "cr_buffer r = []"
  shows "control_read dec r = (r, Ok None)"
  using assms by (simp add: control_read.simps [of dec r] control_read_step_def fill_buf_def)

section \<open>Reading back what was written\<close>

text \<open>
  What the codec relies on of \<open>serde_json\<close>: compact output contains no line break, since control
  characters inside strings are escaped, it does not end with a carriage return, and it decodes to
  the encoded value.
\<close>

definition json_codec :: "('a \<Rightarrow> bytes option) \<Rightarrow> (bytes \<Rightarrow> 'a option) \<Rightarrow> bool" where
  "json_codec enc dec \<longleftrightarrow>
     (\<forall>v js. enc v = Some js \<longrightarrow> dec js = Some v \<and> NL \<notin> set js \<and> (js \<noteq> [] \<longrightarrow> last js \<noteq> CHR 0x0D))"

fun control_read_all ::
  "(bytes \<Rightarrow> 'a option) \<Rightarrow> nat \<Rightarrow> control_reader \<Rightarrow> control_reader \<times> (codec_error, 'a option) result list" where
  "control_read_all dec 0 r = (r, [])"
| "control_read_all dec (Suc n) r =
     (case control_read dec r of (r', res) \<Rightarrow>
        (case control_read_all dec n r' of (r'', results) \<Rightarrow> (r'', res # results)))"

definition control_lines :: "('a \<Rightarrow> bytes option) \<Rightarrow> 'a list \<Rightarrow> bytes" where
  "control_lines enc vs = concat (map (\<lambda>v. (case enc v of None \<Rightarrow> [] | Some js \<Rightarrow> js @ [NL])) vs)"

lemma control_read_all_lines:
  assumes "json_codec enc dec" and "\<forall>v \<in> set vs. \<exists>js. enc v = Some js \<and> length js \<le> cr_maximum r"
    and "cr_maximum r \<le> u64_max" and "fragments (cr_inner r) frags" and "cr_buffer r = []"
    and "concat frags = control_lines enc vs @ rest"
  shows "\<exists>r' frags'. control_read_all dec (length vs) r = (r', map (\<lambda>v. Ok (Some v)) vs) \<and>
    fragments (cr_inner r') frags' \<and> concat frags' = rest \<and> cr_buffer r' = []"
  using assms
proof (induction vs arbitrary: r frags)
  case Nil
  then show ?case by (auto simp: control_lines_def)
next
  case (Cons v vs)
  obtain js where js: "enc v = Some js" "length js \<le> cr_maximum r" using Cons.prems(2) by auto
  then have c: "dec js = Some v" "NL \<notin> set js" "strip_cr js = js"
    using Cons.prems(1) by (auto simp: json_codec_def strip_cr_def)
  have eq: "cr_buffer r @ concat frags = js @ NL # (control_lines enc vs @ rest)"
    using Cons.prems(5,6) js by (simp add: control_lines_def)
  from control_read_line_from [OF Cons.prems(4) eq _ c(2) js(2) Cons.prems(3), of dec]
  obtain r1 frags1 where r1: "control_read dec r = (r1, ok_some (decode_line dec js))"
    "fragments (cr_inner r1) frags1" "concat frags1 = control_lines enc vs @ rest" "cr_buffer r1 = []"
    "cr_maximum r1 = cr_maximum r"
    using Cons.prems(5) c(3) by auto
  have "\<forall>v \<in> set vs. \<exists>js. enc v = Some js \<and> length js \<le> cr_maximum r1"
    using Cons.prems(2) r1(5) by simp
  from Cons.IH [OF Cons.prems(1) this _ r1(2,4,3)] Cons.prems(3) r1(5)
  obtain r' frags' where "control_read_all dec (length vs) r1 = (r', map (\<lambda>v. Ok (Some v)) vs)"
    "fragments (cr_inner r') frags'" "concat frags' = rest" "cr_buffer r' = []" by auto
  then show ?case using r1(1) c(1) by (auto simp: decode_line_def ok_some_def)
qed

section \<open>Lines never interleave\<close>

text \<open>The lines of the values accepted so far are what the stream took plus what is still pending.\<close>

definition pending_rest :: "control_writer \<Rightarrow> bytes" where
  "pending_rest w = (if cw_pending w then drop (cw_written w) (cw_buffer w) else [])"

definition writer_inv :: "bytes \<Rightarrow> control_writer \<Rightarrow> bool" where
  "writer_inv L w \<longleftrightarrow>
     cw_accepted w @ pending_rest w = L \<and> (cw_pending w \<longrightarrow> cw_written w < length (cw_buffer w))"

lemma writer_encode_fields:
  "writer_encode enc w v = (w', res) \<Longrightarrow>
     cw_accepted w' = cw_accepted w \<and> cw_pending w' = cw_pending w \<and> cw_written w' = cw_written w \<and>
     cw_maximum w' = cw_maximum w \<and>
     (res = Ok () \<longrightarrow> (\<exists>js. enc v = Some js \<and> length js \<le> cw_maximum w \<and> cw_buffer w' = js @ [NL]))"
  by (auto simp: writer_encode_def split: option.splits if_splits)

lemma writer_queue_inv:
  assumes inv: "writer_inv L w" and q: "writer_queue enc w v = (w', res)"
  shows "case res of Inr u \<Rightarrow> writer_inv (L @ control_lines enc [v]) w' | Inl e \<Rightarrow> writer_inv L w'"
proof (cases "cw_pending w")
  case True
  then show ?thesis using assms by (auto simp: writer_queue_def)
next
  case False
  obtain w1 r1 where e: "writer_encode enc w v = (w1, r1)" by (cases "writer_encode enc w v")
  note f = writer_encode_fields [OF e]
  show ?thesis
    using q e f inv False
    by (cases r1) (auto simp: writer_queue_def writer_inv_def pending_rest_def control_lines_def)
qed

lemma take_drop_join: "take k (drop m xs) @ drop (m + k) xs = drop m xs"
  by (metis append_take_drop_id add.commute drop_drop)

lemma writer_write_pending_inv:
  assumes inv: "writer_inv L w" and p: "writer_write_pending w a = (w', Inr u)"
  shows "writer_inv L w'"
proof (cases "cw_pending w")
  case False
  then show ?thesis using assms by (simp add: writer_write_pending_def)
next
  case True
  let ?off = "drop (cw_written w) (cw_buffer w)"
  from p True obtain n where a: "a = Some n" and c: "min n (length ?off) \<noteq> 0"
    by (auto simp: writer_write_pending_def Let_def split: option.splits if_splits)
  let ?k = "min n (length ?off)"
  have split: "take ?k ?off @ drop ?k ?off = ?off" by (rule append_take_drop_id)
  show ?thesis
  proof (cases "cw_written w + ?k = length (cw_buffer w)")
    case full: True
    then have "drop ?k ?off = []" by simp
    then have "take ?k ?off = ?off" using split by (metis append_Nil2)
    then show ?thesis
      using p True a c full inv
      by (auto simp: writer_write_pending_def writer_inv_def pending_rest_def writer_discard_pending_def Let_def)
  next
    case False
    have "cw_written w + ?k < length (cw_buffer w)"
      using False inv True by (auto simp: writer_inv_def)
    then show ?thesis
      using p True a c False inv
      by (auto simp: writer_write_pending_def writer_inv_def pending_rest_def Let_def take_drop_join)
  qed
qed

lemma writer_flush_pending_inv:
  "writer_inv L w \<Longrightarrow> writer_flush_pending w answers = (w', rest, Some (Inr u)) \<Longrightarrow>
     writer_inv L w' \<and> \<not> cw_pending w'"
proof (induction answers arbitrary: w)
  case Nil
  then show ?case by (auto simp: writer_flush_pending.simps [of w "[]"] split: if_splits)
next
  case (Cons a answers)
  show ?case
  proof (cases "cw_pending w")
    case False
    then show ?thesis using Cons.prems by (auto simp: writer_flush_pending.simps [of w "a # answers"])
  next
    case True
    obtain w1 r1 where p: "writer_write_pending w a = (w1, r1)" by (cases "writer_write_pending w a")
    with Cons.prems(2) True obtain u1 where r1: "r1 = Inr u1"
      and flush: "writer_flush_pending w1 answers = (w', rest, Some (Inr u))"
      by (auto simp: writer_flush_pending.simps [of w "a # answers"] split: sum.splits)
    from Cons.IH [OF writer_write_pending_inv [OF Cons.prems(1)] flush] p r1 show ?thesis by simp
  qed
qed

lemma write_all_ok: "write_all accepted bs answers = (accepted', rest, Some (Inr u)) \<Longrightarrow> accepted' = accepted @ bs"
proof (induction accepted bs answers rule: write_all.induct)
  case (1 accepted bs answers)
  show ?case
  proof (cases "bs = []")
    case True
    then show ?thesis using "1.prems" by (simp add: write_all.simps)
  next
    case False
    then obtain n rest1 where a: "answers = Some n # rest1" and k: "min n (length bs) \<noteq> 0"
      and w: "write_all (accepted @ take (min n (length bs)) bs) (drop (min n (length bs)) bs) rest1 = (accepted', rest, Some (Inr u))"
      using "1.prems"
      by (auto simp: write_all.simps [of accepted bs answers] Let_def split: list.splits option.splits if_splits)
    from "1.IH" [OF False a _ refl k w] show ?thesis by simp
  qed
qed

text \<open>
  A sequence of writer calls.  The result is the accepted values while no call failed on the stream
  and none was abandoned in the middle of a direct write.
\<close>

datatype 'a writer_op = WQueue 'a | WPending "nat option" | WWrite 'a "nat option list"

fun writer_run ::
  "('a \<Rightarrow> bytes option) \<Rightarrow> control_writer \<Rightarrow> 'a list \<Rightarrow> 'a writer_op list \<Rightarrow> (control_writer \<times> 'a list) option" where
  "writer_run enc w vs [] = Some (w, vs)"
| "writer_run enc w vs (WQueue v # ops) =
     (case writer_queue enc w v of
        (w', Inl e) \<Rightarrow> writer_run enc w' vs ops
      | (w', Inr u) \<Rightarrow> writer_run enc w' (vs @ [v]) ops)"
| "writer_run enc w vs (WPending a # ops) =
     (case writer_write_pending w a of
        (w', Inl e) \<Rightarrow> None
      | (w', Inr u) \<Rightarrow> writer_run enc w' vs ops)"
| "writer_run enc w vs (WWrite v answers # ops) =
     (case writer_write enc w v answers of
        (w', rest, Some (Inr u)) \<Rightarrow> writer_run enc w' (vs @ [v]) ops
      | (w', rest, Some (Inl e)) \<Rightarrow> None
      | (w', rest, None) \<Rightarrow> None)"

lemma control_lines_snoc: "control_lines enc (vs @ [v]) = control_lines enc vs @ control_lines enc [v]"
  by (simp add: control_lines_def)

lemma writer_write_inv:
  assumes inv: "writer_inv L w" and p: "writer_write enc w v answers = (w', rest, Some (Inr u))"
  shows "writer_inv (L @ control_lines enc [v]) w'"
proof -
  obtain w1 rest1 u1 where f: "writer_flush_pending w answers = (w1, rest1, Some (Inr u1))"
    using p by (auto simp: writer_write_def split: prod.splits option.splits sum.splits)
  have i1: "writer_inv L w1" "\<not> cw_pending w1" using writer_flush_pending_inv [OF inv f] by auto
  obtain w2 u2 where e: "writer_encode enc w1 v = (w2, Inr u2)"
    using p f by (auto simp: writer_write_def split: prod.splits option.splits sum.splits)
  note ef = writer_encode_fields [OF e]
  obtain acc where w: "write_all (cw_accepted w2) (cw_buffer w2) rest1 = (acc, rest, Some (Inr u))"
    "w' = w2\<lparr>cw_accepted := acc, cw_buffer := []\<rparr>"
    using p f e by (auto simp: writer_write_def split: prod.splits)
  show ?thesis
    using i1 ef write_all_ok [OF w(1)] w(2)
    by (auto simp: writer_inv_def pending_rest_def control_lines_def)
qed

lemma writer_run_inv:
  assumes "writer_inv (control_lines enc vs) w" and "writer_run enc w vs ops = Some (w', vs')"
  shows "writer_inv (control_lines enc vs') w'"
  using assms
proof (induction enc w vs ops rule: writer_run.induct)
  case (2 enc w vs v ops)
  obtain w1 r where q: "writer_queue enc w v = (w1, r)" by (cases "writer_queue enc w v")
  show ?case
    using "2.IH" [OF q [symmetric]] "2.prems" q writer_queue_inv [OF "2.prems"(1) q]
    by (cases r) (simp_all add: control_lines_snoc)
next
  case (3 enc w vs a ops)
  obtain w1 r where q: "writer_write_pending w a = (w1, r)" by (cases "writer_write_pending w a")
  show ?case
    using "3.IH" [OF q [symmetric]] "3.prems" q writer_write_pending_inv [OF "3.prems"(1)]
    by (cases r) simp_all
next
  case (4 enc w vs v answers ops)
  obtain w1 rest r where q: "writer_write enc w v answers = (w1, rest, r)" by (cases "writer_write enc w v answers")
  with "4.prems"(2) obtain u where r: "r = Some (Inr u)" by (auto split: option.splits sum.splits)
  have "writer_inv (control_lines enc (vs @ [v])) w1"
    using writer_write_inv [OF "4.prems"(1)] q r by (simp add: control_lines_snoc)
  then show ?case using "4.IH" [OF q [symmetric] _ r] "4.prems" q r by simp
qed simp

section \<open>Properties\<close>

text \<open>
  C39.  What one side writes the other side reads: after any sequence of queued lines, partial writes
  and direct writes that did not fail on the stream and left no line pending, a reader whose input
  is any fragmentation of the accepted bytes returns exactly the accepted values in order and then
  the end of the stream.
\<close>

theorem control_stream_roundtrip:
  assumes "json_codec enc dec" and "control_writer_with_maximum m = Ok w0" and "m \<le> u64_max"
    and "writer_run enc w0 [] ops = Some (w, vs)" and "\<not> cw_pending w"
    and "\<forall>v \<in> set vs. \<exists>js. enc v = Some js \<and> length js \<le> m"
    and "control_reader_with_maximum (map Data frags) m = Ok r" and "[] \<notin> set frags"
    and "concat frags = cw_accepted w"
  shows "snd (control_read_all dec (length vs + 1) r) = map (\<lambda>v. Ok (Some v)) vs @ [Ok None]"
proof -
  have w0: "writer_inv (control_lines enc []) w0"
    using assms(2) by (auto simp: control_writer_with_maximum_def validate_limit_def writer_inv_def
        pending_rest_def control_lines_def split: if_splits)
  have acc: "cw_accepted w = control_lines enc vs"
    using writer_run_inv [OF w0 assms(4)] assms(5) by (simp add: writer_inv_def pending_rest_def)
  have r: "cr_inner r = map Data frags" "cr_buffer r = []" "cr_maximum r = m"
    using assms(7) by (auto simp: control_reader_with_maximum_def split: sum.splits)
  obtain r' frags' where all: "control_read_all dec (length vs) r = (r', map (\<lambda>v. Ok (Some v)) vs)"
    "fragments (cr_inner r') frags'" "concat frags' = []" "cr_buffer r' = []"
    using control_read_all_lines [of enc dec vs r frags "[]"] assms acc r by (auto simp: fragments_def)
  then have "cr_inner r' = []" by (cases frags') (auto simp: fragments_def)
  then have fin: "control_read dec r' = (r', Ok None)" using control_read_end all(4) by blast
  have "control_read_all dec (n + k) x = (let (y, a) = control_read_all dec n x; (z, b) = control_read_all dec k y in (z, a @ b))"
    for n k x
    by (induction n arbitrary: x) (auto split: prod.splits)
  from this [of "length vs" 1 r] all(1) fin show ?thesis by simp
qed

definition bool_enc :: "bool \<Rightarrow> bytes option" where
  "bool_enc b = Some (if b then ''true'' else ''false'')"

definition bool_dec :: "bytes \<Rightarrow> bool option" where
  "bool_dec bs = (if bs = ''true'' then Some True else if bs = ''false'' then Some False else None)"

theorem control_stream_roundtrip_witness:
  "snd (control_read_all bool_dec 3
     \<lparr>cr_inner = [Data ''tr'', Data (''ue'' @ [NL] @ ''fal''), Data (''se'' @ [NL])], cr_buffer = [], cr_maximum = 64\<rparr>)
   = [Ok (Some True), Ok (Some False), Ok None]"
proof -
  let ?start = "\<lparr>cw_accepted = [], cw_buffer = [], cw_maximum = 64, cw_written = 0, cw_pending = False\<rparr> :: control_writer"
  let ?ops = "[WQueue True, WPending (Some 2), WWrite False [Some 9, Some 4, Some 9]] :: bool writer_op list"
  let ?fin = "\<lparr>cw_accepted = ''true'' @ [NL] @ ''false'' @ [NL], cw_buffer = [], cw_maximum = 64,
    cw_written = 0, cw_pending = False\<rparr> :: control_writer"
  have run: "writer_run bool_enc ?start [] ?ops = Some (?fin, [True, False])"
    by (simp add: writer_queue_def writer_encode_def bool_enc_def writer_write_pending_def writer_write_def
        writer_flush_pending.simps write_all.simps writer_discard_pending_def Let_def)
  have codec: "json_codec bool_enc bool_dec"
    by (auto simp: json_codec_def bool_enc_def bool_dec_def)
  show ?thesis
    using control_stream_roundtrip [OF codec _ _ run, of 64 "[''tr'', ''ue'' @ [NL] @ ''fal'', ''se'' @ [NL]]"]
    by (simp add: control_writer_with_maximum_def control_reader_with_maximum_def validate_limit_def
        MAX_CONTROL_LINE_BYTES_def u64_max_def bool_enc_def numeral_3_eq_3 del: control_read_all.simps)
qed

text \<open>
  C40.  After a line over the limit is reported, the part of it that was still unread is not
  discarded: the next read decodes that tail as a message of its own.
\<close>

theorem oversized_line_tail_is_read:
  assumes "0 < length a" and "length a \<le> cr_maximum r" and "cr_maximum r < length a + length b"
    and "length b \<le> cr_maximum r" and "cr_maximum r < u64_max" and "NL \<notin> set a" and "NL \<notin> set b"
    and "cr_inner r = [Data a, Data (b @ NL # rest)]" and "cr_buffer r = []"
  shows "snd (control_read_all dec 2 r) =
    [Err (LineTooLong (u64_saturating_add (length a) (length b)) (cr_maximum r)),
     ok_some (decode_line dec (strip_cr b))]"
proof -
  let ?r1 = "r\<lparr>cr_inner := [Data (b @ NL # rest)], cr_buffer := a\<rparr>"
  let ?r2 = "r\<lparr>cr_inner := [Data (b @ NL # rest)], cr_buffer := []\<rparr>"
  have "control_read_step dec r = (?r1, None)"
    using assms
    by (auto simp: control_read_step_def fill_buf_def position_newline_None [THEN iffD2] Let_def)
  moreover have "control_read_step dec ?r1 =
      (?r2, Some (Err (LineTooLong (u64_saturating_add (length a) (length b)) (cr_maximum r))))"
    using assms
    by (auto simp: control_read_step_def fill_buf_def position_newline_split Let_def u64_saturating_add_def)
  ultimately have first: "control_read dec r =
      (?r2, Err (LineTooLong (u64_saturating_add (length a) (length b)) (cr_maximum r)))"
    by (simp add: control_read.simps [of dec r] control_read.simps [of dec ?r1])
  have "snd (control_read dec ?r2) = ok_some (decode_line dec (strip_cr b))"
    using control_read_line_from [of ?r2 "[b @ NL # rest]" b rest dec] assms by (auto simp: fragments_def)
  with first show ?thesis by (simp add: numeral_2_eq_2 case_prod_unfold)
qed

theorem oversized_line_tail_is_read_witness:
  "snd (control_read_all bool_dec 2
     \<lparr>cr_inner = [Data ''xxx'', Data (''true'' @ NL # [])], cr_buffer = [], cr_maximum = 5\<rparr>)
   = [Err (LineTooLong 7 5), Ok (Some True)]"
  using oversized_line_tail_is_read [of "''xxx''"
      "\<lparr>cr_inner = [Data ''xxx'', Data (''true'' @ NL # [])], cr_buffer = [], cr_maximum = 5\<rparr>" "''true''" "[]" bool_dec]
  by (simp add: u64_max_def u64_saturating_add_def bool_dec_def decode_line_def ok_some_def strip_cr_def
      del: control_read_all.simps)

end
