(* ===== verification/Data_Frame.thy ===== *)
theory Data_Frame
  imports Worker_Identity Control_Codec
begin

text \<open>
  The binary framing of the worker's data sockets (\<open>crates/worker-protocol/src/data.rs\<close> and the
  message types it carries from \<open>control.rs\<close>).  The header's JSON is that of \<open>serde_json\<close> and is a
  parameter; the control errors a frame may carry are opaque to the framing and are the type
  parameter \<open>'e\<close>.
\<close>

section \<open>Data\<close>

definition MAX_DATA_HEADER_BYTES :: nat where "MAX_DATA_HEADER_BYTES = 256 * 1024"

definition MAX_DATA_PAYLOAD_BYTES :: nat where "MAX_DATA_PAYLOAD_BYTES = 1024 * 1024"

definition LENGTH_PREFIX_BYTES :: nat where "LENGTH_PREFIX_BYTES = 4"

record dimensions =
  dim_columns :: nat
  dim_rows :: nat

definition dimensions_new :: "nat \<Rightarrow> nat \<Rightarrow> dimensions option" where
  "dimensions_new columns rows =
     (if columns = 0 \<or> rows = 0 then None else Some \<lparr>dim_columns = columns, dim_rows = rows\<rparr>)"

record cursor =
  cursor_column :: nat
  cursor_row :: nat
  cursor_visible :: bool

record wire_terminal_snapshot =
  ws_watermark :: nat
  ws_dimensions :: dimensions
  ws_cursor :: cursor
  ws_alternate_screen :: bool
  ws_title :: "bytes option"
  ws_progress :: "bytes option"
  ws_visible_lines :: "bytes list"

datatype close_reason = Requested | RuntimeExited | SubscriberTooSlow | LeaseReleased | ObservationComplete

datatype stream_mode = Attach | Detector | Observation

record attach_start =
  attach_dimensions :: "dimensions option"

record output_gap =
  gap_missing_start :: nat
  gap_missing_end :: nat

record exit_status =
  exit_code :: "int option"
  exit_signal :: "int option"
  exit_stopped_by_user :: bool
  exit_exited_at_ms :: nat
  exit_output_forced_closed :: bool

datatype 'e frame_kind =
    FOpen ident stream_mode "nat option" "attach_start option"
  | FAttachReady dimensions
  | FReplay nat
  | FObservationStart nat nat nat nat "output_gap option" bool bool
  | FOutput nat
  | FTerminalSnapshot wire_terminal_snapshot
  | FGap nat nat nat
  | FInput ident
  | FInputAck ident nat
  | FExit exit_status
  | FError 'e
  | FClose close_reason

record 'e frame_header =
  fh_version :: version
  fh_stream_id :: ident
  fh_worker_instance_id :: ident
  fh_kind :: "'e frame_kind"

record 'e data_frame =
  df_header :: "'e frame_header"
  df_payload :: bytes

datatype frame_error =
    FrameIo
  | UnexpectedEof
  | HeaderTooLarge nat nat
  | PayloadTooLarge nat nat
  | InvalidHeader
  | PayloadRequired
  | UnexpectedPayload
  | FrameOffsetOverflow
  | InvalidGap nat nat nat
  | InvalidObservationOffsets

section \<open>Validation\<close>

definition validate_bytes_at :: "nat \<Rightarrow> bytes \<Rightarrow> (frame_error, unit) result" where
  "validate_bytes_at offset payload =
     (if payload = [] then Err PayloadRequired
      else case u64_try_from (length payload) of
             None \<Rightarrow> Err (PayloadTooLarge (length payload) MAX_DATA_PAYLOAD_BYTES)
           | Some n \<Rightarrow>
               (case u64_checked_add offset n of None \<Rightarrow> Err FrameOffsetOverflow | Some e \<Rightarrow> Ok ()))"

definition validate_observation ::
  "nat \<Rightarrow> nat \<Rightarrow> nat \<Rightarrow> nat \<Rightarrow> output_gap option \<Rightarrow> bool \<Rightarrow> bool \<Rightarrow> (frame_error, unit) result" where
  "validate_observation history_start start nxt runtime_end gap has_more timed_out =
     (let gap_valid =
            (case gap of None \<Rightarrow> True
             | Some g \<Rightarrow> gap_missing_start g < gap_missing_end g \<and> gap_missing_end g = history_start \<and>
                         start = history_start);
          pagination_valid = (has_more = (nxt < runtime_end));
          timeout_valid = (\<not> timed_out \<or> (start = nxt \<and> nxt = runtime_end))
      in if start < history_start \<or> nxt < start \<or> runtime_end < nxt \<or>
            \<not> gap_valid \<or> \<not> pagination_valid \<or> \<not> timeout_valid
         then Err InvalidObservationOffsets else Ok ())"

definition validate_payload :: "'e frame_kind \<Rightarrow> bytes \<Rightarrow> (frame_error, unit) result" where
  "validate_payload kind payload =
     (case kind of
        FReplay offset \<Rightarrow> validate_bytes_at offset payload
      | FOutput offset \<Rightarrow> validate_bytes_at offset payload
      | FTerminalSnapshot _ \<Rightarrow> if payload = [] then Err PayloadRequired else Ok ()
      | FInput _ \<Rightarrow> if payload = [] then Err PayloadRequired else Ok ()
      | FGap missing_start missing_end watermark \<Rightarrow>
          if payload \<noteq> [] then Err UnexpectedPayload
          else if missing_end \<le> missing_start \<or> watermark < missing_end
          then Err (InvalidGap missing_start missing_end watermark) else Ok ()
      | FObservationStart history_start start nxt runtime_end gap has_more timed_out \<Rightarrow>
          if payload \<noteq> [] then Err UnexpectedPayload
          else validate_observation history_start start nxt runtime_end gap has_more timed_out
      | FOpen _ _ _ _ \<Rightarrow> if payload \<noteq> [] then Err UnexpectedPayload else Ok ()
      | FAttachReady _ \<Rightarrow> if payload \<noteq> [] then Err UnexpectedPayload else Ok ()
      | FInputAck _ _ \<Rightarrow> if payload \<noteq> [] then Err UnexpectedPayload else Ok ()
      | FExit _ \<Rightarrow> if payload \<noteq> [] then Err UnexpectedPayload else Ok ()
      | FError _ \<Rightarrow> if payload \<noteq> [] then Err UnexpectedPayload else Ok ()
      | FClose _ \<Rightarrow> if payload \<noteq> [] then Err UnexpectedPayload else Ok ())"

definition data_frame_new :: "'e frame_header \<Rightarrow> bytes \<Rightarrow> (frame_error, 'e data_frame) result" where
  "data_frame_new header payload =
     (case validate_payload (fh_kind header) payload of
        Inl e \<Rightarrow> Err e
      | Inr u \<Rightarrow>
          if MAX_DATA_PAYLOAD_BYTES < length payload
          then Err (PayloadTooLarge (length payload) MAX_DATA_PAYLOAD_BYTES)
          else Ok \<lparr>df_header = header, df_payload = payload\<rparr>)"

section \<open>Length prefixes\<close>

definition u32_max :: nat where "u32_max = 4294967295"

definition be32 :: "nat \<Rightarrow> bytes" where
  "be32 n = [char_of (n div 16777216), char_of (n div 65536 mod 256), char_of (n div 256 mod 256),
             char_of (n mod 256)]"

definition from_be_bytes :: "bytes \<Rightarrow> nat" where
  "from_be_bytes bs = foldl (\<lambda>a b. a * 256 + of_char b) 0 bs"

lemma length_be32 [simp]: "length (be32 n) = 4"
  by (simp add: be32_def)

lemma from_be_be32:
  assumes "n \<le> u32_max"
  shows "from_be_bytes (be32 n) = n"
proof -
  have byte: "(of_char (char_of m :: char) :: nat) = m mod 256" for m :: nat
    by simp
  have small: "n div 16777216 mod 256 = n div 16777216"
    using assms by (simp add: u32_max_def)
  have "from_be_bytes (be32 n) =
      ((n div 16777216 * 256 + n div 65536 mod 256) * 256 + n div 256 mod 256) * 256 + n mod 256"
    by (simp add: from_be_bytes_def be32_def byte small)
  also have "\<dots> = ((n div 256 div 256 div 256 * 256 + n div 256 div 256 mod 256) * 256 + n div 256 mod 256) * 256 + n mod 256"
    by (simp flip: div_mult2_eq)
  also have "\<dots> = n" by (simp only: div_mult_mod_eq)
  finally show ?thesis .
qed

section \<open>Writing and reading frames\<close>

definition write_length :: "nat \<Rightarrow> (frame_error, bytes) result" where
  "write_length n = (if n \<le> u32_max then Ok (be32 n) else Err (PayloadTooLarge n u32_max))"

text \<open>The bytes \<open>write_frame\<close> hands to its writer, when the writer accepts all of them.\<close>

definition write_frame :: "('e frame_header \<Rightarrow> bytes option) \<Rightarrow> 'e data_frame \<Rightarrow> (frame_error, bytes) result" where
  "write_frame enc frame =
     (case validate_payload (fh_kind (df_header frame)) (df_payload frame) of
        Inl e \<Rightarrow> Err e
      | Inr u \<Rightarrow>
          (case enc (df_header frame) of
             None \<Rightarrow> Err InvalidHeader
           | Some header \<Rightarrow>
               if MAX_DATA_HEADER_BYTES < length header
               then Err (HeaderTooLarge (length header) MAX_DATA_HEADER_BYTES)
               else if MAX_DATA_PAYLOAD_BYTES < length (df_payload frame)
               then Err (PayloadTooLarge (length (df_payload frame)) MAX_DATA_PAYLOAD_BYTES)
               else
                 (case write_length (length header) of
                    Inl e \<Rightarrow> Err e
                  | Inr hl \<Rightarrow>
                      (case write_length (length (df_payload frame)) of
                         Inl e \<Rightarrow> Err e
                       | Inr pl \<Rightarrow> Ok (hl @ header @ pl @ df_payload frame)))))"

text \<open>One read into a buffer of \<open>n\<close> bytes: an empty result is the end of the stream.\<close>

definition read_some :: "nat \<Rightarrow> read_item list \<Rightarrow> (bytes \<times> read_item list) option" where
  "read_some n inner =
     (case inner of
        [] \<Rightarrow> Some ([], [])
      | ReadError # xs \<Rightarrow> None
      | Data bs # xs \<Rightarrow> Some (take n bs, unread (drop n bs) xs))"

text \<open>The read loop of \<open>read_length\<close> and of \<open>read_exact\<close>: until the buffer is full or the stream ends.\<close>

function read_upto :: "nat \<Rightarrow> read_item list \<Rightarrow> (bytes \<times> read_item list) option" where
  "read_upto n inner =
     (if n = 0 then Some ([], inner)
      else case read_some n inner of
             None \<Rightarrow> None
           | Some (bs, rest) \<Rightarrow>
               if bs = [] then Some ([], rest)
               else (case read_upto (n - length bs) rest of
                       None \<Rightarrow> None
                     | Some (bs', rest') \<Rightarrow> Some (bs @ bs', rest')))"
  by pat_completeness auto
termination
  by (relation "measure fst") auto

declare read_upto.simps [simp del]

definition read_length :: "read_item list \<Rightarrow> (frame_error, nat option \<times> read_item list) result" where
  "read_length inner =
     (case read_upto LENGTH_PREFIX_BYTES inner of
        None \<Rightarrow> Err FrameIo
      | Some (bs, rest) \<Rightarrow>
          if length bs = LENGTH_PREFIX_BYTES then Ok (Some (from_be_bytes bs), rest)
          else if bs = [] then Ok (None, rest)
          else Err UnexpectedEof)"

definition read_required_length :: "read_item list \<Rightarrow> (frame_error, nat \<times> read_item list) result" where
  "read_required_length inner =
     (case read_length inner of
        Inl e \<Rightarrow> Err e
      | Inr (None, rest) \<Rightarrow> Err UnexpectedEof
      | Inr (Some n, rest) \<Rightarrow> Ok (n, rest))"

definition read_exact_frame :: "nat \<Rightarrow> read_item list \<Rightarrow> (frame_error, bytes \<times> read_item list) result" where
  "read_exact_frame n inner =
     (case read_upto n inner of
        None \<Rightarrow> Err FrameIo
      | Some (bs, rest) \<Rightarrow> if length bs = n then Ok (bs, rest) else Err UnexpectedEof)"

text \<open>The stages of \<open>read_frame\<close> after its header length, and after its header.\<close>

definition read_frame_payload ::
  "'e frame_header \<Rightarrow> read_item list \<Rightarrow> (frame_error, 'e data_frame option \<times> read_item list) result" where
  "read_frame_payload header inner =
     (case read_required_length inner of
        Inl e \<Rightarrow> Err e
      | Inr (payload_length, rest) \<Rightarrow>
          if MAX_DATA_PAYLOAD_BYTES < payload_length
          then Err (PayloadTooLarge payload_length MAX_DATA_PAYLOAD_BYTES)
          else
            (case read_exact_frame payload_length rest of
               Inl e \<Rightarrow> Err e
             | Inr (payload, rest') \<Rightarrow>
                 (case data_frame_new header payload of
                    Inl e \<Rightarrow> Err e
                  | Inr frame \<Rightarrow> Ok (Some frame, rest'))))"

definition read_frame_body ::
  "(bytes \<Rightarrow> 'e frame_header option) \<Rightarrow> nat \<Rightarrow> read_item list \<Rightarrow> (frame_error, 'e data_frame option \<times> read_item list) result" where
  "read_frame_body dec header_length inner =
     (case read_exact_frame header_length inner of
        Inl e \<Rightarrow> Err e
      | Inr (header_bytes, rest) \<Rightarrow>
          (case dec header_bytes of
             None \<Rightarrow> Err InvalidHeader
           | Some header \<Rightarrow> read_frame_payload header rest))"

definition read_frame ::
  "(bytes \<Rightarrow> 'e frame_header option) \<Rightarrow> read_item list \<Rightarrow> (frame_error, 'e data_frame option \<times> read_item list) result" where
  "read_frame dec inner =
     (case read_length inner of
        Inl e \<Rightarrow> Err e
      | Inr (None, rest) \<Rightarrow> Ok (None, rest)
      | Inr (Some header_length, rest) \<Rightarrow>
          if MAX_DATA_HEADER_BYTES < header_length
          then Err (HeaderTooLarge header_length MAX_DATA_HEADER_BYTES)
          else read_frame_body dec header_length rest)"

section \<open>Reading a byte stream under any fragmentation\<close>

definition stream :: "read_item list \<Rightarrow> bytes \<Rightarrow> bool" where
  "stream inner bs \<longleftrightarrow> (\<exists>frags. fragments inner frags \<and> concat frags = bs)"

lemma stream_unread: "stream inner bs \<Longrightarrow> stream (unread xs inner) (xs @ bs)"
  unfolding stream_def fragments_def unread_def
  by (metis (no_types, lifting) append_Nil concat.simps(2) list.simps(9) set_ConsD)

lemma stream_Nil: "stream [] bs \<longleftrightarrow> bs = []"
  by (auto simp: stream_def fragments_def)

lemma stream_Cons:
  assumes "stream (x # xs) bs"
  obtains f rest where "x = Data f" "f \<noteq> []" "stream xs rest" "bs = f @ rest"
proof -
  from assms obtain frags where fr: "map Data frags = x # xs" "[] \<notin> set frags" "concat frags = bs"
    unfolding stream_def fragments_def by metis
  then obtain f fs where "frags = f # fs" by (cases frags) auto
  with fr have "x = Data f" "f \<noteq> []" "stream xs (concat fs)" "bs = f @ concat fs"
    by (auto simp: stream_def fragments_def)
  then show ?thesis by (rule that)
qed

lemma read_some_stream:
  assumes "stream inner bs" and "0 < n" and "bs \<noteq> []"
  obtains xs ys rest where "read_some n inner = Some (xs, rest)" "xs \<noteq> []" "length xs \<le> n" "bs = xs @ ys"
    "stream rest ys"
proof (cases inner)
  case Nil
  then show ?thesis using assms by (simp add: stream_Nil)
next
  case (Cons x inner')
  obtain f rest where f: "x = Data f" "f \<noteq> []" "stream inner' rest" "bs = f @ rest"
    using stream_Cons assms(1) Cons by blast
  show ?thesis
  proof (rule that)
    show "read_some n inner = Some (take n f, unread (drop n f) inner')"
      using Cons f(1) by (simp add: read_some_def)
    show "take n f \<noteq> []" using f(2) assms(2) by simp
    show "length (take n f) \<le> n" by simp
    show "bs = take n f @ (drop n f @ rest)" using f(4) by simp
    show "stream (unread (drop n f) inner') (drop n f @ rest)" using stream_unread [OF f(3)] .
  qed
qed

lemma read_upto_stream:
  "stream inner bs \<Longrightarrow> \<exists>rest. read_upto n inner = Some (take n bs, rest) \<and> stream rest (drop n bs)"
proof (induction n arbitrary: inner bs rule: less_induct)
  case (less n)
  show ?case
  proof (cases "n = 0 \<or> bs = []")
    case True
    have "inner = []" if "bs = []"
      using less.prems that by (cases inner) (auto elim!: stream_Cons)
    then show ?thesis
      using True less.prems by (auto simp: read_upto.simps [of n] read_some_def stream_Nil)
  next
    case False
    then have "0 < n" "bs \<noteq> []" by auto
    then obtain xs ys rest where x: "read_some n inner = Some (xs, rest)" "xs \<noteq> []" "length xs \<le> n"
      "bs = xs @ ys" "stream rest ys"
      using read_some_stream [OF less.prems] by metis
    have "n - length xs < n" using x(2) False by simp
    from less.IH [OF this x(5)] obtain rest' where
      "read_upto (n - length xs) rest = Some (take (n - length xs) ys, rest')" "stream rest' (drop (n - length xs) ys)"
      by blast
    then show ?thesis using False x by (simp add: read_upto.simps [of n])
  qed
qed

lemma read_length_stream:
  assumes "stream inner (be32 n @ bs)" and "n \<le> u32_max"
  shows "\<exists>rest. read_length inner = Ok (Some n, rest) \<and> stream rest bs"
  using read_upto_stream [OF assms(1), of LENGTH_PREFIX_BYTES] from_be_be32 [OF assms(2)]
  by (auto simp: read_length_def LENGTH_PREFIX_BYTES_def)

lemma read_required_length_stream:
  assumes "stream inner (be32 n @ bs)" and "n \<le> u32_max"
  shows "\<exists>rest. read_required_length inner = Ok (n, rest) \<and> stream rest bs"
  using read_length_stream [OF assms] by (auto simp: read_required_length_def)

lemma read_exact_stream:
  assumes "stream inner (xs @ bs)"
  shows "\<exists>rest. read_exact_frame (length xs) inner = Ok (xs, rest) \<and> stream rest bs"
  using read_upto_stream [OF assms, of "length xs"] by (auto simp: read_exact_frame_def)

lemma read_exact_short:
  assumes "stream inner bs" and "length bs < n"
  shows "read_exact_frame n inner = Err UnexpectedEof"
  using read_upto_stream [OF assms(1), of n] assms(2) by (auto simp: read_exact_frame_def)

lemma read_required_length_short:
  assumes "stream inner bs" and "length bs < 4"
  shows "read_required_length inner = Err UnexpectedEof"
  using read_upto_stream [OF assms(1), of LENGTH_PREFIX_BYTES] assms(2)
  by (auto simp: read_required_length_def read_length_def LENGTH_PREFIX_BYTES_def)

lemma data_frame_new_ok:
  "data_frame_new h p = Inr f \<longleftrightarrow>
     validate_payload (fh_kind h) p = Ok () \<and> length p \<le> MAX_DATA_PAYLOAD_BYTES \<and>
     f = \<lparr>df_header = h, df_payload = p\<rparr>"
  by (auto simp: data_frame_new_def split: sum.splits)

lemma write_frame_ok:
  assumes "data_frame_new h p = Inr f"
  shows "write_frame enc f = Inr bs \<longleftrightarrow>
    (\<exists>hb. enc h = Some hb \<and> length hb \<le> MAX_DATA_HEADER_BYTES \<and> bs = be32 (length hb) @ hb @ be32 (length p) @ p)"
  using assms
  by (auto simp: data_frame_new_ok write_frame_def write_length_def MAX_DATA_HEADER_BYTES_def
      MAX_DATA_PAYLOAD_BYTES_def u32_max_def split: option.splits)

lemma frame_lengths_fit:
  "n \<le> MAX_DATA_HEADER_BYTES \<Longrightarrow> n \<le> u32_max" "n \<le> MAX_DATA_PAYLOAD_BYTES \<Longrightarrow> n \<le> u32_max"
  by (simp_all add: MAX_DATA_HEADER_BYTES_def MAX_DATA_PAYLOAD_BYTES_def u32_max_def)

lemma read_frame_header:
  assumes "stream inner (be32 (length hb) @ hb @ tail)" and "length hb \<le> MAX_DATA_HEADER_BYTES"
    and "dec hb = Some h"
  shows "\<exists>rest. stream rest tail \<and> read_frame dec inner = read_frame_payload h rest"
proof -
  obtain r1 where r1: "read_length inner = Ok (Some (length hb), r1)" "stream r1 (hb @ tail)"
    using read_length_stream [OF assms(1) frame_lengths_fit(1) [OF assms(2)]] by blast
  obtain r2 where r2: "read_exact_frame (length hb) r1 = Ok (hb, r2)" "stream r2 tail"
    using read_exact_stream [OF r1(2)] by blast
  show ?thesis using r1(1) r2 assms(2,3) by (auto simp: read_frame_def read_frame_body_def not_less)
qed

lemma read_written_frame:
  assumes "data_frame_new h p = Ok f" and "write_frame enc f = Ok bs"
    and "\<And>hb. enc h = Some hb \<Longrightarrow> dec hb = Some h" and "stream inner (bs @ later)"
  shows "\<exists>rest. read_frame dec inner = Ok (Some f, rest) \<and> stream rest later"
proof -
  obtain hb where hb: "enc h = Some hb" "length hb \<le> MAX_DATA_HEADER_BYTES"
    and bs: "bs = be32 (length hb) @ hb @ be32 (length p) @ p"
    using assms(2) write_frame_ok [OF assms(1)] by blast
  have f: "length p \<le> MAX_DATA_PAYLOAD_BYTES" using assms(1) by (simp add: data_frame_new_ok)
  obtain r2 where r2: "stream r2 (be32 (length p) @ p @ later)" "read_frame dec inner = read_frame_payload h r2"
    using read_frame_header [of inner hb "be32 (length p) @ p @ later"] assms(3,4) bs hb by auto
  obtain r3 where r3: "read_required_length r2 = Ok (length p, r3)" "stream r3 (p @ later)"
    using read_required_length_stream [OF r2(1) frame_lengths_fit(2) [OF f]] by blast
  obtain r4 where r4: "read_exact_frame (length p) r3 = Ok (p, r4)" "stream r4 later"
    using read_exact_stream [OF r3(2)] by blast
  show ?thesis using r2(2) r3(1) r4 f assms(1) by (simp add: read_frame_payload_def not_less)
qed

section \<open>Properties\<close>

text \<open>
  A frame that was created and written is read back: whatever the fragmentation of the bytes,
  reading returns exactly the frame and leaves exactly the bytes after it.
\<close>

theorem frame_roundtrip:
  assumes "data_frame_new h p = Ok f" and "write_frame enc f = Ok bs"
    and "\<And>hb. enc h = Some hb \<Longrightarrow> dec hb = Some h" and "stream inner (bs @ later)"
  shows "\<exists>rest. read_frame dec inner = Ok (Some f, rest) \<and> stream rest later"
  using assms by (rule read_written_frame)

definition demo_header :: "unit frame_header" where
  "demo_header = \<lparr>fh_version = CURRENT_VERSION, fh_stream_id = ''s'', fh_worker_instance_id = ''r'', fh_kind = FOutput 7\<rparr>"

abbreviation demo_enc :: "unit frame_header \<Rightarrow> bytes option" where
  "demo_enc \<equiv> \<lambda>h. if h = demo_header then Some ''h'' else None"

abbreviation demo_dec :: "bytes \<Rightarrow> unit frame_header option" where
  "demo_dec \<equiv> \<lambda>hb. if hb = ''h'' then Some demo_header else None"

abbreviation demo_wire :: bytes where
  "demo_wire \<equiv> be32 1 @ ''h'' @ be32 2 @ ''ab''"

lemma demo_frame: "data_frame_new demo_header ''ab'' = Ok \<lparr>df_header = demo_header, df_payload = ''ab''\<rparr>"
  by (simp add: data_frame_new_def validate_payload_def demo_header_def validate_bytes_at_def u64_max_def
      MAX_DATA_PAYLOAD_BYTES_def)

lemma demo_write: "write_frame demo_enc \<lparr>df_header = demo_header, df_payload = ''ab''\<rparr> = Ok demo_wire"
  using write_frame_ok [OF demo_frame, of demo_enc demo_wire] by (simp add: MAX_DATA_HEADER_BYTES_def numeral_2_eq_2)

lemma stream_single: "bs \<noteq> [] \<Longrightarrow> stream [Data bs] bs"
  unfolding stream_def fragments_def by (intro exI [of _ "[bs]"]) simp

theorem frame_roundtrip_witness:
  "\<exists>rest. read_frame demo_dec [Data demo_wire] = Ok (Some \<lparr>df_header = demo_header, df_payload = ''ab''\<rparr>, rest) \<and>
     stream rest []"
proof -
  have "stream [Data demo_wire] (demo_wire @ [])" using stream_single [of demo_wire] by simp
  from frame_roundtrip [OF demo_frame demo_write _ this, of demo_dec] show ?thesis by simp
qed

text \<open>
  A frame cut off anywhere is never mistaken for a frame: with no byte the stream is at its
  clean end, and with some but not all bytes the read reports an unexpected end.
\<close>

theorem truncated_frame_rejected:
  assumes "data_frame_new h p = Ok f" and "write_frame enc f = Ok bs"
    and "\<And>hb. enc h = Some hb \<Longrightarrow> dec hb = Some h" and "stream inner (take n bs)" and "n < length bs"
  shows "if n = 0 then (\<exists>rest. read_frame dec inner = Ok (None, rest)) else read_frame dec inner = Err UnexpectedEof"
proof -
  obtain hb where hb: "enc h = Some hb" "length hb \<le> MAX_DATA_HEADER_BYTES"
    and bs: "bs = be32 (length hb) @ hb @ be32 (length p) @ p"
    using assms(2) write_frame_ok [OF assms(1)] by blast
  have dec: "dec hb = Some h" by (rule assms(3) [OF hb(1)])
  have p: "length p \<le> MAX_DATA_PAYLOAD_BYTES" using assms(1) by (simp add: data_frame_new_ok)
  consider (len) "n < 4" | (header) "4 \<le> n" "n < 4 + length hb"
    | (plen) "4 + length hb \<le> n" "n < 8 + length hb" | (payload) "8 + length hb \<le> n" by linarith
  then show ?thesis
  proof cases
    case len
    then show ?thesis
      using read_upto_stream [OF assms(4), of LENGTH_PREFIX_BYTES] assms(5)
      by (auto simp: read_frame_def read_length_def LENGTH_PREFIX_BYTES_def)
  next
    case header
    then have "take n bs = be32 (length hb) @ take (n - 4) hb" by (simp add: bs)
    then obtain r1 where r1: "read_length inner = Ok (Some (length hb), r1)" "stream r1 (take (n - 4) hb)"
      using read_length_stream [of inner "length hb"] assms(4) frame_lengths_fit(1) [OF hb(2)] by auto
    then show ?thesis
      using read_exact_short [OF r1(2), of "length hb"] header hb(2)
      by (simp add: read_frame_def read_frame_body_def not_less)
  next
    case plen
    then have "take n bs = be32 (length hb) @ hb @ take (n - 4 - length hb) (be32 (length p))" by (simp add: bs)
    then obtain r2 where "stream r2 (take (n - 4 - length hb) (be32 (length p)))"
      "read_frame dec inner = read_frame_payload h r2"
      using read_frame_header [of inner hb _ dec h] assms(4) hb(2) dec by auto
    then show ?thesis
      using read_required_length_short plen by (simp add: read_frame_payload_def)
  next
    case payload
    then have "take n bs = be32 (length hb) @ hb @ be32 (length p) @ take (n - 8 - length hb) p" by (simp add: bs)
    then obtain r2 where r2: "stream r2 (be32 (length p) @ take (n - 8 - length hb) p)"
      "read_frame dec inner = read_frame_payload h r2"
      using read_frame_header [of inner hb _ dec h] assms(4) hb(2) dec by auto
    obtain r3 where r3: "read_required_length r2 = Ok (length p, r3)" "stream r3 (take (n - 8 - length hb) p)"
      using read_required_length_stream [OF r2(1) frame_lengths_fit(2) [OF p]] by blast
    have "length (take (n - 8 - length hb) p) < length p" using payload assms(5) bs by simp
    from read_exact_short [OF r3(2) this] show ?thesis
      using payload r2(2) r3(1) p by (simp add: read_frame_payload_def not_less)
  qed
qed

theorem truncated_frame_rejected_witness:
  "read_frame demo_dec [Data (take 10 demo_wire)] = Err UnexpectedEof"
proof -
  have "stream [Data (take 10 demo_wire)] (take 10 demo_wire)" by (rule stream_single) (simp add: be32_def)
  from truncated_frame_rejected [OF demo_frame demo_write _ this, of demo_dec] show ?thesis by simp
qed

text \<open>
  Every frame the reader returns is valid, whatever bytes arrive: its header is within the
  header limit as encoded, its payload is within the payload limit and is present exactly for the
  kinds that carry bytes, and its offsets are consistent for its kind.
\<close>

theorem read_frames_valid:
  assumes "read_frame dec inner = Ok (Some f, rest)"
  shows "validate_payload (fh_kind (df_header f)) (df_payload f) = Ok () \<and>
    length (df_payload f) \<le> MAX_DATA_PAYLOAD_BYTES \<and>
    (\<exists>hb. dec hb = Some (df_header f) \<and> length hb \<le> MAX_DATA_HEADER_BYTES)"
proof -
  obtain n rest0 where n: "read_frame_body dec n rest0 = Ok (Some f, rest)" "n \<le> MAX_DATA_HEADER_BYTES"
    using assms by (auto simp: read_frame_def not_less split: sum.splits prod.splits option.splits if_splits)
  then obtain hb rest1 h where h: "read_exact_frame n rest0 = Inr (hb, rest1)" "dec hb = Some h"
    "read_frame_payload h rest1 = Ok (Some f, rest)"
    by (auto simp: read_frame_body_def split: sum.splits prod.splits option.splits)
  then obtain p where "data_frame_new h p = Inr f"
    by (auto simp: read_frame_payload_def split: sum.splits prod.splits if_splits)
  then show ?thesis
    using h n by (auto simp: data_frame_new_ok read_exact_frame_def split: option.splits if_splits)
qed

theorem read_frames_valid_witness:
  "\<exists>rest. read_frame demo_dec [Data demo_wire] = Ok (Some \<lparr>df_header = demo_header, df_payload = ''ab''\<rparr>, rest) \<and>
     validate_payload (fh_kind demo_header) ''ab'' = Ok ()"
proof -
  have "stream [Data demo_wire] (be32 (length ''h'') @ ''h'' @ be32 2 @ ''ab'')" using stream_single [of demo_wire] by simp
  from read_frame_header [OF this, of demo_dec demo_header]
  obtain r2 where r2: "stream r2 (be32 2 @ ''ab'')" "read_frame demo_dec [Data demo_wire] = read_frame_payload demo_header r2"
    by (auto simp: MAX_DATA_HEADER_BYTES_def)
  obtain r3 where r3: "read_required_length r2 = Ok (2, r3)" "stream r3 (''ab'' @ [])"
    using read_required_length_stream [OF r2(1)] by (auto simp: u32_max_def)
  obtain r4 where "read_exact_frame 2 r3 = Ok (''ab'', r4)"
    using read_exact_stream [OF r3(2)] by (auto simp: numeral_2_eq_2)
  then have "read_frame demo_dec [Data demo_wire] = Ok (Some \<lparr>df_header = demo_header, df_payload = ''ab''\<rparr>, r4)"
    using r2(2) r3(1) demo_frame by (simp add: read_frame_payload_def MAX_DATA_PAYLOAD_BYTES_def)
  with read_frames_valid [OF this] show ?thesis by auto
qed

end
