(* ===== verification/Output_Queue.thy ===== *)
theory Output_Queue
  imports Output_Ring Osc_Tracker Data_Frame
begin

text \<open>
  The bounded queue between the output hub and one subscriber
  (\<open>crates/session-worker/src/output.rs\<close>, \<open>SubscriberQueue\<close>, \<open>SubscriberState\<close>, \<open>ReplayCursor\<close>,
  \<open>SnapshotCursor\<close>, \<open>OutputEvent\<close>).  A queue holds at most one recovery cursor (a replay of
  retained history or a terminal repaint) followed by live events.  The specification is a viewer
  that consumes events and accepts one only when it continues the stream exactly.
\<close>

section \<open>Data\<close>

record terminal_chunk =
  tc_terminal :: terminal_snapshot
  tc_offset :: nat
  tc_total_bytes :: nat
  tc_bytes :: bytes

datatype output_event =
    Replay output_chunk
  | Output output_chunk
  | Gap "nat \<times> nat" nat
  | TerminalSnapshot terminal_chunk
  | Exit nat

datatype output_completion = Eof nat | ForcedClosed nat

definition completion_next_offset :: "output_completion \<Rightarrow> nat" where
  "completion_next_offset c = (case c of Eof n \<Rightarrow> n | ForcedClosed n \<Rightarrow> n)"

definition payload_bytes :: "output_event \<Rightarrow> nat" where
  "payload_bytes e =
     (case e of
        Replay c \<Rightarrow> length (chunk_bytes c)
      | Output c \<Rightarrow> length (chunk_bytes c)
      | TerminalSnapshot tc \<Rightarrow> length (tc_bytes tc)
      | Gap _ _ \<Rightarrow> 0
      | Exit _ \<Rightarrow> 0)"

definition event_next_offset :: "output_event \<Rightarrow> nat" where
  "event_next_offset e =
     (case e of
        Replay c \<Rightarrow> chunk_end c
      | Output c \<Rightarrow> chunk_end c
      | Gap _ watermark \<Rightarrow> watermark
      | TerminalSnapshot tc \<Rightarrow> ts_watermark (tc_terminal tc)
      | Exit n \<Rightarrow> n)"

datatype queue_seed =
    SeedReplay "nat \<times> nat"
  | SeedGap "nat \<times> nat" terminal_snapshot
  | SeedSnapshot terminal_snapshot

record replay_cursor =
  rc_next :: nat
  rc_end :: nat
  rc_empty_pending :: bool

record snapshot_cursor =
  sc_missing :: "nat \<times> nat"
  sc_terminal :: terminal_snapshot
  sc_gap_pending :: bool
  sc_next :: nat

record subscriber_state =
  sub_replay :: "replay_cursor option"
  sub_snapshot :: "snapshot_cursor option"
  sub_events :: "output_event list"
  sub_queued_bytes :: nat
  sub_expected_offset :: nat
  sub_closed :: bool

record subscriber_queue =
  q_limit :: nat
  q_event_limit :: nat
  q_state :: subscriber_state

section \<open>Operations\<close>

text \<open>\<open>Range::is_empty\<close> is \<open>end \<le> start\<close>.\<close>

definition replay_cursor_new :: "nat \<times> nat \<Rightarrow> replay_cursor" where
  "replay_cursor_new r = \<lparr>rc_next = fst r, rc_end = snd r, rc_empty_pending = (snd r \<le> fst r)\<rparr>"

definition snapshot_cursor_new :: "nat \<times> nat \<Rightarrow> terminal_snapshot \<Rightarrow> snapshot_cursor" where
  "snapshot_cursor_new missing terminal =
     \<lparr>sc_missing = missing, sc_terminal = terminal, sc_gap_pending = True, sc_next = 0\<rparr>"

definition snapshot_cursor_without_gap :: "terminal_snapshot \<Rightarrow> snapshot_cursor" where
  "snapshot_cursor_without_gap terminal =
     \<lparr>sc_missing = (ts_watermark terminal, ts_watermark terminal), sc_terminal = terminal,
      sc_gap_pending = False, sc_next = 0\<rparr>"

definition queue_new :: "nat \<Rightarrow> queue_seed \<Rightarrow> subscriber_queue" where
  "queue_new limit seed =
     (let expected = (case seed of
            SeedReplay r \<Rightarrow> fst r
          | SeedGap missing _ \<Rightarrow> fst missing
          | SeedSnapshot terminal \<Rightarrow> ts_watermark terminal);
          (replay, snapshot) = (case seed of
            SeedReplay r \<Rightarrow> (Some (replay_cursor_new r), None)
          | SeedGap missing terminal \<Rightarrow> (None, Some (snapshot_cursor_new missing terminal))
          | SeedSnapshot terminal \<Rightarrow> (None, Some (snapshot_cursor_without_gap terminal)))
      in \<lparr>q_limit = limit, q_event_limit = min MAX_DATA_PAYLOAD_BYTES limit,
          q_state = \<lparr>sub_replay = replay, sub_snapshot = snapshot, sub_events = [],
                     sub_queued_bytes = 0, sub_expected_offset = expected, sub_closed = False\<rparr>\<rparr>)"

definition queue_push_output :: "subscriber_queue \<Rightarrow> output_chunk \<Rightarrow> terminal_snapshot \<Rightarrow> subscriber_queue" where
  "queue_push_output q chunk terminal =
     (let s = q_state q; required = length (chunk_bytes chunk) in
      q\<lparr>q_state :=
        (if q_limit q < u64_saturating_add (sub_queued_bytes s) required
         then s\<lparr>sub_replay := None,
                sub_snapshot := Some (snapshot_cursor_new
                  (sub_expected_offset s, ts_watermark terminal) terminal),
                sub_events := [], sub_queued_bytes := 0\<rparr>
         else s\<lparr>sub_queued_bytes := sub_queued_bytes s + required,
                sub_events := sub_events s @ [Output chunk]\<rparr>)\<rparr>)"

definition queue_push_terminal :: "subscriber_queue \<Rightarrow> nat \<Rightarrow> subscriber_queue" where
  "queue_push_terminal q next_offset =
     (let s = q_state q in
      q\<lparr>q_state := s\<lparr>sub_events := sub_events s @ [Exit next_offset], sub_closed := True\<rparr>\<rparr>)"

text \<open>
  \<open>SubscriberState::next_event\<close>, in the three stages of its body: the replay cursor, the repaint
  cursor, the queued events.  Of the hub it reads the ring and the current terminal snapshot.
\<close>

definition next_queued :: "subscriber_state \<Rightarrow> subscriber_state \<times> output_event option" where
  "next_queued s =
     (case sub_events s of
        [] \<Rightarrow> (s, None)
      | e # es \<Rightarrow>
          (s\<lparr>sub_events := es, sub_queued_bytes := sub_queued_bytes s - payload_bytes e,
             sub_expected_offset := event_next_offset e\<rparr>, Some e))"

definition next_repaint :: "subscriber_state \<Rightarrow> nat \<Rightarrow> subscriber_state \<times> output_event option" where
  "next_repaint s event_limit =
     (case sub_snapshot s of
        None \<Rightarrow> next_queued s
      | Some sc \<Rightarrow>
          (let ansi = ts_ansi (sc_terminal sc) in
           if sc_gap_pending sc
           then (s\<lparr>sub_snapshot := Some (sc\<lparr>sc_gap_pending := False\<rparr>),
                   sub_expected_offset := ts_watermark (sc_terminal sc)\<rparr>,
                 Some (Gap (sc_missing sc) (ts_watermark (sc_terminal sc))))
           else if sc_next sc < length ansi
           then (let fin = min (u64_saturating_add (sc_next sc) event_limit) (length ansi);
                     event = TerminalSnapshot
                       \<lparr>tc_terminal = sc_terminal sc, tc_offset = sc_next sc,
                        tc_total_bytes = length ansi, tc_bytes = slice ansi (sc_next sc) fin\<rparr>
                 in (s\<lparr>sub_snapshot :=
                        (if fin = length ansi then None else Some (sc\<lparr>sc_next := fin\<rparr>))\<rparr>,
                     Some event))
           else next_queued (s\<lparr>sub_snapshot := None\<rparr>)))"

definition next_event ::
  "subscriber_state \<Rightarrow> output_ring \<Rightarrow> terminal_snapshot \<Rightarrow> nat \<Rightarrow> subscriber_state \<times> output_event option" where
  "next_event s ring terminal event_limit =
     (case sub_replay s of
        None \<Rightarrow> next_repaint s event_limit
      | Some rc \<Rightarrow>
          if rc_empty_pending rc
          then (s\<lparr>sub_replay := None\<rparr>, Some (Replay \<lparr>chunk_offset = rc_next rc, chunk_bytes = []\<rparr>))
          else
            (case ring_chunk ring (rc_next rc) (rc_end rc) event_limit of
               Some chunk \<Rightarrow>
                 (let nxt = chunk_end chunk in
                  (s\<lparr>sub_replay := (if nxt = rc_end rc then None else Some (rc\<lparr>rc_next := nxt\<rparr>)),
                     sub_expected_offset := nxt\<rparr>,
                   Some (Replay chunk)))
             | None \<Rightarrow>
                 next_repaint
                   (s\<lparr>sub_replay := None,
                      sub_snapshot := Some (snapshot_cursor_new
                        (sub_expected_offset s, ring_next_offset ring) terminal),
                      sub_events := [], sub_queued_bytes := 0\<rparr>)
                   event_limit))"

section \<open>What a queue holds of the history\<close>

text \<open>
  A terminal snapshot is good for a history when its watermark is inside it and its title and
  progress are those of the output up to the watermark.
\<close>

definition snap_ok :: "bytes \<Rightarrow> terminal_snapshot \<Rightarrow> bool" where
  "snap_ok H t \<longleftrightarrow>
     ts_watermark t \<le> length H \<and> ts_ansi t \<noteq> [] \<and> length (ts_ansi t) \<le> u64_max \<and>
     ts_title t = trk_title (tracker_feed osc_tracker_new (take (ts_watermark t) H)) \<and>
     ts_progress t = trk_progress (tracker_feed osc_tracker_new (take (ts_watermark t) H))"

text \<open>Queued events carry the history from an offset to its end, and nothing follows an exit.\<close>

fun live_events :: "bytes \<Rightarrow> nat \<Rightarrow> output_event list \<Rightarrow> bool" where
  "live_events H pos [] \<longleftrightarrow> pos = length H"
| "live_events H pos (Output c # es) \<longleftrightarrow>
     chunk_offset c = pos \<and> chunk_bytes c \<noteq> [] \<and> pos + length (chunk_bytes c) \<le> length H \<and>
     chunk_bytes c = slice H pos (pos + length (chunk_bytes c)) \<and>
     live_events H (pos + length (chunk_bytes c)) es"
| "live_events H pos (Exit n # es) \<longleftrightarrow> n = pos \<and> pos = length H \<and> es = []"
| "live_events H pos (Replay c # es) \<longleftrightarrow> False"
| "live_events H pos (Gap m w # es) \<longleftrightarrow> False"
| "live_events H pos (TerminalSnapshot tc # es) \<longleftrightarrow> False"

definition cursor_inv :: "bytes \<Rightarrow> subscriber_state \<Rightarrow> bool" where
  "cursor_inv H s \<longleftrightarrow>
     (case sub_replay s of
        Some rc \<Rightarrow>
          sub_snapshot s = None \<and> rc_next rc = sub_expected_offset s \<and> rc_next rc \<le> rc_end rc \<and>
          rc_end rc \<le> length H \<and> rc_empty_pending rc = (rc_next rc = rc_end rc)
      | None \<Rightarrow>
          (case sub_snapshot s of
             Some sc \<Rightarrow>
               snap_ok H (sc_terminal sc) \<and> sc_next sc < length (ts_ansi (sc_terminal sc)) \<and>
               (if sc_gap_pending sc
                then sc_missing sc = (sub_expected_offset s, ts_watermark (sc_terminal sc)) \<and>
                     sub_expected_offset s < ts_watermark (sc_terminal sc) \<and> sc_next sc = 0
                else sub_expected_offset s = ts_watermark (sc_terminal sc))
           | None \<Rightarrow> True))"

definition resume_offset :: "subscriber_state \<Rightarrow> nat" where
  "resume_offset s =
     (case sub_replay s of
        Some rc \<Rightarrow> rc_end rc
      | None \<Rightarrow> (case sub_snapshot s of Some sc \<Rightarrow> ts_watermark (sc_terminal sc)
                 | None \<Rightarrow> sub_expected_offset s))"

definition exit_free :: "output_event list \<Rightarrow> bool" where
  "exit_free es \<longleftrightarrow> (\<forall>n. Exit n \<notin> set es)"

definition state_inv :: "bytes \<Rightarrow> nat \<Rightarrow> subscriber_state \<Rightarrow> bool" where
  "state_inv H limit s \<longleftrightarrow>
     sub_expected_offset s \<le> length H \<and> cursor_inv H s \<and>
     live_events H (resume_offset s) (sub_events s) \<and>
     sub_queued_bytes s = sum_list (map payload_bytes (sub_events s)) \<and> sub_queued_bytes s \<le> limit \<and>
     (sub_closed s \<or> exit_free (sub_events s))"

definition queue_inv :: "bytes \<Rightarrow> nat \<Rightarrow> subscriber_queue \<Rightarrow> bool" where
  "queue_inv H limit q \<longleftrightarrow>
     q_limit q = limit \<and> 0 < limit \<and> q_event_limit q = min MAX_DATA_PAYLOAD_BYTES limit \<and>
     state_inv H limit (q_state q)"

lemma snap_ok_append: "snap_ok H t \<Longrightarrow> snap_ok (H @ bs) t"
  by (simp add: snap_ok_def)

lemma payload_simps [simp]:
  "payload_bytes (Replay c) = length (chunk_bytes c)"
  "payload_bytes (Output c) = length (chunk_bytes c)"
  "payload_bytes (Gap m w) = 0"
  "payload_bytes (Exit n) = 0"
  "payload_bytes (TerminalSnapshot tc) = length (tc_bytes tc)"
  by (simp_all add: payload_bytes_def)

lemma live_events_sum:
  "live_events H pos es \<Longrightarrow> pos + sum_list (map payload_bytes es) = length H"
  by (induction H pos es rule: live_events.induct) auto

lemma live_events_snoc:
  assumes "live_events H pos es" and "exit_free es" and "bs \<noteq> []"
  shows "live_events (H @ bs) pos (es @ [Output \<lparr>chunk_offset = length H, chunk_bytes = bs\<rparr>])"
  using assms
  by (induction H pos es rule: live_events.induct) (auto simp: slice_simps exit_free_def)

lemma live_events_exit:
  "live_events H pos es \<Longrightarrow> exit_free es \<Longrightarrow> live_events H pos (es @ [Exit (length H)])"
  by (induction H pos es rule: live_events.induct) (auto simp: exit_free_def)

lemma exit_free_simps [simp]:
  "exit_free []" "exit_free (Output c # es) = exit_free es" "\<not> exit_free (Exit n # es)"
  "exit_free (es @ [Output c]) = exit_free es"
  by (auto simp: exit_free_def)

lemma cursor_inv_append: "cursor_inv H s \<Longrightarrow> cursor_inv (H @ bs) s"
  by (auto simp: cursor_inv_def snap_ok_append split: option.splits)

lemma cursor_frame [simp]:
  "cursor_inv H (s\<lparr>sub_events := es\<rparr>) = cursor_inv H s"
  "cursor_inv H (s\<lparr>sub_queued_bytes := n\<rparr>) = cursor_inv H s"
  "cursor_inv H (s\<lparr>sub_closed := c\<rparr>) = cursor_inv H s"
  "resume_offset (s\<lparr>sub_events := es\<rparr>) = resume_offset s"
  "resume_offset (s\<lparr>sub_queued_bytes := n\<rparr>) = resume_offset s"
  "resume_offset (s\<lparr>sub_closed := c\<rparr>) = resume_offset s"
  by (simp_all add: cursor_inv_def resume_offset_def split: option.splits)

section \<open>Every operation keeps the queue invariant\<close>

lemma queue_new_inv:
  assumes "0 < limit"
    and "case seed of
           SeedReplay r \<Rightarrow> fst r \<le> snd r \<and> snd r = length H
         | SeedGap m t \<Rightarrow> snap_ok H t \<and> ts_watermark t = length H \<and> snd m = length H \<and> fst m < length H
         | SeedSnapshot t \<Rightarrow> snap_ok H t \<and> ts_watermark t = length H"
  shows "queue_inv H limit (queue_new limit seed)"
  using assms
  by (cases seed)
     (auto simp: queue_inv_def queue_new_def state_inv_def cursor_inv_def resume_offset_def
        replay_cursor_new_def snapshot_cursor_new_def snapshot_cursor_without_gap_def snap_ok_def)

lemma queue_push_output_inv:
  assumes inv: "queue_inv H limit q" and opened: "\<not> sub_closed (q_state q)" and ne: "bs \<noteq> []"
    and fits: "length (H @ bs) \<le> u64_max"
    and t: "snap_ok (H @ bs) t" "ts_watermark t = length (H @ bs)"
  shows "queue_inv (H @ bs) limit (queue_push_output q \<lparr>chunk_offset = length H, chunk_bytes = bs\<rparr> t)"
proof -
  let ?s = "q_state q"
  have live: "live_events H (resume_offset ?s) (sub_events ?s)" and free: "exit_free (sub_events ?s)"
    and sum: "sub_queued_bytes ?s = sum_list (map payload_bytes (sub_events ?s))"
    and cur: "cursor_inv H ?s" and exp: "sub_expected_offset ?s \<le> length H"
    using inv opened by (auto simp: queue_inv_def state_inv_def)
  have "sub_queued_bytes ?s + length bs \<le> u64_max"
    using live_events_sum [OF live] sum fits by simp
  then have sat: "u64_saturating_add (sub_queued_bytes ?s) (length bs) = sub_queued_bytes ?s + length bs"
    by simp
  show ?thesis
  proof (cases "limit < sub_queued_bytes ?s + length bs")
    case True
    then show ?thesis
      using inv sat t exp ne
      by (auto simp: queue_inv_def queue_push_output_def state_inv_def cursor_inv_def resume_offset_def
          snapshot_cursor_new_def snap_ok_def Let_def)
  next
    case False
    then show ?thesis
      using inv sat sum exp live_events_snoc [OF live free ne] cursor_inv_append [OF cur] free
      by (auto simp: queue_inv_def queue_push_output_def state_inv_def Let_def)
  qed
qed

lemma queue_push_terminal_inv:
  assumes inv: "queue_inv H limit q" and opened: "\<not> sub_closed (q_state q)"
  shows "queue_inv H limit (queue_push_terminal q (length H))"
  using assms live_events_exit [of H "resume_offset (q_state q)" "sub_events (q_state q)"]
  by (auto simp: queue_inv_def queue_push_terminal_def state_inv_def Let_def)

section \<open>The viewer: what a subscriber may rely on\<close>

datatype paint = NoPaint | AwaitPaint | Painting terminal_snapshot nat

record viewer =
  v_pos :: nat
  v_paint :: paint
  v_closed :: bool

definition chunk_at :: "bytes \<Rightarrow> nat \<Rightarrow> output_chunk \<Rightarrow> bool" where
  "chunk_at H pos c \<longleftrightarrow>
     chunk_offset c = pos \<and> pos + length (chunk_bytes c) \<le> length H \<and>
     chunk_bytes c = slice H pos (pos + length (chunk_bytes c))"

definition fragment_ok :: "bytes \<Rightarrow> nat \<Rightarrow> paint \<Rightarrow> terminal_chunk \<Rightarrow> bool" where
  "fragment_ok H pos p tc \<longleftrightarrow>
     snap_ok H (tc_terminal tc) \<and> ts_watermark (tc_terminal tc) = pos \<and>
     tc_total_bytes tc = length (ts_ansi (tc_terminal tc)) \<and> tc_bytes tc \<noteq> [] \<and>
     tc_offset tc + length (tc_bytes tc) \<le> tc_total_bytes tc \<and>
     tc_bytes tc = slice (ts_ansi (tc_terminal tc)) (tc_offset tc) (tc_offset tc + length (tc_bytes tc)) \<and>
     (case p of NoPaint \<Rightarrow> False
      | AwaitPaint \<Rightarrow> tc_offset tc = 0
      | Painting t n \<Rightarrow> tc_terminal tc = t \<and> tc_offset tc = n)"

text \<open>
  Bytes continue at the viewer's position and are those of the history; a gap starts at the
  position, is not empty and demands a repaint at its watermark; the fragments of a repaint are
  consecutive pieces of one terminal state at the position, and no other bytes come between them;
  an exit comes at the end of the history and nothing comes after it.
\<close>

definition view :: "bytes \<Rightarrow> viewer \<Rightarrow> output_event \<Rightarrow> viewer option" where
  "view H v e =
     (if v_closed v then None
      else case e of
        Replay c \<Rightarrow>
          if v_paint v = NoPaint \<and> chunk_at H (v_pos v) c
          then Some (v\<lparr>v_pos := v_pos v + length (chunk_bytes c)\<rparr>) else None
      | Output c \<Rightarrow>
          if v_paint v = NoPaint \<and> chunk_at H (v_pos v) c \<and> chunk_bytes c \<noteq> []
          then Some (v\<lparr>v_pos := v_pos v + length (chunk_bytes c)\<rparr>) else None
      | Gap m w \<Rightarrow>
          if m = (v_pos v, w) \<and> v_pos v < w \<and> w \<le> length H
          then Some (v\<lparr>v_pos := w, v_paint := AwaitPaint\<rparr>) else None
      | TerminalSnapshot tc \<Rightarrow>
          if fragment_ok H (v_pos v) (v_paint v) tc
          then Some (v\<lparr>v_paint :=
                 (if tc_offset tc + length (tc_bytes tc) = tc_total_bytes tc then NoPaint
                  else Painting (tc_terminal tc) (tc_offset tc + length (tc_bytes tc)))\<rparr>)
          else None
      | Exit n \<Rightarrow>
          if v_paint v = NoPaint \<and> n = v_pos v \<and> n = length H then Some (v\<lparr>v_closed := True\<rparr>) else None)"

fun view_all :: "bytes \<Rightarrow> viewer \<Rightarrow> output_event list \<Rightarrow> viewer option" where
  "view_all H v [] = Some v"
| "view_all H v (e # es) = (case view H v e of None \<Rightarrow> None | Some v' \<Rightarrow> view_all H v' es)"

text \<open>How the viewer's state follows from the queue's.\<close>

definition viewer_rel :: "viewer \<Rightarrow> subscriber_state \<Rightarrow> bool" where
  "viewer_rel v s \<longleftrightarrow>
     v_pos v = sub_expected_offset s \<and>
     (v_closed v \<longrightarrow> sub_closed s \<and> sub_events s = [] \<and> sub_replay s = None \<and> sub_snapshot s = None) \<and>
     (case sub_replay s of
        Some rc \<Rightarrow> v_paint v = NoPaint
      | None \<Rightarrow>
          (case sub_snapshot s of
             None \<Rightarrow> v_paint v = NoPaint
           | Some sc \<Rightarrow> sc_gap_pending sc \<or>
               v_paint v = (if sc_next sc = 0 then AwaitPaint else Painting (sc_terminal sc) (sc_next sc))))"

lemma view_all_append:
  "view_all H v (xs @ ys) = (case view_all H v xs of None \<Rightarrow> None | Some v' \<Rightarrow> view_all H v' ys)"
  by (induction xs arbitrary: v) (simp_all split: option.splits)

lemma chunk_at_append: "chunk_at H pos c \<Longrightarrow> chunk_at (H @ bs) pos c"
  by (simp add: chunk_at_def slice_simps)

lemma view_append:
  assumes "view H v e = Some v'" and "\<not> v_closed v'"
  shows "view (H @ bs) v e = Some v'"
  using assms
  by (cases e) (auto simp: view_def chunk_at_append fragment_ok_def snap_ok_append split: if_splits)

lemma view_closed [simp]: "v_closed v \<Longrightarrow> view H v e = None"
  by (simp add: view_def)

lemma view_all_append_history:
  "view_all H v es = Some v' \<Longrightarrow> \<not> v_closed v' \<Longrightarrow> view_all (H @ bs) v es = Some v'"
proof (induction es arbitrary: v)
  case (Cons e es)
  then obtain u where u: "view H v e = Some u" "view_all H u es = Some v'"
    by (auto split: option.splits)
  have "\<not> v_closed u" using u(2) Cons.prems(2) by (cases es) auto
  then show ?case using Cons.IH [OF u(2) Cons.prems(2)] view_append [OF u(1)] by simp
qed simp

text \<open>Delivery: the event is one the viewer accepts, and queue and viewer stay related.\<close>

definition delivers :: "bytes \<Rightarrow> nat \<Rightarrow> viewer \<Rightarrow> subscriber_state \<Rightarrow> output_event \<Rightarrow> bool" where
  "delivers H limit v s' e \<longleftrightarrow>
     (\<exists>v'. view H v e = Some v' \<and> viewer_rel v' s' \<and> state_inv H limit s')"

lemma next_queued_delivers:
  assumes inv: "state_inv H limit s" and rel: "viewer_rel v s" and w: "length H \<le> u64_max"
    and none: "sub_replay s = None" "sub_snapshot s = None"
  shows "case next_queued s of
      (s', None) \<Rightarrow> s' = s \<and> sub_events s = [] \<and> sub_expected_offset s = length H
    | (s', Some e) \<Rightarrow> delivers H limit v s' e"
proof (cases "sub_events s")
  case Nil
  then show ?thesis using inv none by (simp add: next_queued_def state_inv_def resume_offset_def)
next
  case (Cons e es)
  have live: "live_events H (sub_expected_offset s) (e # es)"
    using inv none Cons by (simp add: state_inv_def resume_offset_def)
  have nc: "\<not> v_closed v" using rel Cons by (auto simp: viewer_rel_def)
  from live show ?thesis
  proof (cases e)
    case (Output c)
    have "chunk_end c = sub_expected_offset s + length (chunk_bytes c)"
      using live Output w by (auto simp: chunk_end_def)
    then show ?thesis
      using live Output Cons inv rel none nc
      by (auto simp: next_queued_def delivers_def view_def viewer_rel_def state_inv_def chunk_at_def
          resume_offset_def cursor_inv_def event_next_offset_def)
  next
    case (Exit n)
    then show ?thesis
      using live Cons inv rel none nc
      by (auto simp: next_queued_def delivers_def view_def viewer_rel_def state_inv_def
          resume_offset_def cursor_inv_def event_next_offset_def)
  qed simp_all
qed

lemma next_repaint_delivers:
  assumes inv: "state_inv H limit s" and rel: "viewer_rel v s" and w: "length H \<le> u64_max"
    and none: "sub_replay s = None" and lim: "0 < m"
  shows "case next_repaint s m of
      (s', None) \<Rightarrow> s' = s \<and> sub_events s = [] \<and> sub_snapshot s = None \<and> sub_expected_offset s = length H
    | (s', Some e) \<Rightarrow> delivers H limit v s' e"
proof (cases "sub_snapshot s")
  case None
  then show ?thesis
    using next_queued_delivers [OF inv rel w none] by (simp add: next_repaint_def split: prod.splits option.splits)
next
  case (Some sc)
  let ?t = "sc_terminal sc" and ?ansi = "ts_ansi (sc_terminal sc)"
  have cur: "cursor_inv H s" and live: "live_events H (ts_watermark ?t) (sub_events s)"
    using inv none Some by (auto simp: state_inv_def resume_offset_def)
  have snap: "snap_ok H ?t" and lt: "sc_next sc < length ?ansi"
    using cur none Some by (auto simp: cursor_inv_def)
  have nc: "\<not> v_closed v" using rel Some by (auto simp: viewer_rel_def)
  show ?thesis
  proof (cases "sc_gap_pending sc")
    case True
    have "ts_watermark ?t \<le> length H" using snap by (simp add: snap_ok_def)
    then show ?thesis
      using True Some none inv rel cur nc
      by (auto simp: next_repaint_def delivers_def view_def viewer_rel_def state_inv_def cursor_inv_def
          resume_offset_def Let_def)
  next
    case False
    define fin where "fin = min (u64_saturating_add (sc_next sc) m) (length ?ansi)"
    have fin: "sc_next sc < fin" "fin \<le> length ?ansi"
      using lt lim snap by (auto simp: fin_def u64_saturating_add_def snap_ok_def)
    have pos: "v_pos v = ts_watermark ?t"
      "v_paint v = (if sc_next sc = 0 then AwaitPaint else Painting ?t (sc_next sc))"
      using rel cur none Some False by (auto simp: viewer_rel_def cursor_inv_def)
    let ?tc = "\<lparr>tc_terminal = ?t, tc_offset = sc_next sc, tc_total_bytes = length ?ansi,
                tc_bytes = slice ?ansi (sc_next sc) fin\<rparr>"
    let ?s' = "s\<lparr>sub_snapshot := (if fin = length ?ansi then None else Some (sc\<lparr>sc_next := fin\<rparr>))\<rparr>"
    let ?v' = "v\<lparr>v_paint := (if fin = length ?ansi then NoPaint else Painting ?t fin)\<rparr>"
    have "length (slice ?ansi (sc_next sc) fin) = fin - sc_next sc" using fin by simp
    moreover have "slice ?ansi (sc_next sc) fin \<noteq> []" using fin by (auto simp: slice_def)
    ultimately have "view H v (TerminalSnapshot ?tc) = Some ?v'"
      using fin snap pos nc by (auto simp: view_def fragment_ok_def)
    moreover have "viewer_rel ?v' ?s'"
      using rel none False fin nc pos cur Some by (auto simp: viewer_rel_def cursor_inv_def)
    moreover have "state_inv H limit ?s'"
      using inv none Some False fin cur snap live by (auto simp: state_inv_def cursor_inv_def resume_offset_def)
    moreover have "next_repaint s m = (?s', Some (TerminalSnapshot ?tc))"
      using Some False lt by (simp add: next_repaint_def Let_def fin_def)
    ultimately show ?thesis by (auto simp: delivers_def)
  qed
qed

text \<open>The replay cursor: a chunk while its bytes are retained, a repaint once they were evicted.\<close>

lemma replay_cursorD:
  assumes "state_inv H limit s" and "viewer_rel v s" and "sub_replay s = Some rc"
  shows "sub_snapshot s = None" "rc_next rc = sub_expected_offset s" "rc_next rc \<le> rc_end rc"
    "rc_end rc \<le> length H" "rc_empty_pending rc = (rc_next rc = rc_end rc)"
    "live_events H (rc_end rc) (sub_events s)"
    "v_pos v = rc_next rc" "v_paint v = NoPaint" "\<not> v_closed v"
  using assms by (auto simp: state_inv_def cursor_inv_def resume_offset_def viewer_rel_def)

lemma next_event_kept:
  assumes inv: "state_inv H limit s" and rel: "viewer_rel v s" and ring: "ring_inv H ring"
    and rp: "sub_replay s = Some rc" and lim: "0 < m"
    and kept: "rc_next rc < rc_end rc" "ring_start_offset ring \<le> rc_next rc"
  shows "\<exists>s' c. next_event s ring t m = (s', Some (Replay c)) \<and> delivers H limit v s' (Replay c)"
proof -
  note rc = replay_cursorD [OF inv rel rp]
  define fin where "fin = min (rc_end rc) (rc_next rc + m)"
  have fin: "rc_next rc < fin" "fin \<le> rc_end rc" "fin \<le> length H" using kept lim rc by (auto simp: fin_def)
  let ?c = "\<lparr>chunk_offset = rc_next rc, chunk_bytes = slice H (rc_next rc) fin\<rparr>"
  have ch: "ring_chunk ring (rc_next rc) (rc_end rc) m = Some ?c"
    using ring_chunk_slice [OF ring kept(2,1) rc(4)] by (simp add: fin_def)
  have ce: "chunk_end ?c = fin"
    using fin ring_inv_width [OF ring] by (subst chunk_end_slice) auto
  let ?s' = "s\<lparr>sub_replay := (if fin = rc_end rc then None else Some (rc\<lparr>rc_next := fin\<rparr>)),
               sub_expected_offset := fin\<rparr>"
  let ?v' = "v\<lparr>v_pos := fin\<rparr>"
  have "view H v (Replay ?c) = Some ?v'" using rc fin by (auto simp: view_def chunk_at_def)
  moreover have "viewer_rel ?v' ?s'" using rc by (auto simp: viewer_rel_def)
  moreover have "state_inv H limit ?s'"
    using inv rc kept fin by (auto simp: state_inv_def cursor_inv_def resume_offset_def)
  moreover have "next_event s ring t m = (?s', Some (Replay ?c))"
    using rp rc kept ch ce by (simp add: next_event_def Let_def)
  ultimately show ?thesis unfolding delivers_def by blast
qed

definition evict_to_repaint :: "subscriber_state \<Rightarrow> nat \<Rightarrow> terminal_snapshot \<Rightarrow> subscriber_state" where
  "evict_to_repaint s w t =
     s\<lparr>sub_replay := None, sub_snapshot := Some (snapshot_cursor_new (sub_expected_offset s, w) t),
       sub_events := [], sub_queued_bytes := 0\<rparr>"

lemma evict_to_repaint_inv:
  assumes inv: "state_inv H limit s" and rel: "viewer_rel v s" and rp: "sub_replay s = Some rc"
    and lt: "sub_expected_offset s < length H" and t: "snap_ok H t" "ts_watermark t = length H"
  shows "state_inv H limit (evict_to_repaint s (length H) t)"
    and "viewer_rel v (evict_to_repaint s (length H) t)"
  using inv t lt replay_cursorD [OF inv rel rp]
  by (auto simp: evict_to_repaint_def state_inv_def cursor_inv_def resume_offset_def
      snapshot_cursor_new_def snap_ok_def viewer_rel_def)

lemma next_event_evicted:
  assumes inv: "state_inv H limit s" and rel: "viewer_rel v s" and ring: "ring_inv H ring"
    and rp: "sub_replay s = Some rc"
    and gone: "rc_next rc < rc_end rc" "rc_next rc < ring_start_offset ring"
  shows "next_event s ring t m = next_repaint (evict_to_repaint s (length H) t) m"
  using rp replay_cursorD [OF inv rel rp] gone ring_inv_next [OF ring]
  by (simp add: next_event_def ring_chunk_evicted evict_to_repaint_def)

lemma next_event_delivers:
  assumes inv: "state_inv H limit s" and rel: "viewer_rel v s" and ring: "ring_inv H ring"
    and t: "snap_ok H t" "ts_watermark t = length H" and lim: "0 < m"
  shows "case next_event s ring t m of
      (s', None) \<Rightarrow> s' = s \<and> sub_events s = [] \<and> sub_snapshot s = None \<and> sub_replay s = None \<and>
                     sub_expected_offset s = length H
    | (s', Some e) \<Rightarrow> delivers H limit v s' e"
proof (cases "sub_replay s")
  case None
  then show ?thesis
    using next_repaint_delivers [OF inv rel ring_inv_width [OF ring] None lim]
    by (simp add: next_event_def split: prod.splits option.splits)
next
  case (Some rc)
  note rc = replay_cursorD [OF inv rel Some]
  consider (empty) "rc_next rc = rc_end rc"
    | (kept) "rc_next rc < rc_end rc" "ring_start_offset ring \<le> rc_next rc"
    | (evicted) "rc_next rc < rc_end rc" "rc_next rc < ring_start_offset ring"
    using rc(3) by linarith
  then show ?thesis
  proof cases
    case empty
    then show ?thesis
      using Some rc inv rel
      by (auto simp: next_event_def delivers_def view_def viewer_rel_def state_inv_def cursor_inv_def
          resume_offset_def chunk_at_def)
  next
    case kept
    then show ?thesis using next_event_kept [OF inv rel ring Some lim kept, of t] by auto
  next
    case evicted
    have "sub_expected_offset s < length H" using rc evicted by linarith
    note ev = evict_to_repaint_inv [OF inv rel Some this t]
    have "sub_replay (evict_to_repaint s (length H) t) = None"
      "sub_snapshot (evict_to_repaint s (length H) t) \<noteq> None"
      by (simp_all add: evict_to_repaint_def)
    then show ?thesis
      using next_repaint_delivers [OF ev ring_inv_width [OF ring] _ lim]
        next_event_evicted [OF inv rel ring Some evicted, of t m]
      by (auto split: prod.splits option.splits)
  qed
qed

section \<open>Draining a queue\<close>

text \<open>
  One subscriber polling while the hub is quiet: the state is the queue together with what
  \<open>next_event\<close> reads of the hub.
\<close>

type_synonym queue_view = "output_ring \<times> terminal_snapshot \<times> nat \<times> subscriber_state"

definition queue_poll :: "queue_view \<Rightarrow> queue_view \<times> output_event option" where
  "queue_poll q = (case q of (ring, t, m, s) \<Rightarrow>
     (case next_event s ring t m of (s', e) \<Rightarrow> ((ring, t, m, s'), e)))"

definition queue_good :: "queue_view \<Rightarrow> bool" where
  "queue_good q \<longleftrightarrow> (case q of (ring, t, m, s) \<Rightarrow>
     \<exists>H limit v. ring_inv H ring \<and> snap_ok H t \<and> ts_watermark t = length H \<and> 0 < m \<and>
       state_inv H limit s \<and> viewer_rel v s)"

definition repaint_rank :: "subscriber_state \<Rightarrow> nat" where
  "repaint_rank s =
     (case sub_snapshot s of
        None \<Rightarrow> length (sub_events s)
      | Some sc \<Rightarrow> (if sc_gap_pending sc then 1 else 0)
                   + (length (ts_ansi (sc_terminal sc)) - sc_next sc) + length (sub_events s))"

definition queue_rank :: "queue_view \<Rightarrow> nat" where
  "queue_rank q = (case q of (ring, t, m, s) \<Rightarrow>
     (case sub_replay s of
        None \<Rightarrow> repaint_rank s
      | Some rc \<Rightarrow> rc_end rc - rc_next rc + 3 + length (ts_ansi t) + length (sub_events s)))"

lemma next_queued_rank:
  "next_queued s = (s', Some e) \<Longrightarrow> sub_snapshot s = None \<Longrightarrow> repaint_rank s' < repaint_rank s"
  by (auto simp: next_queued_def repaint_rank_def split: list.splits)

lemma next_repaint_rank:
  assumes "next_repaint s m = (s', Some e)" and "cursor_inv H s" and "sub_replay s = None" and "0 < m"
  shows "repaint_rank s' < repaint_rank s \<and> sub_replay s' = None"
proof (cases "sub_snapshot s")
  case None
  then show ?thesis
    using assms next_queued_rank [of s s' e]
    by (auto simp: next_repaint_def next_queued_def split: list.splits)
next
  case (Some sc)
  then have "sc_next sc < length (ts_ansi (sc_terminal sc))" "length (ts_ansi (sc_terminal sc)) \<le> u64_max"
    using assms by (auto simp: cursor_inv_def snap_ok_def)
  then show ?thesis
    using assms Some
    by (auto simp: next_repaint_def repaint_rank_def Let_def u64_saturating_add_def split: if_splits)
qed

lemma next_event_rank:
  assumes inv: "state_inv H limit s" and rel: "viewer_rel v s" and ring: "ring_inv H ring"
    and t: "snap_ok H t" "ts_watermark t = length H" and m: "0 < m"
    and ev: "next_event s ring t m = (s', Some e)"
  shows "queue_rank (ring, t, m, s') < queue_rank (ring, t, m, s)"
proof (cases "sub_replay s")
  case None
  then show ?thesis
    using ev inv next_repaint_rank [of s m s' e H] m
    by (simp add: next_event_def queue_rank_def state_inv_def)
next
  case (Some rc)
  note rc = replay_cursorD [OF inv rel Some]
  show ?thesis
  proof (cases "rc_empty_pending rc \<or> ring_start_offset ring \<le> rc_next rc")
    case True
    then show ?thesis
      using Some ev rc ring_chunk_slice [OF ring, of "rc_next rc" "rc_end rc" m] m ring_inv_width [OF ring]
      by (auto simp: next_event_def queue_rank_def repaint_rank_def Let_def chunk_end_slice split: if_splits)
  next
    case False
    let ?s1 = "evict_to_repaint s (length H) t"
    have lt: "rc_next rc < rc_end rc" "rc_next rc < ring_start_offset ring" using False rc by auto
    have eq: "next_repaint ?s1 m = (s', Some e)"
      using ev next_event_evicted [OF inv rel ring Some lt] by simp
    have "cursor_inv H ?s1"
      using evict_to_repaint_inv(1) [OF inv rel Some _ t] lt rc by (simp add: state_inv_def)
    then have "repaint_rank s' < repaint_rank ?s1 \<and> sub_replay s' = None"
      using next_repaint_rank [OF eq] m by (simp add: evict_to_repaint_def)
    then show ?thesis
      using Some by (simp add: queue_rank_def repaint_rank_def evict_to_repaint_def snapshot_cursor_new_def)
  qed
qed

interpretation queue_source: draining_source queue_good queue_rank queue_poll
proof
  fix q q' :: queue_view and e
  assume good: "queue_good q" and p: "queue_poll q = (q', Some e)"
  obtain ring t m s where q: "q = (ring, t, m, s)" by (cases q)
  with p obtain s' where ev: "next_event s ring t m = (s', Some e)" and q': "q' = (ring, t, m, s')"
    by (auto simp: queue_poll_def split: prod.splits)
  from good q obtain H limit v where g: "ring_inv H ring" "snap_ok H t" "ts_watermark t = length H"
    "0 < m" "state_inv H limit s" "viewer_rel v s" by (auto simp: queue_good_def)
  from next_event_delivers [OF g(5,6,1,2,3,4)] ev have "delivers H limit v s' e" by simp
  then show "queue_good q' \<and> queue_rank q' < queue_rank q"
    using g next_event_rank [OF g(5,6,1,2,3,4) ev] q q' by (auto simp: queue_good_def delivers_def)
next
  fix q q' :: queue_view
  assume "queue_good q" and "queue_poll q = (q', None :: output_event option)"
  then show "q' = q"
    using next_event_delivers by (fastforce simp: queue_good_def queue_poll_def split: prod.splits)
qed

end
