(* ===== verification/Output_Hub.thy ===== *)
theory Output_Hub
  imports Output_Queue
begin

text \<open>
  The output hub of a worker (\<open>crates/session-worker/src/output.rs\<close>, \<open>OutputHub\<close>, \<open>HubState\<close>,
  \<open>OutputSubscriber\<close>; \<open>probe.rs\<close>, \<open>ProbeReplies\<close>): one PTY reader pushes bytes, any number of
  subscribers receive them.  The reference-counted queues are an explicit store from addresses to
  queues; the hub keeps weak references (addresses whose queue may be gone), a subscriber owns its
  queue.  Every operation holds the hub's lock for its whole body, so a run of the program is a
  sequence of the operations below.
\<close>

section \<open>Probe replies\<close>

record probe_replies =
  pr_pending :: bool
  pr_closed :: bool

definition probe_replies_default :: probe_replies where
  "probe_replies_default = \<lparr>pr_pending = False, pr_closed = False\<rparr>"

definition replies_queue :: "probe_replies \<Rightarrow> probe_replies" where
  "replies_queue r = r\<lparr>pr_pending := True\<rparr>"

definition replies_close :: "probe_replies \<Rightarrow> probe_replies" where
  "replies_close r = r\<lparr>pr_closed := True\<rparr>"

definition replies_take :: "probe_replies \<Rightarrow> probe_replies" where
  "replies_take r = r\<lparr>pr_pending := False\<rparr>"

text \<open>One pass of the loop of \<open>ProbeReplies::wait\<close>; \<^const>\<open>None\<close> is waiting for a wake-up.\<close>

definition replies_wait :: "probe_replies \<Rightarrow> bool option" where
  "replies_wait r = (if pr_closed r then Some False else if pr_pending r then Some True else None)"

record probe_responder =
  resp_guard :: probe_guard
  resp_replies :: probe_replies

fun answer_spans :: "probe_responder \<Rightarrow> probe_span list \<Rightarrow> probe_responder" where
  "answer_spans r [] = r"
| "answer_spans r (span # spans) =
     (case admit (resp_guard r) span of
        (g, ok) \<Rightarrow>
          answer_spans
            (r\<lparr>resp_guard := g,
               resp_replies := (if ok then replies_queue (resp_replies r) else resp_replies r)\<rparr>) spans)"

section \<open>The hub\<close>

record 'v hub =
  hub_ring :: output_ring
  hub_terminal :: "'v terminal_tracker"
  hub_terminal_snapshot :: terminal_snapshot
  hub_subscribers :: "nat list"
  hub_completion :: "output_completion option"
  hub_probe :: "probe_responder option"
  hub_subscriber_limit :: nat
  hub_queues :: "nat \<rightharpoonup> subscriber_queue"
  hub_next_queue :: nat

definition hub_new :: "'v vt100 \<Rightarrow> nat \<Rightarrow> nat \<Rightarrow> nat \<Rightarrow> nat \<Rightarrow> (ring_error, 'v hub) result" where
  "hub_new vt history_limit subscriber_limit rows cols =
     (if history_limit = 0 then Err (InvalidLimit ''history_limit'')
      else if subscriber_limit = 0 then Err (InvalidLimit ''subscriber_limit'')
      else (let terminal = terminal_new vt rows cols in
        Ok \<lparr>hub_ring = ring_new history_limit, hub_terminal = terminal,
            hub_terminal_snapshot = take_snapshot vt terminal 0, hub_subscribers = [],
            hub_completion = None, hub_probe = None, hub_subscriber_limit = subscriber_limit,
            hub_queues = Map.empty, hub_next_queue = 0\<rparr>))"

text \<open>The subscriber loop of \<open>push\<close>: dead references are dropped, live queues get the chunk.\<close>

fun push_subscribers ::
  "(nat \<rightharpoonup> subscriber_queue) \<Rightarrow> nat list \<Rightarrow> output_chunk \<Rightarrow> terminal_snapshot
     \<Rightarrow> (nat \<rightharpoonup> subscriber_queue) \<times> nat list" where
  "push_subscribers qs [] chunk t = (qs, [])"
| "push_subscribers qs (a # as) chunk t =
     (case qs a of
        None \<Rightarrow> push_subscribers qs as chunk t
      | Some q \<Rightarrow>
          (case push_subscribers (qs(a \<mapsto> queue_push_output q chunk t)) as chunk t of
             (qs', retained) \<Rightarrow> (qs', a # retained)))"

definition hub_push :: "'v vt100 \<Rightarrow> 'v hub \<Rightarrow> bytes \<Rightarrow> 'v hub \<times> (ring_error, output_chunk) result" where
  "hub_push vt h bs =
     (if hub_completion h \<noteq> None \<and> bs \<noteq> [] then (h, Err Closed)
      else
        (case ring_push (hub_ring h) bs of
           (ring, Inl e) \<Rightarrow> (h\<lparr>hub_ring := ring\<rparr>, Err e)
         | (ring, Inr chunk) \<Rightarrow>
             if bs = [] then (h\<lparr>hub_ring := ring\<rparr>, Ok chunk)
             else
               (let (terminal, probes) = terminal_take_probes (terminal_feed vt (hub_terminal h) bs);
                    snapshot = take_snapshot vt terminal (ring_next_offset ring);
                    (queues, retained) =
                      push_subscribers (hub_queues h) (hub_subscribers h) chunk snapshot
                in (h\<lparr>hub_ring := ring, hub_terminal := terminal, hub_terminal_snapshot := snapshot,
                      hub_subscribers := retained,
                      hub_probe := map_option (\<lambda>r. answer_spans r probes) (hub_probe h),
                      hub_queues := queues\<rparr>,
                    Ok chunk))))"

definition hub_answer_probes :: "'v hub \<Rightarrow> 'v hub" where
  "hub_answer_probes h =
     h\<lparr>hub_probe := Some \<lparr>resp_guard = probe_guard_default, resp_replies = probe_replies_default\<rparr>\<rparr>"

definition validate_offset :: "'v hub \<Rightarrow> nat option \<Rightarrow> (ring_error, nat) result" where
  "validate_offset h after_offset =
     (let requested = unwrap_or after_offset 0 in
      if ring_next_offset (hub_ring h) < requested
      then Err (OffsetAhead requested (ring_next_offset (hub_ring h)))
      else Ok requested)"

definition subscription_seed :: "'v hub \<Rightarrow> nat option \<Rightarrow> (ring_error, queue_seed) result" where
  "subscription_seed h after_offset =
     (case validate_offset h after_offset of
        Inl e \<Rightarrow> Err e
      | Inr requested \<Rightarrow>
          if requested < ring_start_offset (hub_ring h)
          then Ok (SeedGap (requested, ring_next_offset (hub_ring h)) (hub_terminal_snapshot h))
          else Ok (SeedReplay (requested, ring_next_offset (hub_ring h))))"

definition register_subscriber :: "'v hub \<Rightarrow> queue_seed \<Rightarrow> 'v hub \<times> nat" where
  "register_subscriber h seed =
     (let a = hub_next_queue h; q = queue_new (hub_subscriber_limit h) seed in
      (case hub_completion h of
         Some completion \<Rightarrow>
           h\<lparr>hub_next_queue := a + 1,
             hub_queues := (hub_queues h)(a \<mapsto> queue_push_terminal q (completion_next_offset completion))\<rparr>
       | None \<Rightarrow>
           h\<lparr>hub_next_queue := a + 1, hub_queues := (hub_queues h)(a \<mapsto> q),
             hub_subscribers := hub_subscribers h @ [a]\<rparr>, a))"

definition hub_subscribe :: "'v hub \<Rightarrow> nat option \<Rightarrow> 'v hub \<times> (ring_error, nat) result" where
  "hub_subscribe h after_offset =
     (case subscription_seed h after_offset of
        Inl e \<Rightarrow> (h, Err e)
      | Inr seed \<Rightarrow> (case register_subscriber h seed of (h', a) \<Rightarrow> (h', Ok a)))"

definition hub_subscribe_terminal_snapshot :: "'v hub \<Rightarrow> 'v hub \<times> nat" where
  "hub_subscribe_terminal_snapshot h = register_subscriber h (SeedSnapshot (hub_terminal_snapshot h))"

datatype output_snapshot = SnapReplay output_chunk nat | SnapGap "nat \<times> nat" terminal_snapshot

definition hub_snapshot :: "'v hub \<Rightarrow> nat option \<Rightarrow> (ring_error, output_snapshot) result" where
  "hub_snapshot h after_offset =
     (case validate_offset h after_offset of
        Inl e \<Rightarrow> Err e
      | Inr requested \<Rightarrow>
          if requested < ring_start_offset (hub_ring h)
          then Ok (SnapGap (requested, ring_next_offset (hub_ring h)) (hub_terminal_snapshot h))
          else Ok (SnapReplay
                 \<lparr>chunk_offset = requested, chunk_bytes = ring_bytes_from (hub_ring h) requested\<rparr>
                 (ring_next_offset (hub_ring h))))"

record observation_page =
  op_history_start_offset :: nat
  op_start_offset :: nat
  op_next_offset :: nat
  op_runtime_end_offset :: nat
  op_bytes :: bytes
  op_gap :: "(nat \<times> nat) option"
  op_has_more :: bool
  op_exited :: bool

definition hub_observe :: "'v hub \<Rightarrow> nat option \<Rightarrow> nat \<Rightarrow> (ring_error, observation_page) result" where
  "hub_observe h after_offset max_bytes =
     (if max_bytes = 0 then Err (InvalidLimit ''max_bytes'')
      else
        (case validate_offset h after_offset of
           Inl e \<Rightarrow> Err e
         | Inr requested \<Rightarrow>
             (let history_start = ring_start_offset (hub_ring h);
                  runtime_end = ring_next_offset (hub_ring h);
                  (start, gap) =
                    (case after_offset of
                       Some _ \<Rightarrow>
                         if requested < history_start then (history_start, Some (requested, history_start))
                         else (requested, None)
                     | None \<Rightarrow>
                         (max (runtime_end - unwrap_or (u64_try_from max_bytes) u64_max) history_start, None));
                  bs = ring_bytes_from_limited (hub_ring h) start max_bytes;
                  nxt = u64_saturating_add start (unwrap_or (u64_try_from (length bs)) u64_max)
              in Ok \<lparr>op_history_start_offset = history_start, op_start_offset = start,
                     op_next_offset = nxt, op_runtime_end_offset = runtime_end, op_bytes = bs,
                     op_gap = gap, op_has_more = (nxt < runtime_end),
                     op_exited = (hub_completion h \<noteq> None)\<rparr>)))"

text \<open>The check \<open>wait_for_observation\<close> makes under the lock before it waits.\<close>

definition observation_ready :: "'v hub \<Rightarrow> nat \<Rightarrow> bool" where
  "observation_ready h observed_end \<longleftrightarrow>
     ring_next_offset (hub_ring h) \<noteq> observed_end \<or> hub_completion h \<noteq> None"

definition hub_resize :: "'v vt100 \<Rightarrow> 'v hub \<Rightarrow> nat \<Rightarrow> nat \<Rightarrow> 'v hub" where
  "hub_resize vt h rows cols =
     (let terminal = terminal_resize vt (hub_terminal h) rows cols in
      h\<lparr>hub_terminal := terminal,
        hub_terminal_snapshot := take_snapshot vt terminal (ring_next_offset (hub_ring h))\<rparr>)"

datatype output_close_reason = CloseEof | CloseForced

fun close_subscribers :: "(nat \<rightharpoonup> subscriber_queue) \<Rightarrow> nat list \<Rightarrow> nat \<Rightarrow> (nat \<rightharpoonup> subscriber_queue)" where
  "close_subscribers qs [] n = qs"
| "close_subscribers qs (a # as) n =
     (case qs a of
        None \<Rightarrow> close_subscribers qs as n
      | Some q \<Rightarrow> close_subscribers (qs(a \<mapsto> queue_push_terminal q n)) as n)"

definition hub_close :: "'v hub \<Rightarrow> output_close_reason \<Rightarrow> 'v hub \<times> output_completion" where
  "hub_close h reason =
     (case hub_completion h of
        Some completion \<Rightarrow> (h, completion)
      | None \<Rightarrow>
          (let n = ring_next_offset (hub_ring h);
               completion = (case reason of CloseEof \<Rightarrow> Eof n | CloseForced \<Rightarrow> ForcedClosed n)
           in (h\<lparr>hub_completion := Some completion,
                 hub_probe := map_option (\<lambda>r. r\<lparr>resp_replies := replies_close (resp_replies r)\<rparr>) (hub_probe h),
                 hub_queues := close_subscribers (hub_queues h) (hub_subscribers h) n,
                 hub_subscribers := []\<rparr>, completion)))"

definition hub_mark_exit :: "'v hub \<Rightarrow> 'v hub" where
  "hub_mark_exit h = fst (hub_close h CloseEof)"

definition hub_force_close :: "'v hub \<Rightarrow> 'v hub \<times> output_completion" where
  "hub_force_close h = hub_close h CloseForced"

text \<open>
  One pass of the loop of \<open>OutputSubscriber::recv\<close>; \<open>Waiting\<close> is suspension on the queue's
  notification.  Only the owner of a queue receives from it, so the queue exists.
\<close>

datatype recv_poll = Received output_event | Ended | Waiting

definition hub_recv :: "'v hub \<Rightarrow> nat \<Rightarrow> 'v hub \<times> recv_poll" where
  "hub_recv h a =
     (case hub_queues h a of
        None \<Rightarrow> (h, Ended)
      | Some q \<Rightarrow>
          (case next_event (q_state q) (hub_ring h) (hub_terminal_snapshot h) (q_event_limit q) of
             (s, Some e) \<Rightarrow> (h\<lparr>hub_queues := (hub_queues h)(a \<mapsto> q\<lparr>q_state := s\<rparr>)\<rparr>, Received e)
           | (s, None) \<Rightarrow>
               (h\<lparr>hub_queues := (hub_queues h)(a \<mapsto> q\<lparr>q_state := s\<rparr>)\<rparr>,
                if sub_closed s then Ended else Waiting)))"

text \<open>Dropping an \<open>OutputSubscriber\<close> frees its queue.\<close>

definition hub_drop_subscriber :: "'v hub \<Rightarrow> nat \<Rightarrow> 'v hub" where
  "hub_drop_subscriber h a = h\<lparr>hub_queues := (hub_queues h)(a := None)\<rparr>"

end
