(* ===== verification/Output_Run.thy ===== *)
theory Output_Run
  imports Output_Hub
begin

text \<open>
  Runs of the output hub: any interleaving of pushes, subscriptions, receives, resizes, closes and
  drops.  A run carries, beside the hub, the complete history of accepted bytes, for every
  subscriber the viewer it started as, and the events it received.  The invariant relates the
  three; the properties follow from it.
\<close>

section \<open>The terminal state at the watermark\<close>

text \<open>Taking the completed probes does not change what the scanner does later.\<close>

definition forget_probes :: "osc_tracker \<Rightarrow> osc_tracker" where
  "forget_probes t = t\<lparr>trk_probes := []\<rparr>"

lemma forget_probes_fields [simp]:
  "trk_title (forget_probes t) = trk_title t" "trk_progress (forget_probes t) = trk_progress t"
  "forget_probes (t\<lparr>trk_probes := ps\<rparr>) = forget_probes t"
  by (simp_all add: forget_probes_def)

lemma tracker_finish_forget: "forget_probes (tracker_finish t) = forget_probes (tracker_finish (forget_probes t))"
  by (simp add: tracker_finish_def tracker_record_def forget_probes_def Let_def split: option.splits)

lemma tracker_advance_forget:
  "forget_probes (tracker_advance t b) = forget_probes (tracker_advance (forget_probes t) b)"
  using tracker_finish_forget [of t]
  by (cases "trk_state t") (simp_all add: tracker_advance_def forget_probes_def)

lemma tracker_step_forget: "forget_probes (tracker_step t b) = forget_probes (tracker_step (forget_probes t) b)"
proof -
  have "forget_probes (tracker_step t b) =
      (forget_probes (tracker_advance t b))\<lparr>trk_consumed := trk_consumed (forget_probes (tracker_advance t b)) + 1\<rparr>" for t
    by (simp add: tracker_step_def forget_probes_def Let_def)
  from this [of t] this [of "forget_probes t"] tracker_advance_forget [of t b] show ?thesis by simp
qed

lemma tracker_feed_forget:
  "forget_probes t = forget_probes u \<Longrightarrow> forget_probes (tracker_feed t bs) = forget_probes (tracker_feed u bs)"
proof (induction bs arbitrary: t u)
  case (Cons b bs)
  have "forget_probes (tracker_step t b) = forget_probes (tracker_step u b)"
    using tracker_step_forget [of t b] tracker_step_forget [of u b] Cons.prems by simp
  from Cons.IH [OF this] show ?case by simp
qed simp

text \<open>
  The emulator's formatted output fits in memory: the lengths of Rust vectors are bounded by
  \<open>usize\<close>, and the repaint prefix is fifteen bytes.
\<close>

definition vt_sized :: "'v vt100 \<Rightarrow> bool" where
  "vt_sized vt \<longleftrightarrow>
     (\<forall>v. 15 + length (vt_input_mode_formatted vt v) + length (vt_contents_formatted vt v)
            + length (vt_cursor_state_formatted vt v) \<le> u64_max)"

definition terminal_inv :: "bytes \<Rightarrow> 'v terminal_tracker \<Rightarrow> bool" where
  "terminal_inv H t \<longleftrightarrow> forget_probes (tt_osc t) = forget_probes (tracker_feed osc_tracker_new H)"

lemma take_snapshot_ok:
  assumes "terminal_inv H t" and "vt_sized vt"
  shows "snap_ok H (take_snapshot vt t (length H))"
proof -
  have "trk_title (tt_osc t) = trk_title (tracker_feed osc_tracker_new H)"
    and "trk_progress (tt_osc t) = trk_progress (tracker_feed osc_tracker_new H)"
    using arg_cong [OF assms(1) [unfolded terminal_inv_def], of trk_title]
      arg_cong [OF assms(1) [unfolded terminal_inv_def], of trk_progress] by simp_all
  moreover have "length (ts_ansi (take_snapshot vt t (length H))) \<le> u64_max"
    using assms(2) [unfolded vt_sized_def, rule_format, of "tt_parser t"]
    by (simp add: take_snapshot_def Let_def)
  ultimately show ?thesis
    unfolding snap_ok_def by (simp add: take_snapshot_def Let_def)
qed

lemma terminal_inv_new [simp]: "terminal_inv [] (terminal_new vt rows cols)"
  by (simp add: terminal_inv_def terminal_new_def)

lemma terminal_inv_feed: "terminal_inv H t \<Longrightarrow> terminal_inv (H @ bs) (terminal_feed vt t bs)"
  using tracker_feed_forget [of "tt_osc t" "tracker_feed osc_tracker_new H" bs]
  by (simp add: terminal_inv_def terminal_feed_def osc_scanner.feed_append)

lemma terminal_inv_take: "terminal_inv H t \<Longrightarrow> terminal_inv H (fst (terminal_take_probes t))"
  by (simp add: terminal_inv_def terminal_take_probes_def)

lemma terminal_inv_resize: "terminal_inv H t \<Longrightarrow> terminal_inv H (terminal_resize vt t rows cols)"
  by (simp add: terminal_inv_def terminal_resize_def)

section \<open>The subscriber loops\<close>

lemma push_subscribers_spec:
  "distinct as \<Longrightarrow> push_subscribers qs as c t =
     ((\<lambda>a. if a \<in> set as then map_option (\<lambda>q. queue_push_output q c t) (qs a) else qs a),
      filter (\<lambda>a. qs a \<noteq> None) as)"
proof (induction as arbitrary: qs)
  case (Cons a as)
  then show ?case
  proof (cases "qs a")
    case None
    with Cons show ?thesis by (auto simp: fun_eq_iff)
  next
    case (Some q)
    let ?qs = "qs(a \<mapsto> queue_push_output q c t)"
    have "filter (\<lambda>b. ?qs b \<noteq> None) as = filter (\<lambda>b. qs b \<noteq> None) as"
      using Cons.prems by (intro filter_cong) auto
    then have "push_subscribers ?qs as c t =
        ((\<lambda>b. if b \<in> set as then map_option (\<lambda>q. queue_push_output q c t) (?qs b) else ?qs b),
         filter (\<lambda>b. qs b \<noteq> None) as)"
      using Cons.IH [of ?qs] Cons.prems by (simp only: distinct.simps)
    then show ?thesis using Cons.prems Some by (auto simp: fun_eq_iff)
  qed
qed simp

lemma close_subscribers_spec:
  "distinct as \<Longrightarrow> close_subscribers qs as n =
     (\<lambda>a. if a \<in> set as then map_option (\<lambda>q. queue_push_terminal q n) (qs a) else qs a)"
proof (induction as arbitrary: qs)
  case (Cons a as)
  then show ?case by (cases "qs a") (auto simp: fun_eq_iff)
qed simp

section \<open>Runs\<close>

inductive hub_run ::
  "'v vt100 \<Rightarrow> 'v hub \<Rightarrow> bytes \<Rightarrow> (nat \<Rightarrow> viewer) \<Rightarrow> (nat \<Rightarrow> output_event list) \<Rightarrow> bool"
  for vt :: "'v vt100" where
  start:
    "hub_new vt history_limit subscriber_limit rows cols = Ok h \<Longrightarrow> hub_run vt h [] ini (\<lambda>a. [])"
| push:
    "hub_run vt h H ini log \<Longrightarrow> length bs \<le> u64_max \<Longrightarrow> hub_push vt h bs = (h', r) \<Longrightarrow>
     hub_run vt h' (case r of Inl e \<Rightarrow> H | Inr c \<Rightarrow> H @ bs) ini log"
| subscribe:
    "hub_run vt h H ini log \<Longrightarrow> hub_subscribe h off = (h', Inr a) \<Longrightarrow>
     hub_run vt h' H (ini(a := \<lparr>v_pos = unwrap_or off 0, v_paint = NoPaint, v_closed = False\<rparr>)) log"
| subscribe_ahead:
    "hub_run vt h H ini log \<Longrightarrow> hub_subscribe h off = (h', Inl e) \<Longrightarrow> hub_run vt h' H ini log"
| subscribe_snapshot:
    "hub_run vt h H ini log \<Longrightarrow> hub_subscribe_terminal_snapshot h = (h', a) \<Longrightarrow>
     hub_run vt h' H
       (ini(a := \<lparr>v_pos = ring_next_offset (hub_ring h), v_paint = AwaitPaint, v_closed = False\<rparr>)) log"
| recv:
    "hub_run vt h H ini log \<Longrightarrow> hub_recv h a = (h', Received e) \<Longrightarrow>
     hub_run vt h' H ini (log(a := log a @ [e]))"
| recv_idle:
    "hub_run vt h H ini log \<Longrightarrow> hub_recv h a = (h', r) \<Longrightarrow> r = Ended \<or> r = Waiting \<Longrightarrow>
     hub_run vt h' H ini log"
| resize:
    "hub_run vt h H ini log \<Longrightarrow> hub_run vt (hub_resize vt h rows cols) H ini log"
| close:
    "hub_run vt h H ini log \<Longrightarrow> hub_close h reason = (h', c) \<Longrightarrow> hub_run vt h' H ini log"
| answer:
    "hub_run vt h H ini log \<Longrightarrow> hub_run vt (hub_answer_probes h) H ini log"
| drop_subscriber:
    "hub_run vt h H ini log \<Longrightarrow> hub_run vt (hub_drop_subscriber h a) H ini log"

section \<open>The invariant of a run\<close>

definition core_inv :: "bytes \<Rightarrow> 'v hub \<Rightarrow> bool" where
  "core_inv H h \<longleftrightarrow>
     ring_inv H (hub_ring h) \<and> 0 < ring_limit (hub_ring h) \<and> 0 < hub_subscriber_limit h \<and>
     terminal_inv H (hub_terminal h) \<and> snap_ok H (hub_terminal_snapshot h) \<and>
     ts_watermark (hub_terminal_snapshot h) = length H \<and>
     (\<forall>c. hub_completion h = Some c \<longrightarrow> completion_next_offset c = length H)"

definition store_inv :: "bytes \<Rightarrow> 'v hub \<Rightarrow> bool" where
  "store_inv H h \<longleftrightarrow>
     distinct (hub_subscribers h) \<and> (\<forall>a \<in> set (hub_subscribers h). a < hub_next_queue h) \<and>
     (hub_completion h \<noteq> None \<longrightarrow> hub_subscribers h = []) \<and>
     (\<forall>a q. hub_queues h a = Some q \<longrightarrow>
        a < hub_next_queue h \<and> queue_inv H (hub_subscriber_limit h) q \<and>
        (sub_closed (q_state q) \<longleftrightarrow> hub_completion h \<noteq> None) \<and>
        (hub_completion h = None \<longrightarrow> a \<in> set (hub_subscribers h)))"

definition view_inv :: "bytes \<Rightarrow> 'v hub \<Rightarrow> nat \<Rightarrow> viewer \<Rightarrow> output_event list \<Rightarrow> bool" where
  "view_inv H h a v0 es \<longleftrightarrow>
     (\<exists>v. view_all H v0 es = Some v \<and> (v_closed v \<longrightarrow> hub_completion h \<noteq> None) \<and>
          (\<forall>q. hub_queues h a = Some q \<longrightarrow> viewer_rel v (q_state q)))"

definition run_inv :: "bytes \<Rightarrow> 'v hub \<Rightarrow> (nat \<Rightarrow> viewer) \<Rightarrow> (nat \<Rightarrow> output_event list) \<Rightarrow> bool" where
  "run_inv H h ini log \<longleftrightarrow>
     core_inv H h \<and> store_inv H h \<and> (\<forall>a < hub_next_queue h. view_inv H h a (ini a) (log a)) \<and>
     (\<forall>a \<ge> hub_next_queue h. log a = [])"

lemma core_invD:
  assumes "core_inv H h"
  shows "ring_inv H (hub_ring h)" "terminal_inv H (hub_terminal h)" "snap_ok H (hub_terminal_snapshot h)"
    "ts_watermark (hub_terminal_snapshot h) = length H" "0 < hub_subscriber_limit h"
    "ring_next_offset (hub_ring h) = length H" "length H \<le> u64_max"
    "ring_start_offset (hub_ring h) \<le> length H"
  using assms by (auto simp: core_inv_def ring_inv_def)

lemma store_invD:
  assumes "store_inv H h" and "hub_queues h a = Some q"
  shows "a < hub_next_queue h" "queue_inv H (hub_subscriber_limit h) q"
    "sub_closed (q_state q) \<longleftrightarrow> hub_completion h \<noteq> None"
    "hub_completion h = None \<Longrightarrow> a \<in> set (hub_subscribers h)"
  using assms by (auto simp: store_inv_def)

lemma run_inv_new:
  assumes "hub_new vt hl sl rows cols = Inr h" and "vt_sized vt"
  shows "run_inv [] h ini (\<lambda>a. [])"
  using assms take_snapshot_ok [of "[]" "terminal_new vt rows cols" vt]
  by (auto simp: hub_new_def run_inv_def core_inv_def store_inv_def Let_def ring_new_def ring_inv_def
      split: if_splits)

text \<open>What an accepted push does to the hub.\<close>

definition pushed_terminal :: "'v vt100 \<Rightarrow> 'v hub \<Rightarrow> bytes \<Rightarrow> 'v terminal_tracker" where
  "pushed_terminal vt h bs = fst (terminal_take_probes (terminal_feed vt (hub_terminal h) bs))"

lemma hub_push_accepted:
  assumes core: "core_inv H h" and store: "store_inv H h" and opened: "hub_completion h = None"
    and ne: "bs \<noteq> []" and fits: "length H + length bs \<le> u64_max"
  obtains h' snap where
    "hub_push vt h bs = (h', Ok \<lparr>chunk_offset = length H, chunk_bytes = bs\<rparr>)"
    "snap = take_snapshot vt (pushed_terminal vt h bs) (length (H @ bs))"
    "ring_inv (H @ bs) (hub_ring h')" "ring_limit (hub_ring h') = ring_limit (hub_ring h)"
    "hub_terminal h' = pushed_terminal vt h bs" "hub_terminal_snapshot h' = snap"
    "hub_subscribers h' = filter (\<lambda>a. hub_queues h a \<noteq> None) (hub_subscribers h)"
    "hub_queues h' = (\<lambda>a. map_option (\<lambda>q. queue_push_output q \<lparr>chunk_offset = length H, chunk_bytes = bs\<rparr> snap)
                        (hub_queues h a))"
    "hub_completion h' = None" "hub_subscriber_limit h' = hub_subscriber_limit h"
    "hub_next_queue h' = hub_next_queue h"
proof -
  obtain r where r: "ring_push (hub_ring h) bs = (r, Ok \<lparr>chunk_offset = length H, chunk_bytes = bs\<rparr>)"
    "ring_inv (H @ bs) r" "ring_limit r = ring_limit (hub_ring h)"
    using ring_push_ok [OF core_invD(1) [OF core] fits] by blast
  have all: "hub_queues h a = None" if "a \<notin> set (hub_subscribers h)" for a
    using that store opened by (cases "hub_queues h a") (auto simp: store_inv_def)
  have dist: "distinct (hub_subscribers h)" using store by (simp add: store_inv_def)
  have nx: "ring_next_offset r = length (H @ bs)" using r(2) by (simp add: ring_inv_def)
  let ?snap = "take_snapshot vt (pushed_terminal vt h bs) (length (H @ bs))"
  let ?c = "\<lparr>chunk_offset = length H, chunk_bytes = bs\<rparr>"
  obtain terminal probes where tp: "terminal_take_probes (terminal_feed vt (hub_terminal h) bs) = (terminal, probes)"
    by (cases "terminal_take_probes (terminal_feed vt (hub_terminal h) bs)")
  then have t: "terminal = pushed_terminal vt h bs" by (simp add: pushed_terminal_def)
  have qs: "(\<lambda>a. if a \<in> set (hub_subscribers h) then map_option f (hub_queues h a) else hub_queues h a) =
            (\<lambda>a. map_option f (hub_queues h a))" for f
    using all by (auto simp: fun_eq_iff)
  have "hub_push vt h bs =
    (h\<lparr>hub_ring := r, hub_terminal := pushed_terminal vt h bs, hub_terminal_snapshot := ?snap,
       hub_subscribers := filter (\<lambda>a. hub_queues h a \<noteq> None) (hub_subscribers h),
       hub_probe := map_option (\<lambda>r. answer_spans r probes) (hub_probe h),
       hub_queues := (\<lambda>a. map_option (\<lambda>q. queue_push_output q ?c ?snap) (hub_queues h a))\<rparr>, Ok ?c)"
    using opened ne nx unfolding hub_push_def r(1) tp push_subscribers_spec [OF dist] t Let_def
    by (simp add: qs nx)
  from that [OF this refl] r(2,3) opened show ?thesis by simp
qed

lemma viewer_rel_push:
  assumes "viewer_rel v (q_state q)" and "\<not> v_closed v"
  shows "viewer_rel v (q_state (queue_push_output q c t))"
  using assms
  by (auto simp: viewer_rel_def queue_push_output_def snapshot_cursor_new_def Let_def split: option.splits)

lemma viewer_rel_terminal:
  assumes "viewer_rel v (q_state q)" and "\<not> v_closed v"
  shows "viewer_rel v (q_state (queue_push_terminal q n))"
  using assms by (auto simp: viewer_rel_def queue_push_terminal_def Let_def split: option.splits)

lemma run_inv_push_accepted:
  assumes inv: "run_inv H h ini log" and vt: "vt_sized vt" and opened: "hub_completion h = None"
    and ne: "bs \<noteq> []" and fits: "length H + length bs \<le> u64_max" and p: "hub_push vt h bs = (h', r)"
  shows "\<exists>c. r = Inr c \<and> run_inv (H @ bs) h' ini log"
proof -
  have core: "core_inv H h" and store: "store_inv H h" using inv by (auto simp: run_inv_def)
  obtain h2 snap where h2: "hub_push vt h bs = (h2, Ok \<lparr>chunk_offset = length H, chunk_bytes = bs\<rparr>)"
    "snap = take_snapshot vt (pushed_terminal vt h bs) (length (H @ bs))"
    "ring_inv (H @ bs) (hub_ring h2)" "ring_limit (hub_ring h2) = ring_limit (hub_ring h)"
    "hub_terminal h2 = pushed_terminal vt h bs" "hub_terminal_snapshot h2 = snap"
    "hub_subscribers h2 = filter (\<lambda>a. hub_queues h a \<noteq> None) (hub_subscribers h)"
    "hub_queues h2 = (\<lambda>a. map_option (\<lambda>q. queue_push_output q \<lparr>chunk_offset = length H, chunk_bytes = bs\<rparr> snap)
                        (hub_queues h a))"
    "hub_completion h2 = None" "hub_subscriber_limit h2 = hub_subscriber_limit h"
    "hub_next_queue h2 = hub_next_queue h"
    by (rule hub_push_accepted [OF core store opened ne fits, of vt]) blast
  have ti: "terminal_inv (H @ bs) (pushed_terminal vt h bs)"
    using terminal_inv_take [OF terminal_inv_feed [OF core_invD(2) [OF core]]] by (simp add: pushed_terminal_def)
  have snap: "snap_ok (H @ bs) snap" "ts_watermark snap = length (H @ bs)"
    using take_snapshot_ok [OF ti vt] h2(2) by simp_all
  have core2: "core_inv (H @ bs) h2"
    using core h2(3-6,9,10) ti snap by (simp add: core_inv_def)
  have "queue_inv (H @ bs) (hub_subscriber_limit h) (queue_push_output q \<lparr>chunk_offset = length H, chunk_bytes = bs\<rparr> snap)"
    if "hub_queues h a = Some q" for a q
    using store_invD [OF store that] opened fits ne snap by (intro queue_push_output_inv) auto
  moreover have "sub_closed (q_state (queue_push_output q c t)) = sub_closed (q_state q)" for q c t
    by (simp add: queue_push_output_def Let_def)
  ultimately have store2: "store_inv (H @ bs) h2"
    using store opened unfolding store_inv_def h2(7-11) by (auto simp: map_option_eq_Some)
  have "view_inv (H @ bs) h2 a (ini a) (log a)" if a: "a < hub_next_queue h" for a
  proof -
    obtain v where v: "view_all H (ini a) (log a) = Some v" "\<not> v_closed v"
      "\<forall>q. hub_queues h a = Some q \<longrightarrow> viewer_rel v (q_state q)"
      using inv a opened by (auto simp: run_inv_def view_inv_def)
    then show ?thesis
      using view_all_append_history [OF v(1,2)] h2(8) by (auto simp: view_inv_def intro: viewer_rel_push)
  qed
  then show ?thesis
    using p h2(1,11) core2 store2 inv by (auto simp: run_inv_def)
qed

text \<open>A rejected push leaves the hub as it was; an empty one changes nothing that is observable.\<close>

lemma hub_push_rejected:
  assumes core: "core_inv H h" and len: "length bs \<le> u64_max" and ne: "bs \<noteq> []"
    and rej: "hub_completion h \<noteq> None \<or> u64_max < length H + length bs"
  shows "\<exists>e. hub_push vt h bs = (h, Err e)"
proof (cases "hub_completion h = None")
  case True
  then have "ring_push (hub_ring h) bs = (hub_ring h, Err OffsetOverflow)"
    using rej len ring_push_overflow [OF core_invD(1) [OF core]] by simp
  then show ?thesis using True by (simp add: hub_push_def)
qed (simp add: hub_push_def ne)

lemma run_inv_push_empty:
  assumes inv: "run_inv H h ini log" and p: "hub_push vt h [] = (h', r)"
  shows "\<exists>c. r = Inr c \<and> run_inv H h' ini log"
proof -
  have core: "core_inv H h" using inv by (simp add: run_inv_def)
  obtain ring c where ring: "ring_push (hub_ring h) [] = (ring, Ok c)" "ring_inv H ring"
    "ring_limit ring = ring_limit (hub_ring h)"
    using ring_push_ok [OF core_invD(1) [OF core], of "[]"] core_invD(7) [OF core] by auto
  then have "h' = h\<lparr>hub_ring := ring\<rparr>" "r = Ok c" using p by (auto simp: hub_push_def)
  then show ?thesis
    using inv ring by (auto simp: run_inv_def core_inv_def store_inv_def view_inv_def)
qed

lemma run_inv_push:
  assumes inv: "run_inv H h ini log" and vt: "vt_sized vt" and len: "length bs \<le> u64_max"
    and p: "hub_push vt h bs = (h', r)"
  shows "run_inv (case r of Inl e \<Rightarrow> H | Inr c \<Rightarrow> H @ bs) h' ini log"
proof -
  have core: "core_inv H h" using inv by (simp add: run_inv_def)
  consider (empty) "bs = []"
    | (rejected) "bs \<noteq> []" "hub_completion h \<noteq> None \<or> u64_max < length H + length bs"
    | (accepted) "bs \<noteq> []" "hub_completion h = None" "length H + length bs \<le> u64_max"
    by (meson not_le)
  then show ?thesis
  proof cases
    case empty
    then show ?thesis using run_inv_push_empty [OF inv, of vt h' r] p by auto
  next
    case rejected
    then show ?thesis using hub_push_rejected [OF core len, of vt] inv p by auto
  next
    case accepted
    then show ?thesis using run_inv_push_accepted [OF inv vt _ _ _ p] by auto
  qed
qed

text \<open>A registered queue starts in step with the viewer its seed stands for.\<close>

definition seed_ok :: "bytes \<Rightarrow> queue_seed \<Rightarrow> bool" where
  "seed_ok H seed \<longleftrightarrow>
     (case seed of
        SeedReplay r \<Rightarrow> fst r \<le> snd r \<and> snd r = length H
      | SeedGap m t \<Rightarrow> snap_ok H t \<and> ts_watermark t = length H \<and> snd m = length H \<and> fst m < length H
      | SeedSnapshot t \<Rightarrow> snap_ok H t \<and> ts_watermark t = length H)"

definition seed_viewer :: "queue_seed \<Rightarrow> viewer" where
  "seed_viewer seed =
     (case seed of
        SeedReplay r \<Rightarrow> \<lparr>v_pos = fst r, v_paint = NoPaint, v_closed = False\<rparr>
      | SeedGap m t \<Rightarrow> \<lparr>v_pos = fst m, v_paint = NoPaint, v_closed = False\<rparr>
      | SeedSnapshot t \<Rightarrow> \<lparr>v_pos = ts_watermark t, v_paint = AwaitPaint, v_closed = False\<rparr>)"

lemma queue_new_rel: "viewer_rel (seed_viewer seed) (q_state (queue_new limit seed))"
  by (cases seed)
     (auto simp: viewer_rel_def seed_viewer_def queue_new_def snapshot_cursor_new_def
        snapshot_cursor_without_gap_def)

lemma queue_new_open: "\<not> sub_closed (q_state (queue_new limit seed))"
  by (simp add: queue_new_def Let_def split: prod.splits)

lemma run_inv_register:
  assumes inv: "run_inv H h ini log" and seed: "seed_ok H seed" and reg: "register_subscriber h seed = (h', a)"
  shows "run_inv H h' (ini(a := seed_viewer seed)) log"
proof -
  let ?q = "queue_new (hub_subscriber_limit h) seed"
  have core: "core_inv H h" and store: "store_inv H h" using inv by (auto simp: run_inv_def)
  have a: "a = hub_next_queue h" using reg by (simp add: register_subscriber_def Let_def)
  have q: "queue_inv H (hub_subscriber_limit h) ?q"
    using queue_new_inv [OF core_invD(5) [OF core]] seed by (simp add: seed_ok_def)
  have fresh: "a \<notin> set (hub_subscribers h)" "log a = []" using inv a by (auto simp: run_inv_def store_inv_def)
  have nv: "\<not> v_closed (seed_viewer seed)" by (simp add: seed_viewer_def split: queue_seed.splits)
  show ?thesis
  proof (cases "hub_completion h")
    case None
    then have h': "h' = h\<lparr>hub_next_queue := a + 1, hub_queues := (hub_queues h)(a \<mapsto> ?q),
        hub_subscribers := hub_subscribers h @ [a]\<rparr>"
      using reg a by (simp add: register_subscriber_def Let_def)
    have "store_inv H h'"
      using store q fresh None queue_new_open [of "hub_subscriber_limit h" seed] a
      unfolding h' store_inv_def by (auto simp: less_Suc_eq)
    then show ?thesis
      using inv queue_new_rel [of seed "hub_subscriber_limit h"] fresh nv a unfolding h'
      by (auto simp: run_inv_def core_inv_def view_inv_def less_Suc_eq)
  next
    case (Some c)
    let ?q' = "queue_push_terminal ?q (length H)"
    have h': "h' = h\<lparr>hub_next_queue := a + 1, hub_queues := (hub_queues h)(a \<mapsto> ?q')\<rparr>"
      using reg a Some core by (simp add: register_subscriber_def Let_def core_inv_def)
    have q': "queue_inv H (hub_subscriber_limit h) ?q'" "sub_closed (q_state ?q')"
      using queue_push_terminal_inv [OF q queue_new_open] by (simp_all add: queue_push_terminal_def Let_def)
    then have "store_inv H h'"
      using store Some a unfolding h' store_inv_def by (auto simp: less_Suc_eq)
    then show ?thesis
      using inv viewer_rel_terminal [OF queue_new_rel nv] fresh nv a Some unfolding h'
      by (auto simp: run_inv_def core_inv_def view_inv_def less_Suc_eq)
  qed
qed

lemma subscription_seed_ok:
  assumes core: "core_inv H h" and s: "subscription_seed h off = Inr seed"
  shows "seed_ok H seed"
    and "seed_viewer seed = \<lparr>v_pos = unwrap_or off 0, v_paint = NoPaint, v_closed = False\<rparr>"
  using s core_invD [OF core]
  by (auto simp: subscription_seed_def validate_offset_def seed_ok_def seed_viewer_def Let_def
      split: if_splits sum.splits)

lemma run_inv_subscribe:
  assumes inv: "run_inv H h ini log" and s: "hub_subscribe h off = (h', Inr a)"
  shows "run_inv H h' (ini(a := \<lparr>v_pos = unwrap_or off 0, v_paint = NoPaint, v_closed = False\<rparr>)) log"
proof -
  have core: "core_inv H h" using inv by (simp add: run_inv_def)
  from s obtain seed where seed: "subscription_seed h off = Inr seed" "register_subscriber h seed = (h', a)"
    by (auto simp: hub_subscribe_def split: sum.splits prod.splits)
  show ?thesis
    using run_inv_register [OF inv _ seed(2)] subscription_seed_ok [OF core seed(1)] by simp
qed

lemma hub_subscribe_ahead: "hub_subscribe h off = (h', Inl e) \<Longrightarrow> h' = h"
  by (auto simp: hub_subscribe_def split: sum.splits prod.splits)

lemma run_inv_subscribe_snapshot:
  assumes inv: "run_inv H h ini log" and s: "hub_subscribe_terminal_snapshot h = (h', a)"
  shows "run_inv H h'
    (ini(a := \<lparr>v_pos = ring_next_offset (hub_ring h), v_paint = AwaitPaint, v_closed = False\<rparr>)) log"
proof -
  have core: "core_inv H h" using inv by (simp add: run_inv_def)
  have "seed_ok H (SeedSnapshot (hub_terminal_snapshot h))"
    using core_invD [OF core] by (simp add: seed_ok_def)
  from run_inv_register [OF inv this] s core_invD [OF core] show ?thesis
    by (simp add: hub_subscribe_terminal_snapshot_def seed_viewer_def)
qed

text \<open>A receive delivers an event the viewer accepts, or leaves a queue that is caught up.\<close>

lemma queue_event_limit_pos: "queue_inv H limit q \<Longrightarrow> 0 < q_event_limit q"
  by (simp add: queue_inv_def MAX_DATA_PAYLOAD_BYTES_def)

lemma hub_recv_cases:
  assumes inv: "run_inv H h ini log" and q: "hub_queues h a = Some q"
  obtains (event) s e v v' where
      "hub_recv h a = (h\<lparr>hub_queues := (hub_queues h)(a \<mapsto> q\<lparr>q_state := s\<rparr>)\<rparr>, Received e)"
      "view_all H (ini a) (log a) = Some v" "view H v e = Some v'" "viewer_rel v' s"
      "state_inv H (hub_subscriber_limit h) s" "sub_closed s = sub_closed (q_state q)"
    | (idle) "hub_recv h a = (h, if sub_closed (q_state q) then Ended else Waiting)"
      "sub_expected_offset (q_state q) = length H" "sub_events (q_state q) = []"
      "sub_snapshot (q_state q) = None" "sub_replay (q_state q) = None"
proof -
  have core: "core_inv H h" and store: "store_inv H h" using inv by (auto simp: run_inv_def)
  note st = store_invD [OF store q]
  obtain v where v: "view_all H (ini a) (log a) = Some v" "viewer_rel v (q_state q)"
    using inv st(1) q by (auto simp: run_inv_def view_inv_def)
  obtain s r where ne: "next_event (q_state q) (hub_ring h) (hub_terminal_snapshot h) (q_event_limit q) = (s, r)"
    by (cases "next_event (q_state q) (hub_ring h) (hub_terminal_snapshot h) (q_event_limit q)")
  have si: "state_inv H (hub_subscriber_limit h) (q_state q)" using st(2) by (simp add: queue_inv_def)
  note del = next_event_delivers [OF si v(2) core_invD(1,3,4) [OF core] queue_event_limit_pos [OF st(2)]]
  show ?thesis
  proof (cases r)
    case None
    then have "s = q_state q" using del ne by simp
    moreover have "(hub_queues h)(a \<mapsto> q) = hub_queues h" using q by (simp add: map_upd_triv)
    ultimately show ?thesis using idle None ne del q by (simp add: hub_recv_def)
  next
    case (Some e)
    have "sub_closed s = sub_closed (q_state q)"
      using ne by (auto simp: next_event_def next_repaint_def next_queued_def Let_def
          split: option.splits if_splits list.splits)
    then show ?thesis using event Some ne del q v by (auto simp: hub_recv_def delivers_def)
  qed
qed

lemma run_inv_recv:
  assumes inv: "run_inv H h ini log" and r: "hub_recv h a = (h', Received e)"
  shows "run_inv H h' ini (log(a := log a @ [e]))"
proof -
  obtain q where q: "hub_queues h a = Some q" using r by (cases "hub_queues h a") (auto simp: hub_recv_def)
  have store: "store_inv H h" using inv by (simp add: run_inv_def)
  note st = store_invD [OF store q]
  show ?thesis
    using inv q
  proof (cases rule: hub_recv_cases)
    case (event s e' v v')
    then have h': "h' = h\<lparr>hub_queues := (hub_queues h)(a \<mapsto> q\<lparr>q_state := s\<rparr>)\<rparr>" and e: "e' = e"
      using r by auto
    have "queue_inv H (hub_subscriber_limit h) (q\<lparr>q_state := s\<rparr>)"
      using st(2) event(5) by (simp add: queue_inv_def)
    then have "store_inv H h'"
      using store st event(6) unfolding h' store_inv_def by (auto simp del: not_None_eq)
    moreover have "view_inv H h' b (ini b) ((log(a := log a @ [e])) b)" if "b < hub_next_queue h'" for b
    proof (cases "b = a")
      case True
      have "v_closed v' \<longrightarrow> hub_completion h \<noteq> None"
        using event(4,6) st(3) by (auto simp: viewer_rel_def)
      then show ?thesis
        using True event(2,3,4) e unfolding h' by (auto simp: view_inv_def view_all_append)
    next
      case False
      then show ?thesis using inv that unfolding h' by (auto simp: run_inv_def view_inv_def)
    qed
    moreover have "core_inv H h'" using inv unfolding h' by (simp add: run_inv_def core_inv_def)
    ultimately show ?thesis using inv st(1) unfolding h' by (auto simp: run_inv_def)
  qed (use r in \<open>simp split: if_splits\<close>)
qed

lemma run_inv_recv_idle:
  assumes inv: "run_inv H h ini log" and r: "hub_recv h a = (h', r)" "r = Ended \<or> r = Waiting"
  shows "run_inv H h' ini log"
proof (cases "hub_queues h a")
  case None
  then show ?thesis using inv r by (simp add: hub_recv_def)
next
  case (Some q)
  with inv show ?thesis by (cases rule: hub_recv_cases) (use inv r in auto)
qed

lemma run_inv_resize:
  assumes inv: "run_inv H h ini log" and vt: "vt_sized vt"
  shows "run_inv H (hub_resize vt h rows cols) ini log"
proof -
  have core: "core_inv H h" using inv by (simp add: run_inv_def)
  have ti: "terminal_inv H (terminal_resize vt (hub_terminal h) rows cols)"
    by (rule terminal_inv_resize [OF core_invD(2) [OF core]])
  from take_snapshot_ok [OF this vt] ti inv core_invD(6) [OF core] show ?thesis
    by (auto simp: hub_resize_def Let_def run_inv_def core_inv_def store_inv_def view_inv_def)
qed

lemma run_inv_close:
  assumes inv: "run_inv H h ini log" and c: "hub_close h reason = (h', c)"
  shows "run_inv H h' ini log"
proof (cases "hub_completion h")
  case (Some d)
  then show ?thesis using inv c by (simp add: hub_close_def)
next
  case None
  have core: "core_inv H h" and store: "store_inv H h" using inv by (auto simp: run_inv_def)
  have dist: "distinct (hub_subscribers h)" using store by (simp add: store_inv_def)
  have all: "hub_queues h a = None" if "a \<notin> set (hub_subscribers h)" for a
    using that store None by (cases "hub_queues h a") (auto simp: store_inv_def)
  have qs: "hub_queues h' = (\<lambda>a. map_option (\<lambda>q. queue_push_terminal q (length H)) (hub_queues h a))"
    using c None all core_invD(6) [OF core]
    by (auto simp: hub_close_def Let_def close_subscribers_spec [OF dist] fun_eq_iff)
  have h': "hub_completion h' = Some c" "hub_subscribers h' = []" "hub_next_queue h' = hub_next_queue h"
    "hub_subscriber_limit h' = hub_subscriber_limit h" "completion_next_offset c = length H"
    and core': "core_inv H h'"
    using c None core core_invD(6) [OF core]
    by (auto simp: hub_close_def Let_def core_inv_def completion_next_offset_def split: output_close_reason.splits)
  have "queue_inv H (hub_subscriber_limit h) (queue_push_terminal q (length H)) \<and>
      sub_closed (q_state (queue_push_terminal q (length H)))" if "hub_queues h a = Some q" for a q
    using queue_push_terminal_inv [OF store_invD(2) [OF store that]] store_invD(3) [OF store that] None
    by (simp add: queue_push_terminal_def Let_def)
  then have "store_inv H h'"
    using store unfolding store_inv_def qs h' by (auto simp: map_option_eq_Some)
  moreover have "view_inv H h' a (ini a) (log a)" if "a < hub_next_queue h" for a
    using inv that None unfolding run_inv_def view_inv_def qs h'
    by (fastforce intro: viewer_rel_terminal simp: map_option_eq_Some)
  ultimately show ?thesis using core' inv h' by (simp add: run_inv_def)
qed

lemma run_inv_answer: "run_inv H h ini log \<Longrightarrow> run_inv H (hub_answer_probes h) ini log"
  by (auto simp: run_inv_def core_inv_def store_inv_def view_inv_def hub_answer_probes_def)

lemma run_inv_drop: "run_inv H h ini log \<Longrightarrow> run_inv H (hub_drop_subscriber h a) ini log"
  by (auto simp: run_inv_def core_inv_def store_inv_def view_inv_def hub_drop_subscriber_def)

text \<open>Every run keeps the invariant.\<close>

lemma hub_run_inv:
  assumes "hub_run vt h H ini log" and "vt_sized vt"
  shows "run_inv H h ini log"
  using assms
proof (induction rule: hub_run.induct)
  case (start hl sl rows cols h ini)
  then show ?case by (auto intro: run_inv_new)
next
  case (subscribe_ahead h H ini log off h' e)
  then show ?case using hub_subscribe_ahead by blast
qed (auto intro: run_inv_push run_inv_subscribe run_inv_subscribe_snapshot run_inv_recv
      run_inv_recv_idle run_inv_resize run_inv_close run_inv_answer run_inv_drop)

section \<open>Gapless deliveries\<close>

definition event_bytes :: "output_event \<Rightarrow> bytes" where
  "event_bytes e = (case e of Replay c \<Rightarrow> chunk_bytes c | Output c \<Rightarrow> chunk_bytes c | _ \<Rightarrow> [])"

definition is_gap :: "output_event \<Rightarrow> bool" where
  "is_gap e = (case e of Gap _ _ \<Rightarrow> True | _ \<Rightarrow> False)"

lemma view_gapless:
  assumes "view H v e = Some v'" and "\<not> is_gap e" and "v_paint v = NoPaint"
  shows "v_paint v' = NoPaint \<and> v_pos v' = v_pos v + length (event_bytes e) \<and>
    event_bytes e = slice H (v_pos v) (v_pos v') \<and> (v_pos v \<le> length H \<longrightarrow> v_pos v' \<le> length H)"
  using assms
  by (cases e) (auto simp: view_def is_gap_def event_bytes_def chunk_at_def fragment_ok_def split: if_splits)

lemma view_all_gapless:
  assumes "view_all H v es = Some v'" and "\<forall>e \<in> set es. \<not> is_gap e" and "v_paint v = NoPaint"
    and "v_pos v \<le> length H"
  shows "v_pos v' = v_pos v + length (concat (map event_bytes es)) \<and>
    concat (map event_bytes es) = slice H (v_pos v) (v_pos v') \<and> v_pos v' \<le> length H"
  using assms
proof (induction es arbitrary: v)
  case (Cons e es)
  then obtain u where u: "view H v e = Some u" "view_all H u es = Some v'" by (auto split: option.splits)
  have ng: "\<not> is_gap e" "\<forall>e \<in> set es. \<not> is_gap e" using Cons.prems(2) by simp_all
  have g: "v_paint u = NoPaint" "v_pos u = v_pos v + length (event_bytes e)"
    "event_bytes e = slice H (v_pos v) (v_pos u)" "v_pos u \<le> length H"
    using view_gapless [OF u(1) ng(1) Cons.prems(3)] Cons.prems(4) by blast+
  have ih: "v_pos v' = v_pos u + length (concat (map event_bytes es))"
    "concat (map event_bytes es) = slice H (v_pos u) (v_pos v')" "v_pos v' \<le> length H"
    using Cons.IH [OF u(2) ng(2) g(1,4)] by blast+
  have "event_bytes e @ concat (map event_bytes es) = slice H (v_pos v) (v_pos u) @ slice H (v_pos u) (v_pos v')"
    by (rule arg_cong2 [where f = append, OF g(3) ih(2)])
  also have "\<dots> = slice H (v_pos v) (v_pos v')" using g(2) ih(1) by (intro slice_join) simp_all
  finally show ?case using g(2) ih(1,3) by simp
qed simp

section \<open>Draining a subscriber\<close>

text \<open>Receives of one subscriber while nothing else happens; the state carries its address.\<close>

definition recv_event :: "'v hub \<times> nat \<Rightarrow> ('v hub \<times> nat) \<times> output_event option" where
  "recv_event x = (case hub_recv (fst x) (snd x) of
     (h, Received e) \<Rightarrow> ((h, snd x), Some e)
   | (h, Ended) \<Rightarrow> ((h, snd x), None)
   | (h, Waiting) \<Rightarrow> ((h, snd x), None))"

definition recv_good :: "'v hub \<times> nat \<Rightarrow> bool" where
  "recv_good x \<longleftrightarrow> (\<exists>H ini log. run_inv H (fst x) ini log) \<and> hub_queues (fst x) (snd x) \<noteq> None"

definition recv_rank :: "'v hub \<times> nat \<Rightarrow> nat" where
  "recv_rank x = (case hub_queues (fst x) (snd x) of
     None \<Rightarrow> 0
   | Some q \<Rightarrow> queue_rank (hub_ring (fst x), hub_terminal_snapshot (fst x), q_event_limit q, q_state q))"

lemma recv_event_run:
  assumes inv: "run_inv H h ini log" and q: "hub_queues h a \<noteq> None"
    and r: "recv_event (h, a) = (x, Some e)"
  shows "\<exists>h'. x = (h', a) \<and> hub_queues h' a \<noteq> None \<and> run_inv H h' ini (log(a := log a @ [e])) \<and>
    recv_rank x < recv_rank (h, a) \<and> hub_completion h' = hub_completion h \<and> hub_ring h' = hub_ring h"
proof -
  obtain q where q: "hub_queues h a = Some q" using q by auto
  have core: "core_inv H h" and store: "store_inv H h" using inv by (auto simp: run_inv_def)
  note st = store_invD [OF store q]
  obtain h' where h': "hub_recv h a = (h', Received e)" "x = (h', a)"
    using r by (auto simp: recv_event_def split: prod.splits recv_poll.splits)
  obtain s where ev: "next_event (q_state q) (hub_ring h) (hub_terminal_snapshot h) (q_event_limit q) = (s, Some e)"
    and upd: "h' = h\<lparr>hub_queues := (hub_queues h)(a \<mapsto> q\<lparr>q_state := s\<rparr>)\<rparr>"
    using h'(1) q by (auto simp: hub_recv_def split: prod.splits option.splits if_splits)
  obtain v where v: "viewer_rel v (q_state q)" using inv st(1) q by (auto simp: run_inv_def view_inv_def)
  have si: "state_inv H (hub_subscriber_limit h) (q_state q)" using st(2) by (simp add: queue_inv_def)
  from next_event_rank [OF si v core_invD(1,3,4) [OF core] queue_event_limit_pos [OF st(2)] ev]
  show ?thesis using h' upd q run_inv_recv [OF inv h'(1)] by (auto simp: recv_rank_def)
qed

lemma recv_event_idle:
  assumes inv: "run_inv H h ini log" and q: "hub_queues h a = Some q" and r: "recv_event (h, a) = (x, None)"
  shows "x = (h, a)" "sub_expected_offset (q_state q) = length H" "sub_events (q_state q) = []"
    "sub_snapshot (q_state q) = None" "sub_replay (q_state q) = None"
  using inv q by (cases rule: hub_recv_cases; use r in \<open>simp add: recv_event_def split: if_splits\<close>)+

interpretation recv_source: draining_source recv_good recv_rank recv_event
proof
  fix x y :: "'v hub \<times> nat" and e
  assume "recv_good x" and "recv_event x = (y, Some e)"
  moreover obtain h a where "x = (h, a)" by (cases x)
  moreover obtain H ini log where "run_inv H (fst x) ini log" "hub_queues (fst x) (snd x) \<noteq> None"
    using \<open>recv_good x\<close> by (auto simp: recv_good_def)
  ultimately obtain h' where "y = (h', a)" "hub_queues h' a \<noteq> None"
    "run_inv H h' ini (log(a := log a @ [e]))" "recv_rank y < recv_rank x"
    using recv_event_run [of H h ini log a y e] by auto
  then show "recv_good y \<and> recv_rank y < recv_rank x" by (auto simp: recv_good_def)
next
  fix x y :: "'v hub \<times> nat"
  assume "recv_good x" and "recv_event x = (y, None)"
  then show "y = x" by (cases x) (auto simp: recv_good_def dest: recv_event_idle(1))
qed

text \<open>The run a drain is, with everything the subscriber received on the way.\<close>

lemma drain_run:
  assumes "run_inv H h ini log" and "hub_queues h a \<noteq> None" and "drain recv_event k (h, a) = (x, es)"
  shows "\<exists>h'. x = (h', a) \<and> hub_queues h' a \<noteq> None \<and> run_inv H h' ini (log(a := log a @ es)) \<and>
    hub_completion h' = hub_completion h"
  using assms
proof (induction k arbitrary: h log es)
  case (Suc k)
  obtain y r where y: "recv_event (h, a) = (y, r)" by (cases "recv_event (h, a)")
  show ?case
  proof (cases r)
    case None
    then have "x = y" "es = []" using Suc.prems(3) y by simp_all
    moreover have "y = (h, a)"
      using recv_event_idle(1) [OF Suc.prems(1)] Suc.prems(2) y None by blast
    ultimately show ?thesis using Suc.prems(1,2) by simp
  next
    case (Some e)
    from recv_event_run [OF Suc.prems(1,2), of y e] y Some
    obtain h1 where h1: "y = (h1, a)" "hub_queues h1 a \<noteq> None" "run_inv H h1 ini (log(a := log a @ [e]))"
      "hub_completion h1 = hub_completion h" by auto
    obtain es1 where es1: "drain recv_event k (h1, a) = (x, es1)" "es = e # es1"
      using Suc.prems(3) y Some h1(1) by (auto split: prod.splits)
    from Suc.IH [OF h1(3,2) es1(1)] es1(2) h1(4) show ?thesis by (simp only: fun_upd_upd fun_upd_same append_assoc append.simps)
  qed
qed auto

section \<open>Scripted runs\<close>

text \<open>A run as a list of operations, to execute concrete interleavings.\<close>

datatype hub_op =
    OpPush bytes
  | OpSubscribe "nat option"
  | OpSubscribeSnapshot
  | OpRecv nat
  | OpResize nat nat
  | OpClose output_close_reason
  | OpAnswer
  | OpDrop nat

type_synonym 'v run_state = "'v hub \<times> bytes \<times> (nat \<Rightarrow> viewer) \<times> (nat \<Rightarrow> output_event list)"

definition apply_op :: "'v vt100 \<Rightarrow> hub_op \<Rightarrow> 'v run_state \<Rightarrow> 'v run_state" where
  "apply_op vt opn x = (case x of (h, H, ini, log) \<Rightarrow>
     (case opn of
        OpPush bs \<Rightarrow>
          if length bs \<le> u64_max
          then (case hub_push vt h bs of (h', r) \<Rightarrow> (h', (case r of Inl e \<Rightarrow> H | Inr c \<Rightarrow> H @ bs), ini, log))
          else x
      | OpSubscribe off \<Rightarrow>
          (case hub_subscribe h off of
             (h', Inl e) \<Rightarrow> (h', H, ini, log)
           | (h', Inr a) \<Rightarrow>
               (h', H, ini(a := \<lparr>v_pos = unwrap_or off 0, v_paint = NoPaint, v_closed = False\<rparr>), log))
      | OpSubscribeSnapshot \<Rightarrow>
          (case hub_subscribe_terminal_snapshot h of
             (h', a) \<Rightarrow> (h', H,
                ini(a := \<lparr>v_pos = ring_next_offset (hub_ring h), v_paint = AwaitPaint, v_closed = False\<rparr>), log))
      | OpRecv a \<Rightarrow>
          (case hub_recv h a of
             (h', Received e) \<Rightarrow> (h', H, ini, log(a := log a @ [e]))
           | (h', Ended) \<Rightarrow> (h', H, ini, log)
           | (h', Waiting) \<Rightarrow> (h', H, ini, log))
      | OpResize rows cols \<Rightarrow> (hub_resize vt h rows cols, H, ini, log)
      | OpClose reason \<Rightarrow> (fst (hub_close h reason), H, ini, log)
      | OpAnswer \<Rightarrow> (hub_answer_probes h, H, ini, log)
      | OpDrop a \<Rightarrow> (hub_drop_subscriber h a, H, ini, log)))"

definition is_run :: "'v vt100 \<Rightarrow> 'v run_state \<Rightarrow> bool" where
  "is_run vt x = (case x of (h, H, ini, log) \<Rightarrow> hub_run vt h H ini log)"

lemma apply_op_run: "is_run vt x \<Longrightarrow> is_run vt (apply_op vt opn x)"
proof -
  assume "is_run vt x"
  moreover obtain h H ini log where x: "x = (h, H, ini, log)" by (cases x)
  ultimately have run: "hub_run vt h H ini log" by (simp add: is_run_def)
  show ?thesis
  proof (cases opn)
    case (OpClose reason)
    then show ?thesis
      using hub_run.close [OF run, of reason] x by (cases "hub_close h reason") (simp add: is_run_def apply_op_def)
  qed (use run x in \<open>auto simp: is_run_def apply_op_def split: prod.splits sum.splits recv_poll.splits
        intro: hub_run.push [where r = "Inl _", simplified] hub_run.push [where r = "Inr _", simplified]
          hub_run.subscribe hub_run.subscribe_ahead hub_run.subscribe_snapshot hub_run.recv
          hub_run.recv_idle hub_run.resize hub_run.answer hub_run.drop_subscriber\<close>)
qed

definition script_run :: "'v vt100 \<Rightarrow> nat \<Rightarrow> nat \<Rightarrow> hub_op list \<Rightarrow> 'v run_state option" where
  "script_run vt history_limit subscriber_limit ops =
     (case hub_new vt history_limit subscriber_limit 24 80 of
        Inl e \<Rightarrow> None
      | Inr h \<Rightarrow> Some (fold (apply_op vt) ops
          (h, [], (\<lambda>a. \<lparr>v_pos = 0, v_paint = NoPaint, v_closed = False\<rparr>), (\<lambda>a. []))))"

lemma fold_is_run: "is_run vt x \<Longrightarrow> is_run vt (fold (apply_op vt) ops x)"
  by (induction ops arbitrary: x) (simp_all add: apply_op_run)

lemma script_is_run:
  assumes "script_run vt hl sl ops = Some (h, H, ini, log)"
  shows "hub_run vt h H ini log"
proof -
  let ?ini = "\<lambda>a. \<lparr>v_pos = 0, v_paint = NoPaint, v_closed = False\<rparr>"
  from assms obtain h0 where h0: "hub_new vt hl sl 24 80 = Inr h0"
    and eq: "fold (apply_op vt) ops (h0, [], ?ini, \<lambda>a. []) = (h, H, ini, log)"
    by (auto simp: script_run_def split: sum.splits)
  have "is_run vt (h0, [], ?ini, \<lambda>a. [])" using hub_run.start [OF h0] by (simp add: is_run_def)
  from fold_is_run [OF this, of ops] show ?thesis unfolding eq by (simp add: is_run_def)
qed

text \<open>A small emulator: one screen of constant contents.\<close>

definition tiny_vt :: "unit vt100" where
  "tiny_vt =
     \<lparr>vt_new = (\<lambda>rows cols scrollback. ()), vt_process = (\<lambda>v bs. ()), vt_set_size = (\<lambda>v rows cols. ()),
      vt_size = (\<lambda>v. (24, 80)), vt_cursor_position = (\<lambda>v. (0, 0)), vt_alternate_screen = (\<lambda>v. False),
      vt_hide_cursor = (\<lambda>v. False), vt_input_mode_formatted = (\<lambda>v. []),
      vt_contents_formatted = (\<lambda>v. ''$''), vt_cursor_state_formatted = (\<lambda>v. []), vt_contents = (\<lambda>v. ''$'')\<rparr>"

lemma tiny_vt_sized [simp]: "vt_sized tiny_vt"
  by (simp add: vt_sized_def tiny_vt_def u64_max_def)

end
