(* ===== verification/Output_Guarantees.thy ===== *)
theory Output_Guarantees
  imports Output_Run
begin

text \<open>
  What the output hub guarantees to its subscribers and observers, for every run: faithful streams,
  bounded memory, drains that end, exact pages, and when the end of the output is delivered.
\<close>

section \<open>The exit event\<close>

definition has_exit :: "output_event list \<Rightarrow> bool" where
  "has_exit es = list_ex (\<lambda>e. case e of Exit _ \<Rightarrow> True | _ \<Rightarrow> False) es"

lemma has_exit_simps [simp]:
  "has_exit [] = False" "has_exit (xs @ ys) = (has_exit xs \<or> has_exit ys)"
  "has_exit (e # es) = ((\<exists>n. e = Exit n) \<or> has_exit es)"
  by (auto simp: has_exit_def split: output_event.splits)

lemma view_all_exit_closed: "view_all H v es = Some v' \<Longrightarrow> has_exit es \<Longrightarrow> v_closed v'"
proof (induction es arbitrary: v)
  case (Cons e es)
  then obtain u where u: "view H v e = Some u" "view_all H u es = Some v'" by (auto split: option.splits)
  show ?case
  proof (cases "\<exists>n. e = Exit n")
    case True
    then have "v_closed u" using u(1) by (auto simp: view_def split: if_splits)
    then have "es = []" using u(2) by (cases es) auto
    then show ?thesis using u \<open>v_closed u\<close> by simp
  next
    case False
    then show ?thesis using Cons.IH [OF u(2)] Cons.prems by simp
  qed
qed simp

text \<open>The replay a queue still owes its subscriber is retained by the ring.\<close>

definition replay_retained :: "output_ring \<Rightarrow> subscriber_state \<Rightarrow> bool" where
  "replay_retained ring s =
     (case sub_replay s of None \<Rightarrow> True
      | Some rc \<Rightarrow> rc_empty_pending rc \<or> ring_start_offset ring \<le> rc_next rc)"

lemma next_repaint_keeps:
  assumes "next_repaint s m = (s', Some e)" and "sub_replay s = None"
  shows "sub_replay s' = None \<and> (has_exit (sub_events s) \<longrightarrow> has_exit (e # sub_events s')) \<and>
    (\<not> has_exit (sub_events s) \<longrightarrow> \<not> has_exit (e # sub_events s'))"
  using assms by (auto simp: next_repaint_def next_queued_def Let_def split: option.splits if_splits list.splits)

lemma next_event_keeps_exit:
  assumes inv: "state_inv H limit s" and rel: "viewer_rel v s" and ring: "ring_inv H ring"
    and ret: "replay_retained ring s" and ev: "next_event s ring t m = (s', Some e)"
    and ex: "has_exit (sub_events s)" and m: "0 < m"
  shows "replay_retained ring s' \<and> has_exit (e # sub_events s')"
proof (cases "sub_replay s")
  case None
  then show ?thesis
    using next_repaint_keeps [of s m s' e] ev ex by (auto simp: next_event_def replay_retained_def)
next
  case (Some rc)
  note rc = replay_cursorD [OF inv rel Some]
  show ?thesis
  proof (cases "rc_empty_pending rc")
    case True
    then show ?thesis using ev ex Some by (auto simp: next_event_def replay_retained_def)
  next
    case False
    then have lt: "rc_next rc < rc_end rc" "ring_start_offset ring \<le> rc_next rc"
      using rc ret Some by (auto simp: replay_retained_def)
    define fin where "fin = min (rc_end rc) (rc_next rc + m)"
    have fin: "rc_next rc < fin" "fin \<le> length H" using lt m rc by (auto simp: fin_def)
    have "ring_chunk ring (rc_next rc) (rc_end rc) m =
        Some \<lparr>chunk_offset = rc_next rc, chunk_bytes = slice H (rc_next rc) fin\<rparr>"
      using ring_chunk_slice [OF ring lt(2,1) rc(4)] by (simp add: fin_def)
    moreover have "chunk_end \<lparr>chunk_offset = rc_next rc, chunk_bytes = slice H (rc_next rc) fin\<rparr> = fin"
      using fin ring_inv_width [OF ring] by (subst chunk_end_slice) auto
    ultimately show ?thesis
      using ev ex Some False lt fin by (auto simp: next_event_def replay_retained_def Let_def)
  qed
qed

text \<open>The same for a receive, which reads the hub's ring and does not change it.\<close>

definition owes_exit :: "'v hub \<times> nat \<Rightarrow> bool" where
  "owes_exit x = (case hub_queues (fst x) (snd x) of None \<Rightarrow> False
     | Some q \<Rightarrow> replay_retained (hub_ring (fst x)) (q_state q) \<and> has_exit (sub_events (q_state q)))"

lemma recv_event_unfold:
  assumes q: "hub_queues h a = Some q" and r: "recv_event (h, a) = (x, Some e)"
  obtains s where
    "next_event (q_state q) (hub_ring h) (hub_terminal_snapshot h) (q_event_limit q) = (s, Some e)"
    "x = (h\<lparr>hub_queues := (hub_queues h)(a \<mapsto> q\<lparr>q_state := s\<rparr>)\<rparr>, a)"
  using r q
  by (auto simp: recv_event_def hub_recv_def split: prod.splits option.splits recv_poll.splits if_splits)

lemma run_queue:
  assumes "run_inv H h ini log" and "hub_queues h a = Some q"
  obtains v where "state_inv H (hub_subscriber_limit h) (q_state q)" "viewer_rel v (q_state q)"
    "view_all H (ini a) (log a) = Some v" "ring_inv H (hub_ring h)" "0 < q_event_limit q"
    "snap_ok H (hub_terminal_snapshot h)" "ts_watermark (hub_terminal_snapshot h) = length H"
proof -
  have core: "core_inv H h" and store: "store_inv H h" using assms by (auto simp: run_inv_def)
  note st = store_invD [OF store assms(2)]
  obtain v where "view_all H (ini a) (log a) = Some v" "viewer_rel v (q_state q)"
    using assms st(1) by (auto simp: run_inv_def view_inv_def)
  then show ?thesis
    using that st(2) core_invD [OF core] queue_event_limit_pos [OF st(2)] by (simp add: queue_inv_def)
qed

lemma recv_keeps_exit:
  assumes inv: "run_inv H h ini log" and ow: "owes_exit (h, a)" and r: "recv_event (h, a) = (x, Some e)"
  shows "(\<exists>n. e = Exit n) \<or> owes_exit x"
proof -
  obtain q where q: "hub_queues h a = Some q" and ret: "replay_retained (hub_ring h) (q_state q)"
    and ex: "has_exit (sub_events (q_state q))"
    using ow by (auto simp: owes_exit_def split: option.splits)
  obtain v where v: "state_inv H (hub_subscriber_limit h) (q_state q)" "viewer_rel v (q_state q)"
    "ring_inv H (hub_ring h)" "0 < q_event_limit q"
    using run_queue [OF inv q] by metis
  obtain s where s: "next_event (q_state q) (hub_ring h) (hub_terminal_snapshot h) (q_event_limit q) = (s, Some e)"
    "x = (h\<lparr>hub_queues := (hub_queues h)(a \<mapsto> q\<lparr>q_state := s\<rparr>)\<rparr>, a)"
    using recv_event_unfold [OF q r] by metis
  from next_event_keeps_exit [OF v(1,2,3) ret s(1) ex v(4)] s(2) show ?thesis
    by (auto simp: owes_exit_def)
qed

lemma drain_exit:
  assumes "run_inv H h ini log" and "hub_queues h a \<noteq> None" and "owes_exit (h, a)"
    and "recv_rank (h, a) \<le> k"
  shows "has_exit (snd (drain recv_event (Suc k) (h, a)))"
  using assms
proof (induction k arbitrary: h log)
  case (0 h log)
  obtain q where q: "hub_queues h a = Some q" using 0 by auto
  obtain x r where x: "recv_event (h, a) = (x, r)" by (cases "recv_event (h, a)")
  show ?case
  proof (cases r)
    case None
    then have "sub_events (q_state q) = []" using recv_event_idle(3) [OF "0.prems"(1) q] x by simp
    then show ?thesis using "0.prems"(3) q by (simp add: owes_exit_def)
  next
    case (Some e)
    then show ?thesis using recv_event_run [OF "0.prems"(1,2)] x "0.prems"(4) by fastforce
  qed
next
  case (Suc k h log)
  obtain q where q: "hub_queues h a = Some q" using Suc.prems by auto
  obtain x r where x: "recv_event (h, a) = (x, r)" by (cases "recv_event (h, a)")
  show ?case
  proof (cases r)
    case None
    then have "sub_events (q_state q) = []" using recv_event_idle(3) [OF Suc.prems(1) q] x by simp
    then show ?thesis using Suc.prems(3) q by (simp add: owes_exit_def)
  next
    case (Some e)
    from recv_event_run [OF Suc.prems(1,2), of x e] x Some
    obtain h1 where h1: "x = (h1, a)" "hub_queues h1 a \<noteq> None" "run_inv H h1 ini (log(a := log a @ [e]))"
      "recv_rank (h1, a) < recv_rank (h, a)" by auto
    have eq: "drain recv_event (Suc (Suc k)) (h, a) =
        (fst (drain recv_event (Suc k) (h1, a)), e # snd (drain recv_event (Suc k) (h1, a)))"
      using x Some h1(1) by (intro drain_Some) simp
    show ?thesis
    proof (cases "\<exists>n. e = Exit n")
      case False
      then have "owes_exit (h1, a)" using recv_keeps_exit [OF Suc.prems(1,3), of x e] x Some h1(1) by auto
      then have "has_exit (snd (drain recv_event (Suc k) (h1, a)))"
        using Suc.IH [OF h1(3,2)] h1(4) Suc.prems(4) by linarith
      then show ?thesis unfolding eq by simp
    qed (simp only: eq snd_conv has_exit_simps simp_thms)
  qed
qed

text \<open>Once the events of a closed queue were cleared, only the repaint is left to deliver.\<close>

lemma recv_exit_gone:
  assumes q: "hub_queues h a = Some q" and none: "sub_replay (q_state q) = None" "sub_events (q_state q) = []"
  shows "\<not> has_exit (snd (drain recv_event k (h, a)))"
  using q none
proof (induction k arbitrary: h q)
  case (Suc k)
  obtain x r where x: "recv_event (h, a) = (x, r)" by (cases "recv_event (h, a)")
  show ?case
  proof (cases r)
    case (Some e)
    obtain s where s: "next_event (q_state q) (hub_ring h) (hub_terminal_snapshot h) (q_event_limit q) = (s, Some e)"
      "x = (h\<lparr>hub_queues := (hub_queues h)(a \<mapsto> q\<lparr>q_state := s\<rparr>)\<rparr>, a)"
      using recv_event_unfold [OF Suc.prems(1)] x Some by metis
    then have k: "sub_replay s = None" "\<not> (\<exists>n. e = Exit n)" "sub_events s = []"
      using Suc.prems
      by (auto simp: next_event_def next_repaint_def next_queued_def Let_def
          split: option.splits if_splits list.splits)
    have "\<not> has_exit (snd (drain recv_event k x))"
      unfolding s(2) using k Suc.prems(1) by (intro Suc.IH) auto
    then show ?thesis using x Some k by (simp add: drain_Some del: drain.simps)
  qed (use x in simp)
qed simp

lemma recv_evicted_clears:
  assumes inv: "run_inv H h ini log" and q: "hub_queues h a = Some q"
    and rp: "sub_replay (q_state q) = Some rc" "\<not> replay_retained (hub_ring h) (q_state q)"
  shows "\<exists>h' q' m w. recv_event (h, a) = ((h', a), Some (Gap m w)) \<and> hub_queues h' a = Some q' \<and>
    sub_replay (q_state q') = None \<and> sub_events (q_state q') = []"
proof -
  obtain v where v: "state_inv H (hub_subscriber_limit h) (q_state q)" "viewer_rel v (q_state q)"
    "ring_inv H (hub_ring h)"
    using run_queue [OF inv q] by metis
  note rc = replay_cursorD [OF v(1,2) rp(1)]
  have lt: "rc_next rc < rc_end rc" "rc_next rc < ring_start_offset (hub_ring h)"
    using rp rc by (auto simp: replay_retained_def)
  show ?thesis
    using q next_event_evicted [OF v rp(1) lt, of "hub_terminal_snapshot h" "q_event_limit q"]
    by (auto simp: recv_event_def hub_recv_def next_repaint_def evict_to_repaint_def snapshot_cursor_new_def Let_def)
qed

lemma close_queue:
  assumes inv: "run_inv H h ini log" and opened: "hub_completion h = None" and q: "hub_queues h a = Some q"
    and c: "hub_close h reason = (h', c)"
  shows "hub_queues h' a = Some (queue_push_terminal q (length H))" "hub_ring h' = hub_ring h"
    "hub_completion h' = Some c" "c = (case reason of CloseEof \<Rightarrow> Eof (length H) | CloseForced \<Rightarrow> ForcedClosed (length H))"
proof -
  have core: "core_inv H h" and store: "store_inv H h" using inv by (auto simp: run_inv_def)
  have "distinct (hub_subscribers h)" using store by (simp add: store_inv_def)
  from close_subscribers_spec [OF this] show
    "hub_queues h' a = Some (queue_push_terminal q (length H))" "hub_ring h' = hub_ring h"
    "hub_completion h' = Some c" "c = (case reason of CloseEof \<Rightarrow> Eof (length H) | CloseForced \<Rightarrow> ForcedClosed (length H))"
    using c opened q core_invD(6) [OF core] store_invD(4) [OF store q]
    by (auto simp: hub_close_def Let_def)
qed

section \<open>Concrete runs\<close>

text \<open>The definitions that execute a script.\<close>

lemmas hub_exec =
  script_run_def apply_op_def hub_new_def hub_push_def ring_push_def ring_evict.simps ring_new_def
  terminal_new_def terminal_feed_def terminal_take_probes_def take_snapshot_def tiny_vt_def
  osc_tracker_new_def tracker_step_def tracker_advance_def hub_subscribe_def subscription_seed_def
  validate_offset_def register_subscriber_def queue_new_def replay_cursor_new_def
  snapshot_cursor_new_def snapshot_cursor_without_gap_def hub_recv_def next_event_def
  next_repaint_def next_queued_def ring_chunk_def queue_push_output_def queue_push_terminal_def
  chunk_end_def u64_checked_add_def u64_checked_sub_def u64_try_from_def u64_saturating_add_def
  u64_max_def slice_def event_next_offset_def is_gap_def event_bytes_def MAX_DATA_PAYLOAD_BYTES_def
  completion_next_offset_def hub_close_def Let_def min_def

text \<open>A subscriber from the start that is overtaken when the ring holds fewer than six bytes.\<close>

definition demo_script :: "hub_op list" where
  "demo_script = [OpPush ''abcd'', OpSubscribe (Some 0), OpPush ''ef'', OpRecv 0, OpRecv 0]"

lemma demo_run:
  "case script_run tiny_vt 4 64 demo_script of
     None \<Rightarrow> False | Some (h, H, ini, log) \<Rightarrow> 0 < hub_next_queue h \<and> map is_gap (log 0) = [True, False]"
  by (simp add: demo_script_def hub_exec)

lemma demo_small_run:
  "case script_run tiny_vt 4 3 demo_script of None \<Rightarrow> False | Some (h, H, ini, log) \<Rightarrow> H = ''abcdef''"
  by (simp add: demo_script_def hub_exec)

lemma demo_large_run:
  "case script_run tiny_vt 8 64 demo_script of
     None \<Rightarrow> False
   | Some (h, H, ini, log) \<Rightarrow>
       0 < hub_next_queue h \<and> ini 0 = \<lparr>v_pos = 0, v_paint = NoPaint, v_closed = False\<rparr> \<and>
       list_all (\<lambda>e. \<not> is_gap e) (log 0) \<and> length (concat (map event_bytes (log 0))) = 6"
  by (simp add: demo_script_def hub_exec)

lemma demo_queue:
  "case script_run tiny_vt 4 64 demo_script of
     None \<Rightarrow> False | Some (h, H, ini, log) \<Rightarrow> hub_queues h 0 \<noteq> None \<and> length H = 6"
  by (simp add: demo_script_def hub_exec)

text \<open>A subscriber from the start that receives nothing before the output closes.\<close>

definition close_script :: "hub_op list" where
  "close_script = [OpPush ''abcd'', OpSubscribe (Some 0), OpPush ''ef'']"

lemma close_retained:
  "case script_run tiny_vt 8 64 close_script of
     None \<Rightarrow> False
   | Some (h, H, ini, log) \<Rightarrow> hub_completion h = None \<and>
       (\<exists>q. hub_queues h 0 = Some q \<and> replay_retained (hub_ring h) (q_state q))"
  by (simp add: close_script_def hub_exec replay_retained_def)

lemma close_evicted:
  "case script_run tiny_vt 4 64 close_script of
     None \<Rightarrow> False
   | Some (h, H, ini, log) \<Rightarrow> hub_completion h = None \<and>
       (\<exists>q. hub_queues h 0 = Some q \<and> \<not> replay_retained (hub_ring h) (q_state q))"
  by (simp add: close_script_def hub_exec replay_retained_def)

lemma close_ring:
  "case script_run tiny_vt 4 64 close_script of
     None \<Rightarrow> False
   | Some (h, H, ini, log) \<Rightarrow> hub_completion h = None \<and> H = ''abcdef'' \<and> ring_limit (hub_ring h) = 4"
  by (simp add: close_script_def hub_exec)

section \<open>Drained subscribers\<close>

lemma drained:
  assumes inv: "run_inv H h ini log" and q: "hub_queues h a \<noteq> None"
  obtains h' es v q' where "drain recv_event (Suc (recv_rank (h, a))) (h, a) = ((h', a), es)"
    "recv_event (h', a) = ((h', a), None)" "view_all H (ini a) (log a @ es) = Some v"
    "v_pos v = length H" "v_paint v = NoPaint" "hub_queues h' a = Some q'"
    "run_inv H h' ini (log(a := log a @ es))" "hub_completion h' = hub_completion h"
proof -
  obtain x es where d: "drain recv_event (Suc (recv_rank (h, a))) (h, a) = (x, es)"
    by (cases "drain recv_event (Suc (recv_rank (h, a))) (h, a)")
  obtain h' where h': "x = (h', a)" "hub_queues h' a \<noteq> None" "run_inv H h' ini (log(a := log a @ es))"
    "hub_completion h' = hub_completion h"
    using drain_run [OF inv q d] by auto
  have "recv_good (h, a)" using inv q by (auto simp: recv_good_def)
  from recv_source.drain_idle [OF this order_refl] d h'(1)
  have idle: "recv_event (h', a) = ((h', a), None)" by (simp del: drain.simps)
  obtain q' where q': "hub_queues h' a = Some q'" using h'(2) by auto
  obtain v where v: "view_all H (ini a) (log a @ es) = Some v" "viewer_rel v (q_state q')"
    using run_queue [OF h'(3) q'] by (metis fun_upd_same)
  have "v_pos v = length H" "v_paint v = NoPaint"
    using v(2) recv_event_idle [OF h'(3) q' idle] by (auto simp: viewer_rel_def)
  then show ?thesis using that d h' idle v(1) q' by blast
qed

lemma drained_ended:
  assumes inv: "run_inv H h ini log" and q: "hub_queues h a \<noteq> None" and c: "hub_completion h = Some c"
  shows "\<exists>h' es v. drain recv_event (Suc (recv_rank (h, a))) (h, a) = ((h', a), es) \<and>
    hub_recv h' a = (h', Ended) \<and> view_all H (ini a) (log a @ es) = Some v \<and> v_pos v = length H"
proof -
  obtain h' es v q' where d: "drain recv_event (Suc (recv_rank (h, a))) (h, a) = ((h', a), es)"
    "recv_event (h', a) = ((h', a), None)" "view_all H (ini a) (log a @ es) = Some v"
    "v_pos v = length H" "hub_queues h' a = Some q'"
    "run_inv H h' ini (log(a := log a @ es))" "hub_completion h' = hub_completion h"
    using drained [OF inv q] by metis
  have "sub_closed (q_state q')" using store_invD(3) [OF _ d(5)] d(6,7) c by (auto simp: run_inv_def)
  with d(6,5) have "hub_recv h' a = (h', Ended)"
    by (cases rule: hub_recv_cases) (use d(2) in \<open>auto simp: recv_event_def\<close>)
  then show ?thesis using d by blast
qed

section \<open>Properties of the output stream\<close>

text \<open>
  C1.  For every run of the hub, whatever the interleaving of pushes, receives, resizes and the
  close, what a subscriber received is a faithful stream: its bytes are those of the PTY history at
  the offsets they claim, in order and without overlap; lost bytes are announced by a gap that
  starts where the subscriber stood, and every gap is followed by the fragments of one terminal
  state at the resume offset whose title and progress are those of the output up to it; an exit
  comes only at the end of the history and nothing comes after it.
\<close>

theorem subscriber_stream_faithful:
  assumes "hub_run vt h H ini log" and "vt_sized vt" and "a < hub_next_queue h"
  shows "\<exists>v. view_all H (ini a) (log a) = Some v"
  using hub_run_inv [OF assms(1,2)] assms(3) by (auto simp: run_inv_def view_inv_def)

theorem subscriber_stream_faithful_witness:
  "case script_run tiny_vt 4 64 demo_script of
     None \<Rightarrow> False
   | Some (h, H, ini, log) \<Rightarrow>
       map is_gap (log 0) = [True, False] \<and> (\<exists>v. view_all H (ini 0) (log 0) = Some v)"
proof -
  obtain h H ini log where s: "script_run tiny_vt 4 64 demo_script = Some (h, H, ini, log)"
    "0 < hub_next_queue h" "map is_gap (log 0) = [True, False]"
    using demo_run by (auto split: option.splits)
  from subscriber_stream_faithful [OF script_is_run [OF s(1)] tiny_vt_sized s(2)] s(1,3)
  show ?thesis by (simp del: view_all.simps map_eq_Cons_conv)
qed

text \<open>
  A subscriber from an offset that received no gap received exactly the bytes of the history
  from that offset on.
\<close>

theorem gapless_stream_exact:
  assumes "hub_run vt h H ini log" and "vt_sized vt" and "a < hub_next_queue h"
    and "v_paint (ini a) = NoPaint" and "v_pos (ini a) \<le> length H" and "\<forall>e \<in> set (log a). \<not> is_gap e"
  shows "let bs = concat (map event_bytes (log a)) in
    bs = slice H (v_pos (ini a)) (v_pos (ini a) + length bs) \<and> v_pos (ini a) + length bs \<le> length H"
proof -
  obtain v where v: "view_all H (ini a) (log a) = Some v"
    using hub_run_inv [OF assms(1,2)] assms(3) by (auto simp: run_inv_def view_inv_def)
  from view_all_gapless [OF v assms(6,4,5)] show ?thesis by (metis (full_types))
qed

theorem gapless_stream_exact_witness:
  "case script_run tiny_vt 8 64 demo_script of
     None \<Rightarrow> False
   | Some (h, H, ini, log) \<Rightarrow> concat (map event_bytes (log 0)) = slice H 0 6"
proof -
  obtain h H ini log where s: "script_run tiny_vt 8 64 demo_script = Some (h, H, ini, log)"
    "ini 0 = \<lparr>v_pos = 0, v_paint = NoPaint, v_closed = False\<rparr>" "0 < hub_next_queue h"
    "list_all (\<lambda>e. \<not> is_gap e) (log 0)" "length (concat (map event_bytes (log 0))) = 6"
    using demo_large_run by (auto split: option.splits)
  with gapless_stream_exact [OF script_is_run [OF s(1)] tiny_vt_sized, of 0] show ?thesis
    by (simp add: list_all_iff Let_def)
qed

text \<open>
  C6.  Memory stays bounded in every run: the ring holds at most its limit, every queue holds at
  most the subscriber limit of undelivered bytes, and its byte counter is exact.
\<close>

theorem output_memory_bounded:
  assumes "hub_run vt h H ini log" and "vt_sized vt"
  shows "length (ring_bytes (hub_ring h)) \<le> ring_limit (hub_ring h) \<and>
    (\<forall>a q. hub_queues h a = Some q \<longrightarrow>
       sum_list (map payload_bytes (sub_events (q_state q))) \<le> hub_subscriber_limit h \<and>
       sub_queued_bytes (q_state q) = sum_list (map payload_bytes (sub_events (q_state q))))"
proof -
  have inv: "run_inv H h ini log" by (rule hub_run_inv [OF assms])
  then have "ring_inv H (hub_ring h)" by (simp add: run_inv_def core_inv_def)
  moreover have "sum_list (map payload_bytes (sub_events (q_state q))) \<le> hub_subscriber_limit h \<and>
      sub_queued_bytes (q_state q) = sum_list (map payload_bytes (sub_events (q_state q)))"
    if "hub_queues h a = Some q" for a q
    using run_queue [OF inv that] by (metis state_inv_def)
  ultimately show ?thesis by (auto dest: ring_inv_bound)
qed

theorem output_memory_bounded_witness:
  "case script_run tiny_vt 4 3 demo_script of
     None \<Rightarrow> False
   | Some (h, H, ini, log) \<Rightarrow> length (ring_bytes (hub_ring h)) \<le> ring_limit (hub_ring h) \<and> H = ''abcdef''"
proof -
  obtain h H ini log where s: "script_run tiny_vt 4 3 demo_script = Some (h, H, ini, log)" "H = ''abcdef''"
    using demo_small_run by (auto split: option.splits)
  from output_memory_bounded [OF script_is_run [OF s(1)] tiny_vt_sized] s show ?thesis by simp
qed

text \<open>
  C3.  A subscriber that keeps receiving while the hub is quiet catches up: after as many receives
  as its backlog is large nothing is left to receive, it stands at the end of the history with no
  repaint in progress, and all it received on the way is a faithful continuation.
\<close>

theorem subscriber_catches_up:
  assumes "hub_run vt h H ini log" and "vt_sized vt" and "hub_queues h a \<noteq> None"
  shows "\<exists>h' es v. drain recv_event (Suc (recv_rank (h, a))) (h, a) = ((h', a), es) \<and>
    recv_event (h', a) = ((h', a), None) \<and> view_all H (ini a) (log a @ es) = Some v \<and>
    v_pos v = length H \<and> v_paint v = NoPaint"
  using drained [OF hub_run_inv [OF assms(1,2)] assms(3)] by metis

theorem subscriber_catches_up_witness:
  "case script_run tiny_vt 4 64 demo_script of
     None \<Rightarrow> False
   | Some (h, H, ini, log) \<Rightarrow>
       (\<exists>h' es v. drain recv_event (Suc (recv_rank (h, 0))) (h, 0) = ((h', 0), es) \<and>
          view_all H (ini 0) (log 0 @ es) = Some v \<and> v_pos v = 6)"
proof -
  obtain h H ini log where s: "script_run tiny_vt 4 64 demo_script = Some (h, H, ini, log)"
    "hub_queues h 0 \<noteq> None" "length H = 6"
    using demo_queue by (auto split: option.splits)
  from subscriber_catches_up [OF script_is_run [OF s(1)] tiny_vt_sized s(2)] s(1,3)
  show ?thesis by (auto simp del: drain.simps)
qed

text \<open>
  C5.  When the output closes, a subscriber whose pending replay is still retained receives the exit
  event: draining it ends with its stream closed at the end of the history, and further receives
  report the end.
\<close>

theorem exit_delivered:
  assumes "hub_run vt h H ini log" and "vt_sized vt" and "hub_completion h = None"
    and "hub_queues h a = Some q" and "replay_retained (hub_ring h) (q_state q)"
    and "hub_close h reason = (h', c)"
  shows "\<exists>h2 es v. drain recv_event (Suc (recv_rank (h', a))) (h', a) = ((h2, a), es) \<and> has_exit es \<and>
    view_all H (ini a) (log a @ es) = Some v \<and> v_closed v \<and> v_pos v = length H \<and>
    hub_recv h2 a = (h2, Ended)"
proof -
  have inv: "run_inv H h ini log" by (rule hub_run_inv [OF assms(1,2)])
  note cl = close_queue [OF inv assms(3,4,6)]
  have inv': "run_inv H h' ini log" by (rule run_inv_close [OF inv assms(6)])
  have q': "hub_queues h' a \<noteq> None" using cl by simp
  have "owes_exit (h', a)"
    using cl assms(5) by (simp add: owes_exit_def queue_push_terminal_def replay_retained_def Let_def split: option.splits)
  then have ex: "has_exit (snd (drain recv_event (Suc (recv_rank (h', a))) (h', a)))"
    by (intro drain_exit [OF inv' q']) simp_all
  obtain h2 es v where d: "drain recv_event (Suc (recv_rank (h', a))) (h', a) = ((h2, a), es)"
    "hub_recv h2 a = (h2, Ended)" "view_all H (ini a) (log a @ es) = Some v" "v_pos v = length H"
    using drained_ended [OF inv' q'] cl(3) by blast
  moreover have "has_exit es" using ex unfolding d(1) by simp
  moreover have "v_closed v" using view_all_exit_closed [OF d(3)] \<open>has_exit es\<close> by simp
  ultimately show ?thesis by blast
qed

theorem exit_delivered_witness:
  "case script_run tiny_vt 8 64 close_script of
     None \<Rightarrow> False
   | Some (h, H, ini, log) \<Rightarrow>
       has_exit (snd (drain recv_event (Suc (recv_rank (fst (hub_close h CloseEof), 0))) (fst (hub_close h CloseEof), 0)))"
proof -
  obtain h H ini log q where s: "script_run tiny_vt 8 64 close_script = Some (h, H, ini, log)"
    "hub_completion h = None" "hub_queues h 0 = Some q" "replay_retained (hub_ring h) (q_state q)"
    using close_retained by (auto split: option.splits)
  obtain h' c where c: "hub_close h CloseEof = (h', c)" by (cases "hub_close h CloseEof")
  from exit_delivered [OF script_is_run [OF s(1)] tiny_vt_sized s(2,3,4) c] s(1) c
  show ?thesis by (auto simp del: drain.simps)
qed

text \<open>
  C4.  When the output closes while bytes of a subscriber's pending replay were evicted, the exit
  event is lost: the receive that notices the eviction clears the queued exit together with the
  queued output, so however often the subscriber receives it never sees an exit, and after the
  repaint it is told that the stream ended.
\<close>

theorem exit_lost_after_eviction:
  assumes "hub_run vt h H ini log" and "vt_sized vt" and "hub_completion h = None"
    and "hub_queues h a = Some q" and "\<not> replay_retained (hub_ring h) (q_state q)"
    and "hub_close h reason = (h', c)"
  shows "(\<forall>k. \<not> has_exit (snd (drain recv_event k (h', a)))) \<and>
    (\<exists>h2 es. drain recv_event (Suc (recv_rank (h', a))) (h', a) = ((h2, a), es) \<and> hub_recv h2 a = (h2, Ended))"
proof -
  have inv: "run_inv H h ini log" by (rule hub_run_inv [OF assms(1,2)])
  note cl = close_queue [OF inv assms(3,4,6)]
  have inv': "run_inv H h' ini log" by (rule run_inv_close [OF inv assms(6)])
  let ?q = "queue_push_terminal q (length H)"
  obtain rc where rc: "sub_replay (q_state ?q) = Some rc" "\<not> replay_retained (hub_ring h') (q_state ?q)"
    using assms(5) cl(2)
    by (auto simp: replay_retained_def queue_push_terminal_def Let_def split: option.splits)
  obtain h1 q1 m w where h1: "recv_event (h', a) = ((h1, a), Some (Gap m w))" "hub_queues h1 a = Some q1"
    "sub_replay (q_state q1) = None" "sub_events (q_state q1) = []"
    using recv_evicted_clears [OF inv' cl(1) rc] by blast
  have "\<not> has_exit (snd (drain recv_event k (h', a)))" for k
  proof (cases k)
    case (Suc j)
    then show ?thesis
      using recv_exit_gone [OF h1(2-4), of j] h1(1) by (simp add: drain_Some del: drain.simps)
  qed simp
  moreover have "\<exists>h2 es. drain recv_event (Suc (recv_rank (h', a))) (h', a) = ((h2, a), es) \<and>
      hub_recv h2 a = (h2, Ended)"
    using drained_ended [OF inv'] cl(1,3) by (metis option.distinct(1))
  ultimately show ?thesis by blast
qed

theorem exit_lost_after_eviction_witness:
  "case script_run tiny_vt 4 64 close_script of
     None \<Rightarrow> False
   | Some (h, H, ini, log) \<Rightarrow>
       (\<forall>k. \<not> has_exit (snd (drain recv_event k (fst (hub_close h CloseEof), 0))))"
proof -
  obtain h H ini log q where s: "script_run tiny_vt 4 64 close_script = Some (h, H, ini, log)"
    "hub_completion h = None" "hub_queues h 0 = Some q" "\<not> replay_retained (hub_ring h) (q_state q)"
    using close_evicted by (auto split: option.splits)
  obtain h' c where c: "hub_close h CloseEof = (h', c)" by (cases "hub_close h CloseEof")
  from exit_lost_after_eviction [OF script_is_run [OF s(1)] tiny_vt_sized s(2,3,4) c] s(1) c
  show ?thesis by (auto simp del: drain.simps)
qed

section \<open>Pushing\<close>

text \<open>
  Every outcome of a push: nonempty bytes after the close are refused, a push that would
  overflow the 64-bit offset is refused, and in both cases the hub is unchanged; any other push
  returns the chunk at the end of the history, and the ring then holds the last bytes, up to its
  limit, of the extended history.
\<close>

theorem push_outcomes:
  assumes "hub_run vt h H ini log" and "vt_sized vt" and "length bs \<le> u64_max"
    and "hub_push vt h bs = (h', r)"
  shows "r = (if hub_completion h \<noteq> None \<and> bs \<noteq> [] then Err Closed
              else if u64_max < length H + length bs then Err OffsetOverflow
              else Ok \<lparr>chunk_offset = length H, chunk_bytes = bs\<rparr>) \<and>
    (case r of
       Inl e \<Rightarrow> h' = h
     | Inr c \<Rightarrow> ring_bytes (hub_ring h') = drop (length (H @ bs) - ring_limit (hub_ring h)) (H @ bs))"
proof -
  have inv: "run_inv H h ini log" by (rule hub_run_inv [OF assms(1,2)])
  then have core: "core_inv H h" by (simp add: run_inv_def)
  note ring = core_invD(1) [OF core]
  show ?thesis
  proof (cases "hub_completion h \<noteq> None \<and> bs \<noteq> []")
    case True
    then show ?thesis using assms(4) by (auto simp: hub_push_def)
  next
    case False
    show ?thesis
    proof (cases "u64_max < length H + length bs")
      case True
      then show ?thesis
        using assms(4) False ring_push_overflow [OF ring True assms(3)] by (auto simp: hub_push_def)
    next
      case fits: False
      then obtain r' where r': "ring_push (hub_ring h) bs = (r', Ok \<lparr>chunk_offset = length H, chunk_bytes = bs\<rparr>)"
        "ring_inv (H @ bs) r'" "ring_limit r' = ring_limit (hub_ring h)"
        using ring_push_ok [OF ring, of bs] by auto
      then have "ring_bytes r' = drop (length (H @ bs) - ring_limit (hub_ring h)) (H @ bs)"
        by (simp add: ring_inv_def)
      then show ?thesis
        using assms(4) r'(1) False fits by (auto simp: hub_push_def Let_def split: prod.splits if_splits)
    qed
  qed
qed

theorem push_outcomes_witness:
  "case script_run tiny_vt 4 64 close_script of
     None \<Rightarrow> False
   | Some (h, H, ini, log) \<Rightarrow>
       ring_bytes (hub_ring (fst (hub_push tiny_vt h ''gh''))) = drop (length (H @ ''gh'') - 4) (H @ ''gh'')"
proof -
  obtain h H ini log where s: "script_run tiny_vt 4 64 close_script = Some (h, H, ini, log)"
    "hub_completion h = None" "length H = 6" "ring_limit (hub_ring h) = 4"
    using close_ring by (auto split: option.splits)
  obtain h' r where p: "hub_push tiny_vt h ''gh'' = (h', r)" by (cases "hub_push tiny_vt h ''gh''")
  from push_outcomes [OF script_is_run [OF s(1)] tiny_vt_sized _ p] s p show ?thesis
    by (auto simp: u64_max_def)
qed

section \<open>Observing\<close>

definition page_bytes :: "'v hub \<Rightarrow> nat \<Rightarrow> nat \<Rightarrow> bytes" where
  "page_bytes h off m = (case hub_observe h (Some off) m of Inl e \<Rightarrow> [] | Inr p \<Rightarrow> op_bytes p)"

lemma u64_advance:
  "a \<le> b \<Longrightarrow> b \<le> u64_max \<Longrightarrow> u64_saturating_add a (unwrap_or (u64_try_from (b - a)) u64_max) = b"
  by (auto simp: u64_try_from_def u64_saturating_add_def)

lemma hub_observe_page:
  assumes core: "core_inv H h" and m: "0 < m" and off: "unwrap_or off 0 \<le> length H"
  shows "hub_observe h off m =
    (let hs = ring_start_offset (hub_ring h);
         start = (case off of None \<Rightarrow> max (length H - m) hs | Some o' \<Rightarrow> max o' hs);
         nxt = min (length H) (start + m)
     in Ok \<lparr>op_history_start_offset = hs, op_start_offset = start, op_next_offset = nxt,
            op_runtime_end_offset = length H, op_bytes = slice H start nxt,
            op_gap = (case off of None \<Rightarrow> None | Some o' \<Rightarrow> if o' < hs then Some (o', hs) else None),
            op_has_more = (nxt < length H), op_exited = (hub_completion h \<noteq> None)\<rparr>)"
proof -
  note c = core_invD [OF core]
  let ?hs = "ring_start_offset (hub_ring h)"
  let ?start = "case off of None \<Rightarrow> max (length H - m) ?hs | Some o' \<Rightarrow> max o' ?hs"
  have sub: "length H - unwrap_or (u64_try_from m) u64_max = length H - m"
    using c(7) by (cases "m \<le> u64_max") (auto simp: u64_try_from_def)
  have st: "?hs \<le> ?start" "?start \<le> length H" using off c(8) by (auto split: option.splits)
  have bs: "ring_bytes_from_limited (hub_ring h) ?start m = slice H ?start (min (length H) (?start + m))"
    using ring_bytes_from_limited_slice [OF c(1) st, of m] st by (simp add: slice_def min_def)
  have len: "u64_saturating_add ?start (unwrap_or (u64_try_from (length (slice H ?start (min (length H) (?start + m))))) u64_max)
      = min (length H) (?start + m)"
    using st c(7) by (simp add: u64_advance)
  show ?thesis
  proof (cases off)
    case None
    then show ?thesis
      using m c(6) bs len by (simp add: hub_observe_def validate_offset_def sub Let_def)
  next
    case (Some o')
    then show ?thesis
      using m c(6) off bs len by (auto simp: hub_observe_def validate_offset_def Let_def max_def)
  qed
qed

lemma page_bytes_slice:
  assumes core: "core_inv H h" and "ring_start_offset (hub_ring h) \<le> off" and "off \<le> length H" and "0 < m"
  shows "page_bytes h off m = slice H off (off + m)"
proof -
  have "page_bytes h off m = slice H off (min (length H) (off + m))"
    using hub_observe_page [OF core assms(4), of "Some off"] assms by (simp add: page_bytes_def Let_def max_def)
  then show ?thesis by (simp add: slice_def min_def)
qed

interpretation hub_log: paged_log core_inv "\<lambda>h. ring_start_offset (hub_ring h)" page_bytes
  by unfold_locales (rule page_bytes_slice)

text \<open>
  C7.  An observation page, on every branch: a zero size and an offset beyond the output are
  refused; otherwise the page starts at the requested offset or, if that was evicted, at the first
  retained byte with the missing range reported, or, without a cursor, at the last bytes; its bytes
  are those of the history, at most the requested number, and it reports whether more follow.
\<close>

theorem observe_page_exact:
  assumes "hub_run vt h H ini log" and "vt_sized vt"
  shows "hub_observe h off m =
    (if m = 0 then Err (InvalidLimit ''max_bytes'')
     else if length H < unwrap_or off 0 then Err (OffsetAhead (unwrap_or off 0) (length H))
     else let hs = length H - ring_limit (hub_ring h);
              start = (case off of None \<Rightarrow> max (length H - m) hs | Some o' \<Rightarrow> max o' hs);
              nxt = min (length H) (start + m)
          in Ok \<lparr>op_history_start_offset = hs, op_start_offset = start, op_next_offset = nxt,
                 op_runtime_end_offset = length H, op_bytes = slice H start nxt,
                 op_gap = (case off of None \<Rightarrow> None | Some o' \<Rightarrow> if o' < hs then Some (o', hs) else None),
                 op_has_more = (nxt < length H), op_exited = (hub_completion h \<noteq> None)\<rparr>)"
proof -
  have core: "core_inv H h" using hub_run_inv [OF assms] by (simp add: run_inv_def)
  have hs: "ring_start_offset (hub_ring h) = length H - ring_limit (hub_ring h)"
    using core_invD(1) [OF core] by (simp add: ring_inv_def)
  consider "m = 0" | "0 < m" "length H < unwrap_or off 0" | "0 < m" "unwrap_or off 0 \<le> length H" by linarith
  then show ?thesis
  proof cases
    case 3
    then show ?thesis using hub_observe_page [OF core 3] hs by simp
  qed (use core_invD(6) [OF core] in \<open>simp_all add: hub_observe_def validate_offset_def Let_def\<close>)
qed

theorem observe_page_exact_witness:
  "case script_run tiny_vt 4 64 close_script of
     None \<Rightarrow> False
   | Some (h, H, ini, log) \<Rightarrow>
       (case hub_observe h (Some 0) 3 of Inl e \<Rightarrow> False
        | Inr p \<Rightarrow> op_bytes p = slice H 2 5 \<and> op_gap p = Some (0, 2) \<and> op_has_more p)"
proof -
  obtain h H ini log where s: "script_run tiny_vt 4 64 close_script = Some (h, H, ini, log)"
    "length H = 6" "ring_limit (hub_ring h) = 4"
    using close_ring by (auto split: option.splits)
  from observe_page_exact [OF script_is_run [OF s(1)] tiny_vt_sized, of "Some 0" 3] s show ?thesis
    by (simp add: Let_def)
qed

text \<open>
  Reading page after page from any retained offset, while the hub is quiet, returns exactly the
  rest of the output, whatever the page size.
\<close>

theorem observe_pages_complete:
  assumes "hub_run vt h H ini log" and "vt_sized vt" and "0 < m"
    and "length H - ring_limit (hub_ring h) \<le> off" and "off \<le> length H"
  shows "read_pages page_bytes (length H) h off m = drop off H"
proof -
  have core: "core_inv H h" using hub_run_inv [OF assms(1,2)] by (simp add: run_inv_def)
  have "ring_start_offset (hub_ring h) \<le> off"
    using core_invD(1) [OF core] assms(4) by (simp add: ring_inv_def)
  from hub_log.read_pages_rest [OF core this assms(5,3)] show ?thesis by simp
qed

theorem observe_pages_complete_witness:
  "case script_run tiny_vt 4 64 close_script of
     None \<Rightarrow> False
   | Some (h, H, ini, log) \<Rightarrow> read_pages page_bytes (length H) h 2 3 = ''cdef''"
proof -
  obtain h H ini log where s: "script_run tiny_vt 4 64 close_script = Some (h, H, ini, log)"
    "H = ''abcdef''" "ring_limit (hub_ring h) = 4"
    using close_ring by (auto split: option.splits)
  from observe_pages_complete [OF script_is_run [OF s(1)] tiny_vt_sized, of 3 2] s show ?thesis
    by (simp del: read_pages.simps)
qed

text \<open>
  A history snapshot returns all bytes of the history from the requested offset when they are
  retained, and otherwise the missing range and a terminal state at the end of the output.
\<close>

theorem history_snapshot_exact:
  assumes "hub_run vt h H ini log" and "vt_sized vt"
  shows "hub_snapshot h off =
    (let r = unwrap_or off 0 in
     if length H < r then Err (OffsetAhead r (length H))
     else if r < length H - ring_limit (hub_ring h)
     then Ok (SnapGap (r, length H) (hub_terminal_snapshot h))
     else Ok (SnapReplay \<lparr>chunk_offset = r, chunk_bytes = drop r H\<rparr> (length H))) \<and>
    snap_ok H (hub_terminal_snapshot h) \<and> ts_watermark (hub_terminal_snapshot h) = length H"
proof -
  have core: "core_inv H h" using hub_run_inv [OF assms] by (simp add: run_inv_def)
  note c = core_invD [OF core]
  have hs: "ring_start_offset (hub_ring h) = length H - ring_limit (hub_ring h)"
    using c(1) by (simp add: ring_inv_def)
  show ?thesis
    using c hs ring_bytes_from_slice [OF c(1), of "unwrap_or off 0"]
    by (auto simp: hub_snapshot_def validate_offset_def Let_def not_less)
qed

theorem history_snapshot_exact_witness:
  "case script_run tiny_vt 4 64 close_script of
     None \<Rightarrow> False
   | Some (h, H, ini, log) \<Rightarrow>
       hub_snapshot h (Some 3) = Ok (SnapReplay \<lparr>chunk_offset = 3, chunk_bytes = ''def''\<rparr> 6)"
proof -
  obtain h H ini log where s: "script_run tiny_vt 4 64 close_script = Some (h, H, ini, log)"
    "H = ''abcdef''" "ring_limit (hub_ring h) = 4"
    using close_ring by (auto split: option.splits)
  from history_snapshot_exact [OF script_is_run [OF s(1)] tiny_vt_sized, of "Some 3"] s show ?thesis
    by (simp add: Let_def)
qed

end
