(* ===== verification/Stream_Frames.thy ===== *)
theory Stream_Frames
  imports Output_Guarantees
begin

text \<open>
  How a worker puts output events on a data socket (\<open>crates/session-worker/src/server.rs\<close>,
  \<open>write_output_event\<close> and the functions it calls): every event becomes frames of at most the
  configured payload size.  A writer is the bytes handed to the socket so far.  The messages of
  \<open>WorkerError::Protocol\<close> are kept as the fault they print.
\<close>

section \<open>Operations\<close>

datatype worker_error = FrameFault frame_error | DimensionsFault | OutputOffsetOverflowed

record stream_identity =
  si_version :: version
  si_stream_id :: ident
  si_worker_instance_id :: ident

definition stream_header :: "stream_identity \<Rightarrow> 'e frame_kind \<Rightarrow> 'e frame_header" where
  "stream_header sid kind =
     \<lparr>fh_version = si_version sid, fh_stream_id = si_stream_id sid,
      fh_worker_instance_id = si_worker_instance_id sid, fh_kind = kind\<rparr>"

type_synonym 'e header_enc = "'e frame_header \<Rightarrow> bytes option"
type_synonym write_outcome = "bytes \<times> (worker_error, unit) result"

definition write_data_frame ::
  "'e header_enc \<Rightarrow> stream_identity \<Rightarrow> bytes \<Rightarrow> 'e frame_kind \<Rightarrow> bytes \<Rightarrow> write_outcome" where
  "write_data_frame enc sid w kind payload =
     (case data_frame_new (stream_header sid kind) payload of
        Inl e \<Rightarrow> (w, Err (FrameFault e))
      | Inr frame \<Rightarrow>
          (case write_frame enc frame of
             Inl e \<Rightarrow> (w, Err (FrameFault e))
           | Inr bs \<Rightarrow> (w @ bs, Ok ())))"

definition write_data_error :: "'e header_enc \<Rightarrow> stream_identity \<Rightarrow> bytes \<Rightarrow> 'e \<Rightarrow> write_outcome" where
  "write_data_error enc sid w error = write_data_frame enc sid w (FError error) []"

text \<open>The loop of \<open>write_output_chunks\<close> over the pieces of a chunk.\<close>

fun write_output_pieces ::
  "'e header_enc \<Rightarrow> stream_identity \<Rightarrow> bool \<Rightarrow> bytes \<Rightarrow> nat \<Rightarrow> bytes list \<Rightarrow> write_outcome" where
  "write_output_pieces enc sid replay w offset [] = (w, Ok ())"
| "write_output_pieces enc sid replay w offset (bs # rest) =
     (case write_data_frame enc sid w (if replay then FReplay offset else FOutput offset) bs of
        (w', Inl e) \<Rightarrow> (w', Err e)
      | (w', Inr u) \<Rightarrow>
          (case u64_checked_add offset (unwrap_or (u64_try_from (length bs)) u64_max) of
             None \<Rightarrow> (w', Err OutputOffsetOverflowed)
           | Some offset' \<Rightarrow> write_output_pieces enc sid replay w' offset' rest))"

definition write_output_chunks ::
  "'e header_enc \<Rightarrow> stream_identity \<Rightarrow> bytes \<Rightarrow> nat \<Rightarrow> output_chunk \<Rightarrow> bool \<Rightarrow> write_outcome" where
  "write_output_chunks enc sid w payload_limit chunk replay =
     write_output_pieces enc sid replay w (chunk_offset chunk) (chunks payload_limit (chunk_bytes chunk))"

fun write_terminal_pieces ::
  "'e header_enc \<Rightarrow> stream_identity \<Rightarrow> wire_terminal_snapshot \<Rightarrow> bytes \<Rightarrow> bytes list \<Rightarrow> write_outcome" where
  "write_terminal_pieces enc sid snapshot w [] = (w, Ok ())"
| "write_terminal_pieces enc sid snapshot w (bs # rest) =
     (case write_data_frame enc sid w (FTerminalSnapshot snapshot) bs of
        (w', Inl e) \<Rightarrow> (w', Err e)
      | (w', Inr u) \<Rightarrow> write_terminal_pieces enc sid snapshot w' rest)"

definition write_terminal_chunks ::
  "'e header_enc \<Rightarrow> stream_identity \<Rightarrow> bytes \<Rightarrow> nat \<Rightarrow> wire_terminal_snapshot \<Rightarrow> bytes \<Rightarrow> write_outcome" where
  "write_terminal_chunks enc sid w payload_limit snapshot ansi =
     write_terminal_pieces enc sid snapshot w (chunks payload_limit ansi)"

definition wire_terminal :: "terminal_snapshot \<Rightarrow> (worker_error, wire_terminal_snapshot) result" where
  "wire_terminal snapshot =
     (case dimensions_new (ts_cols snapshot) (ts_rows snapshot) of
        None \<Rightarrow> Err DimensionsFault
      | Some dims \<Rightarrow>
          Ok \<lparr>ws_watermark = ts_watermark snapshot, ws_dimensions = dims,
              ws_cursor = \<lparr>cursor_column = ts_cursor_col snapshot, cursor_row = ts_cursor_row snapshot,
                           cursor_visible = ts_cursor_visible snapshot\<rparr>,
              ws_alternate_screen = ts_alternate_screen snapshot, ws_title = ts_title snapshot,
              ws_progress = ts_progress snapshot, ws_visible_lines = str_lines (ts_visible_text snapshot)\<rparr>)"

definition write_output_event ::
  "'e header_enc \<Rightarrow> stream_identity \<Rightarrow> nat \<Rightarrow> bytes \<Rightarrow> output_event \<Rightarrow> write_outcome" where
  "write_output_event enc sid payload_limit w e =
     (case e of
        Replay chunk \<Rightarrow>
          if chunk_bytes chunk = [] then (w, Ok ())
          else write_output_chunks enc sid w payload_limit chunk True
      | Output chunk \<Rightarrow> write_output_chunks enc sid w payload_limit chunk False
      | Gap missing watermark \<Rightarrow> write_data_frame enc sid w (FGap (fst missing) (snd missing) watermark) []
      | TerminalSnapshot chunk \<Rightarrow>
          (case wire_terminal (tc_terminal chunk) of
             Inl err \<Rightarrow> (w, Err err)
           | Inr snapshot \<Rightarrow> write_terminal_chunks enc sid w payload_limit snapshot (tc_bytes chunk))
      | Exit _ \<Rightarrow> write_data_frame enc sid w (FClose RuntimeExited) [])"

text \<open>\<open>forced_error\<close> is the control error for output that was closed by force.\<close>

definition write_runtime_output_event ::
  "'e header_enc \<Rightarrow> stream_identity \<Rightarrow> nat \<Rightarrow> 'e \<Rightarrow> bytes \<Rightarrow> output_event \<Rightarrow> bool \<Rightarrow> write_outcome" where
  "write_runtime_output_event enc sid payload_limit forced_error w e forced_closed =
     (if forced_closed \<and> (\<exists>n. e = Exit n) then write_data_error enc sid w forced_error
      else write_output_event enc sid payload_limit w e)"

definition observation_timed_out :: "nat option \<Rightarrow> observation_page \<Rightarrow> bool" where
  "observation_timed_out after_offset page \<longleftrightarrow>
     after_offset \<noteq> None \<and> op_start_offset page = op_runtime_end_offset page \<and> op_bytes page = [] \<and>
     \<not> op_exited page"

definition write_observation_page ::
  "'e header_enc \<Rightarrow> stream_identity \<Rightarrow> nat \<Rightarrow> bytes \<Rightarrow> observation_page \<Rightarrow> bool \<Rightarrow> write_outcome" where
  "write_observation_page enc sid payload_limit w page timed_out =
     (let gap = map_option (\<lambda>(s, e). \<lparr>gap_missing_start = s, gap_missing_end = e\<rparr>) (op_gap page) in
      case write_data_frame enc sid w
             (FObservationStart (op_history_start_offset page) (op_start_offset page) (op_next_offset page)
                (op_runtime_end_offset page) gap (op_has_more page) timed_out) [] of
        (w', Inl e) \<Rightarrow> (w', Err e)
      | (w', Inr u) \<Rightarrow>
          (case write_output_chunks enc sid w' payload_limit
                  \<lparr>chunk_offset = op_start_offset page, chunk_bytes = op_bytes page\<rparr> True of
             (w'', Inl e) \<Rightarrow> (w'', Err e)
           | (w'', Inr u) \<Rightarrow> write_data_frame enc sid w'' (FClose ObservationComplete) []))"

text \<open>The output arm of \<open>write_stream_items\<close>, over the events of a stream.\<close>

fun write_events ::
  "'e header_enc \<Rightarrow> stream_identity \<Rightarrow> nat \<Rightarrow> 'e \<Rightarrow> bool \<Rightarrow> bytes \<Rightarrow> output_event list \<Rightarrow> write_outcome" where
  "write_events enc sid payload_limit forced_error forced w [] = (w, Ok ())"
| "write_events enc sid payload_limit forced_error forced w (e # es) =
     (case write_runtime_output_event enc sid payload_limit forced_error w e forced of
        (w', Inl err) \<Rightarrow> (w', Err err)
      | (w', Inr u) \<Rightarrow> write_events enc sid payload_limit forced_error forced w' es)"

section \<open>The frames an event stands for\<close>

fun output_frames :: "bool \<Rightarrow> nat \<Rightarrow> bytes list \<Rightarrow> ('e frame_kind \<times> bytes) list" where
  "output_frames replay offset [] = []"
| "output_frames replay offset (bs # rest) =
     (if replay then FReplay offset else FOutput offset, bs) # output_frames replay (offset + length bs) rest"

lemma map_snd_output_frames [simp]: "map snd (output_frames r n ps) = ps"
  by (induction r n ps rule: output_frames.induct) auto

definition event_frames :: "nat \<Rightarrow> 'e \<Rightarrow> bool \<Rightarrow> output_event \<Rightarrow> ('e frame_kind \<times> bytes) list" where
  "event_frames limit forced_error forced e =
     (case e of
        Replay c \<Rightarrow> output_frames True (chunk_offset c) (chunks limit (chunk_bytes c))
      | Output c \<Rightarrow> output_frames False (chunk_offset c) (chunks limit (chunk_bytes c))
      | Gap m w \<Rightarrow> [(FGap (fst m) (snd m) w, [])]
      | TerminalSnapshot tc \<Rightarrow>
          (case wire_terminal (tc_terminal tc) of Inl err \<Rightarrow> []
           | Inr ws \<Rightarrow> map (\<lambda>bs. (FTerminalSnapshot ws, bs)) (chunks limit (tc_bytes tc)))
      | Exit n \<Rightarrow> [(if forced then FError forced_error else FClose RuntimeExited, [])])"

text \<open>The header JSON of a frame kind is within the header limit and decodes to the header.\<close>

definition header_fits :: "'e header_enc \<Rightarrow> (bytes \<Rightarrow> 'e frame_header option) \<Rightarrow> stream_identity \<Rightarrow> 'e frame_kind \<Rightarrow> bool" where
  "header_fits enc dec sid kind \<longleftrightarrow>
     (\<exists>hb. enc (stream_header sid kind) = Some hb \<and> length hb \<le> MAX_DATA_HEADER_BYTES \<and>
           dec hb = Some (stream_header sid kind))"

definition frame_of :: "stream_identity \<Rightarrow> 'e frame_kind \<times> bytes \<Rightarrow> 'e data_frame" where
  "frame_of sid fp = \<lparr>df_header = stream_header sid (fst fp), df_payload = snd fp\<rparr>"

definition frame_wire :: "'e header_enc \<Rightarrow> stream_identity \<Rightarrow> 'e frame_kind \<times> bytes \<Rightarrow> bytes" where
  "frame_wire enc sid fp = (case write_frame enc (frame_of sid fp) of Inl e \<Rightarrow> [] | Inr bs \<Rightarrow> bs)"

definition frame_valid :: "'e frame_kind \<times> bytes \<Rightarrow> bool" where
  "frame_valid fp \<longleftrightarrow>
     validate_payload (fst fp) (snd fp) = Ok () \<and> length (snd fp) \<le> MAX_DATA_PAYLOAD_BYTES"

definition sendable :: "'e header_enc \<Rightarrow> (bytes \<Rightarrow> 'e frame_header option) \<Rightarrow> stream_identity \<Rightarrow> 'e frame_kind \<times> bytes \<Rightarrow> bool" where
  "sendable enc dec sid fp \<longleftrightarrow> frame_valid fp \<and> header_fits enc dec sid (fst fp)"

lemma fh_kind_stream_header [simp]: "fh_kind (stream_header sid k) = k"
  by (simp add: stream_header_def)

lemma sendable_frame:
  assumes "sendable enc dec sid fp"
  shows "data_frame_new (stream_header sid (fst fp)) (snd fp) = Ok (frame_of sid fp)"
    and "write_frame enc (frame_of sid fp) = Ok (frame_wire enc sid fp)"
    and "enc (stream_header sid (fst fp)) = Some hb \<Longrightarrow> dec hb = Some (stream_header sid (fst fp))"
proof -
  show new: "data_frame_new (stream_header sid (fst fp)) (snd fp) = Ok (frame_of sid fp)"
    using assms by (simp add: sendable_def frame_valid_def data_frame_new_ok frame_of_def)
  obtain hb' where "enc (stream_header sid (fst fp)) = Some hb'" "length hb' \<le> MAX_DATA_HEADER_BYTES"
    using assms by (auto simp: sendable_def header_fits_def)
  then have "write_frame enc (frame_of sid fp) = Ok (be32 (length hb') @ hb' @ be32 (length (snd fp)) @ snd fp)"
    by (simp add: write_frame_ok [OF new])
  then show "write_frame enc (frame_of sid fp) = Ok (frame_wire enc sid fp)" by (simp add: frame_wire_def)
  show "dec hb = Some (stream_header sid (fst fp))" if "enc (stream_header sid (fst fp)) = Some hb"
    using assms that by (auto simp: sendable_def header_fits_def)
qed

lemma write_data_frame_sendable:
  assumes "sendable enc dec sid (k, p)"
  shows "write_data_frame enc sid w k p = (w @ frame_wire enc sid (k, p), Ok ())"
  using sendable_frame(1,2) [OF assms] by (simp add: write_data_frame_def)

lemma write_output_pieces_sendable:
  assumes "list_all (sendable enc dec sid) (output_frames replay offset ps)"
    and "offset + length (concat ps) \<le> u64_max"
  shows "write_output_pieces enc sid replay w offset ps =
    (w @ concat (map (frame_wire enc sid) (output_frames replay offset ps)), Ok ())"
  using assms
proof (induction ps arbitrary: w offset)
  case (Cons bs ps)
  from Cons.prems show ?case
    using Cons.IH [of "offset + length bs"] by (simp add: write_data_frame_sendable [where dec = dec] add.assoc)
qed simp

lemma write_terminal_pieces_sendable:
  assumes "list_all (sendable enc dec sid) (map (\<lambda>bs. (FTerminalSnapshot ws, bs)) ps)"
  shows "write_terminal_pieces enc sid ws w ps =
    (w @ concat (map (frame_wire enc sid) (map (\<lambda>bs. (FTerminalSnapshot ws, bs)) ps)), Ok ())"
  using assms by (induction ps arbitrary: w) (simp_all add: write_data_frame_sendable [where dec = dec])

text \<open>An event whose terminal state has a size the protocol can carry.\<close>

definition drawable :: "output_event \<Rightarrow> bool" where
  "drawable e \<longleftrightarrow>
     (case e of TerminalSnapshot tc \<Rightarrow> 0 < ts_cols (tc_terminal tc) \<and> 0 < ts_rows (tc_terminal tc) | _ \<Rightarrow> True)"

lemma wire_terminal_drawable:
  "drawable (TerminalSnapshot tc) \<Longrightarrow>
     \<exists>ws. wire_terminal (tc_terminal tc) = Ok ws \<and> ws_watermark ws = ts_watermark (tc_terminal tc) \<and>
       ws_title ws = ts_title (tc_terminal tc) \<and> ws_progress ws = ts_progress (tc_terminal tc)"
  by (simp add: drawable_def wire_terminal_def dimensions_new_def)

lemma write_event_sendable:
  assumes "list_all (sendable enc dec sid) (event_frames limit fe forced e)" and "0 < limit" and "drawable e"
    and "\<And>c. e = Replay c \<or> e = Output c \<Longrightarrow> chunk_offset c + length (chunk_bytes c) \<le> u64_max"
  shows "write_runtime_output_event enc sid limit fe w e forced =
    (w @ concat (map (frame_wire enc sid) (event_frames limit fe forced e)), Ok ())"
proof (cases e)
  case (TerminalSnapshot tc)
  then obtain ws where "wire_terminal (tc_terminal tc) = Ok ws" using wire_terminal_drawable assms(3) by blast
  then show ?thesis
    using assms(1) TerminalSnapshot write_terminal_pieces_sendable [of enc dec sid ws "chunks limit (tc_bytes tc)" w]
    by (simp add: write_runtime_output_event_def write_output_event_def write_terminal_chunks_def event_frames_def)
next
  case (Exit n)
  then show ?thesis
    using assms(1) by (cases forced) (simp_all add: write_runtime_output_event_def write_output_event_def
      event_frames_def write_data_error_def write_data_frame_sendable [where dec = dec])
qed (use assms in \<open>simp_all add: write_runtime_output_event_def write_output_event_def event_frames_def
      write_output_chunks_def write_output_pieces_sendable [where dec = dec] concat_chunks write_data_error_def
      write_data_frame_sendable [where dec = dec]\<close>)

section \<open>The client's side\<close>

primrec read_frames ::
  "(bytes \<Rightarrow> 'e frame_header option) \<Rightarrow> nat \<Rightarrow> read_item list \<Rightarrow> (frame_error, 'e data_frame list \<times> read_item list) result" where
  "read_frames dec 0 inner = Ok ([], inner)"
| "read_frames dec (Suc k) inner =
     (case read_frame dec inner of
        Inl e \<Rightarrow> Err e
      | Inr (None, rest) \<Rightarrow> Ok ([], rest)
      | Inr (Some f, rest) \<Rightarrow>
          (case read_frames dec k rest of Inl e \<Rightarrow> Err e | Inr (fs, rest') \<Rightarrow> Ok (f # fs, rest')))"

lemma read_frames_sendable:
  assumes "list_all (sendable enc dec sid) fps" and "stream inner (concat (map (frame_wire enc sid) fps))"
  shows "read_frames dec (length fps) inner = Ok (map (frame_of sid) fps, [])"
  using assms
proof (induction fps arbitrary: inner)
  case Nil
  then show ?case by (cases inner) (auto elim!: stream_Cons)
next
  case (Cons fp fps)
  then have ok: "sendable enc dec sid fp" by simp
  from Cons.prems(2) have "stream inner (frame_wire enc sid fp @ concat (map (frame_wire enc sid) fps))" by simp
  from read_written_frame [OF sendable_frame(1,2) [OF ok] _ this, of dec] sendable_frame(3) [OF ok]
  obtain rest where "read_frame dec inner = Ok (Some (frame_of sid fp), rest)"
    "stream rest (concat (map (frame_wire enc sid) fps))" by blast
  then show ?case using Cons.IH [of rest] Cons.prems(1) by simp
qed

text \<open>
  What a client may rely on: bytes continue at its position and are those of the history, a gap
  starts at its position, a repaint is of the terminal at its position, and the stream is closed at
  the end of the history.
\<close>

record client =
  cl_pos :: nat
  cl_closed :: bool

definition client_of :: "viewer \<Rightarrow> client" where
  "client_of v = \<lparr>cl_pos = v_pos v, cl_closed = v_closed v\<rparr>"

definition client_bytes :: "bytes \<Rightarrow> client \<Rightarrow> nat \<Rightarrow> bytes \<Rightarrow> client option" where
  "client_bytes H c offset bs =
     (if offset = cl_pos c \<and> bs \<noteq> [] \<and> offset + length bs \<le> length H \<and> bs = slice H offset (offset + length bs)
      then Some (c\<lparr>cl_pos := offset + length bs\<rparr>) else None)"

definition client_view :: "bytes \<Rightarrow> 'e \<Rightarrow> bool \<Rightarrow> client \<Rightarrow> 'e frame_kind \<Rightarrow> bytes \<Rightarrow> client option" where
  "client_view H forced_error forced c kind bs =
     (if cl_closed c then None
      else case kind of
        FReplay offset \<Rightarrow> client_bytes H c offset bs
      | FOutput offset \<Rightarrow> client_bytes H c offset bs
      | FGap s e w \<Rightarrow> if s = cl_pos c \<and> s < e \<and> e = w \<and> w \<le> length H then Some (c\<lparr>cl_pos := w\<rparr>) else None
      | FTerminalSnapshot ws \<Rightarrow>
          if ws_watermark ws = cl_pos c \<and> bs \<noteq> [] \<and>
             ws_title ws = trk_title (tracker_feed osc_tracker_new (take (cl_pos c) H)) \<and>
             ws_progress ws = trk_progress (tracker_feed osc_tracker_new (take (cl_pos c) H))
          then Some c else None
      | FClose r \<Rightarrow> if r = RuntimeExited \<and> \<not> forced \<and> cl_pos c = length H then Some (c\<lparr>cl_closed := True\<rparr>) else None
      | FError e \<Rightarrow> if e = forced_error \<and> forced \<and> cl_pos c = length H then Some (c\<lparr>cl_closed := True\<rparr>) else None
      | _ \<Rightarrow> None)"

fun client_all :: "bytes \<Rightarrow> 'e \<Rightarrow> bool \<Rightarrow> client \<Rightarrow> ('e frame_kind \<times> bytes) list \<Rightarrow> client option" where
  "client_all H fe forced c [] = Some c"
| "client_all H fe forced c ((kind, bs) # rest) =
     (case client_view H fe forced c kind bs of None \<Rightarrow> None | Some c' \<Rightarrow> client_all H fe forced c' rest)"

lemma client_all_append:
  "client_all H fe forced c (xs @ ys) =
     (case client_all H fe forced c xs of None \<Rightarrow> None | Some c' \<Rightarrow> client_all H fe forced c' ys)"
  by (induction H fe forced c xs rule: client_all.induct) (auto split: option.splits)

lemma client_output_frames:
  assumes "\<And>b. b \<in> set ps \<Longrightarrow> b \<noteq> []" and "concat ps = slice H pos (pos + length (concat ps))"
    and "pos + length (concat ps) \<le> length H" and "\<not> cl_closed c" and "cl_pos c = pos"
  shows "client_all H fe forced c (output_frames replay pos ps) = Some (c\<lparr>cl_pos := pos + length (concat ps)\<rparr>)"
  using assms
proof (induction ps arbitrary: c pos)
  case Nil
  then show ?case by simp
next
  case (Cons b ps)
  have all: "b @ concat ps = slice H pos (pos + length b + length (concat ps))"
    using Cons.prems(2) by (simp add: add.assoc)
  also have "\<dots> = slice H pos (pos + length b) @ slice H (pos + length b) (pos + length b + length (concat ps))"
    by (simp add: slice_join)
  finally have split: "b @ concat ps = \<dots>" .
  have "length b = length (slice H pos (pos + length b))" using Cons.prems(3) by simp
  with split have b: "b = slice H pos (pos + length b)"
    and rest: "concat ps = slice H (pos + length b) (pos + length b + length (concat ps))"
    by (metis append_eq_append_conv)+
  have "client_bytes H c pos b = Some (c\<lparr>cl_pos := pos + length b\<rparr>)"
    using b Cons.prems(1,3,5) unfolding client_bytes_def by simp
  then have "client_view H fe forced c (if replay then FReplay pos else FOutput pos) b = Some (c\<lparr>cl_pos := pos + length b\<rparr>)"
    using Cons.prems(4) by (simp add: client_view_def)
  moreover have "client_all H fe forced (c\<lparr>cl_pos := pos + length b\<rparr>) (output_frames replay (pos + length b) ps) =
      Some (c\<lparr>cl_pos := pos + length b\<rparr>\<lparr>cl_pos := pos + length b + length (concat ps)\<rparr>)"
    by (rule Cons.IH [OF _ rest]) (use Cons.prems(1,3,4) in auto)
  ultimately show ?case by (simp add: add.assoc)
qed

lemma client_chunk:
  assumes "chunk_at H pos ch" and "0 < limit" and "\<not> cl_closed c" and "cl_pos c = pos"
  shows "client_all H fe forced c (output_frames replay (chunk_offset ch) (chunks limit (chunk_bytes ch))) =
    Some (c\<lparr>cl_pos := pos + length (chunk_bytes ch)\<rparr>)"
  using client_output_frames [of "chunks limit (chunk_bytes ch)" H pos c fe forced replay] assms
  by (simp add: concat_chunks chunk_at_def chunks_nonempty)

lemma client_repaint:
  assumes "\<And>b. b \<in> set ps \<Longrightarrow> b \<noteq> []" and "\<not> cl_closed c" and "ws_watermark ws = cl_pos c"
    and "ws_title ws = trk_title (tracker_feed osc_tracker_new (take (cl_pos c) H))"
    and "ws_progress ws = trk_progress (tracker_feed osc_tracker_new (take (cl_pos c) H))"
  shows "client_all H fe forced c (map (\<lambda>b. (FTerminalSnapshot ws, b)) ps) = Some c"
  using assms(1) by (induction ps) (simp_all add: client_view_def assms(2-))

lemma client_event:
  assumes "view H v e = Some v'" and "0 < limit" and "drawable e"
  shows "client_all H fe forced (client_of v) (event_frames limit fe forced e) = Some (client_of v')"
proof -
  have o: "\<not> v_closed v" using assms(1) by (auto simp: view_def split: if_splits)
  show ?thesis
  proof (cases e)
    case (TerminalSnapshot tc)
    then obtain ws where ws: "wire_terminal (tc_terminal tc) = Ok ws"
      "ws_watermark ws = ts_watermark (tc_terminal tc)" "ws_title ws = ts_title (tc_terminal tc)"
      "ws_progress ws = ts_progress (tc_terminal tc)"
      using wire_terminal_drawable assms(3) by blast
    have f: "fragment_ok H (v_pos v) (v_paint v) tc" "client_of v' = client_of v"
      using assms(1) TerminalSnapshot o by (auto simp: view_def client_of_def split: if_splits)
    then have "snap_ok H (tc_terminal tc)" "ts_watermark (tc_terminal tc) = v_pos v"
      by (simp_all add: fragment_ok_def)
    then have "client_all H fe forced (client_of v) (map (\<lambda>b. (FTerminalSnapshot ws, b)) (chunks limit (tc_bytes tc))) =
        Some (client_of v)"
      using o ws by (intro client_repaint) (auto simp: client_of_def snap_ok_def dest: chunks_nonempty)
    then show ?thesis using TerminalSnapshot ws(1) f(2) by (simp add: event_frames_def)
  qed (use assms o in \<open>auto simp: view_def event_frames_def client_of_def client_chunk client_view_def split: if_splits\<close>)
qed

lemma client_events:
  assumes "view_all H v es = Some v'" and "0 < limit" and "\<forall>e \<in> set es. drawable e"
  shows "client_all H fe forced (client_of v) (concat (map (event_frames limit fe forced) es)) = Some (client_of v')"
  using assms
proof (induction es arbitrary: v)
  case (Cons e es)
  then obtain v1 where v1: "view H v e = Some v1" "view_all H v1 es = Some v'" by (auto split: option.splits)
  from client_event [OF v1(1) assms(2), of fe forced] Cons.IH [OF v1(2)] Cons.prems show ?case by (simp add: client_all_append)
qed simp

lemma output_frames_valid:
  assumes "\<And>b. b \<in> set ps \<Longrightarrow> b \<noteq> [] \<and> length b \<le> MAX_DATA_PAYLOAD_BYTES"
    and "pos + length (concat ps) \<le> u64_max"
  shows "list_all frame_valid (output_frames replay pos ps)"
  using assms
proof (induction ps arbitrary: pos)
  case (Cons b ps)
  then show ?case
    using Cons.IH [of "pos + length b"]
    by (auto simp: frame_valid_def validate_payload_def validate_bytes_at_def add.assoc)
qed simp

lemma chunk_frames_valid:
  assumes "0 < limit" and "limit \<le> MAX_DATA_PAYLOAD_BYTES" and "offset + length bs \<le> u64_max"
  shows "list_all frame_valid (output_frames replay offset (chunks limit bs))"
  by (rule output_frames_valid) (use assms chunks_nonempty [of _ limit bs] in \<open>fastforce simp: concat_chunks\<close>)+

lemma event_frames_valid:
  assumes "view H v e = Some v'" and "0 < limit" and "limit \<le> MAX_DATA_PAYLOAD_BYTES" and "length H \<le> u64_max"
  shows "list_all frame_valid (event_frames limit fe forced e)"
proof (cases e)
  case (TerminalSnapshot tc)
  show ?thesis
  proof (cases "wire_terminal (tc_terminal tc)")
    case (Inr ws)
    then show ?thesis
      using TerminalSnapshot assms(3) chunks_nonempty [of _ limit "tc_bytes tc"]
      by (fastforce simp: event_frames_def list_all_iff frame_valid_def validate_payload_def)
  qed (simp add: TerminalSnapshot event_frames_def)
qed (use assms in \<open>auto simp: view_def chunk_at_def event_frames_def frame_valid_def validate_payload_def
      intro!: chunk_frames_valid split: if_splits\<close>)

lemma view_chunk_fits:
  "view H v e = Some v' \<Longrightarrow> e = Replay c \<or> e = Output c \<Longrightarrow> chunk_offset c + length (chunk_bytes c) \<le> length H"
  by (auto simp: view_def chunk_at_def split: if_splits)

lemma write_events_sendable:
  assumes "view_all H v es = Some v'" and "0 < limit" and "limit \<le> MAX_DATA_PAYLOAD_BYTES"
    and "length H \<le> u64_max" and "\<forall>e \<in> set es. drawable e"
    and "\<forall>fp \<in> set (concat (map (event_frames limit fe forced) es)). header_fits enc dec sid (fst fp)"
  shows "list_all (sendable enc dec sid) (concat (map (event_frames limit fe forced) es)) \<and>
    write_events enc sid limit fe forced w es =
      (w @ concat (map (frame_wire enc sid) (concat (map (event_frames limit fe forced) es))), Ok ())"
  using assms
proof (induction es arbitrary: v w)
  case (Cons e es)
  then obtain v1 where v1: "view H v e = Some v1" "view_all H v1 es = Some v'" by (auto split: option.splits)
  let ?w = "w @ concat (map (frame_wire enc sid) (event_frames limit fe forced e))"
  have ok: "list_all (sendable enc dec sid) (event_frames limit fe forced e)"
    using event_frames_valid [OF v1(1) Cons.prems(2-4), of fe forced] Cons.prems(6)
    by (auto simp: list_all_iff sendable_def)
  have "write_runtime_output_event enc sid limit fe w e forced = (?w, Ok ())"
    by (rule write_event_sendable [OF ok assms(2)])
      (use Cons.prems(5) view_chunk_fits [OF v1(1)] Cons.prems(4) le_trans in \<open>auto\<close>)
  then show ?case using Cons.IH [OF v1(2) Cons.prems(2-4), of ?w] Cons.prems(5,6) ok by simp
qed simp

definition observation_frames :: "nat \<Rightarrow> observation_page \<Rightarrow> bool \<Rightarrow> ('e frame_kind \<times> bytes) list" where
  "observation_frames limit page timed_out =
     (FObservationStart (op_history_start_offset page) (op_start_offset page) (op_next_offset page)
        (op_runtime_end_offset page)
        (map_option (\<lambda>(s, e). \<lparr>gap_missing_start = s, gap_missing_end = e\<rparr>) (op_gap page))
        (op_has_more page) timed_out, [])
     # output_frames True (op_start_offset page) (chunks limit (op_bytes page))
     @ [(FClose ObservationComplete, [])]"

lemma observed_page:
  assumes "core_inv H h" and "hub_observe h off m = Ok page" and "timed_out \<longrightarrow> observation_timed_out off page"
  shows "validate_observation (op_history_start_offset page) (op_start_offset page) (op_next_offset page)
      (op_runtime_end_offset page)
      (map_option (\<lambda>(s, e). \<lparr>gap_missing_start = s, gap_missing_end = e\<rparr>) (op_gap page))
      (op_has_more page) timed_out = Ok ()"
    and "op_start_offset page + length (op_bytes page) \<le> u64_max"
proof -
  have m: "0 < m" using assms(2) by (auto simp: hub_observe_def split: if_splits)
  have off: "unwrap_or off 0 \<le> length H"
    using assms(2) m core_invD(6) [OF assms(1)]
    by (auto simp: hub_observe_def validate_offset_def Let_def split: if_splits)
  note page = hub_observe_page [OF assms(1) m off, unfolded assms(2) Let_def, simplified]
  have hs: "ring_start_offset (hub_ring h) \<le> length H" "length H \<le> u64_max" using core_invD [OF assms(1)] by auto
  show "validate_observation (op_history_start_offset page) (op_start_offset page) (op_next_offset page)
      (op_runtime_end_offset page)
      (map_option (\<lambda>(s, e). \<lparr>gap_missing_start = s, gap_missing_end = e\<rparr>) (op_gap page))
      (op_has_more page) timed_out = Ok ()"
    using assms(3) hs off
    by (cases off) (auto simp: page validate_observation_def observation_timed_out_def Let_def max_def min_def)
  show "op_start_offset page + length (op_bytes page) \<le> u64_max"
    using hs off by (cases off) (auto simp: page max_def min_def)
qed

section \<open>Properties\<close>


text \<open>A concrete header code for finitely many headers, as a table.\<close>

definition table_enc :: "('e frame_header \<times> bytes) list \<Rightarrow> 'e header_enc" where
  "table_enc tbl = map_of tbl"

definition table_dec :: "('e frame_header \<times> bytes) list \<Rightarrow> bytes \<Rightarrow> 'e frame_header option" where
  "table_dec tbl = map_of (map (\<lambda>(h, b). (b, h)) tbl)"

definition demo_stream :: stream_identity where
  "demo_stream = \<lparr>si_version = CURRENT_VERSION, si_stream_id = ''s'', si_worker_instance_id = ''r''\<rparr>"

definition demo_kinds :: "unit frame_kind list" where
  "demo_kinds = [FReplay 0, FReplay 3, FOutput 4]"

definition demo_table :: "(unit frame_header \<times> bytes) list" where
  "demo_table = zip (map (stream_header demo_stream) demo_kinds) [''a'', ''b'', ''c'']"

lemma demo_table_fits: "k \<in> set demo_kinds \<Longrightarrow> header_fits (table_enc demo_table) (table_dec demo_table) demo_stream k"
  by (auto simp: header_fits_def table_enc_def table_dec_def demo_table_def demo_kinds_def stream_header_def
      MAX_DATA_HEADER_BYTES_def)

lemma demo_log:
  "case script_run tiny_vt 8 64 demo_script of
     None \<Rightarrow> False
   | Some (h, H, ini, log) \<Rightarrow>
       0 < hub_next_queue h \<and>
       log 0 = [Replay \<lparr>chunk_offset = 0, chunk_bytes = ''abcd''\<rparr>, Output \<lparr>chunk_offset = 4, chunk_bytes = ''ef''\<rparr>]"
  by (simp add: demo_script_def hub_exec)

lemma demo_frames:
  "event_frames 3 () False (Replay \<lparr>chunk_offset = 0, chunk_bytes = ''abcd''\<rparr>) = [(FReplay 0, ''abc''), (FReplay 3, ''d'')]"
  "event_frames 3 () False (Output \<lparr>chunk_offset = 4, chunk_bytes = ''ef''\<rparr>) = [(FOutput 4, ''ef'')]"
  by (simp_all add: event_frames_def chunks.simps [of 3])


text \<open>
  An observation page is written without an error as a start frame the protocol accepts, the
  page's bytes in order, and a close; a timeout is reported only for an empty page at the end.
\<close>

theorem observation_page_framed:
  assumes "hub_run vt h H ini log" and "vt_sized vt" and "hub_observe h off m = Ok page"
    and "timed_out \<longrightarrow> observation_timed_out off page" and "0 < limit" and "limit \<le> MAX_DATA_PAYLOAD_BYTES"
    and "\<forall>fp \<in> set (observation_frames limit page timed_out). header_fits enc dec sid (fst fp)"
  shows "write_observation_page enc sid limit w page timed_out =
      (w @ concat (map (frame_wire enc sid) (observation_frames limit page timed_out)), Ok ()) \<and>
    list_all frame_valid (observation_frames limit page timed_out) \<and>
    concat (map snd (observation_frames limit page timed_out)) = op_bytes page"
proof -
  have core: "core_inv H h" using hub_run_inv [OF assms(1,2)] by (simp add: run_inv_def)
  note page = observed_page [OF core assms(3,4)]
  have valid: "list_all frame_valid (observation_frames limit page timed_out)"
    using page chunk_frames_valid [OF assms(5,6) page(2), of True]
    by (simp add: observation_frames_def frame_valid_def validate_payload_def)
  then have ok: "list_all (sendable enc dec sid) (observation_frames limit page timed_out)"
    using assms(7) by (auto simp: list_all_iff sendable_def)
  have "concat (map snd (observation_frames limit page timed_out)) = op_bytes page"
    using assms(5) by (simp add: observation_frames_def concat_chunks)
  with ok valid page(2) assms(5) show ?thesis
    by (auto simp: observation_frames_def write_observation_page_def write_output_chunks_def concat_chunks
        write_data_frame_sendable [where dec = dec] write_output_pieces_sendable [where dec = dec])
qed

definition demo_observation_kinds :: "unit frame_kind list" where
  "demo_observation_kinds =
     [FObservationStart 2 2 5 6 (Some \<lparr>gap_missing_start = 0, gap_missing_end = 2\<rparr>) True False,
      FReplay 2, FClose ObservationComplete]"

definition demo_observation_table :: "(unit frame_header \<times> bytes) list" where
  "demo_observation_table = zip (map (stream_header demo_stream) demo_observation_kinds) [''a'', ''b'', ''c'']"

lemma demo_observation:
  "case script_run tiny_vt 4 64 close_script of
     None \<Rightarrow> False
   | Some (h, H, ini, log) \<Rightarrow>
       hub_observe h (Some 0) 3 = Ok \<lparr>op_history_start_offset = 2, op_start_offset = 2, op_next_offset = 5,
         op_runtime_end_offset = 6, op_bytes = ''cde'', op_gap = Some (0, 2), op_has_more = True, op_exited = False\<rparr>"
  by (simp add: close_script_def hub_exec hub_observe_def ring_bytes_from_limited_def)

theorem observation_page_framed_witness:
  "case script_run tiny_vt 4 64 close_script of
     None \<Rightarrow> False
   | Some (h, H, ini, log) \<Rightarrow>
       (case hub_observe h (Some 0) 3 of Inl e \<Rightarrow> False
        | Inr page \<Rightarrow> snd (write_observation_page (table_enc demo_observation_table) demo_stream 8 [] page False) = Ok ())"
proof -
  let ?page = "\<lparr>op_history_start_offset = 2, op_start_offset = 2, op_next_offset = 5,
         op_runtime_end_offset = 6, op_bytes = ''cde'', op_gap = Some (0, 2), op_has_more = True, op_exited = False\<rparr>"
  obtain h H ini log where s: "script_run tiny_vt 4 64 close_script = Some (h, H, ini, log)"
    "hub_observe h (Some 0) 3 = Ok ?page" using demo_observation by (auto split: option.splits)
  have "\<forall>fp \<in> set (observation_frames 8 ?page False). header_fits (table_enc demo_observation_table)
      (table_dec demo_observation_table) demo_stream (fst fp)"
    by (simp add: observation_frames_def chunks.simps [of 8] header_fits_def table_enc_def table_dec_def
        demo_observation_table_def demo_observation_kinds_def stream_header_def MAX_DATA_HEADER_BYTES_def)
  from observation_page_framed [OF script_is_run [OF s(1)] tiny_vt_sized s(2) _ _ _ this, of "[]"]
  have "snd (write_observation_page (table_enc demo_observation_table) demo_stream 8 [] ?page False) = Ok ()"
    by (auto simp: MAX_DATA_PAYLOAD_BYTES_def)
  with s show ?thesis by simp
qed

end
