(* ===== verification/Input_Dedup.thy ===== *)
theory Input_Dedup
  imports Data_Frame "HOL-Library.Word"
begin

unbundle bit_operations_syntax

text \<open>
  Deduplication of control input (\<open>crates/session-worker/src/input.rs\<close>, \<open>WriteCoordinator\<close>,
  \<open>DedupState\<close>, \<open>EvictedFilter\<close>; \<open>server.rs\<close>, \<open>control_input_id\<close> and the dispatch of
  \<open>write_request\<close>; the daemon's \<open>input_write_id\<close>).  SHA-256 is a parameter \<open>sha\<close>.  The watch
  channels that carry a result to joined callers are an explicit store; a duration is its number of
  nanoseconds.
\<close>

section \<open>Data\<close>

record input_fragment =
  if_bytes :: bytes
  if_delay_after :: nat

record input_plan =
  ip_write_id :: bytes
  ip_fragments :: "input_fragment list"

record write_receipt =
  wr_submit_mark_ns :: "nat option"

datatype io_kind = TimedOut | Interrupted | WriteZero | OtherIo

datatype io_error = IoError io_kind bytes

datatype input_error =
    InvalidCapacity
  | Conflict bytes
  | OutcomeUnknown bytes
  | InputIo io_error
  | Stalled nat nat nat
  | WriterTask

datatype stored_error = StoredIo bytes | StoredWriterTask | StoredStalled nat nat nat

text \<open>The texts of the errors that no execution of a plan returns.\<close>

definition input_error_text :: "input_error \<Rightarrow> bytes" where
  "input_error_text e =
     (case e of
        InvalidCapacity \<Rightarrow> ''input deduplication capacity must be greater than zero''
      | Conflict i \<Rightarrow> ''write id '' @ [CHR 0x60] @ i @ [CHR 0x60] @ '' was reused with different content''
      | OutcomeUnknown i \<Rightarrow> ''write outcome is unknown for expired id '' @ [CHR 0x60] @ i @ [CHR 0x60]
      | _ \<Rightarrow> [])"

definition from_input :: "input_error \<Rightarrow> stored_error" where
  "from_input e =
     (case e of
        InputIo (IoError k msg) \<Rightarrow> StoredIo msg
      | WriterTask \<Rightarrow> StoredWriterTask
      | Stalled written whole stall \<Rightarrow> StoredStalled written whole stall
      | _ \<Rightarrow> StoredIo (input_error_text e))"

definition into_input :: "stored_error \<Rightarrow> input_error" where
  "into_input e =
     (case e of
        StoredIo msg \<Rightarrow> InputIo (IoError OtherIo msg)
      | StoredWriterTask \<Rightarrow> WriterTask
      | StoredStalled written whole stall \<Rightarrow> Stalled written whole stall)"

type_synonym stored_result = "(stored_error, write_receipt) result"

datatype dedup_mode = Monotonic | Legacy

record dedup_entry =
  de_fingerprint :: bytes
  de_result :: nat

definition LEGACY_EVICTED_FILTER_WORDS :: nat where "LEGACY_EVICTED_FILTER_WORDS = 256"

type_synonym evicted_filter = "64 word list"

record dedup_state =
  ds_entries :: "bytes \<rightharpoonup> dedup_entry"
  ds_completed :: "bytes list"
  ds_namespace_id :: "bytes option"
  ds_mode :: "dedup_mode option"
  ds_high_watermark :: nat
  ds_legacy_evicted :: evicted_filter
  ds_capacity :: nat

datatype chan = ChanPending | ChanSent stored_result | ChanClosed

record coordinator =
  wc_state :: dedup_state
  wc_chans :: "nat \<Rightarrow> chan"
  wc_next_chan :: nat
  wc_stall :: "nat option"

datatype action = Join nat | Execute nat

section \<open>The filter of evicted identifiers\<close>

definition filter_new :: evicted_filter where
  "filter_new = replicate LEGACY_EVICTED_FILTER_WORDS 0"

definition filter_clear :: "evicted_filter \<Rightarrow> evicted_filter" where
  "filter_clear f = replicate (length f) 0"

definition filter_indices :: "(bytes \<Rightarrow> bytes) \<Rightarrow> bytes \<Rightarrow> nat list" where
  "filter_indices sha write_id =
     (let digest = sha write_id; bit_count = LEGACY_EVICTED_FILTER_WORDS * 64
      in map (\<lambda>offset. from_be_bytes (Prelude.slice digest offset (offset + 8)) mod bit_count) [0, 8, 16])"

definition filter_set :: "nat \<Rightarrow> evicted_filter \<Rightarrow> evicted_filter" where
  "filter_set index f = f[index div 64 := (f ! (index div 64)) OR push_bit (index mod 64) 1]"

definition filter_test :: "evicted_filter \<Rightarrow> nat \<Rightarrow> bool" where
  "filter_test f index \<longleftrightarrow> (f ! (index div 64)) AND push_bit (index mod 64) 1 \<noteq> 0"

definition filter_insert :: "(bytes \<Rightarrow> bytes) \<Rightarrow> evicted_filter \<Rightarrow> bytes \<Rightarrow> evicted_filter" where
  "filter_insert sha f write_id = fold filter_set (filter_indices sha write_id) f"

definition might_contain :: "(bytes \<Rightarrow> bytes) \<Rightarrow> evicted_filter \<Rightarrow> bytes \<Rightarrow> bool" where
  "might_contain sha f write_id \<longleftrightarrow> list_all (filter_test f) (filter_indices sha write_id)"

section \<open>Fingerprints\<close>

text \<open>\<open>to_be_bytes\<close> of an integer of \<open>k\<close> bytes.\<close>

primrec to_be_bytes :: "nat \<Rightarrow> nat \<Rightarrow> bytes" where
  "to_be_bytes 0 n = []"
| "to_be_bytes (Suc k) n = to_be_bytes k (n div 256) @ [char_of (n mod 256)]"

definition fragment_digest :: "input_fragment \<Rightarrow> bytes" where
  "fragment_digest f =
     to_be_bytes 8 (unwrap_or (u64_try_from (length (if_bytes f))) u64_max) @ if_bytes f
       @ to_be_bytes 16 (if_delay_after f)"

definition fingerprint :: "(bytes \<Rightarrow> bytes) \<Rightarrow> input_plan \<Rightarrow> bytes" where
  "fingerprint sha plan = sha (concat (map fragment_digest (ip_fragments plan)))"

section \<open>The coordinator\<close>

definition coordinator_new :: "nat \<Rightarrow> nat option \<Rightarrow> (input_error, coordinator) result" where
  "coordinator_new capacity stall =
     (if capacity = 0 then Err InvalidCapacity
      else Ok \<lparr>wc_state = \<lparr>ds_entries = Map.empty, ds_completed = [], ds_namespace_id = None, ds_mode = None,
                          ds_high_watermark = 0, ds_legacy_evicted = filter_new, ds_capacity = capacity\<rparr>,
              wc_chans = (\<lambda>_. ChanPending), wc_next_chan = 0, wc_stall = stall\<rparr>)"

definition select_namespace :: "dedup_state \<Rightarrow> bytes \<Rightarrow> dedup_mode \<Rightarrow> dedup_state" where
  "select_namespace s namespace_id mode =
     (if ds_namespace_id s = Some namespace_id \<and> ds_mode s = Some mode then s
      else s\<lparr>ds_entries := Map.empty, ds_completed := [], ds_namespace_id := Some namespace_id,
             ds_mode := Some mode, ds_high_watermark := 0,
             ds_legacy_evicted := filter_clear (ds_legacy_evicted s)\<rparr>)"

text \<open>Recording a new entry with a fresh channel: the common end of both admissions.\<close>

definition start_entry :: "coordinator \<Rightarrow> dedup_state \<Rightarrow> bytes \<Rightarrow> bytes \<Rightarrow> coordinator \<times> (input_error, action) result" where
  "start_entry c s write_id fp =
     (let n = wc_next_chan c in
      (c\<lparr>wc_state := s\<lparr>ds_entries := (ds_entries s)(write_id \<mapsto> \<lparr>de_fingerprint = fp, de_result = n\<rparr>)\<rparr>,
         wc_chans := (wc_chans c)(n := ChanPending), wc_next_chan := n + 1\<rparr>,
       Ok (Execute n)))"

definition control_action ::
  "(bytes \<Rightarrow> bytes) \<Rightarrow> coordinator \<Rightarrow> bytes \<Rightarrow> nat \<Rightarrow> input_plan \<Rightarrow> coordinator \<times> (input_error, action) result" where
  "control_action sha c namespace_id sequence plan =
     (let fp = fingerprint sha plan;
          s = select_namespace (wc_state c) namespace_id Monotonic
      in case ds_entries s (ip_write_id plan) of
           Some entry \<Rightarrow>
             if de_fingerprint entry \<noteq> fp then (c\<lparr>wc_state := s\<rparr>, Err (Conflict (ip_write_id plan)))
             else (c\<lparr>wc_state := s\<rparr>, Ok (Join (de_result entry)))
         | None \<Rightarrow>
             if sequence \<le> ds_high_watermark s then (c\<lparr>wc_state := s\<rparr>, Err (OutcomeUnknown (ip_write_id plan)))
             else start_entry c (s\<lparr>ds_high_watermark := sequence\<rparr>) (ip_write_id plan) fp)"

definition legacy_action ::
  "(bytes \<Rightarrow> bytes) \<Rightarrow> coordinator \<Rightarrow> bytes \<Rightarrow> input_plan \<Rightarrow> coordinator \<times> (input_error, action) result" where
  "legacy_action sha c namespace_id plan =
     (let fp = fingerprint sha plan;
          s = select_namespace (wc_state c) namespace_id Legacy
      in case ds_entries s (ip_write_id plan) of
           Some entry \<Rightarrow>
             if de_fingerprint entry \<noteq> fp then (c\<lparr>wc_state := s\<rparr>, Err (Conflict (ip_write_id plan)))
             else (c\<lparr>wc_state := s\<rparr>, Ok (Join (de_result entry)))
         | None \<Rightarrow>
             if might_contain sha (ds_legacy_evicted s) (ip_write_id plan)
             then (c\<lparr>wc_state := s\<rparr>, Err (OutcomeUnknown (ip_write_id plan)))
             else start_entry c s (ip_write_id plan) fp)"

text \<open>The loop of \<open>complete\<close>: the oldest completed writes leave while there are too many.\<close>

fun evict_completed :: "(bytes \<Rightarrow> bytes) \<Rightarrow> bytes list \<Rightarrow> dedup_state \<Rightarrow> dedup_state" where
  "evict_completed sha [] s = s\<lparr>ds_completed := []\<rparr>"
| "evict_completed sha (i # rest) s =
     (if length (i # rest) \<le> ds_capacity s then s\<lparr>ds_completed := i # rest\<rparr>
      else evict_completed sha rest
        (s\<lparr>ds_entries := (ds_entries s)(i := None),
           ds_legacy_evicted :=
             (if ds_mode s = Some Legacy then filter_insert sha (ds_legacy_evicted s) i else ds_legacy_evicted s)\<rparr>))"

definition dedup_complete :: "(bytes \<Rightarrow> bytes) \<Rightarrow> dedup_state \<Rightarrow> bytes \<Rightarrow> dedup_state" where
  "dedup_complete sha s write_id = evict_completed sha (ds_completed s @ [write_id]) s"

definition coordinator_complete :: "(bytes \<Rightarrow> bytes) \<Rightarrow> coordinator \<Rightarrow> bytes \<Rightarrow> coordinator" where
  "coordinator_complete sha c write_id = c\<lparr>wc_state := dedup_complete sha (wc_state c) write_id\<rparr>"

definition chan_send :: "coordinator \<Rightarrow> nat \<Rightarrow> stored_result \<Rightarrow> coordinator" where
  "chan_send c n r = c\<lparr>wc_chans := (wc_chans c)(n := ChanSent r)\<rparr>"

text \<open>Dropping the future of an execution drops its sender.\<close>

definition chan_drop :: "coordinator \<Rightarrow> nat \<Rightarrow> coordinator" where
  "chan_drop c n = c\<lparr>wc_chans := (wc_chans c)(n := ChanClosed)\<rparr>"

text \<open>One pass of \<open>wait_result\<close>; \<^const>\<open>None\<close> is waiting for a change.\<close>

definition wait_result :: "coordinator \<Rightarrow> nat \<Rightarrow> (input_error, write_receipt) result option" where
  "wait_result c n =
     (case wc_chans c n of
        ChanPending \<Rightarrow> None
      | ChanSent (Inl e) \<Rightarrow> Some (Err (into_input e))
      | ChanSent (Inr r) \<Rightarrow> Some (Ok r)
      | ChanClosed \<Rightarrow> Some (Err WriterTask))"

section \<open>Control write identifiers\<close>

datatype input_id_kind = Namespaced nat | LegacyId

datatype id_reject = InvalidWriteId | IdentityMismatch

definition CONTROL_INPUT_PREFIX :: bytes where "CONTROL_INPUT_PREFIX = ''input-''"

definition control_input_id :: "bytes \<Rightarrow> bytes \<Rightarrow> (id_reject, input_id_kind) result" where
  "control_input_id write_id lease_id =
     (case strip_prefix CONTROL_INPUT_PREFIX write_id of
        None \<Rightarrow> Err InvalidWriteId
      | Some v \<Rightarrow>
          (case rsplit_once (CHR ''-'') v of
             None \<Rightarrow>
               (case parse_u64 v of
                  None \<Rightarrow> Err InvalidWriteId
                | Some sequence \<Rightarrow> if sequence = 0 then Err InvalidWriteId else Ok LegacyId)
           | Some (namespace, sequence) \<Rightarrow>
               if namespace \<noteq> lease_id then Err IdentityMismatch
               else (case parse_u64 sequence of
                       None \<Rightarrow> Err InvalidWriteId
                     | Some n \<Rightarrow> if n = 0 then Err InvalidWriteId else Ok (Namespaced n))))"

definition INPUT_WRITE_ID_PREFIX :: bytes where "INPUT_WRITE_ID_PREFIX = ''input''"

text \<open>The daemon's side: the identifier of the write with a sequence number.\<close>

definition input_write_id :: "bytes \<Rightarrow> nat \<Rightarrow> (id_error, ident) result" where
  "input_write_id lease_id sequence =
     id_new (INPUT_WRITE_ID_PREFIX @ ''-'' @ lease_id @ ''-'' @ show_nat sequence)"

text \<open>The dispatch of \<open>write_request\<close>, up to the action that is then executed or joined.\<close>

definition write_request ::
  "(bytes \<Rightarrow> bytes) \<Rightarrow> coordinator \<Rightarrow> bytes \<Rightarrow> bytes \<Rightarrow> input_plan
     \<Rightarrow> coordinator \<times> (id_reject + input_error, action) result" where
  "write_request sha c lease_id producer_id plan =
     (case control_input_id (ip_write_id plan) lease_id of
        Inl e \<Rightarrow> (c, Err (Inl e))
      | Inr (Namespaced sequence) \<Rightarrow>
          (case control_action sha c lease_id sequence plan of
             (c', Inl e) \<Rightarrow> (c', Err (Inr e)) | (c', Inr a) \<Rightarrow> (c', Ok a))
      | Inr LegacyId \<Rightarrow>
          (case legacy_action sha c producer_id plan of
             (c', Inl e) \<Rightarrow> (c', Err (Inr e)) | (c', Inr a) \<Rightarrow> (c', Ok a)))"

section \<open>The filter has no false negatives\<close>

lemma length_filter_set [simp]: "length (filter_set i f) = length f"
  by (simp add: filter_set_def)

lemma bit_or_nonzero: "((w OR push_bit k 1) AND push_bit k 1 :: 64 word) \<noteq> 0" if "k < 64"
proof -
  have "bit ((w OR push_bit k 1) AND push_bit k 1 :: 64 word) k" using that by (simp add: bit_simps)
  then show ?thesis
  proof (rule contrapos_pn)
    assume "((w OR push_bit k 1) AND push_bit k 1 :: 64 word) = 0"
    then show "\<not> bit ((w OR push_bit k 1) AND push_bit k 1 :: 64 word) k" by (simp only:) simp
  qed
qed

lemma filter_test_set:
  assumes "i div 64 < length f"
  shows "filter_test (filter_set i f) i"
  using assms bit_or_nonzero [of "i mod 64"] by (simp add: filter_test_def filter_set_def)

lemma filter_test_mono:
  assumes "filter_test f i" and "j div 64 < length f"
  shows "filter_test (filter_set j f) i"
proof (cases "i div 64 = j div 64")
  case True
  have "(v OR w) AND u \<noteq> 0" if "v AND u \<noteq> 0" for u v w :: "64 word"
    using that by (metis and.commute bit.conj_disj_distrib or_eq_0_iff)
  then show ?thesis using assms True by (simp add: filter_test_def filter_set_def)
qed (use assms in \<open>simp add: filter_test_def filter_set_def\<close>)

lemma filter_indices_bound: "i \<in> set (filter_indices sha x) \<Longrightarrow> i div 64 < LEGACY_EVICTED_FILTER_WORDS"
  by (auto simp: filter_indices_def LEGACY_EVICTED_FILTER_WORDS_def Let_def div_less_iff_less_mult)

lemma fold_filter_set:
  assumes "\<forall>i \<in> set is. i div 64 < length f"
  shows "length (fold filter_set is f) = length f \<and> (\<forall>i \<in> set is. filter_test (fold filter_set is f) i) \<and>
    (\<forall>j. filter_test f j \<longrightarrow> filter_test (fold filter_set is f) j)"
  using assms
proof (induction "is" arbitrary: f)
  case (Cons i "is")
  have "\<forall>k \<in> set is. k div 64 < length (filter_set i f)" using Cons.prems by simp
  from Cons.IH [OF this] show ?case using Cons.prems filter_test_set [of i f] filter_test_mono [of f _ i] by auto
qed simp

lemma filter_insert_contains:
  assumes "length f = LEGACY_EVICTED_FILTER_WORDS"
  shows "length (filter_insert sha f x) = LEGACY_EVICTED_FILTER_WORDS" and "might_contain sha (filter_insert sha f x) x"
    and "might_contain sha f y \<Longrightarrow> might_contain sha (filter_insert sha f x) y"
proof -
  have "\<forall>i \<in> set (filter_indices sha x). i div 64 < length f" using assms filter_indices_bound by auto
  from fold_filter_set [OF this]
  show "length (filter_insert sha f x) = LEGACY_EVICTED_FILTER_WORDS" "might_contain sha (filter_insert sha f x) x"
    "might_contain sha f y \<Longrightarrow> might_contain sha (filter_insert sha f x) y"
    using assms by (auto simp: filter_insert_def might_contain_def list_all_iff)
qed

section \<open>Fingerprints tell fragments apart\<close>

lemma length_to_be_bytes [simp]: "length (to_be_bytes k n) = k"
  by (induction k arbitrary: n) auto

lemma to_be_bytes_inj: "to_be_bytes k m = to_be_bytes k n \<Longrightarrow> m < 256 ^ k \<Longrightarrow> n < 256 ^ k \<Longrightarrow> m = n"
proof (induction k arbitrary: m n)
  case (Suc k)
  have "of_char (char_of (m mod 256) :: char) = (of_char (char_of (n mod 256) :: char) :: nat)"
    using Suc.prems(1) by simp
  then have "m mod 256 = n mod 256" by simp
  moreover have "m div 256 = n div 256"
    using Suc by (intro Suc.IH) (auto simp: div_less_iff_less_mult mult.commute)
  ultimately show ?case by (metis div_mult_mod_eq)
qed simp

definition fragment_sized :: "input_fragment \<Rightarrow> bool" where
  "fragment_sized f \<longleftrightarrow> length (if_bytes f) \<le> u64_max \<and> if_delay_after f < 256 ^ 16"

lemma fragment_digest_inj:
  assumes "fragment_digest f @ xs = fragment_digest g @ ys" and "fragment_sized f" and "fragment_sized g"
  shows "f = g \<and> xs = ys"
proof -
  have small: "length (if_bytes f) < 256 ^ 8" "length (if_bytes g) < 256 ^ 8"
    using assms(2,3) by (auto simp: fragment_sized_def u64_max_def)
  have digest: "fragment_digest h = to_be_bytes 8 (length (if_bytes h)) @ if_bytes h @ to_be_bytes 16 (if_delay_after h)"
    if "fragment_sized h" for h using that by (simp add: fragment_digest_def fragment_sized_def)
  have a: "to_be_bytes 8 (length (if_bytes f)) @ if_bytes f @ to_be_bytes 16 (if_delay_after f) @ xs =
      to_be_bytes 8 (length (if_bytes g)) @ if_bytes g @ to_be_bytes 16 (if_delay_after g) @ ys"
    using assms by (simp add: digest)
  then have "to_be_bytes 8 (length (if_bytes f)) = to_be_bytes 8 (length (if_bytes g))" by (simp add: append_eq_append_conv)
  then have len: "length (if_bytes f) = length (if_bytes g)" using small by (rule to_be_bytes_inj)
  with a have b: "if_bytes f = if_bytes g" "to_be_bytes 16 (if_delay_after f) = to_be_bytes 16 (if_delay_after g)" "xs = ys"
    by (simp_all add: append_eq_append_conv)
  then have "if_delay_after f = if_delay_after g"
    using to_be_bytes_inj [OF b(2)] assms(2,3) by (simp add: fragment_sized_def)
  then show ?thesis using b by simp
qed

lemma fragments_digest_inj:
  assumes "concat (map fragment_digest fs) = concat (map fragment_digest gs)"
    and "\<forall>f \<in> set fs. fragment_sized f" and "\<forall>g \<in> set gs. fragment_sized g"
  shows "fs = gs"
  using assms
proof (induction fs arbitrary: gs)
  case Nil
  then show ?case by (cases gs) (auto simp: fragment_digest_def dest: arg_cong [where f = length])
next
  case (Cons f fs)
  then obtain g gs' where gs: "gs = g # gs'"
    by (cases gs) (auto simp: fragment_digest_def dest: arg_cong [where f = length])
  with Cons.prems have "f = g \<and> concat (map fragment_digest fs) = concat (map fragment_digest gs')"
    by (intro fragment_digest_inj) auto
  with Cons gs show ?case by simp
qed

section \<open>Runs\<close>

text \<open>
  The coordinator with the executions its requests started: those that run, those whose future was
  dropped, the results of the others, and what was executed since the namespace was last selected
  (identifier, fingerprint and channel).
\<close>

record input_system =
  is_coord :: coordinator
  is_running :: "nat \<rightharpoonup> bytes"
  is_lost :: "nat set"
  is_results :: "nat \<rightharpoonup> stored_result"
  is_execs :: "(bytes \<times> bytes \<times> nat) list"

definition same_epoch :: "coordinator \<Rightarrow> coordinator \<Rightarrow> bool" where
  "same_epoch c c' \<longleftrightarrow>
     ds_namespace_id (wc_state c) = ds_namespace_id (wc_state c') \<and> ds_mode (wc_state c) = ds_mode (wc_state c')"

definition after_request ::
  "(bytes \<Rightarrow> bytes) \<Rightarrow> input_system \<Rightarrow> coordinator \<Rightarrow> input_plan \<Rightarrow> (id_reject + input_error, action) result \<Rightarrow> input_system" where
  "after_request sha s c' plan r =
     s\<lparr>is_coord := c',
       is_running :=
         (case r of Inr (Execute n) \<Rightarrow> (is_running s)(n \<mapsto> ip_write_id plan) | _ \<Rightarrow> is_running s),
       is_execs :=
         (if same_epoch (is_coord s) c' then is_execs s else []) @
         (case r of Inr (Execute n) \<Rightarrow> [(ip_write_id plan, fingerprint sha plan, n)] | _ \<Rightarrow> [])\<rparr>"

definition after_complete :: "(bytes \<Rightarrow> bytes) \<Rightarrow> input_system \<Rightarrow> nat \<Rightarrow> bytes \<Rightarrow> stored_result \<Rightarrow> input_system" where
  "after_complete sha s n i r =
     s\<lparr>is_coord := coordinator_complete sha (is_coord s) i, is_running := (is_running s)(n := None),
       is_results := (is_results s)(n \<mapsto> r)\<rparr>"

definition after_drop :: "input_system \<Rightarrow> nat \<Rightarrow> input_system" where
  "after_drop s n =
     s\<lparr>is_coord := chan_drop (is_coord s) n, is_running := (is_running s)(n := None),
       is_lost := insert n (is_lost s)\<rparr>"

inductive input_run :: "(bytes \<Rightarrow> bytes) \<Rightarrow> input_system \<Rightarrow> bool" for sha where
  start:
    "coordinator_new capacity stall = Ok c \<Longrightarrow>
     input_run sha \<lparr>is_coord = c, is_running = Map.empty, is_lost = {}, is_results = Map.empty, is_execs = []\<rparr>"
| request:
    "input_run sha s \<Longrightarrow> write_request sha (is_coord s) lease_id producer_id plan = (c', r) \<Longrightarrow>
     input_run sha (after_request sha s c' plan r)"
| complete:
    "input_run sha s \<Longrightarrow> is_running s n = Some i \<Longrightarrow> input_run sha (after_complete sha s n i r)"
| send:
    "input_run sha s \<Longrightarrow> is_results s n = Some r \<Longrightarrow> input_run sha (s\<lparr>is_coord := chan_send (is_coord s) n r\<rparr>)"
| drop_future:
    "input_run sha s \<Longrightarrow> is_running s n = Some i \<Longrightarrow> input_run sha (after_drop s n)"

section \<open>The invariant\<close>

text \<open>Every executed identifier is refused from now on, also once its entry is evicted.\<close>

definition spent :: "(bytes \<Rightarrow> bytes) \<Rightarrow> dedup_state \<Rightarrow> bytes \<Rightarrow> bool" where
  "spent sha d i \<longleftrightarrow>
     (case ds_mode d of
        None \<Rightarrow> False
      | Some Monotonic \<Rightarrow>
          (\<exists>ns k. ds_namespace_id d = Some ns \<and> control_input_id i ns = Ok (Namespaced k) \<and> k \<le> ds_high_watermark d)
      | Some Legacy \<Rightarrow> ds_entries d i \<noteq> None \<or> might_contain sha (ds_legacy_evicted d) i)"

definition dedup_inv :: "(bytes \<Rightarrow> bytes) \<Rightarrow> dedup_state \<Rightarrow> (bytes \<times> bytes \<times> nat) list \<Rightarrow> bool" where
  "dedup_inv sha d X \<longleftrightarrow>
     distinct (map fst X) \<and> (\<forall>x \<in> set X. spent sha d (fst x)) \<and>
     (\<forall>i e. ds_entries d i = Some e \<longrightarrow> (i, de_fingerprint e, de_result e) \<in> set X) \<and>
     length (ds_legacy_evicted d) = LEGACY_EVICTED_FILTER_WORDS \<and>
     length (ds_completed d) \<le> ds_capacity d"

definition held_inv :: "dedup_state \<Rightarrow> (nat \<rightharpoonup> bytes) \<Rightarrow> nat set \<Rightarrow> bool" where
  "held_inv d R L \<longleftrightarrow>
     (\<forall>i e. ds_entries d i = Some e \<longrightarrow>
        R (de_result e) = Some i \<or> de_result e \<in> L \<or> i \<in> set (ds_completed d))"

definition fresh_inv :: "input_system \<Rightarrow> bool" where
  "fresh_inv s \<longleftrightarrow>
     (let m = wc_next_chan (is_coord s) in
      (\<forall>n \<in> dom (is_running s). n < m \<and> n \<notin> is_lost s \<and> is_results s n = None) \<and>
      (\<forall>n \<in> is_lost s. n < m) \<and> (\<forall>n \<in> dom (is_results s). n < m) \<and>
      (\<forall>n r. wc_chans (is_coord s) n = ChanSent r \<longrightarrow> is_results s n = Some r) \<and>
      finite (dom (is_running s)) \<and> finite (is_lost s) \<and>
      (\<forall>x \<in> set (is_execs s). snd (snd x) < m) \<and> distinct (map (snd \<circ> snd) (is_execs s)))"

definition system_inv :: "(bytes \<Rightarrow> bytes) \<Rightarrow> input_system \<Rightarrow> bool" where
  "system_inv sha s \<longleftrightarrow>
     dedup_inv sha (wc_state (is_coord s)) (is_execs s) \<and>
     held_inv (wc_state (is_coord s)) (is_running s) (is_lost s) \<and> fresh_inv s"

text \<open>Selecting a namespace either keeps everything or starts an epoch with nothing executed.\<close>

lemma select_namespace_cases:
  obtains (keep) "ds_namespace_id d = Some ns" "ds_mode d = Some m" "select_namespace d ns m = d"
  | (reset) "\<not> (ds_namespace_id d = Some ns \<and> ds_mode d = Some m)" "ds_entries (select_namespace d ns m) = Map.empty"
    "ds_completed (select_namespace d ns m) = []" "ds_high_watermark (select_namespace d ns m) = 0"
    "length (ds_legacy_evicted (select_namespace d ns m)) = length (ds_legacy_evicted d)"
  by (cases "ds_namespace_id d = Some ns \<and> ds_mode d = Some m") (simp_all add: select_namespace_def filter_clear_def)

lemma select_namespace_fields [simp]:
  "ds_namespace_id (select_namespace d ns m) = Some ns" "ds_mode (select_namespace d ns m) = Some m"
  "ds_capacity (select_namespace d ns m) = ds_capacity d"
  by (auto simp: select_namespace_def)

definition epoch_execs :: "dedup_state \<Rightarrow> bytes \<Rightarrow> dedup_mode \<Rightarrow> (bytes \<times> bytes \<times> nat) list \<Rightarrow> (bytes \<times> bytes \<times> nat) list" where
  "epoch_execs d ns m X = (if ds_namespace_id d = Some ns \<and> ds_mode d = Some m then X else [])"

lemma select_namespace_inv:
  assumes "dedup_inv sha d X" and "held_inv d R L"
  shows "dedup_inv sha (select_namespace d ns m) (epoch_execs d ns m X) \<and> held_inv (select_namespace d ns m) R L"
  using assms
  by (cases rule: select_namespace_cases [of d ns m])
    (auto simp: epoch_execs_def dedup_inv_def held_inv_def)

lemma spent_watermark:
  "spent sha d i \<Longrightarrow> ds_high_watermark d \<le> q \<Longrightarrow> spent sha (d\<lparr>ds_high_watermark := q\<rparr>) i"
  by (fastforce simp: spent_def split: option.splits dedup_mode.splits)

lemma spent_entry: "spent sha d i \<Longrightarrow> spent sha (d\<lparr>ds_entries := (ds_entries d)(j \<mapsto> e)\<rparr>) i"
  by (auto simp: spent_def split: option.splits dedup_mode.splits)

lemma start_entry_inv:
  assumes "dedup_inv sha d X" and "held_inv d R L" and "i \<notin> fst ` set X" and "n \<notin> dom R"
    and "ds_high_watermark d \<le> q"
    and "spent sha (d\<lparr>ds_high_watermark := q, ds_entries := (ds_entries d)(i \<mapsto> \<lparr>de_fingerprint = fp, de_result = n\<rparr>)\<rparr>) i"
  shows "dedup_inv sha (d\<lparr>ds_high_watermark := q, ds_entries := (ds_entries d)(i \<mapsto> \<lparr>de_fingerprint = fp, de_result = n\<rparr>)\<rparr>)
      (X @ [(i, fp, n)]) \<and>
    held_inv (d\<lparr>ds_high_watermark := q, ds_entries := (ds_entries d)(i \<mapsto> \<lparr>de_fingerprint = fp, de_result = n\<rparr>)\<rparr>)
      (R(n \<mapsto> i)) L"
proof -
  have "spent sha (d\<lparr>ds_high_watermark := q, ds_entries := (ds_entries d)(i \<mapsto> e)\<rparr>) j" if "spent sha d j" for j e
    using spent_entry [OF spent_watermark [OF that assms(5)], of i e] by simp
  then have "dedup_inv sha (d\<lparr>ds_high_watermark := q, ds_entries := (ds_entries d)(i \<mapsto> \<lparr>de_fingerprint = fp, de_result = n\<rparr>)\<rparr>)
      (X @ [(i, fp, n)])"
    using assms by (auto simp: dedup_inv_def)
  moreover have "R (de_result e) = Some j \<Longrightarrow> de_result e \<noteq> n" for e j using assms(4) by auto
  then have "held_inv (d\<lparr>ds_high_watermark := q, ds_entries := (ds_entries d)(i \<mapsto> \<lparr>de_fingerprint = fp, de_result = n\<rparr>)\<rparr>)
      (R(n \<mapsto> i)) L"
    using assms(2) by (fastforce simp: held_inv_def)
  ultimately show ?thesis ..
qed

text \<open>What a request does to the state of the epoch it selects.\<close>

lemma control_action_cases:
  assumes "control_action sha c ns q plan = (c', r)"
  obtains (refused) "wc_state c' = select_namespace (wc_state c) ns Monotonic" "wc_chans c' = wc_chans c"
      "wc_next_chan c' = wc_next_chan c" "\<And>n. r \<noteq> Ok (Execute n)"
  | (started) "r = Ok (Execute (wc_next_chan c))" "wc_chans c' = (wc_chans c)(wc_next_chan c := ChanPending)"
      "wc_next_chan c' = wc_next_chan c + 1" "ds_high_watermark (select_namespace (wc_state c) ns Monotonic) < q"
      "wc_state c' = (select_namespace (wc_state c) ns Monotonic)\<lparr>ds_high_watermark := q,
         ds_entries := (ds_entries (select_namespace (wc_state c) ns Monotonic))
           (ip_write_id plan \<mapsto> \<lparr>de_fingerprint = fingerprint sha plan, de_result = wc_next_chan c\<rparr>)\<rparr>"
  using assms by (auto simp: control_action_def start_entry_def Let_def split: option.splits if_splits)

lemma legacy_action_cases:
  assumes "legacy_action sha c ns plan = (c', r)"
  obtains (refused) "wc_state c' = select_namespace (wc_state c) ns Legacy" "wc_chans c' = wc_chans c"
      "wc_next_chan c' = wc_next_chan c" "\<And>n. r \<noteq> Ok (Execute n)"
  | (started) "r = Ok (Execute (wc_next_chan c))" "wc_chans c' = (wc_chans c)(wc_next_chan c := ChanPending)"
      "wc_next_chan c' = wc_next_chan c + 1" "ds_entries (select_namespace (wc_state c) ns Legacy) (ip_write_id plan) = None"
      "\<not> might_contain sha (ds_legacy_evicted (select_namespace (wc_state c) ns Legacy)) (ip_write_id plan)"
      "wc_state c' = (select_namespace (wc_state c) ns Legacy)\<lparr>
         ds_high_watermark := ds_high_watermark (select_namespace (wc_state c) ns Legacy),
         ds_entries := (ds_entries (select_namespace (wc_state c) ns Legacy))
           (ip_write_id plan \<mapsto> \<lparr>de_fingerprint = fingerprint sha plan, de_result = wc_next_chan c\<rparr>)\<rparr>"
  using assms by (auto simp: legacy_action_def start_entry_def Let_def split: option.splits if_splits)

definition action_inv ::
  "(bytes \<Rightarrow> bytes) \<Rightarrow> (nat \<rightharpoonup> bytes) \<Rightarrow> nat set \<Rightarrow> coordinator \<Rightarrow> input_plan \<Rightarrow> ('x, action) result \<Rightarrow> (bytes \<times> bytes \<times> nat) list \<Rightarrow> bool" where
  "action_inv sha R L c plan r X \<longleftrightarrow>
     (case r of
        Inr (Execute n) \<Rightarrow>
          dedup_inv sha (wc_state c) (X @ [(ip_write_id plan, fingerprint sha plan, n)]) \<and>
          held_inv (wc_state c) (R(n \<mapsto> ip_write_id plan)) L
      | _ \<Rightarrow> dedup_inv sha (wc_state c) X \<and> held_inv (wc_state c) R L)"

lemma control_action_inv:
  assumes "control_action sha c ns q plan = (c', r)" and "control_input_id (ip_write_id plan) ns = Ok (Namespaced q)"
    and "dedup_inv sha (wc_state c) X" and "held_inv (wc_state c) R L" and "wc_next_chan c \<notin> dom R"
  shows "action_inv sha R L c' plan r (epoch_execs (wc_state c) ns Monotonic X)"
  using assms(1)
proof (cases rule: control_action_cases)
  case refused
  then show ?thesis
    using select_namespace_inv [OF assms(3,4)] by (auto simp: action_inv_def split: sum.splits action.splits)
next
  case started
  let ?d = "select_namespace (wc_state c) ns Monotonic"
  note inv = select_namespace_inv [OF assms(3,4), of ns Monotonic]
  have "k \<le> ds_high_watermark ?d" if "x \<in> set (epoch_execs (wc_state c) ns Monotonic X)"
    "control_input_id (fst x) ns = Ok (Namespaced k)" for x k
    using inv that by (fastforce simp: dedup_inv_def spent_def)
  then have "ip_write_id plan \<notin> fst ` set (epoch_execs (wc_state c) ns Monotonic X)"
    using started(4) assms(2) by fastforce
  then show ?thesis
    using start_entry_inv [OF inv [THEN conjunct1] inv [THEN conjunct2] _ assms(5), of "ip_write_id plan" q] started assms(2)
    by (simp add: action_inv_def spent_def)
qed

lemma legacy_action_inv:
  assumes "legacy_action sha c ns plan = (c', r)"
    and "dedup_inv sha (wc_state c) X" and "held_inv (wc_state c) R L" and "wc_next_chan c \<notin> dom R"
  shows "action_inv sha R L c' plan r (epoch_execs (wc_state c) ns Legacy X)"
  using assms(1)
proof (cases rule: legacy_action_cases)
  case refused
  then show ?thesis
    using select_namespace_inv [OF assms(2,3)] by (auto simp: action_inv_def split: sum.splits action.splits)
next
  case started
  let ?d = "select_namespace (wc_state c) ns Legacy"
  note inv = select_namespace_inv [OF assms(2,3), of ns Legacy]
  have "ip_write_id plan \<notin> fst ` set (epoch_execs (wc_state c) ns Legacy X)"
    using inv started(4,5) by (fastforce simp: dedup_inv_def spent_def)
  then show ?thesis
    using start_entry_inv [OF inv [THEN conjunct1] inv [THEN conjunct2] _ assms(4) order_refl, of "ip_write_id plan"] started
    by (simp add: action_inv_def spent_def)
qed

lemma write_request_inv:
  assumes "write_request sha c lease producer plan = (c', r)"
    and "dedup_inv sha (wc_state c) X" and "held_inv (wc_state c) R L" and "wc_next_chan c \<notin> dom R"
  shows "action_inv sha R L c' plan r (if same_epoch c c' then X else [])"
proof (cases "control_input_id (ip_write_id plan) lease")
  case (Inl e)
  then show ?thesis using assms by (auto simp: write_request_def action_inv_def same_epoch_def)
next
  case (Inr k)
  show ?thesis
  proof (cases k)
    case (Namespaced q)
    obtain r' where r': "control_action sha c lease q plan = (c', r')"
      "r = (case r' of Inl e \<Rightarrow> Err (Inr e) | Inr a \<Rightarrow> Ok a)"
      using assms(1) Inr Namespaced by (auto simp: write_request_def split: prod.splits sum.splits)
    have "same_epoch c c' \<longleftrightarrow> ds_namespace_id (wc_state c) = Some lease \<and> ds_mode (wc_state c) = Some Monotonic"
      using r'(1) by (cases rule: control_action_cases) (auto simp: same_epoch_def)
    then have "(if same_epoch c c' then X else []) = epoch_execs (wc_state c) lease Monotonic X" by (simp add: epoch_execs_def)
    then show ?thesis using control_action_inv [OF r'(1) _ assms(2-4)] Inr Namespaced r'(2) by (cases r') (simp_all add: action_inv_def)
  next
    case LegacyId
    obtain r' where r': "legacy_action sha c producer plan = (c', r')"
      "r = (case r' of Inl e \<Rightarrow> Err (Inr e) | Inr a \<Rightarrow> Ok a)"
      using assms(1) Inr LegacyId by (auto simp: write_request_def split: prod.splits sum.splits)
    have "same_epoch c c' \<longleftrightarrow> ds_namespace_id (wc_state c) = Some producer \<and> ds_mode (wc_state c) = Some Legacy"
      using r'(1) by (cases rule: legacy_action_cases) (auto simp: same_epoch_def)
    then have "(if same_epoch c c' then X else []) = epoch_execs (wc_state c) producer Legacy X" by (simp add: epoch_execs_def)
    then show ?thesis using legacy_action_inv [OF r'(1) assms(2-4)] Inr LegacyId r'(2) by (cases r') (simp_all add: action_inv_def)
  qed
qed

lemma write_request_chans:
  assumes "write_request sha c lease producer plan = (c', r)"
  shows "wc_next_chan c \<le> wc_next_chan c'"
    and "r = Ok (Execute n) \<Longrightarrow> n = wc_next_chan c \<and> wc_next_chan c' = n + 1"
    and "wc_chans c' m = wc_chans c m \<or> wc_chans c' m = ChanPending"
  using assms
  by (auto simp: write_request_def control_action_def legacy_action_def start_entry_def Let_def
      split: sum.splits input_id_kind.splits option.splits if_splits prod.splits)

lemma evict_completed_inv:
  assumes "dedup_inv sha (d\<lparr>ds_completed := []\<rparr>) X"
    and "\<And>i e. ds_entries d i = Some e \<Longrightarrow> R (de_result e) = Some i \<or> de_result e \<in> L \<or> i \<in> set cs"
  shows "dedup_inv sha (evict_completed sha cs d) X \<and> held_inv (evict_completed sha cs d) R L"
  using assms
proof (induction sha cs d rule: evict_completed.induct)
  case (1 sha d)
  then show ?case by (auto simp: held_inv_def)
next
  case (2 sha i rest d)
  show ?case
  proof (cases "length (i # rest) \<le> ds_capacity d")
    case True
    have "spent sha (d\<lparr>ds_completed := xs\<rparr>) j = spent sha d j" for xs j
      by (simp add: spent_def cong: option.case_cong dedup_mode.case_cong)
    then show ?thesis using True 2(2,3) by (auto simp: dedup_inv_def held_inv_def)
  next
    case False
    let ?f = "if ds_mode d = Some Legacy then filter_insert sha (ds_legacy_evicted d) i else ds_legacy_evicted d"
    let ?d = "d\<lparr>ds_entries := (ds_entries d)(i := None), ds_legacy_evicted := ?f\<rparr>"
    have len: "length (ds_legacy_evicted d) = LEGACY_EVICTED_FILTER_WORDS" using 2(2) by (simp add: dedup_inv_def)
    note fi = filter_insert_contains [OF len]
    have sp: "spent sha (?d\<lparr>ds_completed := []\<rparr>) j" if "spent sha (d\<lparr>ds_completed := []\<rparr>) j" for j
      using that fi by (auto simp: spent_def split: option.splits dedup_mode.splits)
    have "dedup_inv sha (?d\<lparr>ds_completed := []\<rparr>) X"
      using 2(2) sp fi(1) by (auto simp: dedup_inv_def split: if_splits)
    moreover have "ds_entries ?d j = Some e \<Longrightarrow> R (de_result e) = Some j \<or> de_result e \<in> L \<or> j \<in> set rest" for j e
      using 2(3) [of j e] by (auto split: if_splits)
    ultimately show ?thesis using 2(1) [OF False] False by simp
  qed
qed

lemma fresh_invD:
  assumes "fresh_inv s"
  shows "wc_next_chan (is_coord s) \<notin> dom (is_running s)"
    and "is_running s n = Some i \<Longrightarrow> n < wc_next_chan (is_coord s) \<and> n \<notin> is_lost s \<and> is_results s n = None"
  using assms by (auto simp: fresh_inv_def Let_def)

lemma after_request_fresh:
  assumes "fresh_inv s" and "write_request sha (is_coord s) lease producer plan = (c', r)"
  shows "fresh_inv (after_request sha s c' plan r)"
proof -
  note w = write_request_chans [OF assms(2)]
  have sent: "wc_chans c' n = ChanSent x \<Longrightarrow> wc_chans (is_coord s) n = ChanSent x" for n x using w(3) [of n] by auto
  have new: "is_results s (wc_next_chan (is_coord s)) = None" "wc_next_chan (is_coord s) \<notin> is_lost s"
    using assms(1) by (auto simp: fresh_inv_def Let_def)
  show ?thesis
  proof (cases "\<exists>n. r = Ok (Execute n)")
    case True
    then obtain n where n: "r = Ok (Execute n)" by blast
    then have "n = wc_next_chan (is_coord s)" "wc_next_chan c' = Suc n" using w(2) by auto
    then show ?thesis
      using assms(1) sent new n by (auto simp: fresh_inv_def after_request_def Let_def intro: less_SucI)
  next
    case False
    then have run: "is_running (after_request sha s c' plan r) = is_running s"
      by (auto simp: after_request_def split: sum.splits action.splits)
    have rest: "is_coord (after_request sha s c' plan r) = c'" "is_lost (after_request sha s c' plan r) = is_lost s"
      "is_results (after_request sha s c' plan r) = is_results s" by (simp_all add: after_request_def)
    have "is_execs (after_request sha s c' plan r) = (if same_epoch (is_coord s) c' then is_execs s else [])"
      using False by (auto simp: after_request_def split: sum.splits action.splits)
    then have sub: "set (is_execs (after_request sha s c' plan r)) \<subseteq> set (is_execs s)"
      "distinct (map (snd \<circ> snd) (is_execs s)) \<Longrightarrow> distinct (map (snd \<circ> snd) (is_execs (after_request sha s c' plan r)))"
      by auto
    show ?thesis
      using assms(1) sent w(1) sub unfolding fresh_inv_def Let_def run rest by (meson order_less_le_trans subsetD)
  qed
qed

lemma input_run_inv: "input_run sha s \<Longrightarrow> system_inv sha s"
proof (induction rule: input_run.induct)
  case (start capacity stall c)
  then show ?case
    by (auto simp: system_inv_def coordinator_new_def dedup_inv_def held_inv_def fresh_inv_def filter_new_def split: if_splits)
next
  case (request s lease producer plan c' r)
  then have inv: "dedup_inv sha (wc_state (is_coord s)) (is_execs s)" "fresh_inv s"
    "held_inv (wc_state (is_coord s)) (is_running s) (is_lost s)" by (simp_all add: system_inv_def)
  have "action_inv sha (is_running s) (is_lost s) c' plan r (if same_epoch (is_coord s) c' then is_execs s else [])"
    by (rule write_request_inv [OF request(2) inv(1,3) fresh_invD(1) [OF inv(2)]])
  then show ?case
    using after_request_fresh [OF inv(2) request(2)]
    by (cases r) (auto simp: system_inv_def action_inv_def after_request_def split: action.splits)
next
  case (complete s n i r)
  let ?d = "wc_state (is_coord s)"
  have inv: "dedup_inv sha ?d (is_execs s)" "fresh_inv s" "held_inv ?d (is_running s) (is_lost s)"
    using complete by (simp_all add: system_inv_def)
  have "spent sha (?d\<lparr>ds_completed := []\<rparr>) j = spent sha ?d j" for j
    by (simp add: spent_def cong: option.case_cong dedup_mode.case_cong)
  then have "dedup_inv sha (?d\<lparr>ds_completed := []\<rparr>) (is_execs s)" using inv(1) by (auto simp: dedup_inv_def)
  moreover have "((is_running s)(n := None)) (de_result e) = Some j \<or> de_result e \<in> is_lost s \<or> j \<in> set (ds_completed ?d @ [i])"
    if "ds_entries ?d j = Some e" for j e
  proof -
    have "is_running s (de_result e) = Some j \<or> de_result e \<in> is_lost s \<or> j \<in> set (ds_completed ?d)"
      using inv(3) that by (simp add: held_inv_def)
    then show ?thesis using complete(2) by auto
  qed
  ultimately have "dedup_inv sha (dedup_complete sha ?d i) (is_execs s) \<and>
      held_inv (dedup_complete sha ?d i) ((is_running s)(n := None)) (is_lost s)"
    unfolding dedup_complete_def by (rule evict_completed_inv)
  moreover have "fresh_inv (after_complete sha s n i r)"
    using inv(2) fresh_invD(2) [OF inv(2) complete(2)]
    by (auto simp: fresh_inv_def after_complete_def coordinator_complete_def Let_def)
  ultimately show ?case by (simp add: system_inv_def after_complete_def coordinator_complete_def)
next
  case (send s n r)
  then show ?case by (auto simp: system_inv_def fresh_inv_def chan_send_def Let_def)
next
  case (drop_future s n i)
  then have inv: "fresh_inv s" "held_inv (wc_state (is_coord s)) (is_running s) (is_lost s)"
    by (simp_all add: system_inv_def)
  then have "held_inv (wc_state (is_coord s)) ((is_running s)(n := None)) (insert n (is_lost s))"
    by (auto simp: held_inv_def)
  moreover have "fresh_inv (after_drop s n)"
    using inv(1) fresh_invD(2) [OF inv(1) drop_future(2)]
    by (auto simp: fresh_inv_def after_drop_def chan_drop_def Let_def)
  ultimately show ?case using drop_future by (simp add: system_inv_def after_drop_def chan_drop_def)
qed

section \<open>Scripts of a run\<close>

datatype input_op = OpRequest bytes bytes input_plan | OpComplete nat stored_result | OpSend nat | OpDrop nat

definition apply_input_op :: "(bytes \<Rightarrow> bytes) \<Rightarrow> input_op \<Rightarrow> input_system \<Rightarrow> input_system" where
  "apply_input_op sha opn s =
     (case opn of
        OpRequest lease producer plan \<Rightarrow>
          (case write_request sha (is_coord s) lease producer plan of (c', r) \<Rightarrow> after_request sha s c' plan r)
      | OpComplete n r \<Rightarrow> (case is_running s n of None \<Rightarrow> s | Some i \<Rightarrow> after_complete sha s n i r)
      | OpSend n \<Rightarrow> (case is_results s n of None \<Rightarrow> s | Some r \<Rightarrow> s\<lparr>is_coord := chan_send (is_coord s) n r\<rparr>)
      | OpDrop n \<Rightarrow> (case is_running s n of None \<Rightarrow> s | Some i \<Rightarrow> after_drop s n))"

lemma apply_input_op_run: "input_run sha s \<Longrightarrow> input_run sha (apply_input_op sha opn s)"
  by (cases opn) (auto simp: apply_input_op_def intro: input_run.intros split: prod.splits option.splits)

definition input_start :: "nat \<Rightarrow> input_system" where
  "input_start capacity =
     \<lparr>is_coord = (case coordinator_new (Suc capacity) None of Inr c \<Rightarrow> c), is_running = Map.empty, is_lost = {},
      is_results = Map.empty, is_execs = []\<rparr>"

definition input_script :: "(bytes \<Rightarrow> bytes) \<Rightarrow> nat \<Rightarrow> input_op list \<Rightarrow> input_system" where
  "input_script sha capacity ops = fold (apply_input_op sha) ops (input_start capacity)"

lemma input_script_run: "input_run sha (input_script sha capacity ops)"
proof -
  have "input_run sha s \<Longrightarrow> input_run sha (fold (apply_input_op sha) ops s)" for s
    by (induction ops arbitrary: s) (simp_all add: apply_input_op_run)
  moreover have "input_run sha (input_start capacity)"
    unfolding input_start_def by (rule input_run.start [of "Suc capacity" None]) (simp add: coordinator_new_def)
  ultimately show ?thesis unfolding input_script_def by blast
qed

section \<open>Properties\<close>

text \<open>
  C10.  At most once: in every run, with any interleaving of requests, completions and dropped
  connections, no write identifier is executed twice since its namespace was selected, also after
  its entry was evicted.
\<close>

theorem control_writes_at_most_once:
  assumes "input_run sha s"
  shows "distinct (map fst (is_execs s))"
  using input_run_inv [OF assms] by (simp add: system_inv_def dedup_inv_def)

definition demo_plan :: "bytes \<Rightarrow> bytes \<Rightarrow> input_plan" where
  "demo_plan i bs = \<lparr>ip_write_id = i, ip_fragments = [\<lparr>if_bytes = bs, if_delay_after = 0\<rparr>]\<rparr>"

definition demo_receipt :: stored_result where
  "demo_receipt = Ok \<lparr>wr_submit_mark_ns = Some 5\<rparr>"

definition demo_input :: "input_op list" where
  "demo_input =
     [OpRequest ''L'' ''d'' (demo_plan ''input-L-1'' ''a''), OpComplete 0 demo_receipt, OpSend 0,
      OpRequest ''L'' ''d'' (demo_plan ''input-L-2'' ''b''), OpComplete 1 demo_receipt, OpSend 1,
      OpRequest ''L'' ''d'' (demo_plan ''input-L-1'' ''a'')]"

lemmas input_exec =
  input_script_def apply_input_op_def input_start_def coordinator_new_def write_request_def control_input_id_def
  CONTROL_INPUT_PREFIX_def strip_prefix_def rsplit_once_def split_once_def parse_u64_def is_ascii_digit_def
  u64_max_def control_action_def legacy_action_def select_namespace_def start_entry_def after_request_def same_epoch_def
  after_complete_def coordinator_complete_def dedup_complete_def chan_send_def Let_def

lemma demo_input_execs:
  "map fst (is_execs (input_script sha 0 demo_input)) = [''input-L-1'', ''input-L-2'']"
  by (simp add: demo_input_def demo_plan_def input_exec)

theorem control_writes_at_most_once_witness:
  "length demo_input = 7 \<and> map fst (is_execs (input_script (\<lambda>x. x) 0 demo_input)) = [''input-L-1'', ''input-L-2''] \<and>
   distinct (map fst (is_execs (input_script (\<lambda>x. x) 0 demo_input)))"
  using control_writes_at_most_once [OF input_script_run, of "\<lambda>x. x" 0 demo_input] demo_input_execs
  by (simp add: demo_input_def)

text \<open>
  A retried write, on every branch: while its entry is retained it joins the first execution
  if its fragments are the same and conflicts if they differ, and once the entry is evicted its
  outcome is reported as unknown; it is never executed again and the coordinator stays as it is.
\<close>

theorem retried_write_outcome:
  assumes "input_run sha s" and "(ip_write_id plan, sha (concat (map fragment_digest fs)), n) \<in> set (is_execs s)"
    and "control_input_id (ip_write_id plan) lease = Ok k"
    and "ds_namespace_id (wc_state (is_coord s)) = Some (case k of Namespaced _ \<Rightarrow> lease | LegacyId \<Rightarrow> producer)"
    and "ds_mode (wc_state (is_coord s)) = Some (case k of Namespaced _ \<Rightarrow> Monotonic | LegacyId \<Rightarrow> Legacy)"
    and "\<forall>f \<in> set (fs @ ip_fragments plan). fragment_sized f"
    and "fingerprint sha plan = sha (concat (map fragment_digest fs)) \<longrightarrow>
      concat (map fragment_digest (ip_fragments plan)) = concat (map fragment_digest fs)"
  shows "write_request sha (is_coord s) lease producer plan =
    (is_coord s,
     if ds_entries (wc_state (is_coord s)) (ip_write_id plan) = None then Err (Inr (OutcomeUnknown (ip_write_id plan)))
     else if ip_fragments plan = fs then Ok (Join n) else Err (Inr (Conflict (ip_write_id plan))))"
proof -
  let ?c = "is_coord s" and ?i = "ip_write_id plan"
  let ?d = "wc_state ?c"
  have inv: "dedup_inv sha ?d (is_execs s)" using input_run_inv [OF assms(1)] by (simp add: system_inv_def)
  have sp: "spent sha ?d ?i" using inv assms(2) by (force simp: dedup_inv_def)
  have entry: "de_result e = n \<and> (de_fingerprint e = fingerprint sha plan \<longleftrightarrow> ip_fragments plan = fs)"
    if e: "ds_entries ?d ?i = Some e" for e
  proof -
    have "(?i, de_fingerprint e, de_result e) \<in> set (is_execs s)" "distinct (map fst (is_execs s))"
      using inv e by (auto simp: dedup_inv_def)
    then have "(de_fingerprint e, de_result e) = (sha (concat (map fragment_digest fs)), n)"
      using assms(2) by (metis eq_key_imp_eq_value)
    moreover have "fingerprint sha plan = sha (concat (map fragment_digest fs)) \<longleftrightarrow> ip_fragments plan = fs"
      using assms(6,7) fragments_digest_inj [of "ip_fragments plan" fs] by (auto simp: fingerprint_def)
    ultimately show ?thesis by auto
  qed
  show ?thesis
    by (cases k; cases "ds_entries ?d ?i")
      (use sp entry assms(3-5) in \<open>auto simp: write_request_def control_action_def legacy_action_def select_namespace_def
        spent_def Let_def\<close>)
qed

definition demo_retained :: "input_op list" where
  "demo_retained = [OpRequest ''L'' ''d'' (demo_plan ''input-L-1'' ''a'')]"

lemma demo_retained_state:
  "is_execs (input_script (\<lambda>x. x) 0 demo_retained) =
     [(''input-L-1'', fingerprint (\<lambda>x. x) (demo_plan ''input-L-1'' ''a''), 0)]"
  "ds_namespace_id (wc_state (is_coord (input_script (\<lambda>x. x) 0 demo_retained))) = Some ''L''"
  "ds_mode (wc_state (is_coord (input_script (\<lambda>x. x) 0 demo_retained))) = Some Monotonic"
  "ds_entries (wc_state (is_coord (input_script (\<lambda>x. x) 0 demo_retained))) ''input-L-1'' \<noteq> None"
  by (simp_all add: demo_retained_def demo_plan_def input_exec)

theorem retried_write_outcome_witness:
  "snd (write_request (\<lambda>x. x) (is_coord (input_script (\<lambda>x. x) 0 demo_retained)) ''L'' ''d'' (demo_plan ''input-L-1'' ''b'')) =
     Err (Inr (Conflict ''input-L-1''))"
proof -
  let ?plan = "demo_plan ''input-L-1'' ''b''"
  let ?fs = "ip_fragments (demo_plan ''input-L-1'' ''a'')"
  have ids: "ip_write_id ?plan = ''input-L-1''" "ip_fragments ?plan \<noteq> ?fs" by (simp_all add: demo_plan_def)
  have "(ip_write_id ?plan, (\<lambda>x. x) (concat (map fragment_digest ?fs)), 0)
      \<in> set (is_execs (input_script (\<lambda>x. x) 0 demo_retained))"
    by (simp add: demo_retained_state ids fingerprint_def)
  moreover have "control_input_id (ip_write_id ?plan) ''L'' = Ok (Namespaced 1)" by (simp add: ids input_exec)
  moreover have "\<forall>f \<in> set (?fs @ ip_fragments ?plan). fragment_sized f"
    by (simp add: demo_plan_def fragment_sized_def u64_max_def)
  moreover have "fingerprint (\<lambda>x. x) ?plan = concat (map fragment_digest (ip_fragments ?plan))" by (simp add: fingerprint_def)
  ultimately show ?thesis
    using retried_write_outcome [OF input_script_run, of ?plan "\<lambda>x. x" ?fs 0 0 demo_retained "''L''" "Namespaced 1" "''d''"] ids
    by (simp add: demo_retained_state)
qed

text \<open>
  Retention is bounded: in every run the retained entries are at most the capacity plus the
  executions that have not completed.
\<close>

theorem dedup_retention_bound:
  assumes "input_run sha s"
  shows "finite (dom (ds_entries (wc_state (is_coord s)))) \<and>
    card (dom (ds_entries (wc_state (is_coord s)))) \<le>
      ds_capacity (wc_state (is_coord s)) + card (dom (is_running s) \<union> is_lost s)"
proof -
  let ?d = "wc_state (is_coord s)"
  let ?E = "dom (ds_entries ?d)" and ?C = "set (ds_completed ?d)" and ?U = "dom (is_running s) \<union> is_lost s"
  have inv: "dedup_inv sha ?d (is_execs s)" "held_inv ?d (is_running s) (is_lost s)" "fresh_inv s"
    using input_run_inv [OF assms] by (simp_all add: system_inv_def)
  have fin: "finite ?U" and chans: "distinct (map (snd \<circ> snd) (is_execs s))"
    using inv(3) by (simp_all add: fresh_inv_def Let_def)
  define g where "g i = de_result (the (ds_entries ?d i))" for i
  have exec: "(i, de_fingerprint (the (ds_entries ?d i)), g i) \<in> set (is_execs s)" if "i \<in> ?E" for i
    using inv(1) that by (auto simp: dedup_inv_def g_def)
  have "inj_on g {i \<in> ?E. g i \<in> ?U}"
  proof (rule inj_onI)
    fix i j assume ij: "i \<in> {i \<in> ?E. g i \<in> ?U}" "j \<in> {i \<in> ?E. g i \<in> ?U}" "g i = g j"
    have "inj_on (snd \<circ> snd) (set (is_execs s))" using chans by (simp add: distinct_map)
    from inj_onD [OF this _ exec exec, of i j] ij show "i = j" by auto
  qed
  moreover have img: "g ` {i \<in> ?E. g i \<in> ?U} \<subseteq> ?U" by auto
  ultimately have A: "card {i \<in> ?E. g i \<in> ?U} \<le> card ?U" "finite {i \<in> ?E. g i \<in> ?U}"
    using fin by (auto intro: card_inj_on_le inj_on_finite)
  have E: "?E \<subseteq> ?C \<union> {i \<in> ?E. g i \<in> ?U}" using inv(2) by (force simp: held_inv_def g_def)
  then have finE: "finite ?E" using A(2) by (meson finite_Un finite_set finite_subset)
  have "card ?E \<le> card ?C + card {i \<in> ?E. g i \<in> ?U}"
    using E A(2) by (meson card_Un_le card_mono finite_Un finite_set le_trans)
  moreover have "card ?C \<le> ds_capacity ?d"
    using inv(1) card_length [of "ds_completed ?d"] by (auto simp: dedup_inv_def)
  ultimately show ?thesis using A(1) finE by linarith
qed

theorem dedup_retention_bound_witness:
  "card (dom (ds_entries (wc_state (is_coord (input_script (\<lambda>x. x) 0 demo_input))))) \<le>
     1 + card (dom (is_running (input_script (\<lambda>x. x) 0 demo_input)) \<union> is_lost (input_script (\<lambda>x. x) 0 demo_input))"
proof -
  have "ds_capacity (wc_state (is_coord (input_script (\<lambda>x. x) 0 demo_input))) = 1"
    by (simp add: demo_input_def demo_plan_def input_exec)
  then show ?thesis using dedup_retention_bound [OF input_script_run, of "\<lambda>x. x" 0 demo_input] by simp
qed

text \<open>
  The daemon's write identifiers are understood by the worker: the identifier of a write under
  a lease is read back as its sequence number under that lease, and is refused under every other.
\<close>

theorem write_id_roundtrip:
  assumes "input_write_id lease q = Ok i" and "0 < q" and "q \<le> u64_max"
  shows "control_input_id i lease' = (if lease' = lease then Ok (Namespaced q) else Err IdentityMismatch)"
proof -
  have i: "i = CONTROL_INPUT_PREFIX @ (lease @ CHR ''-'' # show_nat q)"
    using assms(1) by (auto simp: input_write_id_def id_new_def INPUT_WRITE_ID_PREFIX_def CONTROL_INPUT_PREFIX_def
        split: sum.splits)
  have "CHR ''-'' \<notin> set (show_nat q)" using show_nat_digits by (force simp: is_ascii_digit_def)
  then show ?thesis
    using assms(2,3) by (simp add: i control_input_id_def rsplit_once_append parse_show_nat)
qed

theorem write_id_roundtrip_witness:
  "input_write_id ''lease-a'' 42 = Ok ''input-lease-a-42'' \<and>
   control_input_id ''input-lease-a-42'' ''lease-a'' = Ok (Namespaced 42) \<and>
   control_input_id ''input-lease-a-42'' ''lease-b'' = Err IdentityMismatch"
proof -
  have "input_write_id ''lease-a'' 42 = Ok ''input-lease-a-42''"
    by code_simp
  with write_id_roundtrip [OF this] show ?thesis by (simp add: u64_max_def)
qed

text \<open>
  C11.  The two kinds of identifiers share one namespace slot: a legacy identifier that is admitted
  under a lease clears everything known of the lease's numbered writes, and a numbered write that
  was already executed is then executed again.
\<close>

theorem legacy_write_forgets_lease:
  assumes "input_run sha s" and "ds_namespace_id (wc_state (is_coord s)) = Some lease"
    and "ds_mode (wc_state (is_coord s)) = Some Monotonic" and "ip_write_id plan \<in> fst ` set (is_execs s)"
    and "control_input_id (ip_write_id other) lease = Ok LegacyId"
    and "control_input_id (ip_write_id plan) lease = Ok (Namespaced q)" and "0 < q"
    and "write_request sha (is_coord s) lease producer other = (c', r)"
  shows "\<exists>n. snd (write_request sha c' lease producer plan) = Ok (Execute n)"
proof -
  have "ds_mode (wc_state c') = Some Legacy"
    using assms(5,8) by (auto simp: write_request_def legacy_action_def start_entry_def Let_def split: option.splits if_splits)
  then show ?thesis
    using assms(6,7) by (auto simp: write_request_def control_action_def select_namespace_def start_entry_def Let_def)
qed

theorem legacy_write_forgets_lease_witness:
  "let s = input_script (\<lambda>x. x) 0 demo_retained;
       (c', r) = write_request (\<lambda>x. x) (is_coord s) ''L'' ''d'' (demo_plan ''input-7'' ''b'')
   in \<exists>n. snd (write_request (\<lambda>x. x) c' ''L'' ''d'' (demo_plan ''input-L-1'' ''a'')) = Ok (Execute n)"
proof -
  let ?s = "input_script (\<lambda>x. x) 0 demo_retained" and ?other = "demo_plan ''input-7'' ''b''"
  obtain c' r where w: "write_request (\<lambda>x. x) (is_coord ?s) ''L'' ''d'' ?other = (c', r)" by fastforce
  have "\<exists>n. snd (write_request (\<lambda>x. x) c' ''L'' ''d'' (demo_plan ''input-L-1'' ''a'')) = Ok (Execute n)"
    by (rule legacy_write_forgets_lease [OF input_script_run demo_retained_state(2,3) _ _ _ _ w, where q = 1])
      (simp_all add: demo_retained_state(1) demo_plan_def control_input_id_def CONTROL_INPUT_PREFIX_def
        strip_prefix_def rsplit_once_def split_once_def parse_u64_def is_ascii_digit_def u64_max_def)
  then show ?thesis by (simp add: w)
qed

end
