(* ===== verification/Input_Writer.thy ===== *)
theory Input_Writer
  imports Input_Dedup
begin

text \<open>
  Writing input plans to the PTY (\<open>crates/session-worker/src/input.rs\<close>, \<open>execute_plan\<close>,
  \<open>execute_once\<close>, \<open>execute_stream\<close>, \<open>execute_reply\<close>, \<open>execute_locked\<close>, \<open>lock_within\<close>,
  \<open>write_counted\<close>).  Each call is a task; the two locks and the answers of the PTY interleave the
  tasks step by step.  A step that cannot happen in a state is \<^const>\<open>None\<close>.  The bytes the PTY
  accepted are tagged with the task and the fragment they belong to.  Executions run to their end;
  dropped futures are not part of this model.
\<close>

section \<open>Writing one fragment\<close>

datatype write_answer = Accepted nat | Failed io_error

text \<open>One pass of the loop of \<open>write_counted\<close>: the accepted count, and the error that ends it.\<close>

definition write_once :: "nat \<Rightarrow> write_answer \<Rightarrow> nat \<times> io_error option" where
  "write_once accepted answer =
     (case answer of
        Accepted count \<Rightarrow>
          if count = 0 then (accepted, Some (IoError WriteZero ''write zero'')) else (accepted + count, None)
      | Failed (IoError k msg) \<Rightarrow>
          if k = Interrupted then (accepted, None) else (accepted, Some (IoError k msg)))"

section \<open>Tasks\<close>

datatype phase =
    AwaitPlan
  | AwaitExecution
  | Writing
  | Delaying
  | Finished "(input_error, write_receipt) result"

record write_task =
  wt_control :: bool
  wt_stall :: "nat option"
  wt_fragments :: "input_fragment list"
  wt_index :: nat
  wt_accepted :: nat
  wt_written :: nat
  wt_mark :: "nat option"
  wt_phase :: phase

type_synonym tagged = "nat \<times> nat \<times> byte"

record pty_writers =
  pw_sink :: "tagged list"
  pw_execution :: "nat option"
  pw_plans :: "nat option"
  pw_tasks :: "nat \<rightharpoonup> write_task"

definition plan_bytes :: "input_fragment list \<Rightarrow> bytes" where
  "plan_bytes fs = concat (map if_bytes fs)"

abbreviation task_total :: "write_task \<Rightarrow> nat" where
  "task_total t \<equiv> length (plan_bytes (wt_fragments t))"

abbreviation task_fragment :: "write_task \<Rightarrow> input_fragment" where
  "task_fragment t \<equiv> wt_fragments t ! wt_index t"

text \<open>The head of the loop over the fragments.\<close>

definition task_continue :: "write_task \<Rightarrow> write_task" where
  "task_continue t =
     t\<lparr>wt_phase :=
       (if wt_index t < length (wt_fragments t) then AwaitExecution
        else Finished (Ok \<lparr>wr_submit_mark_ns = wt_mark t\<rparr>))\<rparr>"

text \<open>\<open>execute_plan\<close> of a control plan first takes the plan lock; streams and replies do not.\<close>

definition task_start :: "bool \<Rightarrow> nat option \<Rightarrow> input_fragment list \<Rightarrow> write_task" where
  "task_start control stall fs =
     (let t = \<lparr>wt_control = control, wt_stall = stall, wt_fragments = fs, wt_index = 0, wt_accepted = 0,
               wt_written = 0, wt_mark = None, wt_phase = AwaitPlan\<rparr>
      in if control then t else task_continue t)"

text \<open>A lock wait that takes longer than the stall bound.\<close>

definition task_lock_stalled :: "write_task \<Rightarrow> nat \<Rightarrow> write_task" where
  "task_lock_stalled t stall = t\<lparr>wt_phase := Finished (Err (Stalled (wt_written t) (task_total t) stall))\<rparr>"

text \<open>The execution lock is held: the mark is read for the last fragment only.\<close>

definition task_begin_write :: "write_task \<Rightarrow> nat \<Rightarrow> write_task" where
  "task_begin_write t now =
     t\<lparr>wt_phase := Writing, wt_accepted := 0,
       wt_mark := (if wt_index t + 1 = length (wt_fragments t) then Some now else wt_mark t)\<rparr>"

text \<open>The end of one fragment: its count is added, and its error ends the plan.\<close>

definition task_settle :: "write_task \<Rightarrow> io_error option \<Rightarrow> write_task" where
  "task_settle t err =
     (let t' = t\<lparr>wt_written := wt_written t + wt_accepted t\<rparr>
      in case err of
           None \<Rightarrow> t'\<lparr>wt_phase := Delaying\<rparr>
         | Some (IoError k msg) \<Rightarrow>
             t'\<lparr>wt_phase := Finished (Err
               (case (k, wt_stall t) of
                  (TimedOut, Some stall) \<Rightarrow> Stalled (wt_written t') (task_total t) stall
                | _ \<Rightarrow> InputIo (IoError k msg)))\<rparr>)"

definition task_next :: "write_task \<Rightarrow> write_task" where
  "task_next t = task_continue (t\<lparr>wt_index := wt_index t + 1, wt_accepted := 0\<rparr>)"

section \<open>Steps\<close>

datatype writer_event =
    Spawn nat bool "nat option" "input_fragment list"
  | TakePlan nat
  | PlanStalled nat
  | TakeExecution nat nat
  | ExecutionStalled nat
  | Answer nat write_answer
  | Flushed nat "io_error option"
  | DelayOver nat

definition is_finished :: "write_task \<Rightarrow> bool" where
  "is_finished t \<longleftrightarrow> (case wt_phase t of Finished _ \<Rightarrow> True | _ \<Rightarrow> False)"

text \<open>Storing a task; the plan lock is released when its holder finishes.\<close>

definition put_task :: "pty_writers \<Rightarrow> nat \<Rightarrow> write_task \<Rightarrow> pty_writers" where
  "put_task s n t =
     s\<lparr>pw_tasks := (pw_tasks s)(n \<mapsto> t),
       pw_plans := (if pw_plans s = Some n \<and> is_finished t then None else pw_plans s)\<rparr>"

definition answer_step :: "pty_writers \<Rightarrow> nat \<Rightarrow> write_task \<Rightarrow> write_answer \<Rightarrow> pty_writers option" where
  "answer_step s n t a =
     (let bs = if_bytes (task_fragment t) in
      if wt_phase t = Writing \<and> wt_accepted t < length bs \<and>
         (case a of Accepted c \<Rightarrow> wt_accepted t + c \<le> length bs | Failed _ \<Rightarrow> True)
      then (case write_once (wt_accepted t) a of
              (m, None) \<Rightarrow>
                Some (put_task
                  (s\<lparr>pw_sink := pw_sink s @ map (\<lambda>b. (n, wt_index t, b)) (Prelude.slice bs (wt_accepted t) m)\<rparr>)
                  n (t\<lparr>wt_accepted := m\<rparr>))
            | (m, Some e) \<Rightarrow> Some (put_task (s\<lparr>pw_execution := None\<rparr>) n (task_settle t (Some e))))
      else None)"

definition writer_step :: "pty_writers \<Rightarrow> writer_event \<Rightarrow> pty_writers option" where
  "writer_step s ev =
     (case ev of
        Spawn n control stall fs \<Rightarrow>
          if pw_tasks s n = None then Some (put_task s n (task_start control stall fs)) else None
      | TakePlan n \<Rightarrow>
          (case pw_tasks s n of None \<Rightarrow> None
           | Some t \<Rightarrow>
               if wt_phase t = AwaitPlan \<and> pw_plans s = None
               then Some (put_task (s\<lparr>pw_plans := Some n\<rparr>) n (task_continue t)) else None)
      | PlanStalled n \<Rightarrow>
          (case pw_tasks s n of None \<Rightarrow> None
           | Some t \<Rightarrow>
               (case wt_stall t of None \<Rightarrow> None
                | Some stall \<Rightarrow>
                    if wt_phase t = AwaitPlan then Some (put_task s n (task_lock_stalled t stall)) else None))
      | TakeExecution n now \<Rightarrow>
          (case pw_tasks s n of None \<Rightarrow> None
           | Some t \<Rightarrow>
               if wt_phase t = AwaitExecution \<and> pw_execution s = None
               then Some (put_task (s\<lparr>pw_execution := Some n\<rparr>) n (task_begin_write t now)) else None)
      | ExecutionStalled n \<Rightarrow>
          (case pw_tasks s n of None \<Rightarrow> None
           | Some t \<Rightarrow>
               (case wt_stall t of None \<Rightarrow> None
                | Some stall \<Rightarrow>
                    if wt_phase t = AwaitExecution then Some (put_task s n (task_lock_stalled t stall)) else None))
      | Answer n a \<Rightarrow> (case pw_tasks s n of None \<Rightarrow> None | Some t \<Rightarrow> answer_step s n t a)
      | Flushed n err \<Rightarrow>
          (case pw_tasks s n of None \<Rightarrow> None
           | Some t \<Rightarrow>
               if wt_phase t = Writing \<and> length (if_bytes (task_fragment t)) \<le> wt_accepted t
               then Some (put_task (s\<lparr>pw_execution := None\<rparr>) n (task_settle t err)) else None)
      | DelayOver n \<Rightarrow>
          (case pw_tasks s n of None \<Rightarrow> None
           | Some t \<Rightarrow> if wt_phase t = Delaying then Some (put_task s n (task_next t)) else None))"

fun writer_run :: "pty_writers \<Rightarrow> writer_event list \<Rightarrow> pty_writers option" where
  "writer_run s [] = Some s"
| "writer_run s (ev # evs) = (case writer_step s ev of None \<Rightarrow> None | Some s' \<Rightarrow> writer_run s' evs)"

definition writers_new :: pty_writers where
  "writers_new = \<lparr>pw_sink = [], pw_execution = None, pw_plans = None, pw_tasks = Map.empty\<rparr>"

section \<open>What must not be torn apart\<close>

text \<open>The elements of a list with the same key stand next to each other.\<close>

definition contiguous :: "('a \<Rightarrow> 'k) \<Rightarrow> 'a list \<Rightarrow> bool" where
  "contiguous f xs \<longleftrightarrow>
     (\<forall>i j k. i < j \<longrightarrow> j < k \<longrightarrow> k < length xs \<longrightarrow> f (xs ! i) = f (xs ! k) \<longrightarrow> f (xs ! j) = f (xs ! i))"

lemma contiguous_Nil [simp]: "contiguous f []"
  by (simp add: contiguous_def)

lemma contiguous_snoc:
  assumes "contiguous f xs" and "xs = [] \<or> f (last xs) = f y \<or> f y \<notin> f ` set xs"
  shows "contiguous f (xs @ [y])"
  unfolding contiguous_def
proof (intro allI impI)
  fix i j k assume ijk: "i < j" "j < k" "k < length (xs @ [y])" "f ((xs @ [y]) ! i) = f ((xs @ [y]) ! k)"
  show "f ((xs @ [y]) ! j) = f ((xs @ [y]) ! i)"
  proof (cases "k < length xs")
    case True
    then show ?thesis using assms(1) ijk by (auto simp: contiguous_def nth_append)
  next
    case False
    then have k: "k = length xs" "i < length xs" "j < length xs" "xs \<noteq> []" using ijk by auto
    then have fi: "f (xs ! i) = f y" using ijk(4) by (simp add: nth_append)
    then have "f y \<in> f ` set xs" using k(2) by (metis imageI nth_mem)
    then have "f (last xs) = f y" using assms(2) k(4) by simp
    then have "f (xs ! i) = f (xs ! (length xs - 1))" using fi k(4) by (simp add: last_conv_nth)
    then have "f (xs ! j) = f (xs ! i)"
      using assms(1) ijk(1) k by (cases "j = length xs - 1") (auto simp: contiguous_def)
    then show ?thesis using k by (simp add: nth_append)
  qed
qed

lemma contiguous_append:
  assumes "contiguous f xs" and "xs = [] \<or> f (last xs) = v \<or> v \<notin> f ` set xs" and "\<forall>y \<in> set ys. f y = v"
  shows "contiguous f (xs @ ys)"
  using assms(3)
proof (induction ys rule: rev_induct)
  case Nil
  then show ?case using assms(1) by simp
next
  case (snoc y ys)
  then have "contiguous f (xs @ ys)" "f y = v" by auto
  moreover have "xs @ ys = [] \<or> f (last (xs @ ys)) = f y \<or> f y \<notin> f ` set (xs @ ys)"
    using snoc.prems assms(2) by (cases "ys = []") auto
  ultimately have "contiguous f ((xs @ ys) @ [y])" by (intro contiguous_snoc)
  then show ?case by simp
qed

definition tag :: "tagged \<Rightarrow> nat \<times> nat" where "tag x = (fst x, fst (snd x))"

definition bytes_of :: "nat \<Rightarrow> tagged list \<Rightarrow> bytes" where
  "bytes_of n sink = map (snd \<circ> snd) (filter (\<lambda>x. fst x = n) sink)"

lemma bytes_of_append [simp]: "bytes_of n (xs @ ys) = bytes_of n xs @ bytes_of n ys"
  by (simp add: bytes_of_def)

lemma bytes_of_tagged [simp]: "bytes_of n (map (\<lambda>b. (m, k, b)) bs) = (if m = n then bs else [])"
  by (induction bs) (auto simp: bytes_of_def)

lemma bytes_of_Nil: "bytes_of n sink = [] \<longleftrightarrow> n \<notin> fst ` set sink"
  by (auto simp: bytes_of_def filter_empty_conv)

definition is_control :: "(nat \<rightharpoonup> write_task) \<Rightarrow> nat \<Rightarrow> bool" where
  "is_control ts n \<longleftrightarrow> (case ts n of None \<Rightarrow> False | Some t \<Rightarrow> wt_control t)"

definition control_sink :: "pty_writers \<Rightarrow> tagged list" where
  "control_sink s = filter (\<lambda>x. is_control (pw_tasks s) (fst x)) (pw_sink s)"

section \<open>The invariant\<close>

definition task_done :: "write_task \<Rightarrow> bytes" where
  "task_done t =
     plan_bytes (take (wt_index t) (wt_fragments t)) @
     (if wt_index t < length (wt_fragments t) then take (wt_accepted t) (if_bytes (task_fragment t)) else [])"

definition task_ok :: "write_task \<Rightarrow> bool" where
  "task_ok t \<longleftrightarrow>
     (case wt_phase t of
        AwaitPlan \<Rightarrow> wt_control t \<and> wt_index t = 0 \<and> wt_accepted t = 0 \<and> wt_written t = 0
      | AwaitExecution \<Rightarrow>
          wt_index t < length (wt_fragments t) \<and> wt_accepted t = 0 \<and> wt_written t = length (task_done t)
      | Writing \<Rightarrow>
          wt_index t < length (wt_fragments t) \<and> wt_accepted t \<le> length (if_bytes (task_fragment t)) \<and>
          wt_written t + wt_accepted t = length (task_done t)
      | Delaying \<Rightarrow>
          wt_index t < length (wt_fragments t) \<and> wt_accepted t = length (if_bytes (task_fragment t)) \<and>
          wt_written t = length (task_done t)
      | Finished (Inr r) \<Rightarrow> task_done t = plan_bytes (wt_fragments t)
      | Finished (Inl e) \<Rightarrow>
          (\<forall>w m st. e = Stalled w m st \<longrightarrow> w = length (task_done t) \<and> m = task_total t))"

definition sink_ok :: "tagged list \<Rightarrow> nat \<Rightarrow> write_task \<Rightarrow> bool" where
  "sink_ok sink n t \<longleftrightarrow>
     bytes_of n sink = task_done t \<and>
     (wt_phase t = AwaitExecution \<or> (wt_phase t = Writing \<and> wt_accepted t = 0) \<longrightarrow> (n, wt_index t) \<notin> tag ` set sink) \<and>
     (wt_phase t = Writing \<and> wt_accepted t \<noteq> 0 \<longrightarrow> sink \<noteq> [] \<and> tag (last sink) = (n, wt_index t)) \<and>
     (\<forall>k. (n, k) \<in> tag ` set sink \<longrightarrow> k \<le> wt_index t)"

definition holds_plan :: "write_task \<Rightarrow> bool" where
  "holds_plan t \<longleftrightarrow> wt_control t \<and> wt_phase t \<in> {AwaitExecution, Writing, Delaying}"

definition lock_inv :: "pty_writers \<Rightarrow> bool" where
  "lock_inv s \<longleftrightarrow>
     (\<forall>n. pw_execution s = Some n \<longleftrightarrow> (\<exists>t. pw_tasks s n = Some t \<and> wt_phase t = Writing)) \<and>
     (\<forall>n. pw_plans s = Some n \<longleftrightarrow> (\<exists>t. pw_tasks s n = Some t \<and> holds_plan t))"

definition writers_inv :: "pty_writers \<Rightarrow> bool" where
  "writers_inv s \<longleftrightarrow>
     lock_inv s \<and> (\<forall>n t. pw_tasks s n = Some t \<longrightarrow> task_ok t \<and> sink_ok (pw_sink s) n t) \<and>
     fst ` set (pw_sink s) \<subseteq> dom (pw_tasks s) \<and>
     contiguous tag (pw_sink s) \<and> contiguous fst (control_sink s) \<and>
     (\<forall>n. pw_plans s = Some n \<longrightarrow>
        control_sink s = [] \<or> fst (last (control_sink s)) = n \<or> n \<notin> fst ` set (pw_sink s))"

lemma put_task_fields [simp]:
  "pw_sink (put_task s n t) = pw_sink s" "pw_execution (put_task s n t) = pw_execution s"
  "pw_tasks (put_task s n t) = (pw_tasks s)(n \<mapsto> t)"
  "pw_plans (put_task s n t) = (if pw_plans s = Some n \<and> is_finished t then None else pw_plans s)"
  by (simp_all add: put_task_def)

lemma writers_invD:
  assumes "writers_inv s"
  shows "lock_inv s" "pw_tasks s n = Some t \<Longrightarrow> task_ok t" "pw_tasks s n = Some t \<Longrightarrow> sink_ok (pw_sink s) n t"
  using assms by (auto simp: writers_inv_def)

lemma writers_invI:
  assumes "lock_inv s" and "\<And>n t. pw_tasks s n = Some t \<Longrightarrow> task_ok t \<and> sink_ok (pw_sink s) n t"
    and "fst ` set (pw_sink s) \<subseteq> dom (pw_tasks s)" and "contiguous tag (pw_sink s)" and "contiguous fst (control_sink s)"
    and "\<And>n. pw_plans s = Some n \<Longrightarrow>
      control_sink s = [] \<or> fst (last (control_sink s)) = n \<or> n \<notin> fst ` set (pw_sink s)"
  shows "writers_inv s"
  using assms by (simp add: writers_inv_def)

text \<open>A step that leaves the sink alone and keeps the locks consistent.\<close>

lemma quiet_step:
  assumes "writers_inv s" and "pw_tasks s n = Some t" and "wt_control t' = wt_control t"
    and "task_ok t'" and "sink_ok (pw_sink s) n t'"
    and "e' = Some n \<longleftrightarrow> wt_phase t' = Writing" and "\<And>m. m \<noteq> n \<Longrightarrow> e' = Some m \<longleftrightarrow> pw_execution s = Some m"
    and "p' = Some n \<and> \<not> is_finished t' \<longleftrightarrow> holds_plan t'" and "\<And>m. m \<noteq> n \<Longrightarrow> p' = Some m \<longleftrightarrow> pw_plans s = Some m"
    and "p' = Some n \<Longrightarrow> pw_plans s = Some n \<or> n \<notin> fst ` set (pw_sink s)"
  shows "writers_inv (put_task (s\<lparr>pw_execution := e', pw_plans := p'\<rparr>) n t')"
proof -
  let ?s = "put_task (s\<lparr>pw_execution := e', pw_plans := p'\<rparr>) n t'"
  have ctl: "control_sink ?s = control_sink s"
    unfolding control_sink_def using assms(2,3) by (intro filter_cong) (auto simp: is_control_def)
  have "lock_inv ?s"
    using writers_invD(1) [OF assms(1)] assms(6-9) unfolding lock_inv_def by (auto split: if_splits)
  moreover have "\<forall>m t. pw_tasks ?s m = Some t \<longrightarrow> task_ok t \<and> sink_ok (pw_sink ?s) m t"
    using assms(1,4,5) by (auto simp: writers_inv_def)
  moreover have "control_sink ?s = [] \<or> fst (last (control_sink ?s)) = m \<or> m \<notin> fst ` set (pw_sink ?s)"
    if "pw_plans ?s = Some m" for m
    using that assms(1,9,10) by (cases "m = n") (auto simp: ctl writers_inv_def split: if_splits)
  ultimately show ?thesis
    using assms(1,2) by (auto simp: writers_inv_def ctl)
qed

text \<open>A new task.\<close>

lemma spawn_step:
  assumes "writers_inv s" and "pw_tasks s n = None"
  shows "writers_inv (put_task s n (task_start control stall fs))"
proof -
  let ?t = "task_start control stall fs"
  let ?s = "put_task s n ?t"
  have new: "n \<notin> fst ` set (pw_sink s)" "pw_plans s \<noteq> Some n" "pw_execution s \<noteq> Some n"
    using assms by (auto simp: writers_inv_def lock_inv_def)
  then have none: "bytes_of n (pw_sink s) = []" "(n, k) \<notin> tag ` set (pw_sink s)" for k
    by (force simp: bytes_of_Nil tag_def)+
  have t: "task_ok ?t" "sink_ok (pw_sink s) n ?t" "\<not> holds_plan ?t" "wt_phase ?t \<noteq> Writing"
    using none
    by (auto simp: task_start_def task_continue_def task_ok_def sink_ok_def holds_plan_def task_done_def plan_bytes_def Let_def)
  have ctl: "control_sink ?s = control_sink s"
    unfolding control_sink_def using new(1) by (intro filter_cong) (auto simp: is_control_def)
  have "lock_inv ?s"
    using writers_invD(1) [OF assms(1)] new t(3,4) unfolding lock_inv_def by (auto split: if_splits)
  then show ?thesis using assms(1) t(1,2) new(2) by (auto simp: writers_inv_def ctl)
qed

text \<open>Bytes the PTY accepts from the task that holds the execution lock.\<close>

lemma control_sink_accept:
  assumes "pw_tasks s n = Some t" and "\<forall>y \<in> set new. fst y = n" and "wt_control t' = wt_control t"
  shows "control_sink (put_task (s\<lparr>pw_sink := pw_sink s @ new\<rparr>) n t') =
    control_sink s @ (if wt_control t then new else [])"
proof -
  let ?ts = "(pw_tasks s)(n \<mapsto> t')"
  have "filter (\<lambda>x. is_control ?ts (fst x)) (pw_sink s) = control_sink s"
    unfolding control_sink_def using assms by (intro filter_cong) (auto simp: is_control_def)
  moreover have "filter (\<lambda>x. is_control ?ts (fst x)) new = (if wt_control t then new else [])"
    using assms(2,3) by (auto simp: is_control_def filter_empty_conv intro: filter_True)
  ultimately show ?thesis by (simp add: control_sink_def)
qed

lemma accept_control:
  assumes inv: "writers_inv s" and t: "pw_tasks s n = Some t" "wt_phase t = Writing"
    and new: "new \<noteq> []" "\<forall>y \<in> set new. fst y = n" and t': "wt_control t' = wt_control t" "\<not> is_finished t'"
  defines "s' \<equiv> put_task (s\<lparr>pw_sink := pw_sink s @ new\<rparr>) n t'"
  shows "contiguous fst (control_sink s')"
    and "pw_plans s' = Some k \<Longrightarrow>
      control_sink s' = [] \<or> fst (last (control_sink s')) = k \<or> k \<notin> fst ` set (pw_sink s')"
proof -
  have ctl: "control_sink s' = control_sink s @ (if wt_control t then new else [])"
    unfolding s'_def by (rule control_sink_accept [OF t(1) new(2) t'(1)])
  have at: "control_sink s = [] \<or> fst (last (control_sink s)) = j \<or> j \<notin> fst ` set (pw_sink s)"
    if "pw_plans s = Some j" for j using inv that by (simp add: writers_inv_def)
  have sub: "set (control_sink s) \<subseteq> set (pw_sink s)" by (auto simp: control_sink_def)
  have holder: "pw_plans s = Some n" if "wt_control t"
    using that t writers_invD(1) [OF inv] by (auto simp: lock_inv_def holds_plan_def)
  show "contiguous fst (control_sink s')"
  proof (cases "wt_control t")
    case True
    then have "control_sink s = [] \<or> fst (last (control_sink s)) = n \<or> n \<notin> fst ` set (control_sink s)"
      using at [OF holder] sub by blast
    then show ?thesis
      using True inv contiguous_append [OF _ _ new(2), of "control_sink s"] by (simp add: ctl writers_inv_def)
  qed (use inv in \<open>simp add: ctl writers_inv_def\<close>)
  show "control_sink s' = [] \<or> fst (last (control_sink s')) = k \<or> k \<notin> fst ` set (pw_sink s')"
    if k: "pw_plans s' = Some k"
  proof (cases "wt_control t")
    case True
    then have "k = n" using k holder t'(2) by (simp add: s'_def)
    moreover have "fst (last (control_sink s')) = n" using True new by (simp add: ctl)
    ultimately show ?thesis by simp
  next
    case False
    then have "pw_plans s = Some k" "k \<noteq> n"
      using k t(1) t'(2) writers_invD(1) [OF inv] by (auto simp: s'_def lock_inv_def holds_plan_def)
    moreover have "pw_sink s' = pw_sink s @ new" by (simp add: s'_def)
    ultimately show ?thesis using False at new(2) by (auto simp: ctl)
  qed
qed

lemma accept_step:
  assumes inv: "writers_inv s" and t: "pw_tasks s n = Some t" "wt_phase t = Writing"
    and m: "wt_accepted t < m" "m \<le> length (if_bytes (task_fragment t))"
  shows "writers_inv (put_task
    (s\<lparr>pw_sink := pw_sink s @ map (\<lambda>b. (n, wt_index t, b)) (Prelude.slice (if_bytes (task_fragment t)) (wt_accepted t) m)\<rparr>)
    n (t\<lparr>wt_accepted := m\<rparr>))"
proof -
  let ?bs = "if_bytes (task_fragment t)" and ?t = "t\<lparr>wt_accepted := m\<rparr>"
  let ?new = "map (\<lambda>b. (n, wt_index t, b)) (Prelude.slice ?bs (wt_accepted t) m)"
  let ?s = "put_task (s\<lparr>pw_sink := pw_sink s @ ?new\<rparr>) n ?t"
  have ok: "task_ok t" "sink_ok (pw_sink s) n t" using writers_invD(2,3) [OF inv t(1)] by auto
  have idx: "wt_index t < length (wt_fragments t)" using ok(1) t(2) by (simp add: task_ok_def)
  have "Prelude.slice ?bs (wt_accepted t) m \<noteq> []" using m by (simp add: Prelude.slice_def)
  then have new: "?new \<noteq> []" "\<forall>y \<in> set ?new. tag y = (n, wt_index t)" "\<forall>y \<in> set ?new. fst y = n" by (auto simp: tag_def)
  have "take (wt_accepted t) ?bs @ Prelude.slice ?bs (wt_accepted t) m = take m ?bs"
    using slice_join [of 0 "wt_accepted t" m ?bs] m by (simp add: Prelude.slice_def)
  then have dn: "task_done ?t = task_done t @ Prelude.slice ?bs (wt_accepted t) m"
    using idx by (simp add: task_done_def)
  have only: "m' = n" if "pw_tasks s m' = Some u" "wt_phase u = Writing" for m' u
    using writers_invD(1) [OF inv] that t by (metis lock_inv_def option.inject)
  have last: "tag (last (pw_sink s @ ?new)) = (n, wt_index t)" using new by (metis last_appendR last_in_set)
  have tasks: "task_ok u \<and> sink_ok (pw_sink ?s) k u" if u: "pw_tasks ?s k = Some u" for k u
  proof (cases "k = n")
    case True
    then have "u = ?t" using u by simp
    moreover have "task_ok ?t" using ok(1) t(2) m dn by (auto simp: task_ok_def)
    moreover have "sink_ok (pw_sink ?s) n ?t"
      using ok(2) t(2) dn new last m by (auto simp: sink_ok_def)
    ultimately show ?thesis using True by simp
  next
    case False
    then have "pw_tasks s k = Some u" using u by simp
    then have "task_ok u" "sink_ok (pw_sink s) k u" "wt_phase u \<noteq> Writing"
      using writers_invD(2,3) [OF inv] only False by blast+
    then show ?thesis using False by (auto simp: sink_ok_def tag_def)
  qed
  have c1: "contiguous tag (pw_sink ?s)"
    using contiguous_append [OF _ _ new(2)] inv ok(2) t(2) by (auto simp: writers_inv_def sink_ok_def)
  have t': "wt_control ?t = wt_control t" "\<not> is_finished ?t" using t(2) by (simp_all add: is_finished_def)
  note ac = accept_control [OF inv t new(1,3) t']
  have lock: "lock_inv ?s" using writers_invD(1) [OF inv] t by (auto simp: lock_inv_def holds_plan_def is_finished_def)
  have dom: "fst ` set (pw_sink ?s) \<subseteq> dom (pw_tasks ?s)" using inv by (auto simp: writers_inv_def)
  show ?thesis by (rule writers_invI [OF lock tasks dom c1 ac])
qed

lemma bytes_present: "k < length fs \<Longrightarrow> plan_bytes (take (Suc k) fs) = plan_bytes (take k fs) @ if_bytes (fs ! k)"
  by (simp add: plan_bytes_def take_Suc_conv_app_nth)

text \<open>What the stages of a task do to its bytes and to the locks it needs.\<close>

lemma task_locks:
  assumes "lock_inv s" and "pw_tasks s n = Some t"
  shows "pw_execution s = Some n \<longleftrightarrow> wt_phase t = Writing" and "pw_plans s = Some n \<longleftrightarrow> holds_plan t"
  using assms by (auto simp: lock_inv_def)

lemma is_finished_simps [simp]:
  "is_finished (t\<lparr>wt_phase := Finished r\<rparr>)" "wt_phase t = Delaying \<Longrightarrow> \<not> is_finished t"
  "wt_phase t = AwaitExecution \<Longrightarrow> \<not> is_finished t" "wt_phase t = Writing \<Longrightarrow> \<not> is_finished t"
  by (simp_all add: is_finished_def)

lemma take_plan_step:
  assumes inv: "writers_inv s" and t: "pw_tasks s n = Some t" "wt_phase t = AwaitPlan" "pw_plans s = None"
  shows "writers_inv (put_task (s\<lparr>pw_plans := Some n\<rparr>) n (task_continue t))"
proof -
  have ok: "task_ok t" "sink_ok (pw_sink s) n t" using writers_invD(2,3) [OF inv t(1)] by auto
  then have none: "n \<notin> fst ` set (pw_sink s)"
    using t(2) by (auto simp: task_ok_def sink_ok_def task_done_def plan_bytes_def bytes_of_Nil split: if_splits)
  then have tags: "(n, k) \<notin> tag ` set (pw_sink s)" for k by (force simp: tag_def)
  have "writers_inv (put_task (s\<lparr>pw_execution := pw_execution s, pw_plans := Some n\<rparr>) n (task_continue t))"
    by (rule quiet_step [OF inv t(1)])
      (use ok t none tags task_locks [OF writers_invD(1) [OF inv] t(1)] in
        \<open>auto simp: task_continue_def task_ok_def sink_ok_def task_done_def holds_plan_def plan_bytes_def is_finished_def\<close>)
  then show ?thesis by simp
qed

lemma lock_stalled_step:
  assumes inv: "writers_inv s" and t: "pw_tasks s n = Some t" "wt_phase t = AwaitPlan \<or> wt_phase t = AwaitExecution"
  shows "writers_inv (put_task s n (task_lock_stalled t stall))"
proof -
  have ok: "task_ok t" "sink_ok (pw_sink s) n t" using writers_invD(2,3) [OF inv t(1)] by auto
  have "writers_inv (put_task (s\<lparr>pw_execution := pw_execution s, pw_plans := pw_plans s\<rparr>) n (task_lock_stalled t stall))"
    by (rule quiet_step [OF inv t(1)])
      (use ok t task_locks [OF writers_invD(1) [OF inv] t(1)] in
        \<open>auto simp: task_lock_stalled_def task_ok_def sink_ok_def task_done_def holds_plan_def plan_bytes_def is_finished_def\<close>)
  then show ?thesis by simp
qed

lemma begin_write_step:
  assumes inv: "writers_inv s" and t: "pw_tasks s n = Some t" "wt_phase t = AwaitExecution" "pw_execution s = None"
  shows "writers_inv (put_task (s\<lparr>pw_execution := Some n\<rparr>) n (task_begin_write t now))"
proof -
  have ok: "task_ok t" "sink_ok (pw_sink s) n t" using writers_invD(2,3) [OF inv t(1)] by auto
  have "writers_inv (put_task (s\<lparr>pw_execution := Some n, pw_plans := pw_plans s\<rparr>) n (task_begin_write t now))"
    by (rule quiet_step [OF inv t(1)])
      (use ok t task_locks [OF writers_invD(1) [OF inv] t(1)] in
        \<open>auto simp: task_begin_write_def task_ok_def sink_ok_def task_done_def holds_plan_def is_finished_def\<close>)
  then show ?thesis by simp
qed

lemma settle_step:
  assumes inv: "writers_inv s" and t: "pw_tasks s n = Some t" "wt_phase t = Writing"
    and full: "err = None \<Longrightarrow> length (if_bytes (task_fragment t)) \<le> wt_accepted t"
  shows "writers_inv (put_task (s\<lparr>pw_execution := None\<rparr>) n (task_settle t err))"
proof -
  have ok: "task_ok t" "sink_ok (pw_sink s) n t" using writers_invD(2,3) [OF inv t(1)] by auto
  note locks = task_locks [OF writers_invD(1) [OF inv] t(1)]
  have dn: "task_done (task_settle t err) = task_done t" "wt_control (task_settle t err) = wt_control t"
    by (auto simp: task_settle_def task_done_def Let_def split: option.splits io_error.splits)
  have ph: "(err = None \<and> wt_phase (task_settle t err) = Delaying) \<or> (err \<noteq> None \<and> is_finished (task_settle t err))"
    by (auto simp: task_settle_def Let_def split: option.splits io_error.splits)
  have tok: "task_ok (task_settle t err)"
    using ok(1) t(2) full dn(1)
    by (auto simp: task_ok_def task_settle_def Let_def task_done_def plan_bytes_def split: option.splits io_error.splits io_kind.splits)
  have sok: "sink_ok (pw_sink s) n (task_settle t err)"
    using ok(2) dn ph by (auto simp: sink_ok_def task_settle_def Let_def split: option.splits io_error.splits)
  have "writers_inv (put_task (s\<lparr>pw_execution := None, pw_plans := pw_plans s\<rparr>) n (task_settle t err))"
    by (rule quiet_step [OF inv t(1) dn(2) tok sok])
      (use ph t locks dn(2) in \<open>auto simp: holds_plan_def is_finished_def split: phase.splits\<close>)
  then show ?thesis by simp
qed

lemma delay_step:
  assumes inv: "writers_inv s" and t: "pw_tasks s n = Some t" "wt_phase t = Delaying"
  shows "writers_inv (put_task s n (task_next t))"
proof -
  have ok: "task_ok t" "sink_ok (pw_sink s) n t" using writers_invD(2,3) [OF inv t(1)] by auto
  then have idx: "wt_index t < length (wt_fragments t)" "wt_accepted t = length (if_bytes (task_fragment t))"
    using t(2) by (simp_all add: task_ok_def)
  have dn: "task_done (task_next t) = task_done t" "wt_control (task_next t) = wt_control t"
    using idx bytes_present [OF idx(1)] by (simp_all add: task_done_def task_next_def task_continue_def)
  have "(n, Suc (wt_index t)) \<notin> tag ` set (pw_sink s)" using ok(2) by (auto simp: sink_ok_def)
  then have sok: "sink_ok (pw_sink s) n (task_next t)"
    using ok(2) dn by (auto simp: sink_ok_def task_next_def task_continue_def intro: le_SucI)
  have tok: "task_ok (task_next t)"
    using ok(1) t(2) dn idx by (auto simp: task_ok_def task_next_def task_continue_def task_done_def)
  have "writers_inv (put_task (s\<lparr>pw_execution := pw_execution s, pw_plans := pw_plans s\<rparr>) n (task_next t))"
    by (rule quiet_step [OF inv t(1) dn(2) tok sok])
      (use t task_locks [OF writers_invD(1) [OF inv] t(1)] in
        \<open>auto simp: holds_plan_def is_finished_def task_next_def task_continue_def\<close>)
  then show ?thesis by simp
qed

lemma answer_step_inv:
  assumes inv: "writers_inv s" and t: "pw_tasks s n = Some t" and st: "answer_step s n t a = Some s'"
  shows "writers_inv s'"
proof -
  have w: "wt_phase t = Writing" using st by (auto simp: answer_step_def Let_def split: if_splits)
  obtain m e where me: "write_once (wt_accepted t) a = (m, e)" by fastforce
  show ?thesis
  proof (cases e)
    case (Some err)
    then show ?thesis using st me settle_step [OF inv t w, of e] by (auto simp: answer_step_def Let_def split: if_splits)
  next
    case None
    have s': "s' = put_task (s\<lparr>pw_sink := pw_sink s @ map (\<lambda>b. (n, wt_index t, b))
        (Prelude.slice (if_bytes (task_fragment t)) (wt_accepted t) m)\<rparr>) n (t\<lparr>wt_accepted := m\<rparr>)"
      and acc: "wt_accepted t = m \<or> (wt_accepted t < m \<and> m \<le> length (if_bytes (task_fragment t)))"
      using st me None
      by (auto simp: answer_step_def write_once_def Let_def split: if_splits write_answer.splits io_error.splits)
    show ?thesis
    proof (cases "wt_accepted t = m")
      case True
      have "writers_inv (put_task (s\<lparr>pw_execution := pw_execution s, pw_plans := pw_plans s\<rparr>) n t)"
        by (rule quiet_step [OF inv t refl writers_invD(2,3) [OF inv t]])
          (use w task_locks [OF writers_invD(1) [OF inv] t] in auto)
      then show ?thesis using s' True by auto
    next
      case False
      then show ?thesis using s' acc accept_step [OF inv t w] by simp
    qed
  qed
qed

lemma writer_step_inv:
  assumes "writers_inv s" and "writer_step s ev = Some s'"
  shows "writers_inv s'"
  using assms
  by (cases ev)
    (auto simp: writer_step_def spawn_step take_plan_step lock_stalled_step begin_write_step settle_step delay_step
      intro: answer_step_inv split: option.splits if_splits)

lemma writers_new_inv: "writers_inv writers_new"
  by (simp add: writers_inv_def writers_new_def lock_inv_def control_sink_def)

lemma writers_run_inv: "writers_inv s \<Longrightarrow> writer_run s evs = Some s' \<Longrightarrow> writers_inv s'"
  by (induction s evs rule: writer_run.induct) (auto dest: writer_step_inv split: option.splits)

section \<open>Properties\<close>

text \<open>
  C8.  Input is never torn: in every interleaving of control plans, attach writes and replies, with
  every pattern of partial writes, stalls and failures, the bytes of one fragment reach the PTY next
  to each other, and the bytes of one control plan are never separated by those of another control
  plan.
\<close>

theorem input_not_interleaved:
  assumes "writer_run writers_new evs = Some s"
  shows "contiguous tag (pw_sink s) \<and> contiguous fst (control_sink s)"
  using writers_run_inv [OF writers_new_inv assms] by (simp add: writers_inv_def)

definition demo_writes :: "writer_event list" where
  "demo_writes =
     [Spawn 0 True (Some 9) [\<lparr>if_bytes = ''ab'', if_delay_after = 1\<rparr>, \<lparr>if_bytes = ''c'', if_delay_after = 0\<rparr>],
      Spawn 1 False None [\<lparr>if_bytes = ''xy'', if_delay_after = 0\<rparr>],
      Spawn 2 True (Some 9) [\<lparr>if_bytes = ''z'', if_delay_after = 0\<rparr>],
      TakePlan 0, TakeExecution 0 5, Answer 0 (Accepted 1), Answer 0 (Failed (IoError Interrupted [])),
      Answer 0 (Accepted 1), Flushed 0 None, TakeExecution 1 6, PlanStalled 2, Answer 1 (Accepted 2), Flushed 1 None,
      DelayOver 0, TakeExecution 0 7, Answer 0 (Failed (IoError TimedOut []))]"

lemma demo_writes_run:
  "map_option (\<lambda>s. map (snd \<circ> snd) (pw_sink s)) (writer_run writers_new demo_writes) = Some ''abxy''"
  "map_option (\<lambda>s. map_option wt_phase (pw_tasks s 0)) (writer_run writers_new demo_writes) =
     Some (Some (Finished (Err (Stalled 2 3 9))))"
  by (simp_all add: demo_writes_def writers_new_def writer_step_def put_task_def task_start_def task_continue_def
      task_begin_write_def answer_step_def write_once_def task_settle_def task_next_def task_lock_stalled_def
      is_finished_def Prelude.slice_def plan_bytes_def)

theorem input_not_interleaved_witness:
  "case writer_run writers_new demo_writes of
     None \<Rightarrow> False
   | Some s \<Rightarrow> map (snd \<circ> snd) (pw_sink s) = ''abxy'' \<and> contiguous tag (pw_sink s)"
proof -
  obtain s where "writer_run writers_new demo_writes = Some s" "map (snd \<circ> snd) (pw_sink s) = ''abxy''"
    using demo_writes_run(1) by auto
  then show ?thesis using input_not_interleaved [of demo_writes s] by simp
qed

text \<open>
  C9.  What a plan reports is what the PTY got: in every interleaving the PTY holds a prefix of the
  plan's bytes, all of them when the plan succeeded, and when it stalled exactly as many as the
  error reports.
\<close>

theorem reported_writes_exact:
  assumes "writer_run writers_new evs = Some s" and "pw_tasks s n = Some t"
  shows "prefix (bytes_of n (pw_sink s)) (plan_bytes (wt_fragments t)) \<and>
    (\<forall>r. wt_phase t = Finished (Ok r) \<longrightarrow> bytes_of n (pw_sink s) = plan_bytes (wt_fragments t)) \<and>
    (\<forall>w m st. wt_phase t = Finished (Err (Stalled w m st)) \<longrightarrow>
       w = length (bytes_of n (pw_sink s)) \<and> m = length (plan_bytes (wt_fragments t)))"
proof -
  have inv: "writers_inv s" by (rule writers_run_inv [OF writers_new_inv assms(1)])
  have ok: "task_ok t" "bytes_of n (pw_sink s) = task_done t"
    using writers_invD(2,3) [OF inv assms(2)] by (auto simp: sink_ok_def)
  have "prefix (task_done t) (plan_bytes (wt_fragments t))"
  proof (cases "wt_index t < length (wt_fragments t)")
    case True
    let ?fs = "wt_fragments t" and ?i = "wt_index t"
    have "plan_bytes ?fs = plan_bytes (take ?i ?fs) @ if_bytes (?fs ! ?i) @ plan_bytes (drop (Suc ?i) ?fs)"
      using arg_cong [OF id_take_nth_drop [OF True], of plan_bytes] by (simp add: plan_bytes_def)
    then show ?thesis using True by (simp add: task_done_def prefix_prefix take_is_prefix)
  next
    case False
    then show ?thesis by (simp add: task_done_def)
  qed
  then show ?thesis using ok by (auto simp: task_ok_def)
qed

theorem reported_writes_exact_witness:
  "case writer_run writers_new demo_writes of
     None \<Rightarrow> False
   | Some s \<Rightarrow> (case pw_tasks s 0 of None \<Rightarrow> False
                | Some t \<Rightarrow> wt_phase t = Finished (Err (Stalled 2 3 9)) \<and> length (bytes_of 0 (pw_sink s)) = 2)"
proof -
  obtain s t where s: "writer_run writers_new demo_writes = Some s" "pw_tasks s 0 = Some t"
    "wt_phase t = Finished (Err (Stalled 2 3 9))"
    using demo_writes_run(2) by auto
  then show ?thesis using reported_writes_exact [OF s(1,2)] by auto
qed

end
