(* ===== verification/Detect_Machine.thy ===== *)
theory Detect_Machine
  imports Prelude
begin

text \<open>
  The debounced detection of an agent's activity (\<open>crates/daemon/src/detect/machine.rs\<close>).  Instants
  and durations are numbers of nanoseconds; \<open>saturating_duration_since\<close> is subtraction of naturals.
  The specification reads the trace of observations: a state is published only if the evidence for
  it was continuous, and what is emitted is a change or a heartbeat.
\<close>

section \<open>Data\<close>

datatype agent_activity = Working | Blocked | Idle | UnknownActivity

datatype state_source = OscTitle | OscProgress | Screen | Process | Report | UnknownSource

record evidence =
  ev_activity :: agent_activity
  ev_source :: state_source

type_synonym transition = evidence

record detection_config =
  dc_recheck_after :: nat
  dc_confirmations :: nat
  dc_cap :: nat
  dc_stable_visible_refresh :: nat
  dc_startup_grace :: nat

definition config_default :: detection_config where
  "config_default =
     \<lparr>dc_recheck_after = 100 * 1000000, dc_confirmations = 3, dc_cap = 700 * 1000000,
      dc_stable_visible_refresh = 800 * 1000000, dc_startup_grace = 3 * 1000000000\<rparr>"

definition config_normalized :: "detection_config \<Rightarrow> detection_config" where
  "config_normalized c = c\<lparr>dc_confirmations := max (dc_confirmations c) 1\<rparr>"

record published_state =
  ps_transition :: transition
  ps_emitted_at :: nat

record pending_candidate =
  pc_evidence :: evidence
  pc_first_seen_at :: nat
  pc_last_counted_at :: nat
  pc_confirmations :: nat

record state_machine =
  sm_started_at :: nat
  sm_config :: detection_config
  sm_published :: "published_state option"
  sm_last_emitted :: "transition option"
  sm_pending :: "pending_candidate option"

section \<open>Operations\<close>

definition machine_new :: "nat \<Rightarrow> detection_config \<Rightarrow> state_machine" where
  "machine_new started_at config =
     \<lparr>sm_started_at = started_at, sm_config = config_normalized config, sm_published = None,
      sm_last_emitted = None, sm_pending = None\<rparr>"

definition candidate_new :: "nat \<Rightarrow> evidence \<Rightarrow> pending_candidate" where
  "candidate_new now e =
     \<lparr>pc_evidence = e, pc_first_seen_at = now, pc_last_counted_at = now, pc_confirmations = 1\<rparr>"

definition note_observed :: "pending_candidate \<Rightarrow> nat \<Rightarrow> detection_config \<Rightarrow> pending_candidate" where
  "note_observed p now c =
     (if dc_recheck_after c \<le> now - pc_last_counted_at p
      then p\<lparr>pc_last_counted_at := now, pc_confirmations := pc_confirmations p + 1\<rparr> else p)"

definition is_visible_source :: "state_source \<Rightarrow> bool" where
  "is_visible_source s \<longleftrightarrow> s = OscTitle \<or> s = OscProgress \<or> s = Screen"

definition refresh_due :: "state_machine \<Rightarrow> nat \<Rightarrow> published_state \<Rightarrow> bool" where
  "refresh_due m now p \<longleftrightarrow>
     is_visible_source (ev_source (ps_transition p)) \<and>
     dc_stable_visible_refresh (sm_config m) \<le> now - ps_emitted_at p"

definition startup_grace_elapsed :: "state_machine \<Rightarrow> nat \<Rightarrow> bool" where
  "startup_grace_elapsed m now \<longleftrightarrow> dc_startup_grace (sm_config m) \<le> now - sm_started_at m"

definition pending_ready :: "state_machine \<Rightarrow> nat \<Rightarrow> pending_candidate \<Rightarrow> bool" where
  "pending_ready m now p \<longleftrightarrow>
     startup_grace_elapsed m now \<and>
     (dc_confirmations (sm_config m) \<le> pc_confirmations p \<or> dc_cap (sm_config m) \<le> now - pc_first_seen_at p)"

definition last_emitted_is_visible_working :: "state_machine \<Rightarrow> bool" where
  "last_emitted_is_visible_working m \<longleftrightarrow>
     (case sm_last_emitted m of None \<Rightarrow> False
      | Some t \<Rightarrow> ev_activity t = Working \<and> is_visible_source (ev_source t))"

definition record_published :: "state_machine \<Rightarrow> nat \<Rightarrow> transition \<Rightarrow> state_machine" where
  "record_published m now t = m\<lparr>sm_published := Some \<lparr>ps_transition = t, ps_emitted_at = now\<rparr>\<rparr>"

definition publish :: "state_machine \<Rightarrow> nat \<Rightarrow> transition \<Rightarrow> state_machine \<times> transition option" where
  "publish m now t = (record_published (m\<lparr>sm_last_emitted := Some t\<rparr>) now t, Some t)"

definition observe_working :: "state_machine \<Rightarrow> nat \<Rightarrow> transition \<Rightarrow> state_machine \<times> transition option" where
  "observe_working m now t =
     (case sm_published m of
        Some p \<Rightarrow>
          if ev_activity (ps_transition p) = Working
          then if ps_transition p = t \<and> refresh_due m now p then publish m now t
               else if ev_source (ps_transition p) = Process \<and> ev_source t \<noteq> Process \<and>
                       \<not> last_emitted_is_visible_working m
               then publish m now t
               else if ev_source t = Process then (record_published m now t, None)
               else (m, None)
          else publish m now t
      | None \<Rightarrow> publish m now t)"

definition publish_changed_or_refreshed :: "state_machine \<Rightarrow> nat \<Rightarrow> transition \<Rightarrow> state_machine \<times> transition option" where
  "publish_changed_or_refreshed m now t =
     (case sm_published m of
        Some p \<Rightarrow>
          if ps_transition p = t then (if refresh_due m now p then publish m now t else (m, None))
          else publish m now t
      | None \<Rightarrow> publish m now t)"

definition publish_pending_if_ready :: "state_machine \<Rightarrow> nat \<Rightarrow> state_machine \<times> transition option" where
  "publish_pending_if_ready m now =
     (case sm_pending m of
        None \<Rightarrow> (m, None)
      | Some p \<Rightarrow>
          if pending_ready m now p then publish (m\<lparr>sm_pending := None\<rparr>) now (pc_evidence p) else (m, None))"

definition observe_debounced :: "state_machine \<Rightarrow> nat \<Rightarrow> evidence \<Rightarrow> state_machine \<times> transition option" where
  "observe_debounced m now e =
     (if (case sm_published m of None \<Rightarrow> False | Some p \<Rightarrow> ps_transition p = e)
      then publish_changed_or_refreshed (m\<lparr>sm_pending := None\<rparr>) now e
      else
        (let pending = (case sm_pending m of
               Some p \<Rightarrow> if pc_evidence p = e then note_observed p now (sm_config m) else candidate_new now e
             | None \<Rightarrow> candidate_new now e)
         in publish_pending_if_ready (m\<lparr>sm_pending := Some pending\<rparr>) now))"

definition observe_bytes :: "state_machine \<Rightarrow> nat \<Rightarrow> state_machine \<times> transition option" where
  "observe_bytes m now =
     observe_working (m\<lparr>sm_pending := None\<rparr>) now \<lparr>ev_activity = Working, ev_source = Process\<rparr>"

definition observe_evidence :: "state_machine \<Rightarrow> nat \<Rightarrow> evidence \<Rightarrow> state_machine \<times> transition option" where
  "observe_evidence m now e =
     (case ev_activity e of
        Working \<Rightarrow> observe_working (m\<lparr>sm_pending := None\<rparr>) now e
      | Blocked \<Rightarrow> observe_debounced m now e
      | Idle \<Rightarrow> observe_debounced m now e
      | UnknownActivity \<Rightarrow> (m, None))"

definition machine_tick :: "state_machine \<Rightarrow> nat \<Rightarrow> state_machine \<times> transition option" where
  "machine_tick m now =
     (case sm_published m of
        None \<Rightarrow> (m, None)
      | Some p \<Rightarrow> if refresh_due m now p then publish m now (ps_transition p) else (m, None))"

definition published_activity :: "state_machine \<Rightarrow> agent_activity option" where
  "published_activity m = map_option (\<lambda>p. ev_activity (ps_transition p)) (sm_published m)"

definition has_pending :: "state_machine \<Rightarrow> bool" where
  "has_pending m \<longleftrightarrow> sm_pending m \<noteq> None"

definition clear_pending :: "state_machine \<Rightarrow> state_machine" where
  "clear_pending m = m\<lparr>sm_pending := None\<rparr>"

section \<open>Traces\<close>

datatype observation = Bytes | Evidence evidence | Tick | ClearPending

definition observe :: "state_machine \<Rightarrow> nat \<Rightarrow> observation \<Rightarrow> state_machine \<times> transition option" where
  "observe m now ob =
     (case ob of
        Bytes \<Rightarrow> observe_bytes m now
      | Evidence e \<Rightarrow> observe_evidence m now e
      | Tick \<Rightarrow> machine_tick m now
      | ClearPending \<Rightarrow> (clear_pending m, None))"

text \<open>A trace: the observations with their times, and what each of them emitted.\<close>

inductive machine_run ::
  "nat \<Rightarrow> detection_config \<Rightarrow> state_machine \<Rightarrow> (nat \<times> observation) list \<Rightarrow> (nat \<times> transition) list \<Rightarrow> bool"
  for started_at config where
  start: "machine_run started_at config (machine_new started_at config) [] []"
| observe:
    "machine_run started_at config m obs out \<Longrightarrow> \<forall>x \<in> set obs. fst x \<le> now \<Longrightarrow> observe m now ob = (m', r) \<Longrightarrow>
     machine_run started_at config m' (obs @ [(now, ob)])
       (out @ (case r of None \<Rightarrow> [] | Some t \<Rightarrow> [(now, t)]))"

section \<open>Continuous evidence\<close>

definition debounced :: "evidence \<Rightarrow> bool" where
  "debounced e \<longleftrightarrow> ev_activity e = Blocked \<or> ev_activity e = Idle"

definition keeps_streak :: "evidence \<Rightarrow> observation \<Rightarrow> bool" where
  "keeps_streak e ob \<longleftrightarrow>
     ob = Evidence e \<or> ob = Tick \<or> (\<exists>e'. ob = Evidence e' \<and> ev_activity e' = UnknownActivity)"

text \<open>The times at which some evidence was observed since anything else last was.\<close>

definition streak :: "evidence \<Rightarrow> (nat \<times> observation) list \<Rightarrow> nat list" where
  "streak e obs =
     rev (map fst (filter (\<lambda>x. snd x = Evidence e) (takeWhile (\<lambda>x. keeps_streak e (snd x)) (rev obs))))"

lemma streak_Nil [simp]: "streak e [] = []"
  by (simp add: streak_def)

lemma streak_snoc:
  "streak e (obs @ [(now, ob)]) =
     (if ob = Evidence e then streak e obs @ [now] else if keeps_streak e ob then streak e obs else [])"
  by (auto simp: streak_def keeps_streak_def)

lemma streak_times: "t \<in> set (streak e obs) \<Longrightarrow> t \<in> fst ` set obs"
  by (auto simp: streak_def dest!: set_takeWhileD)

definition spaced :: "nat \<Rightarrow> nat list \<Rightarrow> bool" where
  "spaced d ts \<longleftrightarrow> sorted_wrt (\<lambda>a b. a + d \<le> b) ts"

lemma spaced_snoc:
  assumes "spaced d ts" and "ts \<noteq> []" and "last ts + d \<le> now"
  shows "spaced d (ts @ [now])"
proof -
  have "t \<le> last ts" if "t \<in> set ts" for t
    using assms(1,2) that
  proof (induction ts)
    case (Cons a ts)
    then show ?case using last_in_set [of ts] by (fastforce simp: spaced_def)
  qed simp
  then have "t + d \<le> now" if "t \<in> set ts" for t using that assms(3) by (meson add_le_mono1 le_trans)
  then show ?thesis using assms(1) by (simp add: spaced_def sorted_wrt_append)
qed

section \<open>Invariants of a run\<close>

text \<open>A candidate's count is witnessed by observations of its streak that are far enough apart.\<close>

definition pending_inv :: "detection_config \<Rightarrow> (nat \<times> observation) list \<Rightarrow> pending_candidate \<Rightarrow> bool" where
  "pending_inv c obs p \<longleftrightarrow>
     debounced (pc_evidence p) \<and> streak (pc_evidence p) obs \<noteq> [] \<and>
     pc_first_seen_at p = hd (streak (pc_evidence p) obs) \<and>
     (\<exists>ts. subseq ts (streak (pc_evidence p) obs) \<and> spaced (dc_recheck_after c) ts \<and>
        length ts = pc_confirmations p \<and> ts \<noteq> [] \<and> last ts = pc_last_counted_at p)"

definition streak_inv :: "state_machine \<Rightarrow> (nat \<times> observation) list \<Rightarrow> bool" where
  "streak_inv m obs \<longleftrightarrow>
     (\<forall>e. debounced e \<longrightarrow> streak e obs \<noteq> [] \<longrightarrow>
        map_option ps_transition (sm_published m) = Some e \<or> map_option pc_evidence (sm_pending m) = Some e)"

text \<open>What is published is what was last emitted, but for the process source that is only recorded.\<close>

definition emitted_inv :: "state_machine \<Rightarrow> (nat \<times> transition) list \<Rightarrow> bool" where
  "emitted_inv m out \<longleftrightarrow>
     sm_last_emitted m = (if out = [] then None else Some (snd (last out))) \<and>
     (case sm_published m of
        None \<Rightarrow> out = []
      | Some q \<Rightarrow>
          out \<noteq> [] \<and>
          (last out = (ps_emitted_at q, ps_transition q) \<or>
           (ps_transition q = \<lparr>ev_activity = Working, ev_source = Process\<rparr> \<and> ev_activity (snd (last out)) = Working)))"

definition spaced_emissions :: "nat \<Rightarrow> (nat \<times> transition) list \<Rightarrow> bool" where
  "spaced_emissions d out \<longleftrightarrow>
     successively
       (\<lambda>x y. snd x \<noteq> snd y \<or> ev_source (snd y) = Report \<or> ev_source (snd y) = UnknownSource \<or>
              (is_visible_source (ev_source (snd y)) \<and> fst x + d \<le> fst y)) out"

definition emit :: "(nat \<times> transition) list \<Rightarrow> nat \<Rightarrow> transition option \<Rightarrow> (nat \<times> transition) list" where
  "emit out now r = out @ (case r of None \<Rightarrow> [] | Some t \<Rightarrow> [(now, t)])"

lemma emit_simps [simp]: "emit out now None = out" "emit out now (Some t) = out @ [(now, t)]"
  by (simp_all add: emit_def)

text \<open>Emitting: a change, a heartbeat that is due, or an untracked source.\<close>

lemma publish_emits:
  assumes "publish m now t = (m', r)" and "spaced_emissions d out"
    and "out \<noteq> [] \<Longrightarrow> snd (last out) \<noteq> t \<or> ev_source t = Report \<or> ev_source t = UnknownSource \<or>
      (is_visible_source (ev_source t) \<and> fst (last out) + d \<le> now)"
  shows "emitted_inv m' (emit out now r) \<and> spaced_emissions d (emit out now r)"
  using assms by (auto simp: publish_def record_published_def emitted_inv_def spaced_emissions_def successively_append_iff)

lemma refresh_emits:
  assumes "emitted_inv m out" and "sm_published m = Some q" and "refresh_due m now q"
    and "\<forall>x \<in> set out. fst x \<le> now"
  shows "out \<noteq> [] \<Longrightarrow> is_visible_source (ev_source (ps_transition q)) \<and>
    fst (last out) + dc_stable_visible_refresh (sm_config m) \<le> now"
proof -
  assume "out \<noteq> []"
  then have "fst (last out) \<le> now" using assms(4) by simp
  then show ?thesis
    using assms(1-3) by (auto simp: emitted_inv_def refresh_due_def is_visible_source_def)
qed

text \<open>The fields the emission invariant does not look at.\<close>

lemma emitted_inv_pending [simp]: "emitted_inv (m\<lparr>sm_pending := p\<rparr>) out = emitted_inv m out"
  by (simp add: emitted_inv_def)

lemma refresh_due_pending [simp]: "refresh_due (m\<lparr>sm_pending := p\<rparr>) now q = refresh_due m now q"
  by (simp add: refresh_due_def)

definition emits_ok :: "nat \<Rightarrow> (nat \<times> transition) list \<Rightarrow> nat \<Rightarrow> state_machine \<times> transition option \<Rightarrow> bool" where
  "emits_ok d out now res \<longleftrightarrow>
     emitted_inv (fst res) (emit out now (snd res)) \<and> spaced_emissions d (emit out now (snd res))"

lemma publish_emits_ok:
  assumes "spaced_emissions d out"
    and "out \<noteq> [] \<Longrightarrow> snd (last out) \<noteq> t \<or> ev_source t = Report \<or> ev_source t = UnknownSource \<or>
      (is_visible_source (ev_source t) \<and> fst (last out) + d \<le> now)"
  shows "emits_ok d out now (publish m now t)"
  using publish_emits [OF _ assms, of m "fst (publish m now t)" "snd (publish m now t)"] by (simp add: emits_ok_def)

lemma quiet_emits_ok: "emitted_inv m out \<Longrightarrow> spaced_emissions d out \<Longrightarrow> emits_ok d out now (m, None)"
  by (simp add: emits_ok_def)

lemma observe_working_emits:
  assumes inv: "emitted_inv m out" "spaced_emissions (dc_stable_visible_refresh (sm_config m)) out"
    and le: "\<forall>x \<in> set out. fst x \<le> now" and t: "ev_activity t = Working"
  shows "emits_ok (dc_stable_visible_refresh (sm_config m)) out now (observe_working m now t)"
proof (cases "sm_published m")
  case None
  then show ?thesis using inv by (auto simp: observe_working_def emitted_inv_def intro!: publish_emits_ok)
next
  case (Some q)
  have out: "out \<noteq> []" "sm_last_emitted m = Some (snd (last out))" using inv(1) Some by (auto simp: emitted_inv_def)
  consider (idle) "ev_activity (ps_transition q) \<noteq> Working"
    | (refresh) "ev_activity (ps_transition q) = Working" "ps_transition q = t" "refresh_due m now q"
    | (upgrade) "ev_activity (ps_transition q) = Working" "\<not> (ps_transition q = t \<and> refresh_due m now q)"
        "ev_source (ps_transition q) = Process" "ev_source t \<noteq> Process" "\<not> last_emitted_is_visible_working m"
    | (quiet) "ev_activity (ps_transition q) = Working" "\<not> (ps_transition q = t \<and> refresh_due m now q)"
        "\<not> (ev_source (ps_transition q) = Process \<and> ev_source t \<noteq> Process \<and> \<not> last_emitted_is_visible_working m)"
    by blast
  then show ?thesis
  proof cases
    case idle
    then have "snd (last out) \<noteq> t" using inv(1) Some t by (auto simp: emitted_inv_def)
    then show ?thesis using idle Some inv(2) by (auto simp: observe_working_def intro!: publish_emits_ok)
  next
    case refresh
    then show ?thesis
      using Some inv(2) refresh_emits [OF inv(1) Some refresh(3) le] by (auto simp: observe_working_def intro!: publish_emits_ok)
  next
    case upgrade
    have "ev_source t = Report \<or> ev_source t = UnknownSource" if "snd (last out) = t"
      using that upgrade out t by (cases "ev_source t") (auto simp: last_emitted_is_visible_working_def is_visible_source_def)
    then show ?thesis using upgrade Some inv(2) by (auto simp: observe_working_def intro!: publish_emits_ok)
  next
    case quiet
    have "emitted_inv (record_published m now t) out" if "ev_source t = Process"
    proof -
      have "ev_activity (snd (last out)) = Working" using inv(1) Some quiet(1) by (auto simp: emitted_inv_def)
      moreover have "t = \<lparr>ev_activity = Working, ev_source = Process\<rparr>" using that t by (cases t) simp
      ultimately show ?thesis using out by (simp add: emitted_inv_def record_published_def)
    qed
    then show ?thesis using quiet Some inv by (auto simp: observe_working_def intro!: quiet_emits_ok)
  qed
qed

lemma observe_debounced_emits:
  assumes inv: "emitted_inv m out" "spaced_emissions (dc_stable_visible_refresh (sm_config m)) out"
    and le: "\<forall>x \<in> set out. fst x \<le> now" and e: "debounced e"
  shows "emits_ok (dc_stable_visible_refresh (sm_config m)) out now (observe_debounced m now e)"
proof (cases "\<exists>q. sm_published m = Some q \<and> ps_transition q = e")
  case True
  then obtain q where q: "sm_published m = Some q" "ps_transition q = e" by blast
  show ?thesis
    using q inv refresh_emits [OF inv(1) q(1) _ le]
    by (auto simp: observe_debounced_def publish_changed_or_refreshed_def intro!: publish_emits_ok quiet_emits_ok)
next
  case False
  have "snd (last out) \<noteq> e" if "out \<noteq> []"
    using that False inv(1) e by (auto simp: emitted_inv_def debounced_def split: option.splits)
  then show ?thesis
    using False inv
    by (auto simp: observe_debounced_def publish_pending_if_ready_def Let_def note_observed_def candidate_new_def
        intro!: publish_emits_ok quiet_emits_ok split: option.splits)
qed

lemma observe_emits:
  assumes inv: "emitted_inv m out" "spaced_emissions (dc_stable_visible_refresh (sm_config m)) out"
    and le: "\<forall>x \<in> set out. fst x \<le> now"
  shows "emits_ok (dc_stable_visible_refresh (sm_config m)) out now (observe m now ob)"
proof (cases ob)
  case Bytes
  then show ?thesis
    using observe_working_emits [of "m\<lparr>sm_pending := None\<rparr>" out now] inv le by (simp add: observe_def observe_bytes_def)
next
  case (Evidence e)
  then show ?thesis
    using observe_working_emits [of "m\<lparr>sm_pending := None\<rparr>" out now e] observe_debounced_emits [OF inv le, of e] inv le
    by (cases "ev_activity e") (auto simp: observe_def observe_evidence_def debounced_def intro: quiet_emits_ok)
next
  case Tick
  then show ?thesis
    using inv refresh_emits [OF inv(1) _ _ le]
    by (auto simp: observe_def machine_tick_def intro!: publish_emits_ok quiet_emits_ok split: option.splits)
next
  case ClearPending
  then show ?thesis using inv by (simp add: observe_def clear_pending_def quiet_emits_ok)
qed

lemma streak_other: "debounced e \<Longrightarrow> ob \<noteq> Evidence e \<Longrightarrow> \<not> keeps_streak e ob \<Longrightarrow> streak e (obs @ [(now, ob)]) = []"
  by (simp add: streak_snoc)

lemma pending_inv_keep:
  assumes "pending_inv c obs p" and "keeps_streak (pc_evidence p) ob" and "ob \<noteq> Evidence (pc_evidence p)"
  shows "pending_inv c (obs @ [(now, ob)]) p"
  using assms by (simp add: pending_inv_def streak_snoc)

lemma pending_inv_new:
  assumes "debounced e" and "streak e obs = []"
  shows "pending_inv c (obs @ [(now, Evidence e)]) (candidate_new now e)"
proof -
  have "subseq [now] (streak e (obs @ [(now, Evidence e)]))" "spaced (dc_recheck_after c) [now]"
    using assms by (simp_all add: streak_snoc spaced_def)
  then show ?thesis using assms by (force simp: pending_inv_def candidate_new_def streak_snoc)
qed

lemma pending_inv_note:
  assumes p: "pending_inv c obs p" and le: "\<forall>x \<in> set obs. fst x \<le> now"
  shows "pending_inv c (obs @ [(now, Evidence (pc_evidence p))]) (note_observed p now c)"
proof -
  let ?e = "pc_evidence p"
  obtain ts where ts: "subseq ts (streak ?e obs)" "spaced (dc_recheck_after c) ts" "length ts = pc_confirmations p"
    "ts \<noteq> []" "last ts = pc_last_counted_at p"
    using p by (auto simp: pending_inv_def)
  have base: "debounced ?e" "streak ?e obs \<noteq> []" "pc_first_seen_at p = hd (streak ?e obs)"
    using p by (simp_all add: pending_inv_def)
  show ?thesis
  proof (cases "dc_recheck_after c \<le> now - pc_last_counted_at p")
    case True
    have "pc_last_counted_at p \<in> set (streak ?e obs)"
      using list_emb_set [OF ts(1) last_in_set [OF ts(4)]] ts(5) by auto
    then have "pc_last_counted_at p \<le> now" using streak_times le by fastforce
    then have "spaced (dc_recheck_after c) (ts @ [now])" using True ts by (intro spaced_snoc) auto
    moreover have "subseq (ts @ [now]) (streak ?e obs @ [now])" using ts(1) by simp
    ultimately have "\<exists>ts'. subseq ts' (streak ?e obs @ [now]) \<and> spaced (dc_recheck_after c) ts' \<and>
        length ts' = Suc (pc_confirmations p) \<and> ts' \<noteq> [] \<and> last ts' = now"
      using ts(3) by (intro exI [of _ "ts @ [now]"]) simp
    then show ?thesis using True base by (simp add: pending_inv_def note_observed_def streak_snoc)
  next
    case False
    have "subseq ts (streak ?e obs @ [now])" using ts(1) by (simp add: subseq_rev_drop_many)
    then have "\<exists>ts'. subseq ts' (streak ?e obs @ [now]) \<and> spaced (dc_recheck_after c) ts' \<and>
        length ts' = pc_confirmations p \<and> ts' \<noteq> [] \<and> last ts' = pc_last_counted_at p"
      using ts by blast
    then show ?thesis using False base by (simp add: pending_inv_def note_observed_def streak_snoc)
  qed
qed

definition debounce_inv :: "state_machine \<Rightarrow> (nat \<times> observation) list \<Rightarrow> bool" where
  "debounce_inv m obs \<longleftrightarrow>
     (\<forall>p. sm_pending m = Some p \<longrightarrow> pending_inv (sm_config m) obs p) \<and> streak_inv m obs"

lemma no_streak_inv:
  assumes "sm_pending m = None" and "\<And>e. debounced e \<Longrightarrow> streak e obs = []"
  shows "debounce_inv m obs"
  using assms by (simp add: debounce_inv_def streak_inv_def)

lemma published_inv:
  assumes "sm_pending m = None" and "map_option ps_transition (sm_published m) = Some e" and "debounced e"
  shows "debounce_inv m (obs @ [(now, Evidence e)])"
  using assms by (auto simp: debounce_inv_def streak_inv_def streak_snoc keeps_streak_def debounced_def)

lemma publish_fields [simp]:
  "sm_pending (fst (publish m now t)) = sm_pending m" "sm_config (fst (publish m now t)) = sm_config m"
  "sm_started_at (fst (publish m now t)) = sm_started_at m"
  "sm_published (fst (publish m now t)) = Some \<lparr>ps_transition = t, ps_emitted_at = now\<rparr>"
  by (simp_all add: publish_def record_published_def)

lemma observe_working_fields [simp]:
  "sm_pending (fst (observe_working m now t)) = sm_pending m" "sm_config (fst (observe_working m now t)) = sm_config m"
  "sm_started_at (fst (observe_working m now t)) = sm_started_at m"
  by (auto simp: observe_working_def record_published_def split: option.splits)

text \<open>The candidate after an observation of unpublished evidence.\<close>

definition next_candidate :: "state_machine \<Rightarrow> nat \<Rightarrow> evidence \<Rightarrow> pending_candidate" where
  "next_candidate m now e =
     (case sm_pending m of
        Some p \<Rightarrow> if pc_evidence p = e then note_observed p now (sm_config m) else candidate_new now e
      | None \<Rightarrow> candidate_new now e)"

lemma observe_debounced_unpublished:
  "map_option ps_transition (sm_published m) \<noteq> Some e \<Longrightarrow>
     observe_debounced m now e = publish_pending_if_ready (m\<lparr>sm_pending := Some (next_candidate m now e)\<rparr>) now"
  by (auto simp: observe_debounced_def next_candidate_def Let_def split: option.splits)

lemma next_candidate_inv:
  assumes inv: "debounce_inv m obs" and le: "\<forall>x \<in> set obs. fst x \<le> now" and e: "debounced e"
    and unpub: "map_option ps_transition (sm_published m) \<noteq> Some e"
  shows "pending_inv (sm_config m) (obs @ [(now, Evidence e)]) (next_candidate m now e)"
    and "pc_evidence (next_candidate m now e) = e"
proof -
  show "pc_evidence (next_candidate m now e) = e"
    by (auto simp: next_candidate_def candidate_new_def note_observed_def split: option.splits)
  show "pending_inv (sm_config m) (obs @ [(now, Evidence e)]) (next_candidate m now e)"
  proof (cases "\<exists>p. sm_pending m = Some p \<and> pc_evidence p = e")
    case True
    then obtain p where p: "sm_pending m = Some p" "pc_evidence p = e" by blast
    then show ?thesis using pending_inv_note [OF _ le, of "sm_config m" p] inv by (simp add: next_candidate_def debounce_inv_def)
  next
    case False
    then have "map_option pc_evidence (sm_pending m) \<noteq> Some e" by auto
    then have "streak e obs = []" using inv e unpub unfolding debounce_inv_def streak_inv_def by blast
    moreover have "next_candidate m now e = candidate_new now e" using False by (auto simp: next_candidate_def split: option.splits)
    ultimately show ?thesis using pending_inv_new [OF e] by simp
  qed
qed

lemma observe_debounced_inv:
  assumes inv: "debounce_inv m obs" and le: "\<forall>x \<in> set obs. fst x \<le> now" and e: "debounced e"
  shows "debounce_inv (fst (observe_debounced m now e)) (obs @ [(now, Evidence e)])"
proof (cases "map_option ps_transition (sm_published m) = Some e")
  case True
  then show ?thesis
    using e by (auto simp: observe_debounced_def publish_changed_or_refreshed_def intro!: published_inv)
next
  case False
  note p = next_candidate_inv [OF inv le e False] and res = observe_debounced_unpublished [OF False, of now]
  let ?p = "next_candidate m now e"
  show ?thesis
  proof (cases "pending_ready (m\<lparr>sm_pending := Some ?p\<rparr>) now ?p")
    case True
    then show ?thesis using p(2) e by (auto simp: res publish_pending_if_ready_def intro!: published_inv)
  next
    case False
    then show ?thesis
      using p e by (auto simp: res publish_pending_if_ready_def debounce_inv_def streak_inv_def streak_snoc keeps_streak_def debounced_def)
  qed
qed

lemma observe_inv:
  assumes inv: "debounce_inv m obs" and le: "\<forall>x \<in> set obs. fst x \<le> now"
  shows "debounce_inv (fst (observe m now ob)) (obs @ [(now, ob)])"
proof (cases ob)
  case Bytes
  then show ?thesis
    by (auto simp: observe_def observe_bytes_def streak_snoc keeps_streak_def intro!: no_streak_inv)
next
  case (Evidence e)
  show ?thesis
  proof (cases "debounced e")
    case True
    then show ?thesis
      using Evidence observe_debounced_inv [OF inv le] by (auto simp: observe_def observe_evidence_def debounced_def)
  next
    case False
    then consider "ev_activity e = Working" | "ev_activity e = UnknownActivity"
      by (cases "ev_activity e") (auto simp: debounced_def)
    then show ?thesis
    proof cases
      case 1
      then show ?thesis
        by (auto simp: Evidence observe_def observe_evidence_def streak_snoc keeps_streak_def debounced_def intro!: no_streak_inv)
    next
      case 2
      have same: "streak e' (obs @ [(now, ob)]) = streak e' obs" if "debounced e'" for e'
        using that 2 Evidence by (auto simp: streak_snoc keeps_streak_def debounced_def)
      have "pending_inv c (obs @ [(now, ob)]) p = pending_inv c obs p" for c p
        using same by (cases "debounced (pc_evidence p)") (simp_all add: pending_inv_def)
      moreover have "observe m now ob = (m, None)" using Evidence 2 by (simp add: observe_def observe_evidence_def)
      ultimately show ?thesis using inv same unfolding debounce_inv_def streak_inv_def by simp
    qed
  qed
next
  case Tick
  have same: "streak e (obs @ [(now, ob)]) = streak e obs" for e using Tick by (simp add: streak_snoc keeps_streak_def)
  then have "pending_inv c (obs @ [(now, ob)]) p = pending_inv c obs p" for c p by (simp add: pending_inv_def)
  moreover have "map_option ps_transition (sm_published (fst (observe m now ob))) = map_option ps_transition (sm_published m)"
    "sm_pending (fst (observe m now ob)) = sm_pending m" "sm_config (fst (observe m now ob)) = sm_config m"
    by (auto simp: Tick observe_def machine_tick_def split: option.splits)
  ultimately show ?thesis using inv same unfolding debounce_inv_def streak_inv_def by simp
next
  case ClearPending
  then show ?thesis
    by (auto simp: observe_def clear_pending_def streak_snoc keeps_streak_def intro!: no_streak_inv)
qed

definition machine_inv :: "nat \<Rightarrow> detection_config \<Rightarrow> state_machine \<Rightarrow> (nat \<times> observation) list \<Rightarrow> (nat \<times> transition) list \<Rightarrow> bool" where
  "machine_inv s0 c m obs out \<longleftrightarrow>
     sm_started_at m = s0 \<and> sm_config m = config_normalized c \<and> debounce_inv m obs \<and> emitted_inv m out \<and>
     spaced_emissions (dc_stable_visible_refresh c) out \<and> fst ` set out \<subseteq> fst ` set obs"

lemma config_normalized_fields [simp]:
  "dc_stable_visible_refresh (config_normalized c) = dc_stable_visible_refresh c"
  "dc_recheck_after (config_normalized c) = dc_recheck_after c" "dc_cap (config_normalized c) = dc_cap c"
  "dc_startup_grace (config_normalized c) = dc_startup_grace c"
  "dc_confirmations (config_normalized c) = max (dc_confirmations c) 1"
  by (simp_all add: config_normalized_def)

lemma observe_constants:
  "sm_started_at (fst (observe m now ob)) = sm_started_at m" "sm_config (fst (observe m now ob)) = sm_config m"
  by (auto simp: observe_def observe_bytes_def observe_evidence_def observe_debounced_def machine_tick_def clear_pending_def
      publish_changed_or_refreshed_def publish_pending_if_ready_def Let_def
      split: observation.splits agent_activity.splits option.splits)

lemma machine_run_inv: "machine_run s0 c m obs out \<Longrightarrow> machine_inv s0 c m obs out"
proof (induction rule: machine_run.induct)
  case start
  show ?case
    by (simp add: machine_inv_def machine_new_def debounce_inv_def streak_inv_def emitted_inv_def spaced_emissions_def)
next
  case (observe m obs out now ob m' r)
  then have inv: "machine_inv s0 c m obs out" and m': "m' = fst (Detect_Machine.observe m now ob)"
    "r = snd (Detect_Machine.observe m now ob)" by simp_all
  have le: "\<forall>x \<in> set out. fst x \<le> now" using inv observe.hyps(2) by (fastforce simp: machine_inv_def)
  have "emits_ok (dc_stable_visible_refresh (sm_config m)) out now (Detect_Machine.observe m now ob)"
    by (rule observe_emits [OF _ _ le]) (use inv in \<open>auto simp: machine_inv_def\<close>)
  then have em: "emitted_inv m' (emit out now r)" "spaced_emissions (dc_stable_visible_refresh c) (emit out now r)"
    using inv m' by (simp_all add: emits_ok_def machine_inv_def)
  have "debounce_inv m' (obs @ [(now, ob)])" using observe_inv [OF _ observe.hyps(2)] inv m'(1) by (simp add: machine_inv_def)
  then show ?case
    using em inv m' observe_constants [of m now ob] by (auto simp: machine_inv_def emit_def split: option.splits)
qed

section \<open>Executing a trace\<close>

fun observe_all :: "state_machine \<Rightarrow> (nat \<times> observation) list \<Rightarrow> state_machine \<times> (nat \<times> transition) list" where
  "observe_all m [] = (m, [])"
| "observe_all m ((now, ob) # obs) =
     (let (m1, r) = observe m now ob; (m2, out) = observe_all m1 obs
      in (m2, (case r of None \<Rightarrow> [] | Some t \<Rightarrow> [(now, t)]) @ out))"

lemma observe_all_run:
  assumes "machine_run s0 c m obs0 out0" and "sorted (map fst (obs0 @ obs))"
  shows "machine_run s0 c (fst (observe_all m obs)) (obs0 @ obs) (out0 @ snd (observe_all m obs))"
  using assms
proof (induction m obs arbitrary: obs0 out0 rule: observe_all.induct)
  case (2 m now ob obs)
  obtain m1 r where o: "observe m now ob = (m1, r)" by fastforce
  have "\<forall>x \<in> set obs0. fst x \<le> now" using "2.prems"(2) by (auto simp: sorted_append)
  from machine_run.observe [OF "2.prems"(1) this o]
  show ?case
    using "2.IH" [of "(m1, r)" m1 r "obs0 @ [(now, ob)]" "out0 @ (case r of None \<Rightarrow> [] | Some t \<Rightarrow> [(now, t)])"]
      "2.prems"(2) o by (auto simp: case_prod_unfold Let_def)
qed simp

definition demo_config :: detection_config where
  "demo_config = \<lparr>dc_recheck_after = 2, dc_confirmations = 2, dc_cap = 10, dc_stable_visible_refresh = 5, dc_startup_grace = 1\<rparr>"

definition demo_idle :: evidence where
  "demo_idle = \<lparr>ev_activity = Idle, ev_source = Screen\<rparr>"

definition demo_machine :: "(nat \<times> observation) list \<Rightarrow> state_machine" where
  "demo_machine obs = fst (observe_all (machine_new 0 demo_config) obs)"

lemma demo_machine_run:
  "sorted (map fst obs) \<Longrightarrow>
     machine_run 0 demo_config (demo_machine obs) obs (snd (observe_all (machine_new 0 demo_config) obs))"
  using observe_all_run [OF machine_run.start, of obs 0 demo_config] by (simp add: demo_machine_def)

lemmas machine_exec =
  demo_machine_def machine_new_def config_normalized_def demo_config_def demo_idle_def observe_def observe_bytes_def
  observe_evidence_def observe_debounced_def observe_working_def publish_pending_if_ready_def
  publish_changed_or_refreshed_def pending_ready_def startup_grace_elapsed_def note_observed_def candidate_new_def
  publish_def record_published_def machine_tick_def refresh_due_def is_visible_source_def

section \<open>Properties\<close>

text \<open>
  C12.  Idle and blocked are published only on continuous evidence: when an observation makes the
  machine change to such a state, the startup grace is over, and since anything else was observed
  the same evidence was seen at least the configured number of times, each at least the recheck
  interval after the one before, or it was first seen at least the cap ago.
\<close>

theorem published_on_continuous_evidence:
  assumes "machine_run s0 c m obs out" and "\<forall>x \<in> set obs. fst x \<le> now" and "debounced e"
    and "map_option ps_transition (sm_published m) \<noteq> Some e" and "observe_evidence m now e = (m', Some t)"
  shows "t = e \<and> dc_startup_grace c \<le> now - s0 \<and>
    ((\<exists>ts. subseq ts (streak e (obs @ [(now, Evidence e)])) \<and> spaced (dc_recheck_after c) ts \<and>
        max (dc_confirmations c) 1 \<le> length ts) \<or>
     hd (streak e (obs @ [(now, Evidence e)])) + dc_cap c \<le> now)"
proof -
  have inv: "machine_inv s0 c m obs out" by (rule machine_run_inv [OF assms(1)])
  have deb: "observe_debounced m now e = (m', Some t)"
    using assms(3,5) by (auto simp: observe_evidence_def debounced_def)
  let ?p = "next_candidate m now e"
  have res: "publish_pending_if_ready (m\<lparr>sm_pending := Some ?p\<rparr>) now = (m', Some t)"
    using deb observe_debounced_unpublished [OF assms(4)] by simp
  have "debounce_inv m obs" using inv by (simp add: machine_inv_def)
  note p = next_candidate_inv [OF this assms(2,3,4)]
  have ready: "pending_ready (m\<lparr>sm_pending := Some ?p\<rparr>) now ?p" "t = e"
    using res p(2) by (auto simp: publish_pending_if_ready_def publish_def split: if_splits)
  have "hd (streak e (obs @ [(now, Evidence e)])) \<le> now"
  proof -
    have "hd (streak e (obs @ [(now, Evidence e)])) \<in> set (streak e (obs @ [(now, Evidence e)]))"
      by (rule hd_in_set) (simp add: streak_snoc)
    from streak_times [OF this] show ?thesis using assms(2) by auto
  qed
  then show ?thesis
    using ready p inv by (auto simp: pending_ready_def startup_grace_elapsed_def machine_inv_def pending_inv_def)
qed

theorem published_on_continuous_evidence_witness:
  "observe_evidence (demo_machine [(1, Bytes), (3, Evidence demo_idle), (4, Tick)]) 6 demo_idle =
     (fst (observe_evidence (demo_machine [(1, Bytes), (3, Evidence demo_idle), (4, Tick)]) 6 demo_idle), Some demo_idle) \<and>
   ((\<exists>ts. subseq ts [3, 6] \<and> spaced 2 ts \<and> 2 \<le> length ts) \<or> 3 + 10 \<le> (6 :: nat))"
proof -
  let ?obs = "[(1, Bytes), (3, Evidence demo_idle), (4, Tick)]"
  have run: "machine_run 0 demo_config (demo_machine ?obs) ?obs (snd (observe_all (machine_new 0 demo_config) ?obs))"
    by (rule demo_machine_run) simp
  have res: "observe_evidence (demo_machine ?obs) 6 demo_idle =
      (fst (observe_evidence (demo_machine ?obs) 6 demo_idle), Some demo_idle)"
    "map_option ps_transition (sm_published (demo_machine ?obs)) \<noteq> Some demo_idle"
    by (simp_all add: machine_exec)
  have "streak demo_idle (?obs @ [(6, Evidence demo_idle)]) = [3, 6]"
    by (simp add: streak_def keeps_streak_def demo_idle_def)
  then show ?thesis
    using published_on_continuous_evidence [OF run _ _ res(2,1)] res(1)
    by (simp add: debounced_def demo_config_def demo_idle_def numeral_2_eq_2)
qed

text \<open>
  C13.  A real state is never starved: evidence of an idle or blocked state that was first observed
  at least the cap ago, with nothing else observed since, is published by the next observation of
  it once the startup grace is over, whatever the confirmations.
\<close>

theorem evidence_surfaces_within_cap:
  assumes "machine_run s0 c m obs out" and "\<forall>x \<in> set obs. fst x \<le> now" and "debounced e"
    and "streak e obs \<noteq> []" and "hd (streak e obs) + dc_cap c \<le> now" and "s0 + dc_startup_grace c \<le> now"
  shows "map_option ps_transition (sm_published (fst (observe_evidence m now e))) = Some e \<and>
    \<not> has_pending (fst (observe_evidence m now e))"
proof -
  have inv: "machine_inv s0 c m obs out" by (rule machine_run_inv [OF assms(1)])
  have deb: "observe_evidence m now e = observe_debounced m now e"
    using assms(3) by (auto simp: observe_evidence_def debounced_def)
  show ?thesis
  proof (cases "map_option ps_transition (sm_published m) = Some e")
    case True
    then show ?thesis
      by (auto simp: deb observe_debounced_def publish_changed_or_refreshed_def has_pending_def)
  next
    case False
    have "debounce_inv m obs" using inv by (simp add: machine_inv_def)
    note p = next_candidate_inv [OF this assms(2,3) False]
    have "pc_first_seen_at (next_candidate m now e) = hd (streak e obs)"
      using p assms(4) by (simp add: pending_inv_def streak_snoc)
    then have "pending_ready (m\<lparr>sm_pending := Some (next_candidate m now e)\<rparr>) now (next_candidate m now e)"
      using assms(5,6) inv by (auto simp: pending_ready_def startup_grace_elapsed_def machine_inv_def)
    then show ?thesis
      using p(2) by (simp add: deb observe_debounced_unpublished [OF False] publish_pending_if_ready_def has_pending_def)
  qed
qed

theorem evidence_surfaces_within_cap_witness:
  "map_option ps_transition (sm_published (fst (observe_evidence (demo_machine [(3, Evidence demo_idle)]) 13 demo_idle))) =
     Some demo_idle"
proof -
  have run: "machine_run 0 demo_config (demo_machine [(3, Evidence demo_idle)]) [(3, Evidence demo_idle)]
      (snd (observe_all (machine_new 0 demo_config) [(3, Evidence demo_idle)]))"
    by (rule demo_machine_run) simp
  have "streak demo_idle [(3, Evidence demo_idle)] = [3]" by (simp add: streak_def keeps_streak_def)
  then show ?thesis
    using evidence_surfaces_within_cap [OF run, of 13 demo_idle] by (simp add: debounced_def demo_idle_def demo_config_def)
qed

text \<open>
  The machine does not flicker: in every trace each emission differs from the one before it, or
  repeats a visible state at least the refresh interval later; only the report source, which the
  machine does not track as visible, may repeat sooner.
\<close>

theorem emissions_change_or_refresh:
  assumes "machine_run s0 c m obs out"
  shows "successively
    (\<lambda>x y. snd x \<noteq> snd y \<or> ev_source (snd y) = Report \<or> ev_source (snd y) = UnknownSource \<or>
           (is_visible_source (ev_source (snd y)) \<and> fst x + dc_stable_visible_refresh c \<le> fst y)) out"
  using machine_run_inv [OF assms] by (simp add: machine_inv_def spaced_emissions_def)

theorem emissions_change_or_refresh_witness:
  "map fst (snd (observe_all (machine_new 0 demo_config)
     [(1, Bytes), (3, Evidence demo_idle), (6, Evidence demo_idle), (8, Tick), (11, Tick)])) = [1, 6, 11] \<and>
   successively (\<lambda>x y. snd x \<noteq> snd y \<or> ev_source (snd y) = Report \<or> ev_source (snd y) = UnknownSource \<or>
       (is_visible_source (ev_source (snd y)) \<and> fst x + 5 \<le> fst y))
     (snd (observe_all (machine_new 0 demo_config)
       [(1, Bytes), (3, Evidence demo_idle), (6, Evidence demo_idle), (8, Tick), (11, Tick)]))"
proof -
  let ?obs = "[(1, Bytes), (3, Evidence demo_idle), (6, Evidence demo_idle), (8, Tick), (11, Tick)]"
  have run: "machine_run 0 demo_config (demo_machine ?obs) ?obs (snd (observe_all (machine_new 0 demo_config) ?obs))"
    by (rule demo_machine_run) simp
  have "map fst (snd (observe_all (machine_new 0 demo_config) ?obs)) = [1, 6, 11]" by (simp add: machine_exec)
  moreover have "dc_stable_visible_refresh demo_config = 5" by (simp add: demo_config_def)
  ultimately show ?thesis using emissions_change_or_refresh [OF run] by (simp del: observe_all.simps)
qed

end
