(* ===== verification/Detect_Osc.thy ===== *)
theory Detect_Osc
  imports Program_Status
begin

text \<open>
  The daemon's parser of terminal control strings (\<open>crates/daemon/src/detect/osc.rs\<close>): titles,
  progress, working-directory URLs and program-status reports, read from the output as it arrives.
  The specification is a predicate on the whole stream, which the incremental parser is shown to
  decide exactly, whatever the fragments.
\<close>

section \<open>Data\<close>

definition MAX_OSC_COMMAND_BYTES :: nat where "MAX_OSC_COMMAND_BYTES = 16"
definition MAX_SUPPORTED_OSC_PAYLOAD_BYTES :: nat where "MAX_SUPPORTED_OSC_PAYLOAD_BYTES = 4096"
definition FILE_URL_PREFIX :: bytes where "FILE_URL_PREFIX = ''file://''"
definition PERCENT_HEX_DIGITS :: nat where "PERCENT_HEX_DIGITS = 2"

datatype osc_evidence =
    Title bytes
  | Progress bytes
  | Cwd bytes
  | ProgramStatus program_status_report

datatype parser_state =
    PGround | PEscape | PCommand | PCommandEscape | PPayload | PPayloadEscape | PDiscard | PDiscardEscape

record osc_parser =
  op_state :: parser_state
  op_command :: bytes
  op_payload :: bytes

definition parser_new :: osc_parser where
  "parser_new = \<lparr>op_state = PGround, op_command = [], op_payload = []\<rparr>"

section \<open>Working-directory URLs\<close>

definition hex_nibble :: "byte \<Rightarrow> nat option" where
  "hex_nibble b =
     (let v = byte_val b in
      if 48 \<le> v \<and> v \<le> 57 then Some (v - 48)
      else if 97 \<le> v \<and> v \<le> 102 then Some (v - 97 + 10)
      else if 65 \<le> v \<and> v \<le> 70 then Some (v - 65 + 10)
      else None)"

text \<open>The loop from an index on; for nibbles, \<open>(high << 4) | low\<close> is \<open>16 * high + low\<close>.\<close>

function percent_decode_from :: "bytes \<Rightarrow> nat \<Rightarrow> bytes" where
  "percent_decode_from input index =
     (if index < length input
      then if input ! index = CHR ''%'' \<and> index + PERCENT_HEX_DIGITS < length input
           then case (hex_nibble (input ! (index + 1)), hex_nibble (input ! (index + 2))) of
                  (Some high, Some low) \<Rightarrow>
                    char_of (16 * high + low) # percent_decode_from input (index + PERCENT_HEX_DIGITS + 1)
                | _ \<Rightarrow> input ! index # percent_decode_from input (index + 1)
           else input ! index # percent_decode_from input (index + 1)
      else [])"
  by pat_completeness auto
termination
  by (relation "measure (\<lambda>(input, index). length input - index)") (auto simp: PERCENT_HEX_DIGITS_def)

declare percent_decode_from.simps [simp del]

definition percent_decode :: "bytes \<Rightarrow> bytes" where
  "percent_decode input = percent_decode_from input 0"

definition parse_file_url_cwd :: "bytes \<Rightarrow> bytes option" where
  "parse_file_url_cwd payload =
     (case strip_prefix FILE_URL_PREFIX payload of
        None \<Rightarrow> None
      | Some without_scheme \<Rightarrow>
          if CHR ''/'' \<in> set without_scheme
          then let path = dropWhile (\<lambda>b. b \<noteq> CHR ''/'') without_scheme in
               if path = [] then None else Some (from_utf8_lossy (percent_decode path))
          else None)"

section \<open>The parser\<close>

definition parser_reset :: "osc_parser \<Rightarrow> osc_parser" where
  "parser_reset p = p\<lparr>op_state := PGround, op_command := [], op_payload := []\<rparr>"

definition is_active :: "osc_parser \<Rightarrow> bool" where
  "is_active p \<longleftrightarrow> op_state p \<noteq> PGround"

definition start_osc :: "osc_parser \<Rightarrow> osc_parser" where
  "start_osc p = p\<lparr>op_command := [], op_payload := [], op_state := PCommand\<rparr>"

definition discard_osc :: "osc_parser \<Rightarrow> osc_parser" where
  "discard_osc p = p\<lparr>op_command := [], op_payload := [], op_state := PDiscard\<rparr>"

definition push_command_byte :: "osc_parser \<Rightarrow> byte \<Rightarrow> osc_parser" where
  "push_command_byte p b =
     (if MAX_OSC_COMMAND_BYTES \<le> length (op_command p) then discard_osc p
      else p\<lparr>op_command := op_command p @ [b]\<rparr>)"

definition push_payload_byte :: "osc_parser \<Rightarrow> byte \<Rightarrow> osc_parser" where
  "push_payload_byte p b =
     (if MAX_SUPPORTED_OSC_PAYLOAD_BYTES \<le> length (op_payload p) then discard_osc p
      else p\<lparr>op_payload := op_payload p @ [b]\<rparr>)"

definition supported_command :: "bytes \<Rightarrow> bool" where
  "supported_command c \<longleftrightarrow> c \<in> {''0'', ''2'', ''7'', ''9''} \<or> c = PROGRAM_STATUS_COMMAND"

definition is_supported_command :: "osc_parser \<Rightarrow> bool" where
  "is_supported_command p \<longleftrightarrow> supported_command (op_command p)"

text \<open>The evidence a complete control string carries.\<close>

definition osc_item :: "(bytes \<Rightarrow> bytes option) \<Rightarrow> bytes \<Rightarrow> bytes \<Rightarrow> osc_evidence option" where
  "osc_item b64 command payload =
     (if command = ''0'' \<or> command = ''2'' then Some (Title (from_utf8_lossy payload))
      else if command = ''7'' then map_option Cwd (parse_file_url_cwd payload)
      else if command = ''9'' then Some (Progress (from_utf8_lossy payload))
      else if command = PROGRAM_STATUS_COMMAND
      then (case parse_payload b64 payload of
              None \<Rightarrow> None
            | Some report \<Rightarrow> if report \<noteq> Probe then Some (ProgramStatus report) else None)
      else None)"

type_synonym sightings = "(osc_evidence \<times> nat) list"

definition finish_osc ::
  "(bytes \<Rightarrow> bytes option) \<Rightarrow> osc_parser \<Rightarrow> nat \<Rightarrow> sightings \<Rightarrow> osc_parser \<times> sightings" where
  "finish_osc b64 p offset found =
     (parser_reset p,
      case osc_item b64 (op_command p) (op_payload p) of
        None \<Rightarrow> found
      | Some item \<Rightarrow> found @ [(item, offset + 1)])"

definition advance_ground :: "osc_parser \<Rightarrow> byte \<Rightarrow> osc_parser" where
  "advance_ground p b = (if b = ESC then p\<lparr>op_state := PEscape\<rparr> else p)"

definition advance_escape :: "osc_parser \<Rightarrow> byte \<Rightarrow> osc_parser" where
  "advance_escape p b =
     (if b = CHR '']'' then start_osc p
      else if b = ESC then p\<lparr>op_state := PEscape\<rparr>
      else p\<lparr>op_state := PGround\<rparr>)"

definition advance_osc_command :: "osc_parser \<Rightarrow> byte \<Rightarrow> osc_parser" where
  "advance_osc_command p b =
     (if b = BEL then parser_reset p
      else if b = CHR '';'' then (if is_supported_command p then p\<lparr>op_state := PPayload\<rparr> else discard_osc p)
      else if b = ESC then p\<lparr>op_state := PCommandEscape\<rparr>
      else push_command_byte p b)"

definition advance_osc_command_escape :: "osc_parser \<Rightarrow> byte \<Rightarrow> osc_parser" where
  "advance_osc_command_escape p b =
     (if b = CHR '']'' then start_osc p
      else if b = ESC then (parser_reset p)\<lparr>op_state := PEscape\<rparr>
      else parser_reset p)"

definition advance_osc_payload ::
  "(bytes \<Rightarrow> bytes option) \<Rightarrow> osc_parser \<Rightarrow> byte \<Rightarrow> nat \<Rightarrow> sightings \<Rightarrow> osc_parser \<times> sightings" where
  "advance_osc_payload b64 p b offset found =
     (if b = BEL then finish_osc b64 p offset found
      else if b = ESC then (p\<lparr>op_state := PPayloadEscape\<rparr>, found)
      else (push_payload_byte p b, found))"

definition advance_osc_payload_escape ::
  "(bytes \<Rightarrow> bytes option) \<Rightarrow> osc_parser \<Rightarrow> byte \<Rightarrow> nat \<Rightarrow> sightings \<Rightarrow> osc_parser \<times> sightings" where
  "advance_osc_payload_escape b64 p b offset found =
     (if b = BACKSLASH then finish_osc b64 p offset found
      else if b = CHR '']'' then (start_osc p, found)
      else if b = ESC then ((parser_reset p)\<lparr>op_state := PEscape\<rparr>, found)
      else (parser_reset p, found))"

definition advance_osc_discard :: "osc_parser \<Rightarrow> byte \<Rightarrow> osc_parser" where
  "advance_osc_discard p b =
     (if b = BEL then parser_reset p else if b = ESC then p\<lparr>op_state := PDiscardEscape\<rparr> else p)"

definition advance_osc_discard_escape :: "osc_parser \<Rightarrow> byte \<Rightarrow> osc_parser" where
  "advance_osc_discard_escape p b =
     (if b = BEL \<or> b = BACKSLASH then parser_reset p
      else if b = CHR '']'' then start_osc p
      else if b = ESC then p\<lparr>op_state := PDiscardEscape\<rparr>
      else p\<lparr>op_state := PDiscard\<rparr>)"

text \<open>One iteration of the loop of \<open>advance_with_offsets\<close>, and the loop.\<close>

type_synonym scan = "osc_parser \<times> nat \<times> sightings"

fun advance_step :: "(bytes \<Rightarrow> bytes option) \<Rightarrow> scan \<Rightarrow> byte \<Rightarrow> scan" where
  "advance_step b64 (p, offset, found) b =
     (case op_state p of
        PGround \<Rightarrow> (advance_ground p b, offset + 1, found)
      | PEscape \<Rightarrow> (advance_escape p b, offset + 1, found)
      | PCommand \<Rightarrow> (advance_osc_command p b, offset + 1, found)
      | PCommandEscape \<Rightarrow> (advance_osc_command_escape p b, offset + 1, found)
      | PPayload \<Rightarrow> (case advance_osc_payload b64 p b offset found of (p', f) \<Rightarrow> (p', offset + 1, f))
      | PPayloadEscape \<Rightarrow>
          (case advance_osc_payload_escape b64 p b offset found of (p', f) \<Rightarrow> (p', offset + 1, f))
      | PDiscard \<Rightarrow> (advance_osc_discard p b, offset + 1, found)
      | PDiscardEscape \<Rightarrow> (advance_osc_discard_escape p b, offset + 1, found))"

primrec advance_loop :: "(bytes \<Rightarrow> bytes option) \<Rightarrow> scan \<Rightarrow> bytes \<Rightarrow> scan" where
  "advance_loop b64 s [] = s"
| "advance_loop b64 s (b # bs) = advance_loop b64 (advance_step b64 s b) bs"

definition advance_with_offsets ::
  "(bytes \<Rightarrow> bytes option) \<Rightarrow> osc_parser \<Rightarrow> bytes \<Rightarrow> osc_parser \<times> sightings" where
  "advance_with_offsets b64 p bs =
     (case advance_loop b64 (p, 0, []) bs of (p', _, found) \<Rightarrow> (p', found))"

definition osc_advance ::
  "(bytes \<Rightarrow> bytes option) \<Rightarrow> osc_parser \<Rightarrow> bytes \<Rightarrow> osc_parser \<times> osc_evidence list" where
  "osc_advance b64 p bs = (case advance_with_offsets b64 p bs of (p', found) \<Rightarrow> (p', map fst found))"

interpretation evidence_scanner: byte_machine "advance_step b64" "advance_loop b64" for b64
  by unfold_locales simp_all


section \<open>The stream determines the evidence\<close>

definition bounded_plain :: "bytes \<Rightarrow> bool" where
  "bounded_plain payload \<longleftrightarrow>
     ESC \<notin> set payload \<and> BEL \<notin> set payload \<and> length payload \<le> MAX_SUPPORTED_OSC_PAYLOAD_BYTES"

text \<open>A complete supported control string with this evidence ends at this offset of the stream.\<close>

definition sighted_at :: "(bytes \<Rightarrow> bytes option) \<Rightarrow> bytes \<Rightarrow> osc_evidence \<Rightarrow> nat \<Rightarrow> bool" where
  "sighted_at b64 s item e \<longleftrightarrow>
     e \<le> length s \<and>
     (\<exists>pre command payload t.
        take e s = pre @ ESC # CHR '']'' # command @ CHR '';'' # payload @ t \<and>
        (t = [BEL] \<or> t = [ESC, BACKSLASH]) \<and> supported_command command \<and> bounded_plain payload \<and>
        osc_item b64 command payload = Some item)"

lemmas parser_defs =
  advance_ground_def advance_escape_def advance_osc_command_def advance_osc_command_escape_def
  advance_osc_payload_def advance_osc_payload_escape_def advance_osc_discard_def
  advance_osc_discard_escape_def parser_reset_def start_osc_def discard_osc_def
  push_command_byte_def push_payload_byte_def is_supported_command_def

text \<open>What the end of the stream is, in each state.\<close>

definition tail_inv :: "bytes \<Rightarrow> osc_parser \<Rightarrow> bool" where
  "tail_inv H p \<longleftrightarrow>
     (case op_state p of
        PCommand \<Rightarrow> (\<exists>pre. H = pre @ ESC # CHR '']'' # op_command p) \<and> op_payload p = []
      | PPayload \<Rightarrow>
          (\<exists>pre. H = pre @ ESC # CHR '']'' # op_command p @ CHR '';'' # op_payload p) \<and>
          supported_command (op_command p) \<and> bounded_plain (op_payload p)
      | PPayloadEscape \<Rightarrow>
          (\<exists>pre. H = pre @ ESC # CHR '']'' # op_command p @ CHR '';'' # op_payload p @ [ESC]) \<and>
          supported_command (op_command p) \<and> bounded_plain (op_payload p)
      | PEscape \<Rightarrow> suffix [ESC] H
      | PCommandEscape \<Rightarrow> suffix [ESC] H
      | PDiscardEscape \<Rightarrow> suffix [ESC] H
      | _ \<Rightarrow> True)"

fun sightings_inv :: "(bytes \<Rightarrow> bytes option) \<Rightarrow> bytes \<Rightarrow> scan \<Rightarrow> bool" where
  "sightings_inv b64 H (p, n, found) \<longleftrightarrow>
     n = length H \<and> tail_inv H p \<and> sorted_wrt (<) (map snd found) \<and>
     (\<forall>(item, e) \<in> set found. sighted_at b64 H item e)"

lemma sighted_at_append: "sighted_at b64 H item e \<Longrightarrow> sighted_at b64 (H @ bs) item e"
  by (simp add: sighted_at_def)

lemma sighted_at_end: "sighted_at b64 H item e \<Longrightarrow> e \<le> length H"
  by (simp add: sighted_at_def)

lemma sightings_inv_keep:
  "sightings_inv b64 H (p, n, found) \<Longrightarrow> tail_inv (H @ [b]) q \<Longrightarrow> sightings_inv b64 (H @ [b]) (q, n + 1, found)"
  by (auto intro: sighted_at_append)

lemma sightings_inv_finish:
  assumes inv: "sightings_inv b64 H (p, n, found)"
    and H: "H @ [b] = pre @ ESC # CHR '']'' # op_command p @ CHR '';'' # op_payload p @ t"
    and t: "t = [BEL] \<or> t = [ESC, BACKSLASH]"
    and ok: "supported_command (op_command p)" "bounded_plain (op_payload p)"
    and f: "finish_osc b64 p n found = (q, found')"
  shows "sightings_inv b64 (H @ [b]) (q, n + 1, found')"
proof -
  have n: "n = length H" using inv by simp
  have old: "\<forall>item e. (item, e) \<in> set found \<longrightarrow> sighted_at b64 (H @ [b]) item e \<and> e < Suc (length H)"
    using inv by (auto intro: sighted_at_append simp: less_Suc_eq_le dest!: sighted_at_end)
  have "sighted_at b64 (H @ [b]) item (n + 1)" if "osc_item b64 (op_command p) (op_payload p) = Some item" for item
    unfolding sighted_at_def
  proof (intro conjI exI)
    have "take (n + 1) (H @ [b]) = H @ [b]" using n by simp
    with H show "take (n + 1) (H @ [b]) = pre @ ESC # CHR '']'' # op_command p @ CHR '';'' # op_payload p @ t"
      by (simp only:)
  qed (use that n t ok in simp_all)
  moreover have "tail_inv (H @ [b]) q" using f by (auto simp: finish_osc_def parser_reset_def tail_inv_def)
  ultimately show ?thesis
    using inv old f n by (auto simp: finish_osc_def sorted_wrt_append split: option.splits)
qed

lemma suffix_snoc [simp]: "suffix [x] (xs @ [y]) \<longleftrightarrow> x = y"
  by (auto simp: suffix_def)

lemma start_osc_tail: "suffix [ESC] H \<Longrightarrow> tail_inv (H @ [CHR '']'']) (start_osc p)"
  by (auto simp: tail_inv_def start_osc_def suffix_def)

lemma bounded_plain_snoc:
  "bounded_plain xs \<Longrightarrow> b \<noteq> ESC \<Longrightarrow> b \<noteq> BEL \<Longrightarrow> length xs < MAX_SUPPORTED_OSC_PAYLOAD_BYTES \<Longrightarrow> bounded_plain (xs @ [b])"
  by (auto simp: bounded_plain_def)

lemma bounded_plain_Nil [simp]: "bounded_plain []"
  by (simp add: bounded_plain_def)

text \<open>The states in which no string can end.\<close>

lemma quiet_tail:
  assumes "tail_inv H p"
  shows "op_state p = PGround \<Longrightarrow> tail_inv (H @ [b]) (advance_ground p b)"
    and "op_state p = PEscape \<Longrightarrow> tail_inv (H @ [b]) (advance_escape p b)"
    and "op_state p = PCommand \<Longrightarrow> tail_inv (H @ [b]) (advance_osc_command p b)"
    and "op_state p = PCommandEscape \<Longrightarrow> tail_inv (H @ [b]) (advance_osc_command_escape p b)"
    and "op_state p = PDiscard \<Longrightarrow> tail_inv (H @ [b]) (advance_osc_discard p b)"
    and "op_state p = PDiscardEscape \<Longrightarrow> tail_inv (H @ [b]) (advance_osc_discard_escape p b)"
  using assms by (auto simp: parser_defs tail_inv_def suffix_def)

lemma payload_tail:
  assumes "tail_inv H p" and "op_state p = PPayload" and "b \<noteq> BEL"
  shows "tail_inv (H @ [b]) (if b = ESC then p\<lparr>op_state := PPayloadEscape\<rparr> else push_payload_byte p b)"
  using assms by (auto simp: tail_inv_def push_payload_byte_def discard_osc_def intro: bounded_plain_snoc)

lemma payload_escape_tail:
  assumes "tail_inv H p" and "op_state p = PPayloadEscape"
  shows "tail_inv (H @ [CHR '']'']) (start_osc p)"
    and "tail_inv (H @ [ESC]) ((parser_reset p)\<lparr>op_state := PEscape\<rparr>)"
    and "tail_inv (H @ [b]) (parser_reset p)"
proof -
  have "suffix [ESC] H" using assms by (auto simp: tail_inv_def suffix_def)
  then show "tail_inv (H @ [CHR '']'']) (start_osc p)" by (rule start_osc_tail)
qed (simp_all add: tail_inv_def parser_reset_def)

lemma advance_step_inv: "sightings_inv b64 H s \<Longrightarrow> sightings_inv b64 (H @ [b]) (advance_step b64 s b)"
proof -
  assume inv: "sightings_inv b64 H s"
  obtain p n found where s: "s = (p, n, found)" by (cases s)
  have tail: "tail_inv H p" and inv': "sightings_inv b64 H (p, n, found)" using inv s by auto
  note keep = sightings_inv_keep [OF inv']
  show ?thesis
  proof (cases "op_state p")
    case PPayload
    show ?thesis
    proof (cases "b = BEL")
      case True
      obtain q f where "finish_osc b64 p n found = (q, f)" by fastforce
      moreover obtain pre where "H @ [b] = pre @ ESC # CHR '']'' # op_command p @ CHR '';'' # op_payload p @ [BEL]"
        using tail PPayload True by (auto simp: tail_inv_def)
      ultimately show ?thesis
        using sightings_inv_finish [OF inv'] tail PPayload True s by (auto simp: tail_inv_def advance_osc_payload_def)
    next
      case False
      then show ?thesis
        using keep [OF payload_tail [OF tail PPayload False]] s PPayload by (auto simp: advance_osc_payload_def)
    qed
  next
    case PPayloadEscape
    show ?thesis
    proof (cases "b = BACKSLASH")
      case True
      obtain q f where "finish_osc b64 p n found = (q, f)" by fastforce
      moreover obtain pre where
        "H @ [b] = pre @ ESC # CHR '']'' # op_command p @ CHR '';'' # op_payload p @ [ESC, BACKSLASH]"
        using tail PPayloadEscape True by (auto simp: tail_inv_def)
      ultimately show ?thesis
        using sightings_inv_finish [OF inv'] tail PPayloadEscape True s
        by (auto simp: tail_inv_def advance_osc_payload_escape_def)
    next
      case False
      then show ?thesis
        using keep payload_escape_tail [OF tail PPayloadEscape] s PPayloadEscape
        by (auto simp: advance_osc_payload_escape_def simp del: sightings_inv.simps)
    qed
  qed (use keep quiet_tail [OF tail] s in \<open>simp_all del: sightings_inv.simps\<close>)
qed

text \<open>A complete control string is sighted from every state: its introducer always resynchronises.\<close>

lemma feed_osc_start:
  "advance_loop b64 (p, n, found) [ESC, CHR '']''] =
     (\<lparr>op_state = PCommand, op_command = [], op_payload = []\<rparr>, n + 2, found)"
  by (cases "op_state p") (simp_all add: parser_defs advance_osc_payload_def)

lemma feed_supported:
  "supported_command c \<Longrightarrow>
     advance_loop b64 (\<lparr>op_state = PCommand, op_command = [], op_payload = []\<rparr>, n, found) (c @ [CHR '';'']) =
       (\<lparr>op_state = PPayload, op_command = c, op_payload = []\<rparr>, n + length c + 1, found)"
  by (auto simp: supported_command_def PROGRAM_STATUS_COMMAND_def parser_defs MAX_OSC_COMMAND_BYTES_def)

lemma feed_plain:
  "bounded_plain (acc @ payload) \<Longrightarrow>
     advance_loop b64 (\<lparr>op_state = PPayload, op_command = c, op_payload = acc\<rparr>, n, found) payload =
       (\<lparr>op_state = PPayload, op_command = c, op_payload = acc @ payload\<rparr>, n + length payload, found)"
proof (induction payload arbitrary: acc n)
  case (Cons b payload)
  have "bounded_plain ((acc @ [b]) @ payload)" using Cons.prems by simp
  from Cons.IH [OF this, of "n + 1"] Cons.prems show ?case
    by (auto simp: advance_osc_payload_def push_payload_byte_def bounded_plain_def)
qed simp

lemma feed_terminator:
  "t = [BEL] \<or> t = [ESC, BACKSLASH] \<Longrightarrow> osc_item b64 c payload = Some item \<Longrightarrow>
     advance_loop b64 (\<lparr>op_state = PPayload, op_command = c, op_payload = payload\<rparr>, n, found) t =
       (parser_new, n + length t, found @ [(item, n + length t)])"
  by (auto simp: advance_osc_payload_def advance_osc_payload_escape_def finish_osc_def parser_reset_def parser_new_def)

lemma feed_sequence:
  assumes "supported_command c" and "bounded_plain payload" and "t = [BEL] \<or> t = [ESC, BACKSLASH]"
    and "osc_item b64 c payload = Some item"
  shows "advance_loop b64 (p, n, found) (ESC # CHR '']'' # c @ CHR '';'' # payload @ t) =
    (parser_new, n + length c + length payload + length t + 3,
     found @ [(item, n + length c + length payload + length t + 3)])"
proof -
  let ?q = "\<lparr>op_state = PPayload, op_command = c, op_payload = payload\<rparr>"
  have split: "ESC # CHR '']'' # c @ CHR '';'' # payload @ t = [ESC, CHR '']''] @ (c @ [CHR '';'']) @ payload @ t" by simp
  have cmd: "advance_loop b64 (p, n, found) (ESC # CHR '']'' # c @ CHR '';'' # payload @ t) =
      advance_loop b64 (\<lparr>op_state = PPayload, op_command = c, op_payload = []\<rparr>, n + 2 + length c + 1, found) (payload @ t)"
    unfolding split evidence_scanner.feed_append [of _ _ "[ESC, CHR '']'']"]
      evidence_scanner.feed_append [of _ _ "c @ [CHR '';'']"] feed_osc_start feed_supported [OF assms(1)] ..
  have "advance_loop b64 (\<lparr>op_state = PPayload, op_command = c, op_payload = []\<rparr>, n + 2 + length c + 1, found) (payload @ t) =
      advance_loop b64 (?q, n + 2 + length c + 1 + length payload, found) t"
    using feed_plain [of "[]" payload] assms(2) by (simp add: evidence_scanner.feed_append)
  with feed_terminator [OF assms(3,4)] cmd show ?thesis by (simp add: algebra_simps)
qed

text \<open>Nothing that was sighted is forgotten.\<close>

lemma advance_step_found: "\<exists>more. snd (snd (advance_step b64 (p, n, found) b)) = found @ more"
  by (auto simp: parser_defs finish_osc_def advance_osc_payload_def advance_osc_payload_escape_def
      split: parser_state.splits option.splits)

lemma advance_loop_found: "set (snd (snd s)) \<subseteq> set (snd (snd (advance_loop b64 s bs)))"
proof (induction bs arbitrary: s)
  case (Cons b bs)
  obtain p n found where "s = (p, n, found)" by (cases s)
  then show ?case using advance_step_found [of b64 p n found b] Cons.IH [of "advance_step b64 s b"] by fastforce
qed simp

lemma advance_loop_count: "fst (snd (advance_loop b64 (p, n, found) bs)) = n + length bs"
proof (induction bs arbitrary: p n found)
  case (Cons b bs)
  obtain q f where "advance_step b64 (p, n, found) b = (q, n + 1, f)"
    by (cases "op_state p") (auto simp: case_prod_unfold)
  then show ?case using Cons.IH [of q "n + 1" f] by simp
qed simp

lemma scan_exact:
  assumes "advance_loop b64 (parser_new, 0, []) s = (p, n, found)"
  shows "sorted_wrt (<) (map snd found) \<and> (\<forall>item e. (item, e) \<in> set found \<longleftrightarrow> sighted_at b64 s item e)"
proof -
  have "sightings_inv b64 [] (parser_new, 0, [])" by (simp add: tail_inv_def parser_new_def)
  from evidence_scanner.feed_history [of "sightings_inv b64" b64, OF advance_step_inv this, of s] assms
  have inv: "sightings_inv b64 s (p, n, found)" by simp
  moreover have "(item, e) \<in> set found" if at: "sighted_at b64 s item e" for item e
  proof -
    obtain pre command payload t where e: "e \<le> length s"
      and pre: "take e s = pre @ ESC # CHR '']'' # command @ CHR '';'' # payload @ t"
      and ok: "supported_command command" "bounded_plain payload" "t = [BEL] \<or> t = [ESC, BACKSLASH]"
        "osc_item b64 command payload = Some item"
      using at by (auto simp: sighted_at_def)
    obtain q f where q: "advance_loop b64 (parser_new, 0, []) pre = (q, length pre, f)"
      using advance_loop_count [of b64 parser_new 0 "[]" pre] by (cases "advance_loop b64 (parser_new, 0, []) pre") auto
    have "e = length (take e s)" using e by simp
    then have end_at: "length pre + length command + length payload + length t + 3 = e" using pre by (simp del: length_take)
    have "advance_loop b64 (parser_new, 0, []) (take e s) = (parser_new, e, f @ [(item, e)])"
      by (simp only: pre evidence_scanner.feed_append q feed_sequence [OF ok] end_at)
    then have "advance_loop b64 (parser_new, e, f @ [(item, e)]) (drop e s) = (p, n, found)"
      using assms evidence_scanner.feed_append [of b64 "(parser_new, 0, [])" "take e s" "drop e s"] by simp
    then show ?thesis using advance_loop_found [of "(parser_new, e, f @ [(item, e)])" b64 "drop e s"] by simp
  qed
  ultimately show ?thesis by auto
qed

section \<open>Fragments\<close>

text \<open>The evidence of a stream that arrives in fragments, with offsets into the whole stream.\<close>

primrec osc_stream :: "(bytes \<Rightarrow> bytes option) \<Rightarrow> osc_parser \<Rightarrow> nat \<Rightarrow> bytes list \<Rightarrow> sightings" where
  "osc_stream b64 p base [] = []"
| "osc_stream b64 p base (f # fs) =
     (case advance_with_offsets b64 p f of (p', found) \<Rightarrow>
        map (\<lambda>(item, e). (item, base + e)) found @ osc_stream b64 p' (base + length f) fs)"

fun shift_scan :: "nat \<Rightarrow> sightings \<Rightarrow> scan \<Rightarrow> scan" where
  "shift_scan m old (p, n, found) = (p, m + n, old @ map (\<lambda>(item, e). (item, m + e)) found)"

lemma advance_step_shift: "advance_step b64 (shift_scan m old s) b = shift_scan m old (advance_step b64 s b)"
  by (cases s) (auto simp: advance_osc_payload_def advance_osc_payload_escape_def finish_osc_def
      split: parser_state.splits option.splits)

lemma advance_loop_shift: "advance_loop b64 (shift_scan m old s) bs = shift_scan m old (advance_loop b64 s bs)"
  by (induction bs arbitrary: s) (simp_all only: advance_loop.simps advance_step_shift)

lemma osc_stream_scan:
  "snd (snd (advance_loop b64 (p, base, old) (concat frags))) = old @ osc_stream b64 p base frags"
proof (induction frags arbitrary: p base old)
  case (Cons f fs)
  obtain q k found where q: "advance_loop b64 (p, 0, []) f = (q, k, found)" by (cases "advance_loop b64 (p, 0, []) f")
  then have "k = length f" using advance_loop_count [of b64 p 0 "[]" f] by simp
  moreover have "advance_loop b64 (p, base, old) f = shift_scan base old (q, k, found)"
    using advance_loop_shift [of b64 base old "(p, 0, [])" f] q by simp
  ultimately show ?case
    using Cons.IH [of q "base + length f" "old @ map (\<lambda>(item, e). (item, base + e)) found"] q
    by (simp add: evidence_scanner.feed_append advance_with_offsets_def)
qed simp

section \<open>Encoded paths\<close>

definition hex_digit :: "nat \<Rightarrow> byte" where
  "hex_digit n = (if n < 10 then char_of (48 + n) else char_of (55 + n))"

definition percent_encode :: "(byte \<Rightarrow> bool) \<Rightarrow> bytes \<Rightarrow> bytes" where
  "percent_encode keep path =
     concat (map (\<lambda>b. if keep b then [b] else [CHR ''%'', hex_digit (byte_val b div 16), hex_digit (byte_val b mod 16)]) path)"

lemma hex_nibble_digit: "n < 16 \<Longrightarrow> hex_nibble (hex_digit n) = Some n"
  by (simp add: hex_nibble_def hex_digit_def Let_def)

lemma hex_digit_plain: "n < 16 \<Longrightarrow> hex_digit n \<noteq> ESC \<and> hex_digit n \<noteq> BEL"
proof -
  assume "n < 16"
  then have "48 \<le> byte_val (hex_digit n)" by (simp add: hex_digit_def)
  then show ?thesis by auto
qed

lemma percent_decode_encode:
  "\<not> keep (CHR ''%'') \<Longrightarrow> percent_decode_from (pre @ percent_encode keep path) (length pre) = path"
proof (induction path arbitrary: pre)
  case Nil
  then show ?case by (simp add: percent_encode_def percent_decode_from.simps)
next
  case (Cons b path)
  let ?rest = "percent_encode keep path"
  show ?case
  proof (cases "keep b")
    case True
    with Cons.prems have "b \<noteq> CHR ''%''" by auto
    then show ?thesis
      using True Cons.IH [OF Cons.prems, of "pre @ [b]"]
      by (subst percent_decode_from.simps) (simp add: percent_encode_def)
  next
    case False
    let ?h = "hex_digit (byte_val b div 16)" and ?l = "hex_digit (byte_val b mod 16)"
    have "byte_val b div 16 < 16" using nat_of_char_less_256 [of b] by (simp add: less_mult_imp_div_less)
    then have "hex_nibble ?h = Some (byte_val b div 16)" "hex_nibble ?l = Some (byte_val b mod 16)"
      by (simp_all add: hex_nibble_digit)
    moreover have "(pre @ CHR ''%'' # ?h # ?l # ?rest) ! Suc (length pre) = ?h"
      "(pre @ CHR ''%'' # ?h # ?l # ?rest) ! Suc (Suc (length pre)) = ?l" by (simp_all add: nth_append)
    ultimately show ?thesis
      using False Cons.IH [OF Cons.prems, of "pre @ [CHR ''%'', ?h, ?l]"]
      by (subst percent_decode_from.simps) (simp add: percent_encode_def PERCENT_HEX_DIGITS_def)
  qed
qed

lemma parse_encoded_url:
  assumes "\<not> keep (CHR ''%'')" and "keep (CHR ''/'')" and "CHR ''/'' \<notin> set host" and "is_utf8 (CHR ''/'' # path)"
  shows "parse_file_url_cwd (FILE_URL_PREFIX @ host @ percent_encode keep (CHR ''/'' # path)) = Some (CHR ''/'' # path)"
proof -
  let ?enc = "percent_encode keep (CHR ''/'' # path)"
  have enc: "?enc = CHR ''/'' # percent_encode keep path" using assms(2) by (simp add: percent_encode_def)
  have "dropWhile (\<lambda>b. b \<noteq> CHR ''/'') (host @ ?enc) = ?enc"
    using assms(3) enc by (subst dropWhile_append2) auto
  moreover have "percent_decode ?enc = CHR ''/'' # path"
    using percent_decode_encode [of keep "[]" "CHR ''/'' # path"] assms(1) by (simp add: percent_decode_def)
  ultimately show ?thesis
    using enc assms(4) by (simp add: parse_file_url_cwd_def Let_def from_utf8_lossy_valid)
qed

lemma percent_encode_plain:
  assumes "\<not> keep ESC" and "\<not> keep BEL"
  shows "ESC \<notin> set (percent_encode keep path) \<and> BEL \<notin> set (percent_encode keep path)"
proof -
  have "byte_val b div 16 < 16" for b :: byte using nat_of_char_less_256 [of b] by (simp add: less_mult_imp_div_less)
  then have "hex_digit (byte_val b div 16) \<noteq> ESC \<and> hex_digit (byte_val b div 16) \<noteq> BEL \<and>
      hex_digit (byte_val b mod 16) \<noteq> ESC \<and> hex_digit (byte_val b mod 16) \<noteq> BEL" for b :: byte
    using hex_digit_plain [of "byte_val b div 16"] hex_digit_plain [of "byte_val b mod 16"] by simp
  then show ?thesis using assms by (auto simp: percent_encode_def split: if_splits) metis+
qed

section \<open>Guarantees\<close>

text \<open>
  C33.  Whatever the fragments the output arrives in, the evidence the parser returns is exactly the
  complete supported control strings of the stream, in stream order and at the offset where each of
  them ends: nothing else is reported, and none of them is missed, not even one that begins inside
  another string.
\<close>

theorem osc_evidence_exact:
  "sorted_wrt (<) (map snd (osc_stream b64 parser_new 0 frags)) \<and>
   (\<forall>item e. (item, e) \<in> set (osc_stream b64 parser_new 0 frags) \<longleftrightarrow> sighted_at b64 (concat frags) item e)"
proof -
  obtain p n found where loop: "advance_loop b64 (parser_new, 0, []) (concat frags) = (p, n, found)"
    by (cases "advance_loop b64 (parser_new, 0, []) (concat frags)")
  then have "found = osc_stream b64 parser_new 0 frags"
    using osc_stream_scan [of b64 parser_new 0 "[]" frags] by simp
  with scan_exact [OF loop] show ?thesis by simp
qed

text \<open>
  A working directory that a program reports as a percent-encoded file URL is read back as the
  same path, from any state of the parser and for every encoder that escapes the percent sign and the
  string terminators, as long as the URL fits the payload bound.
\<close>

theorem cwd_report_roundtrip:
  assumes keep: "\<not> keep (CHR ''%'')" "\<not> keep ESC" "\<not> keep BEL" "keep (CHR ''/'')"
    and host: "CHR ''/'' \<notin> set host" "ESC \<notin> set host" "BEL \<notin> set host"
    and path: "is_utf8 (CHR ''/'' # path)"
    and url: "url = FILE_URL_PREFIX @ host @ percent_encode keep (CHR ''/'' # path)"
    and fits: "length url \<le> MAX_SUPPORTED_OSC_PAYLOAD_BYTES"
  shows "osc_advance b64 p (ESC # '']7;'' @ url @ [BEL]) = (parser_new, [Cwd (CHR ''/'' # path)])"
proof -
  have plain: "bounded_plain url"
    using percent_encode_plain [OF keep(2,3), of "CHR ''/'' # path"] host fits
    unfolding url bounded_plain_def by (auto simp: FILE_URL_PREFIX_def)
  have "osc_item b64 ''7'' url = Some (Cwd (CHR ''/'' # path))"
    using parse_encoded_url [OF keep(1,4) host(1) path] by (simp add: osc_item_def url)
  with feed_sequence [of "''7''" url "[BEL]" b64 _ p 0 "[]"] plain show ?thesis
    by (simp add: osc_advance_def advance_with_offsets_def supported_command_def)
qed

theorem cwd_report_roundtrip_witness:
  "osc_advance (\<lambda>_. None) parser_new (ESC # '']7;'' @ ''file://host/a%20b'' @ [BEL]) = (parser_new, [Cwd ''/a b''])"
proof -
  have "percent_encode (\<lambda>b. is_ascii_alphanumeric b \<or> b = CHR ''/'') ''/a b'' = ''/a%20b''" by code_simp
  then show ?thesis
    using cwd_report_roundtrip [of "\<lambda>b. is_ascii_alphanumeric b \<or> b = CHR ''/''" "''host''" "''a b''"
        "''file://host/a%20b''" "\<lambda>_. None" parser_new]
    by (simp add: byte_class_defs is_ascii_def FILE_URL_PREFIX_def MAX_SUPPORTED_OSC_PAYLOAD_BYTES_def)
qed

end
