(* ===== verification/Detect_Manifest.thy ===== *)
theory Detect_Manifest
  imports Detect_Machine Program_Status
begin

text \<open>
  Detection manifests (\<open>crates/daemon/src/detect/manifest\<close>): the compiler from the decoded document
  to rules with a complexity budget (\<open>parser.rs\<close>), the matcher with its cache of lowercased regions
  (\<open>matcher.rs\<close>), and the choice of the winning rule (\<open>mod.rs\<close>).  The TOML decoder, the regular
  expression engine and Unicode lowercasing are the record parameter \<open>env\<close>.
\<close>

section \<open>Limits and errors\<close>

definition MAX_RULES :: nat where "MAX_RULES = 128"
definition MAX_GATES :: nat where "MAX_GATES = 512"
definition MAX_MATCHERS :: nat where "MAX_MATCHERS = 1024"
definition MAX_DEPTH :: nat where "MAX_DEPTH = 8"
definition MAX_SOURCE_BYTES :: nat where "MAX_SOURCE_BYTES = 256 * 1024"
definition MAX_MATCHER_BYTES :: nat where "MAX_MATCHER_BYTES = 4096"
definition PROCESS_COMM_MATCHER_ID :: bytes where "PROCESS_COMM_MATCHER_ID = ''process.comm''"
definition PROCESS_CMDLINE_MATCHER_ID :: bytes where "PROCESS_CMDLINE_MATCHER_ID = ''process.cmdline''"

datatype matcher_kind = KindContains | KindRegex | KindLineRegex

datatype ('t, 'e) manifest_error =
    TomlError 't
  | SourceTooLarge nat nat
  | TooManyRules nat nat
  | TooManyGates nat nat
  | TooManyMatchers nat nat
  | MaxDepthExceeded nat nat
  | InvalidState bytes bytes
  | InvalidRegion bytes bytes
  | MissingGate bytes
  | InvalidRegex bytes bytes 'e
  | MatcherTooLong bytes matcher_kind nat nat
  | EmptyMatcher bytes matcher_kind
  | InvalidProgramStatusApp bytes
  | OverrideWithoutProgramStatus bytes

section \<open>Regions\<close>

datatype manifest_region =
    RegOscTitle
  | RegOscProgress
  | WholeRecent
  | BottomLines nat
  | BottomNonEmptyLines nat
  | TopNonEmptyLines nat
  | LastNonEmptyAbovePromptBox
  | AfterLastPromptMarker
  | PromptBoxBody
  | AfterLastHorizontalRule

datatype detection_region_kind =
    KindOscTitle
  | KindOscProgress
  | KindWholeRecent
  | KindBottomLines
  | KindBottomNonEmptyLines
  | KindTopNonEmptyLines
  | KindLastNonEmptyAbovePromptBox
  | KindAfterLastPromptMarker
  | KindPromptBoxBody
  | KindAfterLastHorizontalRule
  | KindProgramStatus
  | KindUnknown

fun region_kind :: "manifest_region \<Rightarrow> detection_region_kind" where
  "region_kind RegOscTitle = KindOscTitle"
| "region_kind RegOscProgress = KindOscProgress"
| "region_kind WholeRecent = KindWholeRecent"
| "region_kind (BottomLines _) = KindBottomLines"
| "region_kind (BottomNonEmptyLines _) = KindBottomNonEmptyLines"
| "region_kind (TopNonEmptyLines _) = KindTopNonEmptyLines"
| "region_kind LastNonEmptyAbovePromptBox = KindLastNonEmptyAbovePromptBox"
| "region_kind AfterLastPromptMarker = KindAfterLastPromptMarker"
| "region_kind PromptBoxBody = KindPromptBoxBody"
| "region_kind AfterLastHorizontalRule = KindAfterLastHorizontalRule"

fun region_to_string :: "manifest_region \<Rightarrow> bytes" where
  "region_to_string RegOscTitle = ''osc_title''"
| "region_to_string RegOscProgress = ''osc_progress''"
| "region_to_string WholeRecent = ''whole_recent''"
| "region_to_string (BottomLines n) = ''bottom_lines('' @ show_nat n @ '')''"
| "region_to_string (BottomNonEmptyLines n) = ''bottom_non_empty_lines('' @ show_nat n @ '')''"
| "region_to_string (TopNonEmptyLines n) = ''top_non_empty_lines('' @ show_nat n @ '')''"
| "region_to_string LastNonEmptyAbovePromptBox = ''last_non_empty_above_prompt_box''"
| "region_to_string AfterLastPromptMarker = ''after_last_prompt_marker''"
| "region_to_string PromptBoxBody = ''prompt_box_body''"
| "region_to_string AfterLastHorizontalRule = ''after_last_horizontal_rule''"

definition parse_region_count :: "bytes \<Rightarrow> bytes \<Rightarrow> nat option" where
  "parse_region_count v name =
     Option.bind (strip_prefix name v) (\<lambda>a.
     Option.bind (strip_prefix ''('' a) (\<lambda>b.
     Option.bind (strip_suffix '')'' b) parse_u64))"

definition parse_parameterized_region :: "bytes \<Rightarrow> manifest_region option" where
  "parse_parameterized_region v =
     (case parse_region_count v ''bottom_lines'' of
        Some n \<Rightarrow> Some (BottomLines n)
      | None \<Rightarrow>
          (case parse_region_count v ''bottom_non_empty_lines'' of
             Some n \<Rightarrow> Some (BottomNonEmptyLines n)
           | None \<Rightarrow> map_option TopNonEmptyLines (parse_region_count v ''top_non_empty_lines'')))"

definition region_from_str :: "bytes \<Rightarrow> (unit, manifest_region) result" where
  "region_from_str v =
     (if v = ''osc_title'' then Ok RegOscTitle
      else if v = ''osc_progress'' then Ok RegOscProgress
      else if v = ''whole_recent'' then Ok WholeRecent
      else if v = ''after_last_prompt_marker'' then Ok AfterLastPromptMarker
      else if v = ''prompt_box_body'' then Ok PromptBoxBody
      else if v = ''after_last_horizontal_rule'' then Ok AfterLastHorizontalRule
      else if v = ''last_non_empty_above_prompt_box'' then Ok LastNonEmptyAbovePromptBox
      else (case parse_parameterized_region v of None \<Rightarrow> Err () | Some r \<Rightarrow> Ok r))"

section \<open>The decoded document\<close>

datatype matcher_input = One bytes | Many "bytes list"

fun into_vec :: "matcher_input \<Rightarrow> bytes list" where
  "into_vec (One v) = [v]"
| "into_vec (Many vs) = vs"

datatype raw_gate = RawGate
  (rg_contains: "matcher_input option")
  (rg_regex: "matcher_input option")
  (rg_line_regex: "matcher_input option")
  (rg_all: "raw_gate list option")
  (rg_any: "raw_gate list option")
  (rg_not: "raw_gate option")

record raw_rule =
  rr_id :: bytes
  rr_state :: bytes
  rr_priority :: int
  rr_region :: bytes
  rr_contains :: "matcher_input option"
  rr_regex :: "matcher_input option"
  rr_line_regex :: "matcher_input option"
  rr_all :: "raw_gate list option"
  rr_any :: "raw_gate list option"
  rr_not :: "raw_gate option"
  rr_gates :: "raw_gate option"
  rr_visible_blocker :: "bool option"
  rr_overrides_program_status :: "bool option"

record raw_process_section =
  rp_comm :: "matcher_input option"
  rp_cmdline :: "matcher_input option"

record raw_program_status =
  rps_app :: bytes
  rps_answer_probe :: "bool option"

record raw_manifest =
  rm_rules :: "raw_rule list"
  rm_process :: "raw_process_section option"
  rm_program_status :: "raw_program_status option"

record ('t, 'e, 'r) manifest_env =
  env_toml :: "bytes \<Rightarrow> ('t, raw_manifest) result"
  env_regex_new :: "bytes \<Rightarrow> ('e, 'r) result"
  env_is_match :: "'r \<Rightarrow> bytes \<Rightarrow> bool"
  env_lowercase :: "bytes \<Rightarrow> bytes"

section \<open>Rules\<close>

datatype 'r gate =
    GateContains bytes
  | GateRegex 'r
  | GateLineRegex 'r
  | GateAll "'r gate list"
  | GateAny "'r gate list"
  | GateNot "'r gate"

fun has_matcher :: "'r gate \<Rightarrow> bool" where
  "has_matcher (GateContains _) = True"
| "has_matcher (GateRegex _) = True"
| "has_matcher (GateLineRegex _) = True"
| "has_matcher (GateAll gs) = list_ex has_matcher gs"
| "has_matcher (GateAny gs) = list_ex has_matcher gs"
| "has_matcher (GateNot g) = has_matcher g"

record 'r rule =
  rule_id :: bytes
  rule_activity :: agent_activity
  rule_priority :: int
  rule_region :: manifest_region
  rule_visible_blocker :: bool
  rule_overrides_program_status :: bool
  rule_gate :: "'r gate"

record 'r process_matchers =
  pm_comm :: "'r list"
  pm_cmdline :: "'r list"

record program_status_config =
  psc_app :: bytes
  psc_answer_probe :: bool

record 'r manifest =
  mf_rules :: "'r rule list"
  mf_process :: "'r process_matchers option"
  mf_program_status :: "program_status_config option"
  mf_source :: bytes
  mf_latches_working :: bool

section \<open>The complexity budget\<close>

record budget =
  cb_gates :: nat
  cb_matchers :: nat

definition budget_default :: budget where
  "budget_default = \<lparr>cb_gates = 0, cb_matchers = 0\<rparr>"

definition check_depth :: "nat \<Rightarrow> (('t, 'e) manifest_error, unit) result" where
  "check_depth depth = (if MAX_DEPTH < depth then Err (MaxDepthExceeded depth MAX_DEPTH) else Ok ())"

definition note_gate :: "budget \<Rightarrow> nat \<Rightarrow> (('t, 'e) manifest_error, budget) result" where
  "note_gate b depth =
     and_then (check_depth depth) (\<lambda>_.
       if MAX_GATES < cb_gates b + 1 then Err (TooManyGates (cb_gates b + 1) MAX_GATES)
       else Ok (b\<lparr>cb_gates := cb_gates b + 1\<rparr>))"

definition note_matcher :: "budget \<Rightarrow> nat \<Rightarrow> (('t, 'e) manifest_error, budget) result" where
  "note_matcher b depth =
     and_then (check_depth depth) (\<lambda>_.
       if MAX_MATCHERS < cb_matchers b + 1 then Err (TooManyMatchers (cb_matchers b + 1) MAX_MATCHERS)
       else Ok (b\<lparr>cb_matchers := cb_matchers b + 1\<rparr>))"

section \<open>The compiler\<close>

text \<open>The budget a failed step leaves behind is never read, so an error carries none.\<close>

type_synonym ('t, 'e, 'a) compiled = "(('t, 'e) manifest_error, 'a \<times> budget) result"

definition check_matcher_value ::
  "bytes \<Rightarrow> matcher_kind \<Rightarrow> bytes \<Rightarrow> (('t, 'e) manifest_error, unit) result" where
  "check_matcher_value rid kind v =
     (if v = [] then Err (EmptyMatcher rid kind)
      else if MAX_MATCHER_BYTES < length v then Err (MatcherTooLong rid kind (length v) MAX_MATCHER_BYTES)
      else Ok ())"

definition compile_regex ::
  "('t, 'e, 'r) manifest_env \<Rightarrow> bytes \<Rightarrow> bytes \<Rightarrow> (('t, 'e) manifest_error, 'r) result" where
  "compile_regex env rid pattern =
     (case env_regex_new env pattern of Inl e \<Rightarrow> Err (InvalidRegex rid pattern e) | Inr r \<Rightarrow> Ok r)"

text \<open>The loop over the values of one matcher key.\<close>

fun push_matchers ::
  "bytes \<Rightarrow> matcher_kind \<Rightarrow> (bytes \<Rightarrow> (('t, 'e) manifest_error, 'a) result) \<Rightarrow> nat \<Rightarrow>
   bytes list \<Rightarrow> budget \<Rightarrow> ('t, 'e, 'a list) compiled" where
  "push_matchers rid kind mk depth [] b = Ok ([], b)"
| "push_matchers rid kind mk depth (v # vs) b =
     and_then (check_matcher_value rid kind v) (\<lambda>_.
     and_then (note_matcher b depth) (\<lambda>b1.
     and_then (mk v) (\<lambda>g.
     and_then (push_matchers rid kind mk depth vs b1) (\<lambda>(gs, b2). Ok (g # gs, b2)))))"

definition matcher_values :: "matcher_input option \<Rightarrow> bytes list" where
  "matcher_values input = (case input of None \<Rightarrow> [] | Some i \<Rightarrow> into_vec i)"

definition push_matcher_parts ::
  "('t, 'e, 'r) manifest_env \<Rightarrow> bytes \<Rightarrow> matcher_input option \<Rightarrow> matcher_input option \<Rightarrow>
   matcher_input option \<Rightarrow> nat \<Rightarrow> budget \<Rightarrow> ('t, 'e, 'r gate list) compiled" where
  "push_matcher_parts env rid contains regex line_regex depth b =
     and_then (push_matchers rid KindContains (\<lambda>v. Ok (GateContains (env_lowercase env v))) depth
       (matcher_values contains) b) (\<lambda>(cs, b1).
     and_then (push_matchers rid KindRegex (\<lambda>v. and_then (compile_regex env rid v) (\<lambda>r. Ok (GateRegex r))) depth
       (matcher_values regex) b1) (\<lambda>(rs, b2).
     and_then (push_matchers rid KindLineRegex (\<lambda>v. and_then (compile_regex env rid v) (\<lambda>r. Ok (GateLineRegex r))) depth
       (matcher_values line_regex) b2) (\<lambda>(ls, b3). Ok (cs @ rs @ ls, b3))))"

definition finish_gate_parts ::
  "bytes \<Rightarrow> 'r gate list \<Rightarrow> nat \<Rightarrow> budget \<Rightarrow> ('t, 'e, 'r gate) compiled" where
  "finish_gate_parts rid parts depth b =
     (case parts of
        [] \<Rightarrow> Err (MissingGate rid)
      | [g] \<Rightarrow> if has_matcher g then Ok (g, b) else Err (MissingGate rid)
      | _ \<Rightarrow>
          if \<not> list_ex has_matcher parts then Err (MissingGate rid)
          else and_then (note_gate b depth) (\<lambda>b1. Ok (GateAll parts, b1)))"

text \<open>The \<open>all\<close> and \<open>any\<close> keys: a list of children, each compiled one level deeper.\<close>

function (sequential) compile_raw_gate ::
    "('t, 'e, 'r) manifest_env \<Rightarrow> bytes \<Rightarrow> raw_gate \<Rightarrow> nat \<Rightarrow> budget \<Rightarrow> ('t, 'e, 'r gate) compiled"
  and collect_gate_parts ::
    "('t, 'e, 'r) manifest_env \<Rightarrow> bytes \<Rightarrow> raw_gate \<Rightarrow> nat \<Rightarrow> budget \<Rightarrow> ('t, 'e, 'r gate list) compiled"
  and compile_child_gates ::
    "('t, 'e, 'r) manifest_env \<Rightarrow> bytes \<Rightarrow> raw_gate list \<Rightarrow> nat \<Rightarrow> budget \<Rightarrow> ('t, 'e, 'r gate list) compiled"
where
  "compile_raw_gate env rid raw depth b =
     and_then (collect_gate_parts env rid raw depth b) (\<lambda>(parts, b1). finish_gate_parts rid parts depth b1)"
| "collect_gate_parts env rid (RawGate contains regex line_regex every some neg) depth b =
     and_then (push_matcher_parts env rid contains regex line_regex depth b) (\<lambda>(parts, b1).
     and_then
       (case every of
          None \<Rightarrow> Ok (parts, b1)
        | Some children \<Rightarrow>
            if children = [] then Err (MissingGate rid)
            else and_then (note_gate b1 depth) (\<lambda>b2.
                 and_then (compile_child_gates env rid children (depth + 1) b2) (\<lambda>(gs, b3).
                   Ok (parts @ [GateAll gs], b3)))) (\<lambda>(parts, b1).
     and_then
       (case some of
          None \<Rightarrow> Ok (parts, b1)
        | Some children \<Rightarrow>
            if children = [] then Err (MissingGate rid)
            else and_then (note_gate b1 depth) (\<lambda>b2.
                 and_then (compile_child_gates env rid children (depth + 1) b2) (\<lambda>(gs, b3).
                   Ok (parts @ [GateAny gs], b3)))) (\<lambda>(parts, b1).
     (case neg of
        None \<Rightarrow> Ok (parts, b1)
      | Some child \<Rightarrow>
          and_then (note_gate b1 depth) (\<lambda>b2.
          and_then (compile_raw_gate env rid child (depth + 1) b2) (\<lambda>(g, b3).
            Ok (parts @ [GateNot g], b3)))))))"
| "compile_child_gates env rid [] depth b = Ok ([], b)"
| "compile_child_gates env rid (c # cs) depth b =
     and_then (compile_raw_gate env rid c depth b) (\<lambda>(g, b1).
     and_then (compile_child_gates env rid cs depth b1) (\<lambda>(gs, b2). Ok (g # gs, b2)))"
  by pat_completeness auto
termination
  by (relation
      "measure (\<lambda>x. case x of
         Inl (_, _, raw, _) \<Rightarrow> 2 * size raw + 1
       | Inr (Inl (_, _, raw, _)) \<Rightarrow> 2 * size raw
       | Inr (Inr (_, _, cs, _)) \<Rightarrow> 2 * size_list size cs + 1)") auto

definition parse_activity :: "bytes \<Rightarrow> bytes \<Rightarrow> (('t, 'e) manifest_error, agent_activity) result" where
  "parse_activity rid state =
     (if state = ''working'' then Ok Working
      else if state = ''blocked'' then Ok Blocked
      else if state = ''idle'' then Ok Idle
      else Err (InvalidState rid state))"

definition compile_rule_gate ::
  "('t, 'e, 'r) manifest_env \<Rightarrow> bytes \<Rightarrow> raw_gate \<Rightarrow> raw_gate option \<Rightarrow> budget \<Rightarrow> ('t, 'e, 'r gate) compiled" where
  "compile_rule_gate env rid inline_gate gates b =
     and_then (collect_gate_parts env rid inline_gate 1 b) (\<lambda>(parts, b1).
     and_then
       (case gates of
          None \<Rightarrow> Ok (parts, b1)
        | Some raw \<Rightarrow> and_then (compile_raw_gate env rid raw 1 b1) (\<lambda>(g, b2). Ok (parts @ [g], b2)))
       (\<lambda>(parts, b2). finish_gate_parts rid parts 1 b2))"

definition rule_try_from_raw ::
  "('t, 'e, 'r) manifest_env \<Rightarrow> raw_rule \<Rightarrow> budget \<Rightarrow> ('t, 'e, 'r rule) compiled" where
  "rule_try_from_raw env raw b =
     and_then (parse_activity (rr_id raw) (rr_state raw)) (\<lambda>activity.
     and_then
       (case region_from_str (rr_region raw) of
          Inl _ \<Rightarrow> Err (InvalidRegion (rr_id raw) (rr_region raw)) | Inr region \<Rightarrow> Ok region) (\<lambda>region.
     and_then
       (compile_rule_gate env (rr_id raw)
          (RawGate (rr_contains raw) (rr_regex raw) (rr_line_regex raw) (rr_all raw) (rr_any raw) (rr_not raw))
          (rr_gates raw) b) (\<lambda>(g, b1).
     Ok (\<lparr>rule_id = rr_id raw, rule_activity = activity, rule_priority = rr_priority raw, rule_region = region,
          rule_visible_blocker = unwrap_or (rr_visible_blocker raw) False,
          rule_overrides_program_status = unwrap_or (rr_overrides_program_status raw) False,
          rule_gate = g\<rparr>, b1))))"

definition compile_process_regexes ::
  "('t, 'e, 'r) manifest_env \<Rightarrow> bytes \<Rightarrow> matcher_input option \<Rightarrow> budget \<Rightarrow> ('t, 'e, 'r list) compiled" where
  "compile_process_regexes env rid input b =
     push_matchers rid KindRegex (compile_regex env rid) 1 (matcher_values input) b"

definition compile_process_matchers ::
  "('t, 'e, 'r) manifest_env \<Rightarrow> raw_process_section \<Rightarrow> budget \<Rightarrow> ('t, 'e, 'r process_matchers) compiled" where
  "compile_process_matchers env raw b =
     and_then (compile_process_regexes env PROCESS_COMM_MATCHER_ID (rp_comm raw) b) (\<lambda>(comm, b1).
     and_then (compile_process_regexes env PROCESS_CMDLINE_MATCHER_ID (rp_cmdline raw) b1) (\<lambda>(cmdline, b2).
     Ok (\<lparr>pm_comm = comm, pm_cmdline = cmdline\<rparr>, b2)))"

definition program_status_try_from_raw ::
  "raw_program_status \<Rightarrow> (('t, 'e) manifest_error, program_status_config) result" where
  "program_status_try_from_raw raw =
     (if \<not> is_valid_app (rps_app raw) then Err (InvalidProgramStatusApp (rps_app raw))
      else Ok \<lparr>psc_app = rps_app raw, psc_answer_probe = unwrap_or (rps_answer_probe raw) False\<rparr>)"

text \<open>The loop over the rules.\<close>

fun compile_rules ::
  "('t, 'e, 'r) manifest_env \<Rightarrow> raw_rule list \<Rightarrow> budget \<Rightarrow> ('t, 'e, 'r rule list) compiled" where
  "compile_rules env [] b = Ok ([], b)"
| "compile_rules env (raw # raws) b =
     and_then (rule_try_from_raw env raw b) (\<lambda>(r, b1).
     and_then (compile_rules env raws b1) (\<lambda>(rs, b2). Ok (r # rs, b2)))"

text \<open>\<open>Option::map\<close> followed by \<open>transpose\<close>.\<close>

definition traverse :: "('a \<Rightarrow> ('e, 'b) result) \<Rightarrow> 'a option \<Rightarrow> ('e, 'b option) result" where
  "traverse f x = (case x of None \<Rightarrow> Ok None | Some a \<Rightarrow> and_then (f a) (\<lambda>b. Ok (Some b)))"

definition manifest_parse_str ::
  "('t, 'e, 'r) manifest_env \<Rightarrow> bytes \<Rightarrow> (('t, 'e) manifest_error, 'r manifest) result" where
  "manifest_parse_str env source =
     (if MAX_SOURCE_BYTES < length source then Err (SourceTooLarge (length source) MAX_SOURCE_BYTES)
      else
        and_then (case env_toml env source of Inl e \<Rightarrow> Err (TomlError e) | Inr raw \<Rightarrow> Ok raw) (\<lambda>raw.
        if MAX_RULES < length (rm_rules raw) then Err (TooManyRules (length (rm_rules raw)) MAX_RULES)
        else
          and_then (traverse program_status_try_from_raw (rm_program_status raw)) (\<lambda>program_status.
          and_then (compile_rules env (rm_rules raw) budget_default) (\<lambda>(rules, b1).
          and_then
            (case (program_status, List.find rule_overrides_program_status rules) of
               (None, Some r) \<Rightarrow> Err (OverrideWithoutProgramStatus (rule_id r))
             | _ \<Rightarrow> Ok ()) (\<lambda>_.
          and_then (traverse (\<lambda>rp. compile_process_matchers env rp b1) (rm_process raw)) (\<lambda>process.
          Ok \<lparr>mf_rules = rules, mf_process = map_option fst process, mf_program_status = program_status,
              mf_source = source, mf_latches_working = True\<rparr>)))))) "

definition without_working_latch :: "'r manifest \<Rightarrow> 'r manifest" where
  "without_working_latch m = m\<lparr>mf_latches_working := False\<rparr>"

section \<open>Matching\<close>

record match_context =
  mc_regions :: "manifest_region \<rightharpoonup> bytes"
  mc_program_status_held :: bool

definition match_context_default :: match_context where
  "match_context_default = \<lparr>mc_regions = Map.empty, mc_program_status_held = False\<rparr>"

definition with_region_text :: "match_context \<Rightarrow> manifest_region \<Rightarrow> bytes \<Rightarrow> match_context" where
  "with_region_text c region txt = c\<lparr>mc_regions := (mc_regions c)(region \<mapsto> txt)\<rparr>"

definition with_program_status_held :: "match_context \<Rightarrow> bool \<Rightarrow> match_context" where
  "with_program_status_held c held = c\<lparr>mc_program_status_held := held\<rparr>"

definition context_region_text :: "match_context \<Rightarrow> manifest_region \<Rightarrow> bytes option" where
  "context_region_text c region = mc_regions c region"

record match_evaluation =
  mv_context :: match_context
  mv_lowercase_regions :: "manifest_region \<rightharpoonup> bytes"

definition evaluation_new :: "match_context \<Rightarrow> match_evaluation" where
  "evaluation_new c = \<lparr>mv_context = c, mv_lowercase_regions = Map.empty\<rparr>"

definition has_region_text :: "match_evaluation \<Rightarrow> manifest_region \<Rightarrow> bool" where
  "has_region_text v region \<longleftrightarrow> context_region_text (mv_context v) region \<noteq> None"

definition lowercase_region_text ::
  "('t, 'e, 'r) manifest_env \<Rightarrow> match_evaluation \<Rightarrow> manifest_region \<Rightarrow> match_evaluation \<times> bytes option" where
  "lowercase_region_text env v region =
     (if mv_lowercase_regions v region = None
      then (case context_region_text (mv_context v) region of
              None \<Rightarrow> (v, None)
            | Some txt \<Rightarrow>
                let v' = v\<lparr>mv_lowercase_regions := (mv_lowercase_regions v)(region \<mapsto> env_lowercase env txt)\<rparr>
                in (v', mv_lowercase_regions v' region))
      else (v, mv_lowercase_regions v region))"

fun gate_matches ::
    "('t, 'e, 'r) manifest_env \<Rightarrow> 'r gate \<Rightarrow> manifest_region \<Rightarrow> match_evaluation \<Rightarrow> match_evaluation \<times> bool"
  and gates_all ::
    "('t, 'e, 'r) manifest_env \<Rightarrow> 'r gate list \<Rightarrow> manifest_region \<Rightarrow> match_evaluation \<Rightarrow> match_evaluation \<times> bool"
  and gates_any ::
    "('t, 'e, 'r) manifest_env \<Rightarrow> 'r gate list \<Rightarrow> manifest_region \<Rightarrow> match_evaluation \<Rightarrow> match_evaluation \<times> bool"
where
  "gate_matches env (GateContains needle) region v =
     (case lowercase_region_text env v region of
        (v', None) \<Rightarrow> (v', False) | (v', Some txt) \<Rightarrow> (v', sublist needle txt))"
| "gate_matches env (GateRegex r) region v =
     (case context_region_text (mv_context v) region of
        None \<Rightarrow> (v, False) | Some txt \<Rightarrow> (v, env_is_match env r txt))"
| "gate_matches env (GateLineRegex r) region v =
     (case context_region_text (mv_context v) region of
        None \<Rightarrow> (v, False) | Some txt \<Rightarrow> (v, list_ex (env_is_match env r) (str_lines txt)))"
| "gate_matches env (GateAll gs) region v = gates_all env gs region v"
| "gate_matches env (GateAny gs) region v = gates_any env gs region v"
| "gate_matches env (GateNot g) region v = (case gate_matches env g region v of (v', ok) \<Rightarrow> (v', \<not> ok))"
| "gates_all env [] region v = (v, True)"
| "gates_all env (g # gs) region v =
     (case gate_matches env g region v of (v', ok) \<Rightarrow> if ok then gates_all env gs region v' else (v', False))"
| "gates_any env [] region v = (v, False)"
| "gates_any env (g # gs) region v =
     (case gate_matches env g region v of (v', ok) \<Rightarrow> if ok then (v', True) else gates_any env gs region v')"

record manifest_match =
  mm_rule_id :: bytes
  mm_activity :: agent_activity
  mm_priority :: int
  mm_region :: manifest_region
  mm_visible_blocker :: bool
  mm_overrides_program_status :: bool

definition rule_match :: "'r rule \<Rightarrow> manifest_match" where
  "rule_match r =
     \<lparr>mm_rule_id = rule_id r, mm_activity = rule_activity r, mm_priority = rule_priority r,
      mm_region = rule_region r, mm_visible_blocker = rule_visible_blocker r,
      mm_overrides_program_status = rule_overrides_program_status r\<rparr>"

text \<open>The loop of \<open>match_context\<close> over the rules.\<close>

fun best_rule ::
  "('t, 'e, 'r) manifest_env \<Rightarrow> match_context \<Rightarrow> 'r rule list \<Rightarrow> match_evaluation \<Rightarrow> 'r rule option \<Rightarrow> 'r rule option" where
  "best_rule env c [] v best = best"
| "best_rule env c (r # rs) v best =
     (if rule_overrides_program_status r \<and> \<not> mc_program_status_held c then best_rule env c rs v best
      else if \<not> has_region_text v (rule_region r) then best_rule env c rs v best
      else (case gate_matches env (rule_gate r) (rule_region r) v of (v', ok) \<Rightarrow>
              if \<not> ok then best_rule env c rs v' best
              else if (case best of None \<Rightarrow> True | Some current \<Rightarrow> rule_priority current < rule_priority r)
                   then best_rule env c rs v' (Some r)
                   else best_rule env c rs v' best))"

definition manifest_match_context ::
  "('t, 'e, 'r) manifest_env \<Rightarrow> 'r manifest \<Rightarrow> match_context \<Rightarrow> manifest_match option" where
  "manifest_match_context env m c = map_option rule_match (best_rule env c (mf_rules m) (evaluation_new c) None)"

fun required_from :: "'r rule list \<Rightarrow> manifest_region list \<Rightarrow> manifest_region list" where
  "required_from [] regions = regions"
| "required_from (r # rs) regions =
     required_from rs (if rule_region r \<in> set regions then regions else regions @ [rule_region r])"

definition required_regions :: "'r manifest \<Rightarrow> manifest_region list" where
  "required_regions m = required_from (mf_rules m) []"

definition has_screen_idle_rule :: "'r manifest \<Rightarrow> bool" where
  "has_screen_idle_rule m \<longleftrightarrow>
     list_ex (\<lambda>r. rule_activity r = Idle \<and> rule_region r \<noteq> RegOscTitle \<and> rule_region r \<noteq> RegOscProgress) (mf_rules m)"

definition has_manifest_idle_rule :: "'r manifest \<Rightarrow> bool" where
  "has_manifest_idle_rule m \<longleftrightarrow>
     list_ex (\<lambda>r. rule_activity r = Idle \<and>
       (case rule_region r of
          RegOscTitle \<Rightarrow> True | WholeRecent \<Rightarrow> True | BottomLines _ \<Rightarrow> True | BottomNonEmptyLines _ \<Rightarrow> True
        | TopNonEmptyLines _ \<Rightarrow> True | LastNonEmptyAbovePromptBox \<Rightarrow> True | AfterLastPromptMarker \<Rightarrow> True
        | PromptBoxBody \<Rightarrow> True | AfterLastHorizontalRule \<Rightarrow> True | _ \<Rightarrow> False)) (mf_rules m)"

record process_fact =
  pf_pid :: nat
  pf_pgid :: nat
  pf_ppid :: nat
  pf_start_identity :: nat
  pf_comm :: bytes
  pf_cmdline :: "bytes list"

definition process_matches :: "('t, 'e, 'r) manifest_env \<Rightarrow> 'r process_matchers \<Rightarrow> process_fact \<Rightarrow> bool" where
  "process_matches env pm f \<longleftrightarrow>
     list_ex (\<lambda>r. env_is_match env r (pf_comm f)) (pm_comm pm) \<or>
     (pm_cmdline pm \<noteq> [] \<and> list_ex (\<lambda>r. env_is_match env r (join_with '' '' (pf_cmdline f))) (pm_cmdline pm))"

definition process_matchers_is_empty :: "'r process_matchers \<Rightarrow> bool" where
  "process_matchers_is_empty pm \<longleftrightarrow> pm_comm pm = [] \<and> pm_cmdline pm = []"

definition disables_detection :: "'r manifest \<Rightarrow> bool" where
  "disables_detection m \<longleftrightarrow>
     mf_rules m = [] \<and> (case mf_process m of None \<Rightarrow> True | Some pm \<Rightarrow> process_matchers_is_empty pm)"

section \<open>Reference semantics\<close>

text \<open>What a gate means on a context, without a cache and without an order of evaluation.\<close>

fun gate_sat :: "('t, 'e, 'r) manifest_env \<Rightarrow> match_context \<Rightarrow> manifest_region \<Rightarrow> 'r gate \<Rightarrow> bool" where
  "gate_sat env c region (GateContains needle) =
     (case mc_regions c region of None \<Rightarrow> False | Some txt \<Rightarrow> sublist needle (env_lowercase env txt))"
| "gate_sat env c region (GateRegex r) =
     (case mc_regions c region of None \<Rightarrow> False | Some txt \<Rightarrow> env_is_match env r txt)"
| "gate_sat env c region (GateLineRegex r) =
     (case mc_regions c region of None \<Rightarrow> False | Some txt \<Rightarrow> (\<exists>line \<in> set (str_lines txt). env_is_match env r line))"
| "gate_sat env c region (GateAll gs) = list_all (gate_sat env c region) gs"
| "gate_sat env c region (GateAny gs) = list_ex (gate_sat env c region) gs"
| "gate_sat env c region (GateNot g) = (\<not> gate_sat env c region g)"

definition applicable :: "('t, 'e, 'r) manifest_env \<Rightarrow> match_context \<Rightarrow> 'r rule \<Rightarrow> bool" where
  "applicable env c r \<longleftrightarrow>
     (rule_overrides_program_status r \<longrightarrow> mc_program_status_held c) \<and>
     mc_regions c (rule_region r) \<noteq> None \<and> gate_sat env c (rule_region r) (rule_gate r)"

definition first_highest :: "'r rule list \<Rightarrow> 'r rule option" where
  "first_highest rs =
     List.find (\<lambda>r. list_all (\<lambda>r'. rule_priority r' \<le> rule_priority r) rs) rs"

text \<open>The cache holds lowercased texts of the context.\<close>

definition cache_ok :: "('t, 'e, 'r) manifest_env \<Rightarrow> match_evaluation \<Rightarrow> bool" where
  "cache_ok env v \<longleftrightarrow>
     (\<forall>region low. mv_lowercase_regions v region = Some low \<longrightarrow>
        (\<exists>txt. mc_regions (mv_context v) region = Some txt \<and> low = env_lowercase env txt))"

definition evaluates :: "('t, 'e, 'r) manifest_env \<Rightarrow> match_evaluation \<Rightarrow> match_evaluation \<times> bool \<Rightarrow> bool \<Rightarrow> bool" where
  "evaluates env v res ok \<longleftrightarrow> mv_context (fst res) = mv_context v \<and> cache_ok env (fst res) \<and> snd res = ok"

lemma evaluatesD: "evaluates env v (v', r) ok \<Longrightarrow> mv_context v' = mv_context v \<and> cache_ok env v' \<and> r = ok"
  by (simp add: evaluates_def)

lemma cache_ok_new: "cache_ok env (evaluation_new c)"
  by (simp add: cache_ok_def evaluation_new_def)

lemma lowercase_region_text_ok:
  assumes "cache_ok env v" and "lowercase_region_text env v region = (v', r)"
  shows "mv_context v' = mv_context v" and "cache_ok env v'"
    and "r = map_option (env_lowercase env) (mc_regions (mv_context v) region)"
  using assms
  by (auto simp: lowercase_region_text_def context_region_text_def cache_ok_def Let_def split: if_splits option.splits)
    fastforce

lemma gate_matches_sat:
  "cache_ok env v \<Longrightarrow> evaluates env v (gate_matches env g region v) (gate_sat env (mv_context v) region g)"
  "cache_ok env v \<Longrightarrow> evaluates env v (gates_all env gs region v) (list_all (gate_sat env (mv_context v) region) gs)"
  "cache_ok env v \<Longrightarrow> evaluates env v (gates_any env gs region v) (list_ex (gate_sat env (mv_context v) region) gs)"
proof (induction env g region v and env gs region v and env gs region v
    rule: gate_matches_gates_all_gates_any.induct)
  case (1 env needle region v)
  obtain v' r where "lowercase_region_text env v region = (v', r)" by fastforce
  with lowercase_region_text_ok [OF 1 this] show ?case
    by (auto simp: evaluates_def split: option.splits)
next
  case (8 env g gs region v)
  obtain v' ok where g: "gate_matches env g region v = (v', ok)" by fastforce
  with 8 have "mv_context v' = mv_context v" "cache_ok env v'" "ok = gate_sat env (mv_context v) region g"
    by (auto dest: evaluatesD)
  with 8 g show ?case by (auto simp: evaluates_def)
next
  case (10 env g gs region v)
  obtain v' ok where g: "gate_matches env g region v = (v', ok)" by fastforce
  with 10 have "mv_context v' = mv_context v" "cache_ok env v'" "ok = gate_sat env (mv_context v) region g"
    by (auto dest: evaluatesD)
  with 10 g show ?case by (auto simp: evaluates_def)
qed (auto simp: evaluates_def context_region_text_def list_ex_iff split: option.splits prod.splits)

definition better :: "'r rule option \<Rightarrow> 'r rule \<Rightarrow> bool" where
  "better best r \<longleftrightarrow> (case best of None \<Rightarrow> True | Some current \<Rightarrow> rule_priority current < rule_priority r)"

lemma best_rule_fold:
  "cache_ok env v \<Longrightarrow> mv_context v = c \<Longrightarrow>
     best_rule env c rs v best =
       foldl (\<lambda>best r. if better best r then Some r else best) best (filter (applicable env c) rs)"
proof (induction env c rs v best rule: best_rule.induct)
  case (2 env c r rs v best)
  obtain v' ok where g: "gate_matches env (rule_gate r) (rule_region r) v = (v', ok)" by fastforce
  with gate_matches_sat(1) [OF "2.prems"(1), of "rule_gate r" "rule_region r"] "2.prems"(2)
  have "mv_context v' = c" "cache_ok env v'" "ok = gate_sat env c (rule_region r) (rule_gate r)"
    by (auto dest: evaluatesD)
  with 2 g show ?case
    by (auto simp: applicable_def has_region_text_def context_region_text_def better_def)
qed simp

lemma first_highest_skip:
  fixes rs :: "'r rule list"
  assumes "r' \<in> set rs" and "rule_priority r < rule_priority r'"
  shows "first_highest (r # rs) = first_highest rs"
proof -
  have "\<not> list_all (\<lambda>x. rule_priority x \<le> rule_priority r) (r # rs)"
    using assms by (auto simp: list_all_iff not_le)
  moreover have "list_all (\<lambda>y. rule_priority y \<le> rule_priority x) (r # rs) = list_all (\<lambda>y. rule_priority y \<le> rule_priority x) rs" for x :: "'r rule"
    using assms by (fastforce simp: list_all_iff)
  ultimately show ?thesis by (simp only: first_highest_def find.simps if_False)
qed

lemma fold_best_some:
  "\<exists>best. foldl (\<lambda>best r. if better best r then Some r else best) (Some b) rs = Some best \<and>
     (if list_all (\<lambda>r. rule_priority r \<le> rule_priority b) rs then best = b
      else first_highest rs = Some best \<and> rule_priority b < rule_priority best)"
proof (induction rs arbitrary: b)
  case (Cons r rs)
  show ?case
  proof (cases "rule_priority b < rule_priority r")
    case True
    obtain best where best: "foldl (\<lambda>best r. if better best r then Some r else best) (Some r) rs = Some best"
      "if list_all (\<lambda>x. rule_priority x \<le> rule_priority r) rs then best = r
       else first_highest rs = Some best \<and> rule_priority r < rule_priority best" using Cons.IH [of r] by blast
    have "first_highest (r # rs) = Some best \<and> rule_priority b < rule_priority best"
    proof (cases "list_all (\<lambda>x. rule_priority x \<le> rule_priority r) rs")
      case False
      then obtain r' where "r' \<in> set rs" "rule_priority r < rule_priority r'" by (auto simp: list_all_iff not_le)
      with first_highest_skip [OF this] False best(2) True show ?thesis by simp
    qed (use best(2) True in \<open>simp add: first_highest_def\<close>)
    then show ?thesis using True best(1) by (simp add: better_def)
  next
    case False
    obtain best where best: "foldl (\<lambda>best r. if better best r then Some r else best) (Some b) rs = Some best"
      "if list_all (\<lambda>x. rule_priority x \<le> rule_priority b) rs then best = b
       else first_highest rs = Some best \<and> rule_priority b < rule_priority best" using Cons.IH [of b] by blast
    have "first_highest (r # rs) = first_highest rs" if "\<not> list_all (\<lambda>x. rule_priority x \<le> rule_priority b) rs"
    proof -
      from that obtain r' where "r' \<in> set rs" "rule_priority b < rule_priority r'" by (auto simp: list_all_iff not_le)
      with False show ?thesis by (intro first_highest_skip [of r']) auto
    qed
    then show ?thesis using False best by (auto simp: better_def)
  qed
qed simp

lemma fold_best:
  "foldl (\<lambda>best r. if better best r then Some r else best) None rs = first_highest rs"
proof (cases rs)
  case (Cons r rest)
  obtain best where best: "foldl (\<lambda>best r. if better best r then Some r else best) (Some r) rest = Some best"
    "if list_all (\<lambda>x. rule_priority x \<le> rule_priority r) rest then best = r
     else first_highest rest = Some best \<and> rule_priority r < rule_priority best" using fold_best_some [of r rest] by blast
  have "first_highest rs = Some best"
  proof (cases "list_all (\<lambda>x. rule_priority x \<le> rule_priority r) rest")
    case False
    then obtain r' where "r' \<in> set rest" "rule_priority r < rule_priority r'" by (auto simp: list_all_iff not_le)
    with first_highest_skip [OF this] False best(2) Cons show ?thesis by simp
  qed (use best(2) Cons in \<open>simp add: first_highest_def\<close>)
  then show ?thesis using best(1) Cons by (simp add: better_def)
qed (simp add: first_highest_def)

lemma match_context_first_highest:
  "manifest_match_context env m c = map_option rule_match (first_highest (filter (applicable env c) (mf_rules m)))"
  using best_rule_fold [OF cache_ok_new, of c c env "mf_rules m" None]
  by (simp add: manifest_match_context_def fold_best evaluation_new_def)

section \<open>What compiling guarantees\<close>

text \<open>The size of a compiled gate, and how deep the matcher recurses on it.\<close>

fun gate_nodes :: "'r gate \<Rightarrow> nat" where
  "gate_nodes (GateAll gs) = 1 + sum_list (map gate_nodes gs)"
| "gate_nodes (GateAny gs) = 1 + sum_list (map gate_nodes gs)"
| "gate_nodes (GateNot g) = 1 + gate_nodes g"
| "gate_nodes _ = 0"

fun gate_leaves :: "'r gate \<Rightarrow> nat" where
  "gate_leaves (GateAll gs) = sum_list (map gate_leaves gs)"
| "gate_leaves (GateAny gs) = sum_list (map gate_leaves gs)"
| "gate_leaves (GateNot g) = gate_leaves g"
| "gate_leaves _ = 1"

fun gate_height :: "'r gate \<Rightarrow> nat" where
  "gate_height (GateAll gs) = 1 + foldr max (map gate_height gs) 0"
| "gate_height (GateAny gs) = 1 + foldr max (map gate_height gs) 0"
| "gate_height (GateNot g) = 1 + gate_height g"
| "gate_height _ = 1"

lemma foldr_max_le: "foldr max xs 0 \<le> k \<longleftrightarrow> (\<forall>x \<in> set xs. x \<le> k)" for xs :: "nat list"
  by (induction xs) auto

text \<open>The budget counts exactly the nodes and leaves of what was compiled, and bounds the height.\<close>

definition budget_spent :: "budget \<Rightarrow> 'r gate list \<Rightarrow> budget \<Rightarrow> bool" where
  "budget_spent b gs b' \<longleftrightarrow>
     cb_gates b' = cb_gates b + sum_list (map gate_nodes gs) \<and>
     cb_matchers b' = cb_matchers b + sum_list (map gate_leaves gs) \<and>
     (cb_gates b \<le> MAX_GATES \<longrightarrow> cb_gates b' \<le> MAX_GATES) \<and>
     (cb_matchers b \<le> MAX_MATCHERS \<longrightarrow> cb_matchers b' \<le> MAX_MATCHERS)"

definition tall :: "nat \<Rightarrow> 'r gate list \<Rightarrow> bool" where
  "tall k gs \<longleftrightarrow> (\<forall>g \<in> set gs. gate_height g \<le> k)"

lemma note_gate_Ok:
  "note_gate b depth = Ok b' \<Longrightarrow>
     depth \<le> MAX_DEPTH \<and> cb_gates b' = cb_gates b + 1 \<and> cb_matchers b' = cb_matchers b \<and> cb_gates b' \<le> MAX_GATES"
  by (auto simp: note_gate_def check_depth_def split: if_splits)

lemma note_matcher_Ok:
  "note_matcher b depth = Ok b' \<Longrightarrow>
     depth \<le> MAX_DEPTH \<and> cb_matchers b' = cb_matchers b + 1 \<and> cb_gates b' = cb_gates b \<and> cb_matchers b' \<le> MAX_MATCHERS"
  by (auto simp: note_matcher_def check_depth_def split: if_splits)

lemma budget_spent_refl: "budget_spent b [] b"
  by (simp add: budget_spent_def)

lemma budget_spent_append: "budget_spent b gs b1 \<Longrightarrow> budget_spent b1 hs b2 \<Longrightarrow> budget_spent b (gs @ hs) b2"
  by (auto simp: budget_spent_def)

lemma budget_spent_node:
  assumes "note_gate b depth = Ok b1" and "budget_spent b1 gs b2"
  shows "budget_spent b [GateAll gs] b2" "budget_spent b [GateAny gs] b2" "gs = [g] \<Longrightarrow> budget_spent b [GateNot g] b2"
  using assms(2) note_gate_Ok [OF assms(1)] by (auto simp: budget_spent_def)

lemma tall_mono: "tall k gs \<Longrightarrow> k \<le> n \<Longrightarrow> tall n gs"
  by (auto simp: tall_def)

lemma tall_node:
  "tall k gs \<Longrightarrow> gate_height (GateAll gs) \<le> k + 1" "tall k gs \<Longrightarrow> gate_height (GateAny gs) \<le> k + 1"
  by (auto simp: tall_def foldr_max_le)

lemma push_matchers_Ok:
  "push_matchers rid kind mk depth vs b = Ok (gs, b') \<Longrightarrow>
     length gs = length vs \<and> cb_gates b' = cb_gates b \<and> cb_matchers b' = cb_matchers b + length vs \<and>
     (cb_matchers b \<le> MAX_MATCHERS \<longrightarrow> cb_matchers b' \<le> MAX_MATCHERS) \<and> (vs \<noteq> [] \<longrightarrow> depth \<le> MAX_DEPTH) \<and>
     (\<forall>g \<in> set gs. \<exists>v. mk v = Ok g)"
proof (induction vs arbitrary: b gs)
  case (Cons v vs)
  from Cons.prems show ?case by (auto elim!: and_then_OkE dest!: note_matcher_Ok Cons.IH)
qed simp

lemma leaves_spent:
  assumes "push_matchers rid kind mk depth vs b = Ok (gs, b')"
    and "\<And>v g. mk v = Ok g \<Longrightarrow> gate_nodes g = 0 \<and> gate_leaves g = 1 \<and> gate_height g = 1"
  shows "budget_spent b gs b' \<and> tall 1 gs \<and> (gs \<noteq> [] \<longrightarrow> depth \<le> MAX_DEPTH)"
proof -
  note ok = push_matchers_Ok [OF assms(1)]
  have leaf: "gate_nodes g = 0 \<and> gate_leaves g = 1 \<and> gate_height g = 1" if "g \<in> set gs" for g
    using ok that assms(2) by blast
  have "sum_list (map gate_nodes gs) = 0" using leaf by simp
  moreover have "map gate_leaves gs = map (\<lambda>_. 1) gs" using leaf by simp
  then have "sum_list (map gate_leaves gs) = length gs" by (simp only: sum_list_triv) simp
  moreover have "tall 1 gs" using leaf by (simp add: tall_def)
  ultimately show ?thesis using ok by (auto simp: budget_spent_def)
qed

lemma push_matcher_parts_Ok:
  assumes "push_matcher_parts env rid contains regex line_regex depth b = Ok (gs, b')"
  shows "budget_spent b gs b' \<and> tall 1 gs \<and> (gs \<noteq> [] \<longrightarrow> depth \<le> MAX_DEPTH)"
proof -
  from assms obtain cs b1 rs b2 ls where
    c: "push_matchers rid KindContains (\<lambda>v. Ok (GateContains (env_lowercase env v))) depth (matcher_values contains) b
        = (Ok (cs, b1) :: ('a, 'b, 'c gate list) compiled)"
    and r: "push_matchers rid KindRegex (\<lambda>v. and_then (compile_regex env rid v) (\<lambda>r. Ok (GateRegex r))) depth
        (matcher_values regex) b1 = Ok (rs, b2)"
    and l: "push_matchers rid KindLineRegex (\<lambda>v. and_then (compile_regex env rid v) (\<lambda>r. Ok (GateLineRegex r))) depth
        (matcher_values line_regex) b2 = Ok (ls, b')"
    and gs: "gs = cs @ rs @ ls"
    by (auto simp: push_matcher_parts_def elim!: and_then_OkE)
  have "budget_spent b cs b1 \<and> tall 1 cs \<and> (cs \<noteq> [] \<longrightarrow> depth \<le> MAX_DEPTH)" by (rule leaves_spent [OF c]) auto
  moreover have "budget_spent b1 rs b2 \<and> tall 1 rs \<and> (rs \<noteq> [] \<longrightarrow> depth \<le> MAX_DEPTH)"
    by (rule leaves_spent [OF r]) (auto elim!: and_then_OkE)
  moreover have "budget_spent b2 ls b' \<and> tall 1 ls \<and> (ls \<noteq> [] \<longrightarrow> depth \<le> MAX_DEPTH)"
    by (rule leaves_spent [OF l]) (auto elim!: and_then_OkE)
  ultimately show ?thesis unfolding gs by (auto simp: tall_def intro: budget_spent_append)
qed

lemma finish_gate_parts_Ok:
  assumes "finish_gate_parts rid parts depth b1 = Ok (g, b')" and "budget_spent b parts b1" and "tall k parts"
  shows "budget_spent b [g] b' \<and> has_matcher g \<and> parts \<noteq> [] \<and> gate_height g \<le> k + 1"
proof (cases parts)
  case (Cons p ps)
  show ?thesis
  proof (cases ps)
    case Nil
    with Cons assms show ?thesis by (auto simp: finish_gate_parts_def tall_def split: if_splits)
  next
    case (Cons q qs)
    with \<open>parts = p # ps\<close> assms(1) have "list_ex has_matcher parts" and g: "g = GateAll parts"
      and n: "note_gate b1 depth = (Ok b' :: (('a, 'b) manifest_error, budget) result)"
      by (auto simp: finish_gate_parts_def elim!: and_then_OkE split: if_splits)
    moreover have "budget_spent b [GateAll parts] b'" using assms(2) note_gate_Ok [OF n] by (auto simp: budget_spent_def)
    ultimately show ?thesis using tall_node(1) [OF assms(3)] \<open>parts = p # ps\<close> by simp
  qed
qed (use assms(1) in \<open>simp add: finish_gate_parts_def\<close>)

definition compiled_gate :: "nat \<Rightarrow> budget \<Rightarrow> 'r gate \<Rightarrow> budget \<Rightarrow> bool" where
  "compiled_gate depth b g b' \<longleftrightarrow>
     budget_spent b [g] b' \<and> has_matcher g \<and> depth \<le> MAX_DEPTH \<and> gate_height g \<le> 2 * (MAX_DEPTH + 1 - depth)"

definition compiled_parts :: "nat \<Rightarrow> budget \<Rightarrow> 'r gate list \<Rightarrow> budget \<Rightarrow> bool" where
  "compiled_parts depth b gs b' \<longleftrightarrow>
     budget_spent b gs b' \<and> (gs \<noteq> [] \<longrightarrow> depth \<le> MAX_DEPTH) \<and> tall (2 * (MAX_DEPTH - depth) + 1) gs"

definition compiled_children :: "nat \<Rightarrow> budget \<Rightarrow> 'r gate list \<Rightarrow> budget \<Rightarrow> bool" where
  "compiled_children depth b gs b' \<longleftrightarrow> budget_spent b gs b' \<and> tall (2 * (MAX_DEPTH + 1 - depth)) gs"

lemma compiled_parts_add:
  assumes "compiled_parts depth b parts b1" and "note_gate b1 depth = Ok b2"
  shows "compiled_children (depth + 1) b2 gs b3 \<Longrightarrow> compiled_parts depth b (parts @ [GateAll gs]) b3"
    and "compiled_children (depth + 1) b2 gs b3 \<Longrightarrow> compiled_parts depth b (parts @ [GateAny gs]) b3"
    and "compiled_gate (depth + 1) b2 g b3 \<Longrightarrow> compiled_parts depth b (parts @ [GateNot g]) b3"
proof -
  have d: "depth \<le> MAX_DEPTH" and h: "2 * (MAX_DEPTH + 1 - (depth + 1)) = 2 * (MAX_DEPTH - depth)"
    using note_gate_Ok [OF assms(2)] by auto
  show "compiled_children (depth + 1) b2 gs b3 \<Longrightarrow> compiled_parts depth b (parts @ [GateAll gs]) b3"
    and "compiled_children (depth + 1) b2 gs b3 \<Longrightarrow> compiled_parts depth b (parts @ [GateAny gs]) b3"
    using assms(1) d budget_spent_append [OF _ budget_spent_node(1) [OF assms(2)], of b parts gs b3]
      budget_spent_append [OF _ budget_spent_node(2) [OF assms(2)], of b parts gs b3]
      tall_node [of "2 * (MAX_DEPTH - depth)" gs]
    unfolding compiled_parts_def compiled_children_def h by (auto simp: tall_def)
  show "compiled_gate (depth + 1) b2 g b3 \<Longrightarrow> compiled_parts depth b (parts @ [GateNot g]) b3"
    using assms(1) d budget_spent_append [OF _ budget_spent_node(3) [OF assms(2)], of b parts "[g]" b3]
    unfolding compiled_parts_def compiled_gate_def h by (auto simp: tall_def)
qed

definition compiles :: "('t, 'e, 'r) manifest_env \<Rightarrow> bytes \<Rightarrow> raw_gate \<Rightarrow> bool" where
  "compiles env rid raw \<longleftrightarrow>
     (\<forall>depth b g b'. compile_raw_gate env rid raw depth b = Ok (g, b') \<longrightarrow> compiled_gate depth b g b')"

lemma compile_child_gates_Ok:
  "compile_child_gates env rid cs depth b = Ok (gs, b') \<Longrightarrow> (\<And>c. c \<in> set cs \<Longrightarrow> compiles env rid c) \<Longrightarrow>
     compiled_children depth b gs b'"
proof (induction cs arbitrary: b gs)
  case (Cons c cs)
  from Cons.prems(1) obtain g b1 hs where c: "compile_raw_gate env rid c depth b = Ok (g, b1)"
    and cs: "compile_child_gates env rid cs depth b1 = Ok (hs, b')" and gs: "gs = g # hs"
    by (auto elim!: and_then_OkE)
  have "compiled_gate depth b g b1" using Cons.prems(2) [of c] c by (simp add: compiles_def)
  moreover have "compiled_children depth b1 hs b'" using Cons.IH [OF cs] Cons.prems(2) by simp
  ultimately have "budget_spent b ([g] @ hs) b'"
    "gate_height g \<le> 2 * (MAX_DEPTH + 1 - depth)" "tall (2 * (MAX_DEPTH + 1 - depth)) hs"
    using budget_spent_append [of b "[g]" b1 hs b'] by (auto simp: compiled_gate_def compiled_children_def)
  then show ?case by (simp add: gs compiled_children_def tall_def)
qed (auto simp: compiled_children_def tall_def budget_spent_refl)

text \<open>One more key of the document adds one part.\<close>

lemma add_children:
  fixes env :: "('t, 'e, 'r) manifest_env"
  assumes parts: "compiled_parts depth b parts b1" and ok: "\<And>c. c \<in> set children \<Longrightarrow> compiles env rid c"
  shows "and_then (note_gate b1 depth) (\<lambda>b2.
           and_then (compile_child_gates env rid children (depth + 1) b2) (\<lambda>(gs, b3). Ok (parts @ [GateAll gs], b3)))
         = Ok (parts', b') \<Longrightarrow> compiled_parts depth b parts' b'"
    and "and_then (note_gate b1 depth) (\<lambda>b2.
           and_then (compile_child_gates env rid children (depth + 1) b2) (\<lambda>(gs, b3). Ok (parts @ [GateAny gs], b3)))
         = Ok (parts', b') \<Longrightarrow> compiled_parts depth b parts' b'"
  by (auto elim!: and_then_OkE dest!: compile_child_gates_Ok [OF _ ok] intro: compiled_parts_add [OF parts])

lemma add_negation:
  fixes env :: "('t, 'e, 'r) manifest_env"
  assumes "compiled_parts depth b parts b1" and "compiles env rid child"
  shows "and_then (note_gate b1 depth) (\<lambda>b2.
           and_then (compile_raw_gate env rid child (depth + 1) b2) (\<lambda>(g, b3). Ok (parts @ [GateNot g], b3)))
         = Ok (parts', b') \<Longrightarrow> compiled_parts depth b parts' b'"
  using assms(2) by (auto simp: compiles_def simp del: compile_raw_gate.simps elim!: and_then_OkE intro: compiled_parts_add [OF assms(1)])

lemma collect_gate_parts_Ok:
  fixes env :: "('t, 'e, 'r) manifest_env"
  assumes ok: "collect_gate_parts env rid raw depth b = Ok (gs, b')"
    and every: "\<And>cs c. rg_all raw = Some cs \<Longrightarrow> c \<in> set cs \<Longrightarrow> compiles env rid c"
    and some: "\<And>cs c. rg_any raw = Some cs \<Longrightarrow> c \<in> set cs \<Longrightarrow> compiles env rid c"
    and neg: "\<And>c. rg_not raw = Some c \<Longrightarrow> compiles env rid c"
  shows "compiled_parts depth b gs b'"
proof -
  obtain contains regex line_regex al an no where raw: "raw = RawGate contains regex line_regex al an no" by (cases raw)
  note start = ok [unfolded raw collect_gate_parts.simps]
  obtain x1 where x1: "push_matcher_parts env rid contains regex line_regex depth b = Ok x1"
    using start by (rule and_then_OkE) (rule that)
  obtain p1 b1 where p1: "x1 = (p1, b1)" by (cases x1)
  define r2 where "r2 = (case al of None \<Rightarrow> Ok (p1, b1) | Some children \<Rightarrow>
      if children = [] then Err (MissingGate rid)
      else and_then (note_gate b1 depth) (\<lambda>b2.
           and_then (compile_child_gates env rid children (depth + 1) b2) (\<lambda>(gs, b3). Ok (p1 @ [GateAll gs], b3))))"
  note step2 = start [unfolded x1 p1 and_then_simps prod.case, folded r2_def]
  obtain x2 where x2: "r2 = Ok x2" using step2 by (rule and_then_OkE) (rule that)
  obtain p2 b2 where p2: "x2 = (p2, b2)" by (cases x2)
  define r3 where "r3 = (case an of None \<Rightarrow> Ok (p2, b2) | Some children \<Rightarrow>
      if children = [] then Err (MissingGate rid)
      else and_then (note_gate b2 depth) (\<lambda>b2.
           and_then (compile_child_gates env rid children (depth + 1) b2) (\<lambda>(gs, b3). Ok (p2 @ [GateAny gs], b3))))"
  note step3 = step2 [unfolded x2 p2 and_then_simps prod.case, folded r3_def]
  obtain x3 where x3: "r3 = Ok x3" using step3 by (rule and_then_OkE) (rule that)
  obtain p3 b3 where p3: "x3 = (p3, b3)" by (cases x3)
  note no' = step3 [unfolded x3 p3 and_then_simps prod.case]
    and an = x3 [unfolded r3_def p3] and al = x2 [unfolded r2_def p2] and matchers = x1 [unfolded p1]
  have one: "compiled_parts depth b p1 b1"
    using push_matcher_parts_Ok [OF matchers] tall_mono [of 1 p1] by (auto simp: compiled_parts_def)
  have two: "compiled_parts depth b p2 b2"
  proof (cases al)
    case (Some children)
    have "compiles env rid c" if "c \<in> set children" for c using every [of children c] raw Some that by simp
    from add_children(1) [OF one this] al Some show ?thesis by (simp split: if_splits)
  qed (use one al in simp)
  have three: "compiled_parts depth b p3 b3"
  proof (cases an)
    case (Some children)
    have "compiles env rid c" if "c \<in> set children" for c using some [of children c] raw Some that by simp
    from add_children(2) [OF two this] an Some show ?thesis by (simp split: if_splits)
  qed (use two an in simp)
  show ?thesis
  proof (cases no)
    case (Some child)
    then have "compiles env rid child" using neg [of child] raw by simp
    from add_negation [OF three this] no' Some show ?thesis by (simp del: compile_raw_gate.simps)
  qed (use three no' in simp)
qed

lemma compile_raw_gate_Ok: "compiles env rid raw"
proof (induction raw)
  case (RawGate contains regex line_regex al an no)
  show ?case unfolding compiles_def
  proof (intro allI impI)
    fix depth b g b'
    assume "compile_raw_gate env rid (RawGate contains regex line_regex al an no) depth b = Ok (g, b')"
    then obtain parts b1 where
      c: "collect_gate_parts env rid (RawGate contains regex line_regex al an no) depth b = Ok (parts, b1)"
      and f: "finish_gate_parts rid parts depth b1 = (Ok (g, b') :: ('a, 'b, 'c gate) compiled)"
      by (auto elim!: and_then_OkE simp del: collect_gate_parts.simps)
    from collect_gate_parts_Ok [OF c] RawGate
    have p: "budget_spent b parts b1" "tall (2 * (MAX_DEPTH - depth) + 1) parts" "parts \<noteq> [] \<longrightarrow> depth \<le> MAX_DEPTH"
      by (auto simp: compiled_parts_def)
    from finish_gate_parts_Ok [OF f p(1,2)] p(3) show "compiled_gate depth b g b'" by (auto simp: compiled_gate_def)
  qed
qed

lemma compile_rule_gate_Ok:
  fixes env :: "('t, 'e, 'r) manifest_env"
  assumes "compile_rule_gate env rid inline_gate gates b = Ok (g, b')"
  shows "budget_spent b [g] b' \<and> has_matcher g \<and> gate_height g \<le> 2 * MAX_DEPTH + 1"
proof -
  note start = assms [unfolded compile_rule_gate_def]
  obtain x1 where x1: "collect_gate_parts env rid inline_gate 1 b = Ok x1"
    using start by (rule and_then_OkE) (rule that)
  obtain p1 b1 where p1: "x1 = (p1, b1)" by (cases x1)
  define r2 where "r2 = (case gates of None \<Rightarrow> Ok (p1, b1) | Some raw \<Rightarrow>
      and_then (compile_raw_gate env rid raw 1 b1) (\<lambda>(g, b2). Ok (p1 @ [g], b2)))"
  note step2 = start [unfolded x1 p1 and_then_simps prod.case, folded r2_def]
  obtain x2 where x2: "r2 = Ok x2" using step2 by (rule and_then_OkE) (rule that)
  obtain p2 b2 where p2: "x2 = (p2, b2)" by (cases x2)
  note finish = step2 [unfolded x2 p2 and_then_simps prod.case]
  have "compiled_parts 1 b p1 b1" using collect_gate_parts_Ok [OF x1 [unfolded p1]] compile_raw_gate_Ok by blast
  then have one: "budget_spent b p1 b1" "tall (2 * (MAX_DEPTH - 1) + 1) p1" by (auto simp: compiled_parts_def)
  have two: "budget_spent b p2 b2 \<and> tall (2 * MAX_DEPTH) p2"
  proof (cases gates)
    case (Some raw)
    with x2 p2 obtain g' where g': "compile_raw_gate env rid raw 1 b1 = Ok (g', b2)" "p2 = p1 @ [g']"
      by (auto simp: r2_def simp del: compile_raw_gate.simps elim!: and_then_OkE)
    then have "compiled_gate 1 b1 g' b2" using compile_raw_gate_Ok [of env rid raw] unfolding compiles_def by blast
    with g'(2) one show ?thesis
      by (auto simp: compiled_gate_def tall_def MAX_DEPTH_def intro: budget_spent_append)
  qed (use one x2 p2 in \<open>auto simp: r2_def MAX_DEPTH_def intro: tall_mono\<close>)
  from finish_gate_parts_Ok [OF finish, of b "2 * MAX_DEPTH"] two show ?thesis by simp
qed

definition rule_wf :: "'r manifest \<Rightarrow> 'r rule \<Rightarrow> bool" where
  "rule_wf m r \<longleftrightarrow>
     has_matcher (rule_gate r) \<and> gate_height (rule_gate r) \<le> 2 * MAX_DEPTH + 1 \<and>
     rule_activity r \<noteq> UnknownActivity \<and> (rule_overrides_program_status r \<longrightarrow> mf_program_status m \<noteq> None)"

definition process_matcher_count :: "'r manifest \<Rightarrow> nat" where
  "process_matcher_count m =
     (case mf_process m of None \<Rightarrow> 0 | Some pm \<Rightarrow> length (pm_comm pm) + length (pm_cmdline pm))"

definition manifest_wf :: "'r manifest \<Rightarrow> bool" where
  "manifest_wf m \<longleftrightarrow>
     length (mf_source m) \<le> MAX_SOURCE_BYTES \<and> length (mf_rules m) \<le> MAX_RULES \<and>
     sum_list (map (gate_nodes \<circ> rule_gate) (mf_rules m)) \<le> MAX_GATES \<and>
     sum_list (map (gate_leaves \<circ> rule_gate) (mf_rules m)) + process_matcher_count m \<le> MAX_MATCHERS \<and>
     list_all (rule_wf m) (mf_rules m) \<and>
     (case mf_program_status m of None \<Rightarrow> True | Some c \<Rightarrow> is_valid_app (psc_app c))"

lemma rule_try_from_raw_Ok:
  assumes "rule_try_from_raw env raw b = Ok (r, b')"
  shows "budget_spent b [rule_gate r] b' \<and> has_matcher (rule_gate r) \<and> gate_height (rule_gate r) \<le> 2 * MAX_DEPTH + 1 \<and>
    rule_activity r \<noteq> UnknownActivity"
  using assms
  by (auto simp: rule_try_from_raw_def parse_activity_def elim!: and_then_OkE dest!: compile_rule_gate_Ok split: if_splits)

lemma compile_rules_Ok:
  "compile_rules env raws b = Ok (rs, b') \<Longrightarrow>
     budget_spent b (map rule_gate rs) b' \<and> length rs = length raws \<and>
     (\<forall>r \<in> set rs. has_matcher (rule_gate r) \<and> gate_height (rule_gate r) \<le> 2 * MAX_DEPTH + 1 \<and>
        rule_activity r \<noteq> UnknownActivity)"
proof (induction raws arbitrary: b rs)
  case (Cons raw raws)
  from Cons.prems obtain r b1 rest where r: "rule_try_from_raw env raw b = Ok (r, b1)"
    and rest: "compile_rules env raws b1 = Ok (rest, b')" and rs: "rs = r # rest"
    by (auto elim!: and_then_OkE)
  from rule_try_from_raw_Ok [OF r] Cons.IH [OF rest] budget_spent_append [of b "[rule_gate r]" b1 "map rule_gate rest" b']
  show ?case by (simp add: rs)
qed (simp add: budget_spent_refl)

lemma compile_process_matchers_Ok:
  assumes "compile_process_matchers env raw b = Ok (pm, b')"
  shows "cb_matchers b' = cb_matchers b + length (pm_comm pm) + length (pm_cmdline pm) \<and>
    (cb_matchers b \<le> MAX_MATCHERS \<longrightarrow> cb_matchers b' \<le> MAX_MATCHERS)"
  using assms
  by (auto simp: compile_process_matchers_def compile_process_regexes_def elim!: and_then_OkE dest!: push_matchers_Ok)

lemma traverse_Ok: "traverse f x = Ok y \<Longrightarrow> (x = None \<and> y = None) \<or> (\<exists>a b. x = Some a \<and> y = Some b \<and> f a = Ok b)"
  by (auto simp: traverse_def elim!: and_then_OkE split: option.splits)

lemma program_status_config_valid:
  "traverse program_status_try_from_raw x = Ok (Some c) \<Longrightarrow> is_valid_app (psc_app c)"
  by (auto simp: program_status_try_from_raw_def split: if_splits dest!: traverse_Ok)

lemma override_needs_status:
  "(case x of
      None \<Rightarrow> case List.find rule_overrides_program_status rs of None \<Rightarrow> Ok () | Some r \<Rightarrow> Err (e r)
    | Some c \<Rightarrow> Ok ()) = Ok () \<Longrightarrow> r \<in> set rs \<Longrightarrow> rule_overrides_program_status r \<Longrightarrow> \<exists>c. x = Some c"
  by (auto simp: find_None_iff split: option.splits)

lemma parse_str_parts:
  assumes "manifest_parse_str env source = Ok m"
  obtains raw :: raw_manifest and b1 process where
    "length source \<le> MAX_SOURCE_BYTES" and "mf_source m = source" and "length (rm_rules raw) \<le> MAX_RULES"
    and "compile_rules env (rm_rules raw) budget_default = Ok (mf_rules m, b1)"
    and "\<And>c. mf_program_status m = Some c \<Longrightarrow> is_valid_app (psc_app c)"
    and "\<And>r. r \<in> set (mf_rules m) \<Longrightarrow> rule_overrides_program_status r \<Longrightarrow> \<exists>c. mf_program_status m = Some c"
    and "traverse (\<lambda>rp. compile_process_matchers env rp b1) (rm_process raw) = Ok process"
    and "mf_process m = map_option fst process"
  using assms unfolding manifest_parse_str_def
  apply (auto elim!: and_then_OkE split: if_splits sum.splits)
  subgoal premises prems for raw status rules b1 process
    by (rule prems(1) [of raw b1 process])
      (use prems(2-) override_needs_status [OF prems(7)] program_status_config_valid in auto)
  done

lemma parse_str_wf:
  assumes "manifest_parse_str env source = Ok m"
  shows "manifest_wf m"
proof -
  from assms obtain raw :: raw_manifest and b1 process where len: "length source \<le> MAX_SOURCE_BYTES" "mf_source m = source"
      "length (rm_rules raw) \<le> MAX_RULES"
    and rules: "compile_rules env (rm_rules raw) budget_default = Ok (mf_rules m, b1)"
    and status: "\<And>c. mf_program_status m = Some c \<Longrightarrow> is_valid_app (psc_app c)"
      "\<And>r. r \<in> set (mf_rules m) \<Longrightarrow> rule_overrides_program_status r \<Longrightarrow> \<exists>c. mf_program_status m = Some c"
    and process: "traverse (\<lambda>rp. compile_process_matchers env rp b1) (rm_process raw) = Ok process"
      "mf_process m = map_option fst process"
    by (rule parse_str_parts) (rule that)
  note compiled = compile_rules_Ok [OF rules]
  then have b1: "cb_gates b1 = sum_list (map (gate_nodes \<circ> rule_gate) (mf_rules m))"
    "cb_matchers b1 = sum_list (map (gate_leaves \<circ> rule_gate) (mf_rules m))"
    "cb_gates b1 \<le> MAX_GATES" "cb_matchers b1 \<le> MAX_MATCHERS"
    by (auto simp: budget_spent_def budget_default_def)
  have "cb_matchers b1 + process_matcher_count m \<le> MAX_MATCHERS"
    using traverse_Ok [OF process(1)] process(2) b1(4)
    by (auto simp: process_matcher_count_def dest!: compile_process_matchers_Ok)
  moreover have "list_all (rule_wf m) (mf_rules m)"
    using compiled status(2) by (auto simp: list_all_iff rule_wf_def)
  ultimately show ?thesis
    using len b1 compiled status(1) by (auto simp: manifest_wf_def split: option.splits)
qed

section \<open>Region names\<close>

definition region_fits :: "manifest_region \<Rightarrow> bool" where
  "region_fits r \<longleftrightarrow>
     (case r of BottomLines n \<Rightarrow> n \<le> u64_max | BottomNonEmptyLines n \<Rightarrow> n \<le> u64_max | TopNonEmptyLines n \<Rightarrow> n \<le> u64_max
      | _ \<Rightarrow> True)"

lemma parse_region_count_show:
  "n \<le> u64_max \<Longrightarrow> parse_region_count (name @ ''('' @ show_nat n @ '')'') name = Some n"
  using strip_prefix_append [of "''(''" "show_nat n @ '')''"] by (simp add: parse_region_count_def parse_show_nat)

lemma parse_region_count_other:
  "\<not> prefix name v \<Longrightarrow> parse_region_count v name = None"
  by (simp add: parse_region_count_def strip_prefix_def)

lemma region_string_parses:
  assumes "region_fits r"
  shows "region_from_str (region_to_string r) = Ok r"
proof (cases r)
  case (BottomLines n)
  then show ?thesis using assms parse_region_count_show [of n "''bottom_lines''"]
    by (simp add: region_fits_def region_from_str_def parse_parameterized_region_def)
next
  case (BottomNonEmptyLines n)
  then show ?thesis using assms parse_region_count_show [of n "''bottom_non_empty_lines''"]
    by (simp add: region_fits_def region_from_str_def parse_parameterized_region_def parse_region_count_other)
next
  case (TopNonEmptyLines n)
  then show ?thesis using assms parse_region_count_show [of n "''top_non_empty_lines''"]
    by (simp add: region_fits_def region_from_str_def parse_parameterized_region_def parse_region_count_other)
qed (simp_all add: region_from_str_def)

section \<open>Guarantees\<close>

text \<open>
  C35.  Every manifest the parser accepts is well formed: its source, its rules, its gates and its
  matchers, the process matchers included, are within the documented limits; every rule has a matcher
  and a gate on which the matcher recurses at most seventeen levels; no rule has an unknown state; and
  a rule overrides the program status only if the manifest declares it, for a valid application name.
\<close>

theorem accepted_manifest_wf:
  "manifest_parse_str env source = Ok m \<Longrightarrow> manifest_wf m"
  by (rule parse_str_wf)

definition demo_env :: "(unit, unit, bytes) manifest_env" where
  "demo_env =
     \<lparr>env_toml = (\<lambda>_. Ok
        \<lparr>rm_rules =
           [\<lparr>rr_id = ''r'', rr_state = ''idle'', rr_priority = 5, rr_region = ''whole_recent'',
             rr_contains = Some (One ''ready''), rr_regex = None, rr_line_regex = None, rr_all = None,
             rr_any = Some [RawGate (Some (Many [''a'', ''b''])) None None None None None],
             rr_not = None, rr_gates = None, rr_visible_blocker = None, rr_overrides_program_status = None\<rparr>],
         rm_process = Some \<lparr>rp_comm = Some (One ''sh''), rp_cmdline = None\<rparr>,
         rm_program_status = None\<rparr>),
      env_regex_new = Ok, env_is_match = (\<lambda>r txt. sublist r txt), env_lowercase = (\<lambda>x. x)\<rparr>"

definition demo_manifest :: "bytes manifest" where
  "demo_manifest =
     \<lparr>mf_rules =
        [\<lparr>rule_id = ''r'', rule_activity = Idle, rule_priority = 5, rule_region = WholeRecent,
          rule_visible_blocker = False, rule_overrides_program_status = False,
          rule_gate = GateAll [GateContains ''ready'', GateAny [GateAll [GateContains ''a'', GateContains ''b'']]]\<rparr>],
      mf_process = Some \<lparr>pm_comm = [''sh''], pm_cmdline = []\<rparr>, mf_program_status = None,
      mf_source = ''source'', mf_latches_working = True\<rparr>"

theorem accepted_manifest_wf_witness:
  "manifest_parse_str demo_env ''source'' = Ok demo_manifest \<and> manifest_wf demo_manifest"
proof -
  have "manifest_parse_str demo_env ''source'' = Ok demo_manifest"
    by (simp add: manifest_parse_str_def demo_env_def demo_manifest_def traverse_def rule_try_from_raw_def
        parse_activity_def region_from_str_def compile_rule_gate_def push_matcher_parts_def matcher_values_def
        check_matcher_value_def note_matcher_def note_gate_def check_depth_def finish_gate_parts_def
        compile_process_matchers_def compile_process_regexes_def compile_regex_def budget_default_def
        MAX_SOURCE_BYTES_def MAX_RULES_def MAX_MATCHER_BYTES_def MAX_DEPTH_def MAX_GATES_def MAX_MATCHERS_def)
  with accepted_manifest_wf [OF this] show ?thesis by simp
qed

text \<open>
  C34.  Matching a context, with its cache of lowercased regions and its early exits, gives the first
  rule of the highest priority among the rules that apply; a rule applies when its region is part of
  the context, its gate holds there, and it does not override a program status that is not held.
\<close>

theorem winning_rule_exact:
  "manifest_match_context env m c =
     map_option rule_match (first_highest (filter (applicable env c) (mf_rules m)))"
  by (rule match_context_first_highest)

text \<open>
  The printed name of every region is parsed back to the same region, for counts of the width
  of the machine.
\<close>

theorem region_name_roundtrip:
  "region_fits r \<Longrightarrow> region_from_str (region_to_string r) = Ok r"
  by (rule region_string_parses)

theorem region_name_roundtrip_witness:
  "region_to_string (BottomNonEmptyLines 12) = ''bottom_non_empty_lines(12)'' \<and>
   region_from_str ''bottom_non_empty_lines(12)'' = Ok (BottomNonEmptyLines 12)"
proof -
  have "region_to_string (BottomNonEmptyLines 12) = ''bottom_non_empty_lines(12)''" by code_simp
  with region_name_roundtrip [of "BottomNonEmptyLines 12"] show ?thesis by (simp add: region_fits_def u64_max_def)
qed

end
