(* ===== verification/Screen_Tracker.thy ===== *)
theory Screen_Tracker
  imports Rust_Text
begin

text \<open>
  Scraping the terminal grid (\<open>crates/terminal/src/screen.rs\<close>): feeding output with observations
  before the screen is changed, and the text regions that detection reads.  The grid is the
  third-party crate \<open>vt100\<close>, the second state machine is the crate \<open>vte\<close>, and character widths are
  the crate \<open>unicode-width\<close>: they are the record parameter \<open>vt\<close>.  A Rust \<open>char\<close> is its scalar value.
\<close>

section \<open>The terminal crates\<close>

record cell =
  cell_contents :: bytes
  cell_is_wide :: bool
  cell_is_wide_continuation :: bool

datatype callback =
    Print nat
  | Execute nat
  | CsiDispatch "nat list list" nat
  | EscDispatch nat
  | OscDispatch
  | Unhook
  | OtherCallback

record ('v, 'd) vt_grid =
  vg_new :: "nat \<Rightarrow> nat \<Rightarrow> nat \<Rightarrow> 'v"
  vg_process :: "'v \<Rightarrow> bytes \<Rightarrow> 'v"
  vg_set_size :: "'v \<Rightarrow> nat \<Rightarrow> nat \<Rightarrow> 'v"
  vg_size :: "'v \<Rightarrow> nat \<times> nat"
  vg_cursor_position :: "'v \<Rightarrow> nat \<times> nat"
  vg_cell :: "'v \<Rightarrow> nat \<Rightarrow> nat \<Rightarrow> cell option"
  vg_bracketed_paste :: "'v \<Rightarrow> bool"
  vte_new :: 'd
  vte_advance :: "'d \<Rightarrow> bytes \<Rightarrow> 'd \<times> callback list"
  char_width :: "nat \<Rightarrow> nat option"

section \<open>The tracker\<close>

definition SCROLLBACK_LINES :: nat where "SCROLLBACK_LINES = 0"

record ('v, 'd) screen_tracker =
  st_parser :: 'v
  st_draw_parser :: "'d option"

definition screen_new :: "('v, 'd) vt_grid \<Rightarrow> nat \<Rightarrow> nat \<Rightarrow> ('v, 'd) screen_tracker" where
  "screen_new vt rows cols =
     \<lparr>st_parser = vg_new vt rows cols SCROLLBACK_LINES, st_draw_parser = Some (vte_new vt)\<rparr>"

definition grid_print_width :: "('v, 'd) vt_grid \<Rightarrow> nat \<Rightarrow> nat option" where
  "grid_print_width vt c =
     (if c = 0xFFFD \<or> (0x80 \<le> c \<and> c < 0xA0) then None
      else (case char_width vt c of None \<Rightarrow> None | Some w \<Rightarrow> if 0 < w then Some w else None))"

text \<open>The performer of a plain feed: whether a character of positive width was printed.\<close>

definition draw_callback :: "('v, 'd) vt_grid \<Rightarrow> bool \<Rightarrow> callback \<Rightarrow> bool" where
  "draw_callback vt drew cb =
     (case cb of Print c \<Rightarrow> if grid_print_width vt c \<noteq> None then True else drew | _ \<Rightarrow> drew)"

definition screen_feed :: "('v, 'd) vt_grid \<Rightarrow> ('v, 'd) screen_tracker \<Rightarrow> bytes \<Rightarrow> ('v, 'd) screen_tracker \<times> bool" where
  "screen_feed vt t bs =
     (let (dp, drew) =
        (case st_draw_parser t of
           None \<Rightarrow> (None, False)
         | Some d \<Rightarrow> (case vte_advance vt d bs of (d', cbs) \<Rightarrow> (Some d', foldl (draw_callback vt) False cbs)))
      in (t\<lparr>st_draw_parser := dp, st_parser := vg_process vt (st_parser t) bs\<rparr>, drew))"

text \<open>The performer of an observed feed, for one byte.\<close>

record observed_feed =
  of_completed_action :: bool
  of_observe_before :: bool
  of_changes_text :: bool
  of_width :: "nat option"

definition observed_feed_default :: observed_feed where
  "observed_feed_default =
     \<lparr>of_completed_action = False, of_observe_before = False, of_changes_text = False, of_width = None\<rparr>"

definition csi_changes_text :: "nat list list \<Rightarrow> nat \<Rightarrow> bool" where
  "csi_changes_text params action =
     (if action = of_char (CHR ''h'') \<or> action = of_char (CHR ''l'')
      then list_ex (list_ex (\<lambda>v. v = 47 \<or> v = 1047 \<or> v = 1049)) params
      else if action = of_char (CHR ''m'')
           \<or> (of_char (CHR ''A'') \<le> action \<and> action \<le> of_char (CHR ''H''))
           \<or> action \<in> {of_char (CHR ''f''), of_char (CHR ''d''), of_char (CHR ''s''), of_char (CHR ''u''),
                of_char (CHR ''n''), of_char (CHR ''c''), of_char (CHR ''r'')}
      then False else True)"

definition observed_callback :: "('v, 'd) vt_grid \<Rightarrow> observed_feed \<Rightarrow> callback \<Rightarrow> observed_feed" where
  "observed_callback vt e cb =
     (case cb of
        Print c \<Rightarrow>
          (let e' = e\<lparr>of_changes_text := True\<rparr> in
           case grid_print_width vt c of None \<Rightarrow> e' | Some w \<Rightarrow> e'\<lparr>of_width := Some w\<rparr>)
      | Execute b \<Rightarrow>
          e\<lparr>of_completed_action := True, of_observe_before := (0x08 \<le> b \<and> b \<le> 0x0D),
            of_changes_text := (0x0A \<le> b \<and> b \<le> 0x0C)\<rparr>
      | CsiDispatch params action \<Rightarrow>
          e\<lparr>of_completed_action := True, of_observe_before := (action \<noteq> of_char (CHR ''m'')),
            of_changes_text := csi_changes_text params action\<rparr>
      | EscDispatch action \<Rightarrow>
          e\<lparr>of_completed_action := True, of_observe_before := True,
            of_changes_text :=
              action \<in> {of_char (CHR ''D''), of_char (CHR ''E''), of_char (CHR ''M''), of_char (CHR ''c'')}\<rparr>
      | OscDispatch \<Rightarrow> e\<lparr>of_completed_action := True\<rparr>
      | Unhook \<Rightarrow> e\<lparr>of_completed_action := True, of_observe_before := True, of_changes_text := True\<rparr>
      | OtherCallback \<Rightarrow> e)"

text \<open>
  The variables of the loop of \<open>feed_observed\<close>; \<open>fl_pending\<close> is the slice from \<open>applied\<close> to the
  index, and \<open>fl_watch\<close> is the state of the observer the caller passes.
\<close>

record ('v, 'd, 's) feed_loop =
  fl_tracker :: "('v, 'd) screen_tracker"
  fl_pending :: bytes
  fl_printed :: bool
  fl_dirty :: bool
  fl_column :: nat
  fl_watch :: 's

definition draw_byte :: "('v, 'd) vt_grid \<Rightarrow> ('v, 'd) screen_tracker \<Rightarrow> byte \<Rightarrow> ('v, 'd) screen_tracker \<times> observed_feed" where
  "draw_byte vt t b =
     (case st_draw_parser t of
        None \<Rightarrow> (t, observed_feed_default)
      | Some d \<Rightarrow>
          (case vte_advance vt d [b] of (d', cbs) \<Rightarrow>
             (t\<lparr>st_draw_parser := Some d'\<rparr>, foldl (observed_callback vt) observed_feed_default cbs)))"

definition grid_process :: "('v, 'd) vt_grid \<Rightarrow> ('v, 'd) screen_tracker \<Rightarrow> bytes \<Rightarrow> ('v, 'd) screen_tracker" where
  "grid_process vt t bs = t\<lparr>st_parser := vg_process vt (st_parser t) bs\<rparr>"

definition feed_observed_step ::
  "('v, 'd) vt_grid \<Rightarrow> ('s \<Rightarrow> ('v, 'd) screen_tracker \<Rightarrow> bool \<Rightarrow> 's) \<Rightarrow> nat \<Rightarrow>
   ('v, 'd, 's) feed_loop \<Rightarrow> byte \<Rightarrow> ('v, 'd, 's) feed_loop" where
  "feed_observed_step vt watch columns l b =
     (let (t, event) = draw_byte vt (fl_tracker l) b;
          may_wrap = (case of_width event of None \<Rightarrow> False | Some w \<Rightarrow> columns < fl_column l + w);
          l1 =
            (if of_completed_action event \<or> may_wrap
             then (let t1 = grid_process vt t (fl_pending l);
                       l0 = (if fl_dirty l \<and> (of_observe_before event \<or> may_wrap)
                             then l\<lparr>fl_watch := watch (fl_watch l) t1 (fl_printed l),
                                    fl_printed := False, fl_dirty := False\<rparr>
                             else l);
                       t2 = grid_process vt t1 [b]
                   in l0\<lparr>fl_tracker := t2, fl_pending := [],
                         fl_column := snd (vg_cursor_position vt (st_parser t2))\<rparr>)
             else l\<lparr>fl_tracker := t, fl_pending := fl_pending l @ [b],
                    fl_column := (case of_width event of None \<Rightarrow> fl_column l | Some w \<Rightarrow> fl_column l + w)\<rparr>)
      in l1\<lparr>fl_printed := (fl_printed l1 \<or> of_width event \<noteq> None),
            fl_dirty := (fl_dirty l1 \<or> of_changes_text event)\<rparr>)"

definition feed_observed ::
  "('v, 'd) vt_grid \<Rightarrow> ('s \<Rightarrow> ('v, 'd) screen_tracker \<Rightarrow> bool \<Rightarrow> 's) \<Rightarrow>
   ('v, 'd) screen_tracker \<Rightarrow> bytes \<Rightarrow> 's \<Rightarrow> ('v, 'd) screen_tracker \<times> 's" where
  "feed_observed vt watch t bs s =
     (if st_draw_parser t = None then (grid_process vt t bs, s)
      else
        (let columns = snd (vg_size vt (st_parser t));
             l0 = \<lparr>fl_tracker = t, fl_pending = [], fl_printed = False, fl_dirty = False,
                   fl_column = snd (vg_cursor_position vt (st_parser t)), fl_watch = s\<rparr>;
             l = foldl (feed_observed_step vt watch columns) l0 bs;
             t' = grid_process vt (fl_tracker l) (fl_pending l)
         in (t', if fl_dirty l then watch (fl_watch l) t' (fl_printed l) else fl_watch l)))"

definition finish_observation :: "('v, 'd) screen_tracker \<Rightarrow> ('v, 'd) screen_tracker" where
  "finish_observation t = t\<lparr>st_draw_parser := None\<rparr>"

definition resume_observation :: "('v, 'd) vt_grid \<Rightarrow> ('v, 'd) screen_tracker \<Rightarrow> ('v, 'd) screen_tracker" where
  "resume_observation vt t =
     (if st_draw_parser t = None then t\<lparr>st_draw_parser := Some (vte_new vt)\<rparr> else t)"

definition bracketed_paste :: "('v, 'd) vt_grid \<Rightarrow> ('v, 'd) screen_tracker \<Rightarrow> bool" where
  "bracketed_paste vt t = vg_bracketed_paste vt (st_parser t)"

definition screen_resize :: "('v, 'd) vt_grid \<Rightarrow> ('v, 'd) screen_tracker \<Rightarrow> nat \<Rightarrow> nat \<Rightarrow> ('v, 'd) screen_tracker" where
  "screen_resize vt t rows cols = t\<lparr>st_parser := vg_set_size vt (st_parser t) rows cols\<rparr>"

definition screen_reset :: "('v, 'd) vt_grid \<Rightarrow> ('v, 'd) screen_tracker \<Rightarrow> ('v, 'd) screen_tracker" where
  "screen_reset vt t =
     (case vg_size vt (st_parser t) of (rows, cols) \<Rightarrow>
        t\<lparr>st_parser := vg_new vt rows cols SCROLLBACK_LINES,
          st_draw_parser := map_option (\<lambda>_. vte_new vt) (st_draw_parser t)\<rparr>)"

section \<open>Lines of the grid\<close>

definition u16_max :: nat where "u16_max = 65535"

definition u16_saturating_add :: "nat \<Rightarrow> nat \<Rightarrow> nat" where
  "u16_saturating_add a b = min (a + b) u16_max"

text \<open>The loop of \<open>slice_columns\<close> from a column on.\<close>

function slice_columns_from :: "('v, 'd) vt_grid \<Rightarrow> 'v \<Rightarrow> nat \<Rightarrow> nat \<Rightarrow> nat \<Rightarrow> bytes" where
  "slice_columns_from vt g row end_col col =
     (if col < end_col
      then (case vg_cell vt g row col of
              None \<Rightarrow> CHR '' '' # slice_columns_from vt g row end_col (col + 1)
            | Some c \<Rightarrow>
                if cell_is_wide_continuation c then CHR '' '' # slice_columns_from vt g row end_col (col + 1)
                else if cell_is_wide c \<and> end_col \<le> u16_saturating_add col 1
                then CHR '' '' # slice_columns_from vt g row end_col (col + 1)
                else (if cell_contents c = [] then [CHR '' ''] else cell_contents c)
                     @ slice_columns_from vt g row end_col (col + (if cell_is_wide c then 2 else 1)))
      else [])"
  by pat_completeness auto
termination
  by (relation "measure (\<lambda>(vt, g, row, end_col, col). end_col - col)") auto

declare slice_columns_from.simps [simp del]

definition slice_columns :: "('v, 'd) vt_grid \<Rightarrow> ('v, 'd) screen_tracker \<Rightarrow> nat \<Rightarrow> nat \<Rightarrow> nat \<Rightarrow> bytes" where
  "slice_columns vt t row start_col width =
     (case vg_size vt (st_parser t) of (rows, cols) \<Rightarrow>
        if rows \<le> row \<or> cols \<le> start_col \<or> width = 0 then []
        else slice_columns_from vt (st_parser t) row (min (u16_saturating_add start_col width) cols) start_col)"

text \<open>\<open>trim_end_matches\<close> for the space character.\<close>

definition trim_end_spaces :: "bytes \<Rightarrow> bytes" where
  "trim_end_spaces xs = rev (dropWhile (\<lambda>b. b = CHR '' '') (rev xs))"

definition trimmed_line :: "('v, 'd) vt_grid \<Rightarrow> ('v, 'd) screen_tracker \<Rightarrow> nat \<Rightarrow> nat \<Rightarrow> bytes" where
  "trimmed_line vt t row cols = trim_end_spaces (slice_columns vt t row 0 cols)"

definition visible_lines :: "('v, 'd) vt_grid \<Rightarrow> ('v, 'd) screen_tracker \<Rightarrow> bytes list" where
  "visible_lines vt t =
     (case vg_size vt (st_parser t) of (rows, cols) \<Rightarrow> map (\<lambda>row. trimmed_line vt t row cols) [0..<rows])"

section \<open>Regions\<close>

definition NEWLINE :: bytes where "NEWLINE = [CHR 0x0A]"

definition bottom_lines :: "('v, 'd) vt_grid \<Rightarrow> ('v, 'd) screen_tracker \<Rightarrow> nat \<Rightarrow> bytes list" where
  "bottom_lines vt t count = (let lines = visible_lines vt t in drop (length lines - count) lines)"

definition bottom_non_empty_lines :: "('v, 'd) vt_grid \<Rightarrow> ('v, 'd) screen_tracker \<Rightarrow> nat \<Rightarrow> bytes list" where
  "bottom_non_empty_lines vt t count =
     rev (take count (filter (\<lambda>line. line \<noteq> []) (rev (visible_lines vt t))))"

definition top_non_empty_lines :: "('v, 'd) vt_grid \<Rightarrow> ('v, 'd) screen_tracker \<Rightarrow> nat \<Rightarrow> bytes list" where
  "top_non_empty_lines vt t count = take count (filter (\<lambda>line. line \<noteq> []) (visible_lines vt t))"

definition recent_text :: "('v, 'd) vt_grid \<Rightarrow> ('v, 'd) screen_tracker \<Rightarrow> bytes" where
  "recent_text vt t = join_with NEWLINE (rev (dropWhile (\<lambda>line. line = []) (rev (visible_lines vt t))))"

text \<open>\<open>Iterator::rposition\<close>.\<close>

fun rposition :: "('a \<Rightarrow> bool) \<Rightarrow> 'a list \<Rightarrow> nat option" where
  "rposition P [] = None"
| "rposition P (x # xs) =
     (case rposition P xs of Some i \<Rightarrow> Some (Suc i) | None \<Rightarrow> if P x then Some 0 else None)"

definition PROMPT_MARKER :: bytes where "PROMPT_MARKER = [CHR 0xE2, CHR 0x80, CHR 0xBA]"
definition RULE_CHAR :: bytes where "RULE_CHAR = [CHR 0xE2, CHR 0x94, CHR 0x80]"

definition is_prompt_marker_line :: "bytes \<Rightarrow> bool" where
  "is_prompt_marker_line line \<longleftrightarrow> line = PROMPT_MARKER \<or> prefix (PROMPT_MARKER @ '' '') line"

definition is_horizontal_rule :: "bytes \<Rightarrow> bool" where
  "is_horizontal_rule line =
     (let trimmed = trim_chars (utf8_chars line) in
      if trimmed = [] then False
      else let rule_chars = length (takeWhile (\<lambda>c. c = RULE_CHAR) trimmed) in
           if rule_chars = 0 then False
           else dropWhile is_whitespace (drop rule_chars trimmed) = [] \<or> 3 \<le> rule_chars)"

text \<open>The loop over the indices below \<open>n\<close>, from the last one up.\<close>

primrec border_scan :: "bytes list \<Rightarrow> nat \<Rightarrow> nat \<Rightarrow> nat option" where
  "border_scan lines 0 border_count = None"
| "border_scan lines (Suc i) border_count =
     (if is_horizontal_rule (lines ! i)
      then if border_count + 1 = 2 then Some i else border_scan lines i (border_count + 1)
      else border_scan lines i border_count)"

definition prompt_box_top_border_index :: "bytes list \<Rightarrow> nat option" where
  "prompt_box_top_border_index lines = border_scan lines (length lines) 0"

definition after_last_prompt_marker :: "('v, 'd) vt_grid \<Rightarrow> ('v, 'd) screen_tracker \<Rightarrow> bytes" where
  "after_last_prompt_marker vt t =
     (let lines = visible_lines vt t in
      case rposition is_prompt_marker_line lines of
        Some index \<Rightarrow> join_with NEWLINE (drop (index + 1) lines)
      | None \<Rightarrow> join_with NEWLINE lines)"

definition prompt_box_body :: "('v, 'd) vt_grid \<Rightarrow> ('v, 'd) screen_tracker \<Rightarrow> bytes" where
  "prompt_box_body vt t =
     (let lines = visible_lines vt t in
      case prompt_box_top_border_index lines of
        None \<Rightarrow> []
      | Some border \<Rightarrow>
          join_with NEWLINE (takeWhile (\<lambda>line. \<not> is_horizontal_rule line) (drop (border + 1) lines)))"

definition last_non_empty_above_prompt_box :: "('v, 'd) vt_grid \<Rightarrow> ('v, 'd) screen_tracker \<Rightarrow> bytes" where
  "last_non_empty_above_prompt_box vt t =
     (let lines = visible_lines vt t in
      case prompt_box_top_border_index lines of
        None \<Rightarrow> []
      | Some border \<Rightarrow> unwrap_or (List.find (\<lambda>line. line \<noteq> []) (rev (take border lines))) [])"

definition after_last_horizontal_rule :: "('v, 'd) vt_grid \<Rightarrow> ('v, 'd) screen_tracker \<Rightarrow> bytes" where
  "after_last_horizontal_rule vt t =
     (let lines = visible_lines vt t in
      case rposition is_horizontal_rule lines of
        Some index \<Rightarrow> join_with NEWLINE (drop (index + 1) lines)
      | None \<Rightarrow> join_with NEWLINE lines)"

section \<open>Observed feeding\<close>

text \<open>
  The crates process a stream: bytes may be handed over in any pieces.  This is their documented use,
  and the only thing the results below need of them.
\<close>

definition vt_streaming :: "('v, 'd) vt_grid \<Rightarrow> bool" where
  "vt_streaming vt \<longleftrightarrow>
     (\<forall>g. vg_process vt g [] = g) \<and>
     (\<forall>g xs ys. vg_process vt g (xs @ ys) = vg_process vt (vg_process vt g xs) ys) \<and>
     (\<forall>d. fst (vte_advance vt d []) = d) \<and>
     (\<forall>d xs ys. fst (vte_advance vt d (xs @ ys)) = fst (vte_advance vt (fst (vte_advance vt d xs)) ys))"

lemma vt_streamingD:
  assumes "vt_streaming vt"
  shows "vg_process vt g [] = g" and "vg_process vt (vg_process vt g xs) ys = vg_process vt g (xs @ ys)"
    and "fst (vte_advance vt d []) = d"
    and "fst (vte_advance vt (fst (vte_advance vt d xs)) ys) = fst (vte_advance vt d (xs @ ys))"
  using assms unfolding vt_streaming_def by metis+

text \<open>An observer that records the grids it is shown.\<close>

definition record_view ::
  "(('v, 'd) screen_tracker \<times> bool) list \<Rightarrow> ('v, 'd) screen_tracker \<Rightarrow> bool \<Rightarrow> (('v, 'd) screen_tracker \<times> bool) list" where
  "record_view seen t drew = seen @ [(t, drew)]"

definition views_at :: "('v, 'd) vt_grid \<Rightarrow> 'v \<Rightarrow> bytes \<Rightarrow> (('v, 'd) screen_tracker \<times> bool) list \<Rightarrow> nat list \<Rightarrow> bool" where
  "views_at vt g bs seen ks \<longleftrightarrow>
     sorted_wrt (<) ks \<and> map (\<lambda>view. st_parser (fst view)) seen = map (\<lambda>k. vg_process vt g (take k bs)) ks"

lemma views_at_append: "\<forall>k \<in> set ks. k \<le> length xs \<Longrightarrow> views_at vt g xs seen ks \<Longrightarrow> views_at vt g (xs @ ys) seen ks"
  by (auto simp: views_at_def)

lemma views_at_snoc:
  "views_at vt g xs seen ks \<Longrightarrow> \<forall>k \<in> set ks. k < length xs \<Longrightarrow> st_parser t = vg_process vt g xs \<Longrightarrow>
     views_at vt g xs (record_view seen t drew) (ks @ [length xs])"
  by (simp add: views_at_def record_view_def sorted_wrt_append)

text \<open>After a prefix of the bytes: what was applied and what is pending make up the prefix.\<close>

definition loop_inv ::
  "('v, 'd) vt_grid \<Rightarrow> 'v \<Rightarrow> 'd \<Rightarrow> bytes \<Rightarrow> ('v, 'd, (('v, 'd) screen_tracker \<times> bool) list) feed_loop \<Rightarrow> bool" where
  "loop_inv vt g d xs l \<longleftrightarrow>
     vg_process vt (st_parser (fl_tracker l)) (fl_pending l) = vg_process vt g xs \<and>
     st_draw_parser (fl_tracker l) = Some (fst (vte_advance vt d xs)) \<and>
     (\<exists>ks. views_at vt g xs (fl_watch l) ks \<and> (\<forall>k \<in> set ks. k < length xs))"

lemma draw_byte_fields:
  assumes "draw_byte vt t b = (t', event)"
  shows "st_parser t' = st_parser t"
    and "st_draw_parser t = Some d \<Longrightarrow> st_draw_parser t' = Some (fst (vte_advance vt d [b]))"
  using assms by (auto simp: draw_byte_def split: option.splits prod.splits)

lemma feed_observed_step_inv:
  assumes vt: "vt_streaming vt" and inv: "loop_inv vt g d xs l"
  shows "loop_inv vt g d (xs @ [b]) (feed_observed_step vt record_view columns l b)"
proof -
  note stream = vt_streamingD [OF vt]
  obtain t event where e: "draw_byte vt (fl_tracker l) b = (t, event)" by fastforce
  from inv obtain ks where grid: "vg_process vt (st_parser (fl_tracker l)) (fl_pending l) = vg_process vt g xs"
    and draw: "st_draw_parser (fl_tracker l) = Some (fst (vte_advance vt d xs))"
    and ks: "views_at vt g xs (fl_watch l) ks" "\<forall>k \<in> set ks. k < length xs" by (auto simp: loop_inv_def)
  have t: "st_parser t = st_parser (fl_tracker l)" "st_draw_parser t = Some (fst (vte_advance vt d (xs @ [b])))"
    using draw_byte_fields [OF e] draw stream(4) by auto
  let ?t1 = "grid_process vt t (fl_pending l)"
  have t1: "st_parser ?t1 = vg_process vt g xs" using t grid by (simp add: grid_process_def)
  have keep: "\<exists>ks. views_at vt g (xs @ [b]) (fl_watch l) ks \<and> (\<forall>k \<in> set ks. k < length (xs @ [b]))"
    using views_at_append [of ks xs vt g "fl_watch l" "[b]"] ks by (fastforce intro!: exI [of _ ks])
  have "views_at vt g (xs @ [b]) (record_view (fl_watch l) ?t1 (fl_printed l)) (ks @ [length xs])"
    using views_at_snoc [OF ks t1] ks(2) by (intro views_at_append) auto
  then have view: "\<exists>ks. views_at vt g (xs @ [b]) (record_view (fl_watch l) ?t1 (fl_printed l)) ks \<and>
      (\<forall>k \<in> set ks. k < length (xs @ [b]))"
    using ks(2) by (auto simp: less_Suc_eq intro!: exI [of _ "ks @ [length xs]"])
  have grid': "vg_process vt (vg_process vt (st_parser t) (fl_pending l)) [b] = vg_process vt g (xs @ [b])"
    "vg_process vt (st_parser t) (fl_pending l @ [b]) = vg_process vt g (xs @ [b])"
    using t grid stream(2) by metis+
  show ?thesis
    using keep view grid' t(2)
    by (auto simp: loop_inv_def feed_observed_step_def e Let_def grid_process_def stream(1))
qed

lemma feed_observed_loop_inv:
  "vt_streaming vt \<Longrightarrow> loop_inv vt g d xs l \<Longrightarrow>
     loop_inv vt g d (xs @ ys) (foldl (feed_observed_step vt record_view columns) l ys)"
proof (induction ys arbitrary: xs l)
  case (Cons y ys)
  from Cons.IH [OF Cons.prems(1) feed_observed_step_inv [OF Cons.prems]] show ?case by simp
qed simp

section \<open>Guarantees\<close>

text \<open>
  Feeding with observations leaves the tracker exactly as plain feeding does, and the observer is
  shown the screen after prefixes of the bytes only, each longer than the one before.
\<close>

theorem observed_feed_same_screen:
  assumes "vt_streaming vt" and "st_draw_parser t = Some d"
  shows "fst (feed_observed vt record_view t bs []) = fst (screen_feed vt t bs) \<and>
    (\<exists>ks. sorted_wrt (<) ks \<and> (\<forall>k \<in> set ks. k \<le> length bs) \<and>
       map (\<lambda>view. st_parser (fst view)) (snd (feed_observed vt record_view t bs [])) =
       map (\<lambda>k. vg_process vt (st_parser t) (take k bs)) ks)"
proof -
  let ?g = "st_parser t" and ?columns = "snd (vg_size vt (st_parser t))"
  let ?l0 = "\<lparr>fl_tracker = t, fl_pending = [], fl_printed = False, fl_dirty = False,
    fl_column = snd (vg_cursor_position vt (st_parser t)), fl_watch = []\<rparr>"
  define l where "l = foldl (feed_observed_step vt record_view ?columns) ?l0 bs"
  have "loop_inv vt ?g d [] ?l0"
    using assms by (auto simp: loop_inv_def views_at_def vt_streamingD intro!: exI [of _ "[]"])
  from feed_observed_loop_inv [OF assms(1) this, of bs ?columns]
  obtain ks where grid: "vg_process vt (st_parser (fl_tracker l)) (fl_pending l) = vg_process vt ?g bs"
    and draw: "st_draw_parser (fl_tracker l) = Some (fst (vte_advance vt d bs))"
    and ks: "views_at vt ?g bs (fl_watch l) ks" "\<forall>k \<in> set ks. k < length bs"
    by (auto simp: loop_inv_def l_def)
  let ?t = "grid_process vt (fl_tracker l) (fl_pending l)"
  have feed: "feed_observed vt record_view t bs [] =
      (?t, if fl_dirty l then record_view (fl_watch l) ?t (fl_printed l) else fl_watch l)"
    using assms(2) by (simp add: feed_observed_def l_def Let_def)
  have "st_parser ?t = vg_process vt ?g bs" using grid by (simp add: grid_process_def)
  from views_at_snoc [OF ks this]
  have "\<exists>ks. views_at vt ?g bs (snd (feed_observed vt record_view t bs [])) ks \<and> (\<forall>k \<in> set ks. k \<le> length bs)"
    using ks unfolding feed by (cases "fl_dirty l") (fastforce intro!: exI [of _ "ks @ [length bs]"], fastforce)
  moreover have "fst (feed_observed vt record_view t bs []) = fst (screen_feed vt t bs)"
    using grid draw assms(2) unfolding feed
    by (auto simp: screen_feed_def grid_process_def split: prod.splits)
  ultimately show ?thesis by (auto simp: views_at_def)
qed

text \<open>A grid that remembers its bytes, and a parser that prints every byte and executes a line feed.\<close>

definition log_vt :: "(bytes, unit) vt_grid" where
  "log_vt =
     \<lparr>vg_new = (\<lambda>_ _ _. []), vg_process = (\<lambda>g bs. g @ bs), vg_set_size = (\<lambda>g _ _. g), vg_size = (\<lambda>_. (24, 80)),
      vg_cursor_position = (\<lambda>_. (0, 0)), vg_cell = (\<lambda>_ _ _. None), vg_bracketed_paste = (\<lambda>_. False),
      vte_new = (), vte_advance = (\<lambda>_ bs. ((), map (\<lambda>b. if b = CHR 0x0A then Execute 10 else Print (of_char b)) bs)),
      char_width = (\<lambda>_. Some 1)\<rparr>"

lemma log_vt_simps [simp]:
  "vg_new log_vt r c k = []" "vg_process log_vt g bs = g @ bs" "vg_size log_vt g = (24, 80)"
  "vg_cursor_position log_vt g = (0, 0)" "vg_cell log_vt g r c = None" "vg_bracketed_paste log_vt g = False"
  "vte_advance log_vt d bs = ((), map (\<lambda>b. if b = CHR 0x0A then Execute 10 else Print (of_char b)) bs)"
  "char_width log_vt x = Some 1"
  by (simp_all add: log_vt_def)

lemma log_vt_streaming: "vt_streaming log_vt"
  by (simp add: vt_streaming_def log_vt_def)

theorem observed_feed_same_screen_witness:
  "fst (feed_observed log_vt record_view (screen_new log_vt 24 80) [CHR ''a'', CHR 0x0A, CHR ''b''] []) =
     \<lparr>st_parser = [CHR ''a'', CHR 0x0A, CHR ''b''], st_draw_parser = Some ()\<rparr> \<and>
   map (\<lambda>view. st_parser (fst view))
     (snd (feed_observed log_vt record_view (screen_new log_vt 24 80) [CHR ''a'', CHR 0x0A, CHR ''b''] [])) =
     [''a'', [CHR ''a'', CHR 0x0A, CHR ''b'']]"
proof -
  have "st_draw_parser (screen_new log_vt 24 80) = Some ()" by (simp add: screen_new_def log_vt_def)
  note conjunct1 [OF observed_feed_same_screen [OF log_vt_streaming this, of "[CHR ''a'', CHR 0x0A, CHR ''b'']"]]
  moreover have "fst (screen_feed log_vt (screen_new log_vt 24 80) [CHR ''a'', CHR 0x0A, CHR ''b'']) =
      \<lparr>st_parser = [CHR ''a'', CHR 0x0A, CHR ''b''], st_draw_parser = Some ()\<rparr>"
    by (simp add: screen_feed_def screen_new_def log_vt_def)
  moreover have "feed_observed_step log_vt record_view 80
      \<lparr>fl_tracker = \<lparr>st_parser = [], st_draw_parser = Some ()\<rparr>, fl_pending = [], fl_printed = False, fl_dirty = False, fl_column = 0, fl_watch = []\<rparr> (CHR ''a'') =
      \<lparr>fl_tracker = \<lparr>st_parser = [], st_draw_parser = Some ()\<rparr>, fl_pending = ''a'', fl_printed = True, fl_dirty = True, fl_column = 1, fl_watch = []\<rparr>"
    by (simp add: feed_observed_step_def draw_byte_def observed_callback_def grid_process_def observed_feed_default_def
        grid_print_width_def record_view_def)
  moreover have "feed_observed_step log_vt record_view 80
      \<lparr>fl_tracker = \<lparr>st_parser = [], st_draw_parser = Some ()\<rparr>, fl_pending = ''a'', fl_printed = True, fl_dirty = True, fl_column = 1, fl_watch = []\<rparr> (CHR 0x0A) =
      \<lparr>fl_tracker = \<lparr>st_parser = [CHR ''a'', CHR 0x0A], st_draw_parser = Some ()\<rparr>, fl_pending = [], fl_printed = False, fl_dirty = True, fl_column = 0, fl_watch = [(\<lparr>st_parser = ''a'', st_draw_parser = Some ()\<rparr>, True)]\<rparr>"
    by (simp add: feed_observed_step_def draw_byte_def observed_callback_def grid_process_def observed_feed_default_def
        grid_print_width_def record_view_def)
  moreover have "feed_observed_step log_vt record_view 80
      \<lparr>fl_tracker = \<lparr>st_parser = [CHR ''a'', CHR 0x0A], st_draw_parser = Some ()\<rparr>, fl_pending = [], fl_printed = False, fl_dirty = True, fl_column = 0, fl_watch = [(\<lparr>st_parser = ''a'', st_draw_parser = Some ()\<rparr>, True)]\<rparr> (CHR ''b'') =
      \<lparr>fl_tracker = \<lparr>st_parser = [CHR ''a'', CHR 0x0A], st_draw_parser = Some ()\<rparr>, fl_pending = ''b'', fl_printed = True, fl_dirty = True, fl_column = 1, fl_watch = [(\<lparr>st_parser = ''a'', st_draw_parser = Some ()\<rparr>, True)]\<rparr>"
    by (simp add: feed_observed_step_def draw_byte_def observed_callback_def grid_process_def observed_feed_default_def
        grid_print_width_def record_view_def)
  ultimately show ?thesis by (simp add: feed_observed_def screen_new_def grid_process_def record_view_def Let_def)
qed

end
