(* ===== verification/Detector.thy ===== *)
theory Detector
  imports Detect_Machine Detect_Osc Detect_Manifest Screen_Tracker
begin

text \<open>
  The activity detector (\<open>crates/daemon/src/detect/mod.rs\<close>): it feeds terminal output through the
  control-string parser and the screen, evaluates the manifest on the resulting context, arbitrates
  with the program-status record and drives the debounced state machine; and it decides when the
  agent's input is ready.  The terminal crates, the manifest engines and base64 are the record
  parameter \<open>env\<close>.
\<close>

section \<open>Configuration\<close>

datatype input_readiness = BracketedPaste | ScreenIdle | ManifestIdle

definition readiness_for_manifest :: "input_readiness \<Rightarrow> 'r manifest \<Rightarrow> input_readiness" where
  "readiness_for_manifest r m =
     (if r = ScreenIdle \<and> \<not> has_screen_idle_rule m then BracketedPaste else r)"

record 'r detector_config =
  cfg_detection :: detection_config
  cfg_manifest :: "'r manifest option"
  cfg_input_readiness :: input_readiness
  cfg_launch_name :: "bytes option"

definition answers_program_status_probe :: "'r detector_config \<Rightarrow> bool" where
  "answers_program_status_probe c =
     (case Option.bind (cfg_manifest c) mf_program_status of None \<Rightarrow> False | Some p \<Rightarrow> psc_answer_probe p)"

text \<open>What a runtime definition contributes to the configuration.\<close>

record 'r runtime_definition =
  rd_manifest :: "'r manifest"
  rd_input_readiness :: input_readiness

text \<open>\<open>shell\<close> is the embedded shell manifest; a failed resolution of the host is \<open>None\<close>.\<close>

definition config_generic_shell :: "'r manifest \<Rightarrow> 'r detector_config" where
  "config_generic_shell shell =
     \<lparr>cfg_detection = config_default, cfg_manifest = Some shell, cfg_input_readiness = BracketedPaste,
      cfg_launch_name = None\<rparr>"

definition config_for_definition :: "'r runtime_definition \<Rightarrow> 'r detector_config" where
  "config_for_definition def =
     \<lparr>cfg_detection = config_default, cfg_manifest = Some (rd_manifest def),
      cfg_input_readiness = rd_input_readiness def, cfg_launch_name = None\<rparr>"

definition readiness_of :: "'r runtime_definition option \<Rightarrow> input_readiness" where
  "readiness_of def = (case def of None \<Rightarrow> BracketedPaste | Some d \<Rightarrow> rd_input_readiness d)"

definition config_for_agent :: "'r manifest \<Rightarrow> 'r runtime_definition option \<Rightarrow> 'r detector_config" where
  "config_for_agent shell resolved =
     (case resolved of None \<Rightarrow> config_generic_shell shell | Some d \<Rightarrow> config_for_definition d)"

definition config_for_pinned ::
  "'r manifest \<Rightarrow> 'r runtime_definition option \<Rightarrow> 'r manifest option \<Rightarrow> 'r detector_config" where
  "config_for_pinned shell resolved override =
     (case override of
        Some m \<Rightarrow>
          \<lparr>cfg_detection = config_default, cfg_manifest = Some m,
           cfg_input_readiness = readiness_for_manifest (readiness_of resolved) m, cfg_launch_name = None\<rparr>
      | None \<Rightarrow> config_for_agent shell resolved)"

definition config_for_profile ::
  "'r manifest \<Rightarrow> 'r runtime_definition option \<Rightarrow> 'r manifest option \<Rightarrow> 'r detector_config" where
  "config_for_profile shell resolved override =
     (case override of
        Some m \<Rightarrow>
          \<lparr>cfg_detection = config_default, cfg_manifest = Some m,
           cfg_input_readiness = readiness_for_manifest (readiness_of resolved) m, cfg_launch_name = None\<rparr>
      | None \<Rightarrow> config_for_agent shell resolved)"

definition config_for_resolution ::
  "'r manifest \<Rightarrow> 'r manifest option \<Rightarrow> 'r runtime_definition option \<Rightarrow> 'r detector_config" where
  "config_for_resolution shell override def =
     (case (override, def) of
        (Some m, def) \<Rightarrow>
          \<lparr>cfg_detection = config_default, cfg_manifest = Some m,
           cfg_input_readiness = (case def of None \<Rightarrow> BracketedPaste | Some d \<Rightarrow> rd_input_readiness d),
           cfg_launch_name = None\<rparr>
      | (None, Some d) \<Rightarrow> config_for_definition d
      | (None, None) \<Rightarrow> config_generic_shell shell)"

text \<open>Definitions are tried in the order of the registry.\<close>

definition identify_definition ::
  "('t, 'e, 'r) manifest_env \<Rightarrow> 'r runtime_definition list \<Rightarrow> process_fact \<Rightarrow> 'r runtime_definition option" where
  "identify_definition menv defs f =
     List.find (\<lambda>d. case mf_process (rd_manifest d) of None \<Rightarrow> False | Some pm \<Rightarrow> process_matches menv pm f) defs"

section \<open>The byte-level activity scanner\<close>

datatype process_activity_state = PaGround | PaEscape | PaOscString | PaOscStringEscape

definition activity_step :: "process_activity_state \<times> bool \<Rightarrow> byte \<Rightarrow> process_activity_state \<times> bool" where
  "activity_step s b =
     (case s of (state, active) \<Rightarrow>
        (case state of
           PaGround \<Rightarrow> if b = ESC then (PaEscape, active) else (PaGround, True)
         | PaEscape \<Rightarrow>
             if b = CHR '']'' then (PaOscString, active)
             else if b = ESC then (PaEscape, active) else (PaGround, True)
         | PaOscString \<Rightarrow>
             if b = BEL then (PaGround, active)
             else if b = ESC then (PaOscStringEscape, active) else (PaOscString, active)
         | PaOscStringEscape \<Rightarrow>
             if b = BACKSLASH then (PaGround, active)
             else if b = CHR '']'' then (PaOscString, active)
             else if b = ESC then (PaOscStringEscape, active) else (PaGround, active)))"

definition process_activity_observe :: "process_activity_state \<Rightarrow> bytes \<Rightarrow> process_activity_state \<times> bool" where
  "process_activity_observe state bs = foldl activity_step (state, False) bs"

section \<open>Evidence from the manifest\<close>

record ('v, 'd, 't, 'e, 'r) detector_env =
  de_vt :: "('v, 'd) vt_grid"
  de_manifest :: "('t, 'e, 'r) manifest_env"
  de_b64 :: "bytes \<Rightarrow> bytes option"

record context_freshness =
  fr_screen :: bool
  fr_osc_title :: bool
  fr_osc_progress :: bool

definition freshness_all :: context_freshness where
  "freshness_all = \<lparr>fr_screen = True, fr_osc_title = True, fr_osc_progress = True\<rparr>"

definition freshness_includes :: "context_freshness \<Rightarrow> manifest_region \<Rightarrow> bool" where
  "freshness_includes fr region =
     (case region of RegOscTitle \<Rightarrow> fr_osc_title fr | RegOscProgress \<Rightarrow> fr_osc_progress fr | _ \<Rightarrow> fr_screen fr)"

record arrivals =
  ar_title :: nat
  ar_screen :: nat

record evidence_hit =
  eh_evidence :: evidence
  eh_visible_blocker :: bool
  eh_overrides_program_status :: bool
  eh_arrival :: nat

definition launch_name_echo :: "bytes \<Rightarrow> bytes \<Rightarrow> bool" where
  "launch_name_echo title name \<longleftrightarrow>
     title = name \<or> (case strip_prefix name title of None \<Rightarrow> False | Some rest \<Rightarrow> prefix ''-'' rest)"

definition evaluated_title :: "bytes option \<Rightarrow> bytes option \<Rightarrow> bytes option" where
  "evaluated_title title launch_name =
     (case title of
        None \<Rightarrow> None
      | Some t \<Rightarrow>
          if (case launch_name of None \<Rightarrow> True | Some name \<Rightarrow> \<not> launch_name_echo t name) then Some t else None)"

text \<open>The text a region contributes, if any.\<close>

definition region_source_text ::
  "('v, 'd) vt_grid \<Rightarrow> ('v, 'd) screen_tracker \<Rightarrow> bytes option \<Rightarrow> bytes option \<Rightarrow> manifest_region \<Rightarrow> bytes option" where
  "region_source_text vt screen title progress region =
     (case region of
        RegOscTitle \<Rightarrow> title
      | RegOscProgress \<Rightarrow> progress
      | WholeRecent \<Rightarrow> Some (recent_text vt screen)
      | BottomLines n \<Rightarrow> Some (join_with NEWLINE (bottom_lines vt screen n))
      | BottomNonEmptyLines n \<Rightarrow> Some (join_with NEWLINE (bottom_non_empty_lines vt screen n))
      | TopNonEmptyLines n \<Rightarrow> Some (join_with NEWLINE (top_non_empty_lines vt screen n))
      | LastNonEmptyAbovePromptBox \<Rightarrow> Some (last_non_empty_above_prompt_box vt screen)
      | AfterLastPromptMarker \<Rightarrow> Some (after_last_prompt_marker vt screen)
      | PromptBoxBody \<Rightarrow> Some (prompt_box_body vt screen)
      | AfterLastHorizontalRule \<Rightarrow> Some (after_last_horizontal_rule vt screen))"

definition match_context_for ::
  "('v, 'd) vt_grid \<Rightarrow> 'r manifest \<Rightarrow> ('v, 'd) screen_tracker \<Rightarrow> bytes option \<Rightarrow> bytes option \<Rightarrow>
   context_freshness \<Rightarrow> match_context" where
  "match_context_for vt m screen title progress fr =
     foldl (\<lambda>c region.
         if \<not> freshness_includes fr region then c
         else (case region_source_text vt screen title progress region of
                 None \<Rightarrow> c | Some txt \<Rightarrow> with_region_text c region txt))
       match_context_default (required_regions m)"

definition manifest_source :: "manifest_region \<Rightarrow> state_source" where
  "manifest_source region =
     (case region of RegOscTitle \<Rightarrow> OscTitle | RegOscProgress \<Rightarrow> OscProgress | _ \<Rightarrow> Screen)"

definition is_visible_manifest_source :: "state_source \<Rightarrow> bool" where
  "is_visible_manifest_source s \<longleftrightarrow> s = OscTitle \<or> s = OscProgress \<or> s = Screen"

definition manifest_hit ::
  "('v, 'd, 't, 'e, 'r) detector_env \<Rightarrow> 'r manifest \<Rightarrow> ('v, 'd) screen_tracker \<Rightarrow> bytes option \<Rightarrow> bytes option \<Rightarrow>
   arrivals \<Rightarrow> context_freshness \<Rightarrow> bool \<Rightarrow> evidence_hit option" where
  "manifest_hit env m screen title progress arrivals fr held =
     (let c = with_program_status_held (match_context_for (de_vt env) m screen title progress fr) held in
      case manifest_match_context (de_manifest env) m c of
        None \<Rightarrow> None
      | Some matched \<Rightarrow>
          let source = manifest_source (mm_region matched) in
          if mm_activity matched = Blocked \<and> mm_visible_blocker matched \<and> \<not> is_visible_manifest_source source
          then None
          else Some
            \<lparr>eh_evidence = \<lparr>ev_activity = mm_activity matched, ev_source = source\<rparr>,
             eh_visible_blocker = mm_visible_blocker matched,
             eh_overrides_program_status = mm_overrides_program_status matched,
             eh_arrival =
               (case source of OscTitle \<Rightarrow> ar_title arrivals | Screen \<Rightarrow> ar_screen arrivals | _ \<Rightarrow> 0)\<rparr>)"

definition record_hit :: "agent_activity \<Rightarrow> bool \<Rightarrow> evidence_hit" where
  "record_hit activity visible_blocker =
     \<lparr>eh_evidence = \<lparr>ev_activity = activity, ev_source = OscProgress\<rparr>, eh_visible_blocker = visible_blocker,
      eh_overrides_program_status = False, eh_arrival = 0\<rparr>"

definition overlay_program_status :: "program_status_record option \<Rightarrow> evidence_hit option \<Rightarrow> evidence_hit option" where
  "overlay_program_status held screen =
     (case held of
        None \<Rightarrow> screen
      | Some r \<Rightarrow>
          (case status_state r of
             PsBlocked _ \<Rightarrow> Some (record_hit Blocked True)
           | state \<Rightarrow>
               (case screen of
                  Some hit \<Rightarrow>
                    if (ev_activity (eh_evidence hit) = Blocked \<and> eh_visible_blocker hit) \<or> eh_overrides_program_status hit
                    then Some hit
                    else Some (case state of PsWorking \<Rightarrow> record_hit Working False | _ \<Rightarrow> record_hit Idle False)
                | None \<Rightarrow> Some (case state of PsWorking \<Rightarrow> record_hit Working False | _ \<Rightarrow> record_hit Idle False))))"

section \<open>The working latch of one chunk\<close>

record osc_changes =
  oc_title :: bool
  oc_progress :: bool

record chunk_latch =
  lt_open :: bool
  lt_recent_before :: bytes
  lt_osc_changes :: osc_changes
  lt_program_status :: "program_status_record option"
  lt_drew :: bool
  lt_evaluations :: nat
  lt_sighted :: "evidence option"

definition latch_new :: "bool \<Rightarrow> bytes \<Rightarrow> program_status_record option \<Rightarrow> chunk_latch" where
  "latch_new is_open recent_before program_status =
     \<lparr>lt_open = is_open, lt_recent_before = recent_before,
      lt_osc_changes = \<lparr>oc_title = False, oc_progress = False\<rparr>, lt_program_status = program_status,
      lt_drew = False, lt_evaluations = 0, lt_sighted = None\<rparr>"

definition latch_evaluate ::
  "('v, 'd, 't, 'e, 'r) detector_env \<Rightarrow> chunk_latch \<Rightarrow> 'r manifest \<Rightarrow> ('v, 'd) screen_tracker \<Rightarrow>
   bytes option \<Rightarrow> bytes option \<Rightarrow> bool \<Rightarrow> chunk_latch" where
  "latch_evaluate env l m screen title progress drew_chars =
     (if \<not> lt_open l then l
      else
        (let l1 = l\<lparr>lt_evaluations := lt_evaluations l + 1, lt_drew := (lt_drew l \<or> drew_chars)\<rparr>;
             fr = (if lt_program_status l1 \<noteq> None then freshness_all
                   else \<lparr>fr_screen = (lt_drew l1 \<or> recent_text (de_vt env) screen \<noteq> lt_recent_before l1),
                         fr_osc_title = oc_title (lt_osc_changes l1), fr_osc_progress = oc_progress (lt_osc_changes l1)\<rparr>);
             hit = overlay_program_status (lt_program_status l1)
               (manifest_hit env m screen title progress \<lparr>ar_title = 0, ar_screen = 0\<rparr> fr (lt_program_status l1 \<noteq> None))
         in case hit of
              None \<Rightarrow> l1
            | Some h \<Rightarrow>
                if ev_activity (eh_evidence h) = Working
                then l1\<lparr>lt_sighted := Some (eh_evidence h), lt_open := False\<rparr> else l1))"

section \<open>The detector\<close>

text \<open>The sequence counters are 64 bits wide in the source; they count events of one session.\<close>

record ('v, 'd, 'r) detector =
  dt_osc :: osc_parser
  dt_screen :: "('v, 'd) screen_tracker"
  dt_state :: state_machine
  dt_manifest :: "'r manifest option"
  dt_input_readiness :: input_readiness
  dt_launch_name :: "bytes option"
  dt_initial_input_pending :: bool
  dt_latest_title :: "bytes option"
  dt_latest_progress :: "bytes option"
  dt_latest_cwd_hint :: "bytes option"
  dt_program_status :: "program_status_record option"
  dt_process_activity :: process_activity_state
  dt_needs_visible_recheck :: bool
  dt_context_dirty :: bool
  dt_strict_seq :: nat
  dt_title_seq :: nat
  dt_screen_seq :: nat
  dt_idle_barrier :: nat

definition detector_new ::
  "('v, 'd, 't, 'e, 'r) detector_env \<Rightarrow> nat \<Rightarrow> nat \<Rightarrow> nat \<Rightarrow> 'r detector_config \<Rightarrow> ('v, 'd, 'r) detector" where
  "detector_new env rows cols started_at config =
     \<lparr>dt_osc = parser_new, dt_screen = screen_new (de_vt env) rows cols,
      dt_state = machine_new started_at (cfg_detection config), dt_manifest = cfg_manifest config,
      dt_input_readiness = cfg_input_readiness config, dt_launch_name = cfg_launch_name config,
      dt_initial_input_pending = True, dt_latest_title = None, dt_latest_progress = None,
      dt_latest_cwd_hint = None, dt_program_status = None, dt_process_activity = PaGround,
      dt_needs_visible_recheck = False, dt_context_dirty = True, dt_strict_seq = 0, dt_title_seq = 0,
      dt_screen_seq = 0, dt_idle_barrier = 0\<rparr>"

definition manifest_evidence ::
  "('v, 'd, 't, 'e, 'r) detector_env \<Rightarrow> ('v, 'd, 'r) detector \<Rightarrow> context_freshness \<Rightarrow> bool \<Rightarrow> evidence_hit option" where
  "manifest_evidence env d fr held =
     (case dt_manifest d of
        None \<Rightarrow> None
      | Some m \<Rightarrow>
          manifest_hit env m (dt_screen d) (evaluated_title (dt_latest_title d) (dt_launch_name d)) (dt_latest_progress d)
            \<lparr>ar_title = dt_title_seq d, ar_screen = dt_screen_seq d\<rparr> fr held)"

definition activity_evidence ::
  "('v, 'd, 't, 'e, 'r) detector_env \<Rightarrow> ('v, 'd, 'r) detector \<Rightarrow> context_freshness \<Rightarrow> evidence_hit option" where
  "activity_evidence env d fr =
     (let fr = (if dt_program_status d \<noteq> None then freshness_all else fr) in
      overlay_program_status (dt_program_status d) (manifest_evidence env d fr (dt_program_status d \<noteq> None)))"

definition sight_visible_blocker :: "('v, 'd, 'r) detector \<Rightarrow> evidence_hit \<Rightarrow> ('v, 'd, 'r) detector" where
  "sight_visible_blocker d hit =
     (if dt_initial_input_pending d \<and> dt_input_readiness d = ManifestIdle \<and>
         ev_activity (eh_evidence hit) = Blocked \<and> eh_visible_blocker hit
      then d\<lparr>dt_idle_barrier := dt_strict_seq d\<rparr> else d)"

definition sight_full_context ::
  "('v, 'd, 't, 'e, 'r) detector_env \<Rightarrow> ('v, 'd, 'r) detector \<Rightarrow> ('v, 'd, 'r) detector" where
  "sight_full_context env d =
     (if \<not> dt_initial_input_pending d \<or> dt_input_readiness d \<noteq> ManifestIdle then d
      else (case manifest_evidence env d freshness_all False of
              None \<Rightarrow> d | Some hit \<Rightarrow> sight_visible_blocker d hit))"

definition latch_eligible :: "('v, 'd, 'r) detector \<Rightarrow> bool" where
  "latch_eligible d = (case dt_manifest d of None \<Rightarrow> False | Some m \<Rightarrow> mf_latches_working m)"

definition latch_gate_open :: "('v, 'd, 'r) detector \<Rightarrow> bool" where
  "latch_gate_open d \<longleftrightarrow> latch_eligible d \<and> published_activity (dt_state d) \<noteq> Some Working"

definition latch_at_osc_point ::
  "('v, 'd, 't, 'e, 'r) detector_env \<Rightarrow> ('v, 'd, 'r) detector \<Rightarrow> chunk_latch \<Rightarrow> chunk_latch" where
  "latch_at_osc_point env d l =
     (let l1 = l\<lparr>lt_program_status := dt_program_status d\<rparr> in
      case dt_manifest d of
        None \<Rightarrow> l1
      | Some m \<Rightarrow>
          latch_evaluate env l1 m (dt_screen d) (evaluated_title (dt_latest_title d) (dt_launch_name d))
            (dt_latest_progress d) False)"

definition feed_screen_segment_latched ::
  "('v, 'd, 't, 'e, 'r) detector_env \<Rightarrow> ('v, 'd, 'r) detector \<Rightarrow> bytes \<Rightarrow> chunk_latch \<Rightarrow>
   ('v, 'd, 'r) detector \<times> chunk_latch \<times> bool" where
  "feed_screen_segment_latched env d bs l =
     (case dt_manifest d of
        None \<Rightarrow> (case screen_feed (de_vt env) (dt_screen d) bs of (t, drew) \<Rightarrow> (d\<lparr>dt_screen := t\<rparr>, l, drew))
      | Some m \<Rightarrow>
          (let title = evaluated_title (dt_latest_title d) (dt_launch_name d);
               watch = (\<lambda>(drew, l) t drew_chars.
                 (drew \<or> drew_chars, latch_evaluate env l m t title (dt_latest_progress d) drew_chars))
           in case feed_observed (de_vt env) watch (dt_screen d) bs (False, l) of
                (t, (drew, l')) \<Rightarrow> (d\<lparr>dt_screen := t\<rparr>, l', drew)))"

text \<open>The observer of strict readiness: it carries the three counters and the last text seen.\<close>

record readiness_observer =
  ro_strict_seq :: nat
  ro_screen_seq :: nat
  ro_idle_barrier :: nat
  ro_baseline :: bytes

definition readiness_observe ::
  "('v, 'd, 't, 'e, 'r) detector_env \<Rightarrow> 'r manifest option \<Rightarrow> bytes option \<Rightarrow> bytes option \<Rightarrow> nat \<Rightarrow>
   readiness_observer \<Rightarrow> ('v, 'd) screen_tracker \<Rightarrow> bool \<Rightarrow> readiness_observer" where
  "readiness_observe env mf title progress title_arrival ro screen drew_chars =
     (let txt = recent_text (de_vt env) screen;
          changed = (txt \<noteq> ro_baseline ro \<or> drew_chars);
          ro1 = ro\<lparr>ro_baseline := txt\<rparr>
      in if \<not> changed then ro1
         else
           (let ro2 = ro1\<lparr>ro_strict_seq := ro_strict_seq ro1 + 1, ro_screen_seq := ro_strict_seq ro1 + 1\<rparr>;
                hit = Option.bind mf (\<lambda>m. manifest_hit env m screen title progress
                  \<lparr>ar_title = title_arrival, ar_screen = ro_screen_seq ro2\<rparr> freshness_all False)
            in case hit of
                 None \<Rightarrow> ro2
               | Some h \<Rightarrow>
                   if ev_activity (eh_evidence h) = Blocked \<and> eh_visible_blocker h
                   then ro2\<lparr>ro_idle_barrier := ro_strict_seq ro2\<rparr> else ro2))"

definition feed_screen_segment_observed ::
  "('v, 'd, 't, 'e, 'r) detector_env \<Rightarrow> ('v, 'd, 'r) detector \<Rightarrow> bytes \<Rightarrow> chunk_latch \<Rightarrow>
   ('v, 'd, 'r) detector \<times> chunk_latch" where
  "feed_screen_segment_observed env d bs l =
     (let title = evaluated_title (dt_latest_title d) (dt_launch_name d);
          ro0 = \<lparr>ro_strict_seq = dt_strict_seq d, ro_screen_seq = dt_screen_seq d,
                 ro_idle_barrier = dt_idle_barrier d, ro_baseline = recent_text (de_vt env) (dt_screen d)\<rparr>;
          watch = (\<lambda>(ro, l) t drew_chars.
            (readiness_observe env (dt_manifest d) title (dt_latest_progress d) (dt_title_seq d) ro t drew_chars,
             case dt_manifest d of
               None \<Rightarrow> l | Some m \<Rightarrow> latch_evaluate env l m t title (dt_latest_progress d) drew_chars))
      in case feed_observed (de_vt env) watch (dt_screen d) bs (ro0, l) of
           (t, (ro, l')) \<Rightarrow>
             (d\<lparr>dt_screen := t, dt_strict_seq := ro_strict_seq ro, dt_screen_seq := ro_screen_seq ro,
                dt_idle_barrier := ro_idle_barrier ro\<rparr>, l'))"

definition feed_screen_segment ::
  "('v, 'd, 't, 'e, 'r) detector_env \<Rightarrow> ('v, 'd, 'r) detector \<Rightarrow> bytes \<Rightarrow> chunk_latch \<Rightarrow>
   ('v, 'd, 'r) detector \<times> chunk_latch" where
  "feed_screen_segment env d bs l =
     (if \<not> dt_initial_input_pending d
      then if lt_open l
           then (case feed_screen_segment_latched env d bs l of (d1, l1, _) \<Rightarrow> (d1, l1))
           else (d\<lparr>dt_screen := fst (screen_feed (de_vt env) (dt_screen d) bs)\<rparr>, l)
      else if dt_input_readiness d = ManifestIdle then feed_screen_segment_observed env d bs l
      else
        (let recent_before = recent_text (de_vt env) (dt_screen d);
             (d1, l1, drew_chars) =
               (if lt_open l then feed_screen_segment_latched env d bs l
                else (case screen_feed (de_vt env) (dt_screen d) bs of (t, drew) \<Rightarrow> (d\<lparr>dt_screen := t\<rparr>, l, drew)));
             d2 = (if recent_text (de_vt env) (dt_screen d1) \<noteq> recent_before \<or> drew_chars
                   then d1\<lparr>dt_strict_seq := dt_strict_seq d1 + 1, dt_screen_seq := dt_strict_seq d1 + 1\<rparr> else d1)
         in (sight_full_context env d2, l1)))"

definition apply_program_status ::
  "('v, 'd, 'r) detector \<Rightarrow> program_status_report \<Rightarrow> ('v, 'd, 'r) detector \<times> bool" where
  "apply_program_status d report =
     (case Option.bind (dt_manifest d) mf_program_status of
        None \<Rightarrow> (d, False)
      | Some config \<Rightarrow>
          (case report of
             StatusRecord r \<Rightarrow>
               if status_app r = Some (psc_app config) then (d\<lparr>dt_program_status := Some r\<rparr>, True) else (d, False)
           | StatusClear \<Rightarrow> (d\<lparr>dt_program_status := None\<rparr>, dt_program_status d \<noteq> None)
           | StatusChild \<Rightarrow> (d, False)
           | Probe \<Rightarrow> (d, False)))"

definition apply_osc_event ::
  "('v, 'd, 'r) detector \<Rightarrow> osc_evidence \<Rightarrow> osc_changes \<Rightarrow> ('v, 'd, 'r) detector \<times> osc_changes \<times> bool" where
  "apply_osc_event d item changes =
     (case item of
        Title title \<Rightarrow>
          (d\<lparr>dt_latest_title := Some title, dt_strict_seq := dt_strict_seq d + 1, dt_title_seq := dt_strict_seq d + 1\<rparr>,
           changes\<lparr>oc_title := (oc_title changes \<or> dt_latest_title d \<noteq> Some title)\<rparr>, True)
      | Progress progress \<Rightarrow>
          (d\<lparr>dt_latest_progress := Some progress\<rparr>,
           changes\<lparr>oc_progress := (oc_progress changes \<or> dt_latest_progress d \<noteq> Some progress)\<rparr>, True)
      | Cwd path \<Rightarrow> (d\<lparr>dt_latest_cwd_hint := Some path\<rparr>, changes, False)
      | ProgramStatus report \<Rightarrow>
          (case apply_program_status d report of (d1, relevant) \<Rightarrow> (d1, changes, relevant)))"

text \<open>The loop over the completed control strings of a chunk, fed segment by segment.\<close>

fun feed_events ::
  "('v, 'd, 't, 'e, 'r) detector_env \<Rightarrow> bytes \<Rightarrow> nat \<Rightarrow> sightings \<Rightarrow> ('v, 'd, 'r) detector \<Rightarrow> chunk_latch \<Rightarrow>
   ('v, 'd, 'r) detector \<times> chunk_latch" where
  "feed_events env bs consumed [] d l = feed_screen_segment env d (drop consumed bs) l"
| "feed_events env bs consumed ((item, e) # rest) d l =
     (case feed_screen_segment env d (slice bs consumed e) l of (d1, l1) \<Rightarrow>
      (case apply_osc_event d1 item (lt_osc_changes l1) of (d2, changes, relevant) \<Rightarrow>
        (let l2 = l1\<lparr>lt_osc_changes := changes\<rparr>;
             (d3, l3) =
               (if relevant
                then (let d3 = sight_full_context env d2 in (d3, latch_at_osc_point env d3 l2))
                else (d2, l2))
         in feed_events env bs e rest d3 l3)))"

definition push_transition :: "transition list \<Rightarrow> transition option \<Rightarrow> transition list" where
  "push_transition ts t = (case t of None \<Rightarrow> ts | Some x \<Rightarrow> ts @ [x])"

definition is_program_status :: "osc_evidence \<Rightarrow> bool" where
  "is_program_status item = (case item of ProgramStatus _ \<Rightarrow> True | _ \<Rightarrow> False)"

definition detector_observe_evidence ::
  "('v, 'd, 'r) detector \<Rightarrow> nat \<Rightarrow> evidence \<Rightarrow> transition list \<Rightarrow> ('v, 'd, 'r) detector \<times> transition list" where
  "detector_observe_evidence d now e ts =
     (case observe_evidence (dt_state d) now e of (m, t) \<Rightarrow> (d\<lparr>dt_state := m\<rparr>, push_transition ts t))"

text \<open>The first half of \<open>Detector::feed\<close>: the bytes reach the parser and the screen.\<close>

definition feed_context ::
  "('v, 'd, 't, 'e, 'r) detector_env \<Rightarrow> ('v, 'd, 'r) detector \<Rightarrow> bytes \<Rightarrow>
   ('v, 'd, 'r) detector \<times> chunk_latch \<times> bytes \<times> bool" where
  "feed_context env d bs =
     (let d0 = (sight_full_context env d)\<lparr>dt_context_dirty := True\<rparr>;
          (pa, has_process_activity) = process_activity_observe (dt_process_activity d0) bs;
          d1 = d0\<lparr>dt_process_activity := pa\<rparr>;
          recent_before = recent_text (de_vt env) (dt_screen d1);
          (osc, found) = advance_with_offsets (de_b64 env) (dt_osc d1) bs;
          d2 = d1\<lparr>dt_osc := osc\<rparr>;
          events = (if Option.bind (dt_manifest d2) mf_program_status = None
                    then filter (\<lambda>(item, e). \<not> is_program_status item) found else found);
          l0 = latch_new (latch_gate_open d2) recent_before (dt_program_status d2);
          (d3, l) = feed_events env bs 0 events d2 l0
      in (d3, l, recent_before, has_process_activity))"

text \<open>The second half: the evidence of the chunk reaches the state machine.\<close>

definition feed_evidence ::
  "('v, 'd, 't, 'e, 'r) detector_env \<Rightarrow> ('v, 'd, 'r) detector \<Rightarrow> chunk_latch \<Rightarrow> bytes \<Rightarrow> bool \<Rightarrow> nat \<Rightarrow>
   ('v, 'd, 'r) detector \<times> transition list" where
  "feed_evidence env d l recent_before has_process_activity now =
     (let fr = \<lparr>fr_screen = (recent_text (de_vt env) (dt_screen d) \<noteq> recent_before),
                fr_osc_title = oc_title (lt_osc_changes l), fr_osc_progress = oc_progress (lt_osc_changes l)\<rparr>;
          hit = activity_evidence env d fr;
          record_working = (case dt_program_status d of None \<Rightarrow> False | Some r \<Rightarrow> status_state r = PsWorking);
          (d1, ts1) =
            (case (lt_sighted l, hit) of
               (Some sighted, Some h) \<Rightarrow>
                 if ev_activity (eh_evidence h) = Idle \<and> \<not> (eh_overrides_program_status h \<and> record_working)
                 then detector_observe_evidence d now sighted [] else (d, [])
             | _ \<Rightarrow> (d, []));
          (d2, ts2) =
            (case hit of None \<Rightarrow> (d1, ts1) | Some h \<Rightarrow> detector_observe_evidence d1 now (eh_evidence h) ts1)
      in if has_process_activity \<and> hit = None
         then (case observe_bytes (dt_state d2) now of (m, t) \<Rightarrow> (d2\<lparr>dt_state := m\<rparr>, push_transition ts2 t))
         else (d2, ts2))"

definition detector_feed ::
  "('v, 'd, 't, 'e, 'r) detector_env \<Rightarrow> ('v, 'd, 'r) detector \<Rightarrow> nat \<Rightarrow> bytes \<Rightarrow>
   ('v, 'd, 'r) detector \<times> transition list" where
  "detector_feed env d now bs =
     (case feed_context env d bs of (d1, l, recent_before, has_process_activity) \<Rightarrow>
        feed_evidence env d1 l recent_before has_process_activity now)"

definition detector_tick ::
  "('v, 'd, 't, 'e, 'r) detector_env \<Rightarrow> ('v, 'd, 'r) detector \<Rightarrow> nat \<Rightarrow> ('v, 'd, 'r) detector \<times> transition list" where
  "detector_tick env d now =
     (let (d1, ts1) =
        (if dt_context_dirty d \<or> dt_needs_visible_recheck d \<or> has_pending (dt_state d)
         then
           (let screen_hit = manifest_evidence env d freshness_all (dt_program_status d \<noteq> None);
                da = (case screen_hit of None \<Rightarrow> d | Some hit \<Rightarrow> sight_visible_blocker d hit);
                (db, ts) =
                  (case overlay_program_status (dt_program_status da) screen_hit of
                     None \<Rightarrow> (da, [])
                   | Some hit \<Rightarrow>
                       if ev_activity (eh_evidence hit) \<noteq> Working \<or> dt_needs_visible_recheck da
                       then detector_observe_evidence da now (eh_evidence hit) [] else (da, []))
            in (db\<lparr>dt_context_dirty := False\<rparr>, ts))
         else (d, []));
          d2 = d1\<lparr>dt_needs_visible_recheck := False\<rparr>
      in case machine_tick (dt_state d2) now of (m, t) \<Rightarrow> (d2\<lparr>dt_state := m\<rparr>, push_transition ts1 t))"

definition finish_initial_input :: "('v, 'd, 'r) detector \<Rightarrow> ('v, 'd, 'r) detector" where
  "finish_initial_input d =
     (if \<not> dt_initial_input_pending d then d
      else
        (let d1 = d\<lparr>dt_initial_input_pending := False\<rparr>;
             d2 = (if \<not> latch_eligible d1 then d1\<lparr>dt_screen := finish_observation (dt_screen d1)\<rparr> else d1)
         in d2\<lparr>dt_context_dirty := True\<rparr>))"

definition input_ready :: "('v, 'd, 't, 'e, 'r) detector_env \<Rightarrow> ('v, 'd, 'r) detector \<Rightarrow> bool" where
  "input_ready env d =
     (let idle_hit = (case manifest_evidence env d freshness_all False of
            None \<Rightarrow> None | Some hit \<Rightarrow> if ev_activity (eh_evidence hit) = Idle then Some hit else None);
          screen_idle = (case idle_hit of None \<Rightarrow> False | Some hit \<Rightarrow> ev_source (eh_evidence hit) = Screen)
      in case dt_input_readiness d of
           BracketedPaste \<Rightarrow> bracketed_paste (de_vt env) (dt_screen d) \<or> screen_idle
         | ScreenIdle \<Rightarrow> screen_idle
         | ManifestIdle \<Rightarrow>
             (case idle_hit of
                None \<Rightarrow> False
              | Some hit \<Rightarrow>
                  (ev_source (eh_evidence hit) = Screen \<or> ev_source (eh_evidence hit) = OscTitle) \<and>
                  dt_idle_barrier d < eh_arrival hit))"

definition detector_resize ::
  "('v, 'd, 't, 'e, 'r) detector_env \<Rightarrow> ('v, 'd, 'r) detector \<Rightarrow> nat \<Rightarrow> nat \<Rightarrow> ('v, 'd, 'r) detector" where
  "detector_resize env d rows cols =
     sight_full_context env
       (d\<lparr>dt_context_dirty := True, dt_screen := screen_resize (de_vt env) (dt_screen d) rows cols\<rparr>)"

definition detector_reconfigure ::
  "('v, 'd, 't, 'e, 'r) detector_env \<Rightarrow> ('v, 'd, 'r) detector \<Rightarrow> nat \<Rightarrow> 'r detector_config \<Rightarrow> ('v, 'd, 'r) detector" where
  "detector_reconfigure env d now config =
     (let d1 = d\<lparr>dt_context_dirty := True, dt_state := machine_new now (cfg_detection config),
                 dt_manifest := cfg_manifest config, dt_input_readiness := cfg_input_readiness config,
                 dt_launch_name := cfg_launch_name config\<rparr>;
          d2 = (if latch_eligible d1 then d1\<lparr>dt_screen := resume_observation (de_vt env) (dt_screen d1)\<rparr>
                else if \<not> dt_initial_input_pending d1 then d1\<lparr>dt_screen := finish_observation (dt_screen d1)\<rparr>
                else d1);
          d3 = d2\<lparr>dt_program_status := None, dt_process_activity := PaGround,
                  dt_state := clear_pending (dt_state d2), dt_needs_visible_recheck := True\<rparr>
      in sight_full_context env d3)"

definition resync_after_lag ::
  "('v, 'd, 't, 'e, 'r) detector_env \<Rightarrow> ('v, 'd, 'r) detector \<Rightarrow> ('v, 'd, 'r) detector" where
  "resync_after_lag env d =
     d\<lparr>dt_osc := parser_reset (dt_osc d), dt_process_activity := PaGround,
       dt_state := clear_pending (dt_state d), dt_context_dirty := True, dt_latest_title := None,
       dt_latest_progress := None, dt_latest_cwd_hint := None, dt_program_status := None,
       dt_screen := screen_reset (de_vt env) (dt_screen d), dt_needs_visible_recheck := False,
       dt_title_seq := 0, dt_screen_seq := 0\<rparr>"

definition take_cwd_hint :: "('v, 'd, 'r) detector \<Rightarrow> ('v, 'd, 'r) detector \<times> bytes option" where
  "take_cwd_hint d = (d\<lparr>dt_latest_cwd_hint := None\<rparr>, dt_latest_cwd_hint d)"

record region_preview =
  rv_kind :: detection_region_kind
  rv_region :: bytes
  rv_text :: bytes

definition region_previews ::
  "('v, 'd, 't, 'e, 'r) detector_env \<Rightarrow> ('v, 'd, 'r) detector \<Rightarrow> region_preview list" where
  "region_previews env d =
     (case dt_manifest d of
        None \<Rightarrow> []
      | Some m \<Rightarrow>
          (let c = match_context_for (de_vt env) m (dt_screen d) (dt_latest_title d) (dt_latest_progress d) freshness_all;
               previews = map (\<lambda>region.
                 \<lparr>rv_kind = region_kind region, rv_region = region_to_string region,
                  rv_text = unwrap_or (context_region_text c region) []\<rparr>) (required_regions m)
           in if mf_program_status m \<noteq> None
              then previews @
                [\<lparr>rv_kind = KindProgramStatus, rv_region = ''program_status'',
                  rv_text = (case dt_program_status d of None \<Rightarrow> [] | Some r \<Rightarrow> canonical r)\<rparr>]
              else previews))"

text \<open>
  A session configured from a resolution keeps the declared readiness policy of its definition; a
  pinned session with the same definition and manifest falls back to bracketed paste when the manifest
  has no rule that reads idleness from the screen.
\<close>

lemma resolution_readiness_unadjusted:
  "cfg_input_readiness (config_for_resolution shell (Some m) (Some \<lparr>rd_manifest = b, rd_input_readiness = ScreenIdle\<rparr>)) =
     ScreenIdle \<and>
   cfg_input_readiness (config_for_pinned shell (Some \<lparr>rd_manifest = b, rd_input_readiness = ScreenIdle\<rparr>) (Some m)) =
     (if has_screen_idle_rule m then ScreenIdle else BracketedPaste)"
  by (simp add: config_for_resolution_def config_for_pinned_def readiness_of_def readiness_for_manifest_def)

end
