(* ===== verification/Detector_Run.thy ===== *)
theory Detector_Run
  imports Detector
begin

text \<open>
  Runs of the detector and what holds in all of them: skipping the evaluation of an unchanged context
  is invisible, strict readiness is never granted on evidence older than a blocker, and what the
  detector emits are changes and heartbeats.
\<close>

section \<open>What a segment of output leaves alone\<close>

text \<open>The fields that feeding output to parser and screen does not touch.\<close>

definition same_control :: "('v, 'd, 'r) detector \<Rightarrow> ('v, 'd, 'r) detector \<Rightarrow> bool" where
  "same_control d d' \<longleftrightarrow>
     dt_state d' = dt_state d \<and> dt_manifest d' = dt_manifest d \<and> dt_input_readiness d' = dt_input_readiness d \<and>
     dt_launch_name d' = dt_launch_name d \<and> dt_initial_input_pending d' = dt_initial_input_pending d \<and>
     dt_needs_visible_recheck d' = dt_needs_visible_recheck d \<and> dt_context_dirty d' = dt_context_dirty d"

definition counters_ok :: "('v, 'd, 'r) detector \<Rightarrow> bool" where
  "counters_ok d \<longleftrightarrow>
     dt_title_seq d \<le> dt_strict_seq d \<and> dt_screen_seq d \<le> dt_strict_seq d \<and> dt_idle_barrier d \<le> dt_strict_seq d"

text \<open>Sequence points only grow, and stay ahead of what they stamp.\<close>

definition counts_up :: "('v, 'd, 'r) detector \<Rightarrow> ('v, 'd, 'r) detector \<Rightarrow> bool" where
  "counts_up d d' \<longleftrightarrow>
     (counters_ok d \<longrightarrow>
        counters_ok d' \<and> dt_strict_seq d \<le> dt_strict_seq d' \<and> dt_idle_barrier d \<le> dt_idle_barrier d')"

definition feeds :: "('v, 'd, 'r) detector \<Rightarrow> ('v, 'd, 'r) detector \<Rightarrow> bool" where
  "feeds d d' \<longleftrightarrow> same_control d d' \<and> counts_up d d'"

lemma feeds_refl [simp]: "feeds d d"
  by (simp add: feeds_def same_control_def counts_up_def)

lemma feeds_trans: "feeds d d' \<Longrightarrow> feeds d' d'' \<Longrightarrow> feeds d d''"
  by (auto simp: feeds_def same_control_def counts_up_def)

lemma counts_up_trans: "counts_up d d' \<Longrightarrow> counts_up d' d'' \<Longrightarrow> counts_up d d''"
  by (auto simp: counts_up_def)

lemma sight_visible_blocker_feeds: "feeds d (sight_visible_blocker d hit)"
  by (simp add: sight_visible_blocker_def feeds_def same_control_def counts_up_def counters_ok_def)

lemma sight_full_context_feeds: "feeds d (sight_full_context env d)"
  by (simp add: sight_full_context_def sight_visible_blocker_feeds split: option.split)

lemma screen_only_feeds: "feeds d (d\<lparr>dt_screen := t\<rparr>)"
  by (simp add: feeds_def same_control_def counts_up_def counters_ok_def)

lemma feed_observed_watch:
  assumes step: "\<And>s t drew. P s \<Longrightarrow> P (watch s t drew)" and start: "P s"
  shows "P (snd (feed_observed vt watch t bs s))"
proof -
  have keep: "P (fl_watch l) \<Longrightarrow> P (fl_watch (feed_observed_step vt watch columns l b))" for columns l b
    using step by (simp add: feed_observed_step_def Let_def split: prod.split)
  have loop: "P (fl_watch l) \<Longrightarrow> P (fl_watch (foldl (feed_observed_step vt watch columns) l bs))" for columns l
    by (induction bs arbitrary: l) (simp_all add: keep)
  show ?thesis using step start loop by (simp add: feed_observed_def Let_def)
qed

lemma feed_screen_segment_latched_feeds:
  "feed_screen_segment_latched env d bs l = (d', l', drew) \<Longrightarrow> feeds d d'"
  by (auto simp: feed_screen_segment_latched_def Let_def screen_only_feeds split: option.splits prod.splits)

definition observer_ok :: "('v, 'd, 'r) detector \<Rightarrow> readiness_observer \<Rightarrow> bool" where
  "observer_ok d ro \<longleftrightarrow>
     (counters_ok d \<longrightarrow>
        dt_strict_seq d \<le> ro_strict_seq ro \<and> ro_screen_seq ro \<le> ro_strict_seq ro \<and>
        ro_idle_barrier ro \<le> ro_strict_seq ro \<and> dt_idle_barrier d \<le> ro_idle_barrier ro)"

lemma readiness_observe_ok:
  "observer_ok d ro \<Longrightarrow> observer_ok d (readiness_observe env mf title progress ta ro t drew)"
  by (auto simp: observer_ok_def readiness_observe_def Let_def split: option.split)

lemma feed_screen_segment_observed_feeds:
  assumes "feed_screen_segment_observed env d bs l = (d', l')"
  shows "feeds d d'"
proof -
  let ?title = "evaluated_title (dt_latest_title d) (dt_launch_name d)"
  let ?ro = "\<lparr>ro_strict_seq = dt_strict_seq d, ro_screen_seq = dt_screen_seq d,
    ro_idle_barrier = dt_idle_barrier d, ro_baseline = recent_text (de_vt env) (dt_screen d)\<rparr>"
  let ?watch = "\<lambda>(ro, l) t drew_chars.
    (readiness_observe env (dt_manifest d) ?title (dt_latest_progress d) (dt_title_seq d) ro t drew_chars,
     case dt_manifest d of None \<Rightarrow> l | Some m \<Rightarrow> latch_evaluate env l m t ?title (dt_latest_progress d) drew_chars)"
  obtain t ro l1 where r: "feed_observed (de_vt env) ?watch (dt_screen d) bs (?ro, l) = (t, ro, l1)"
    by (cases "feed_observed (de_vt env) ?watch (dt_screen d) bs (?ro, l)") auto
  have "observer_ok d (fst (snd (feed_observed (de_vt env) ?watch (dt_screen d) bs (?ro, l))))"
    by (rule feed_observed_watch)
      (auto simp: readiness_observe_ok split: prod.splits, auto simp: observer_ok_def counters_ok_def)
  then have "observer_ok d ro" using r by simp
  moreover have "d' = d\<lparr>dt_screen := t, dt_strict_seq := ro_strict_seq ro, dt_screen_seq := ro_screen_seq ro,
      dt_idle_barrier := ro_idle_barrier ro\<rparr>"
    using assms r by (simp add: feed_screen_segment_observed_def Let_def)
  ultimately show ?thesis
    by (auto simp: feeds_def same_control_def counts_up_def counters_ok_def observer_ok_def)
qed

lemma stamp_screen_feeds:
  "feeds d (d\<lparr>dt_strict_seq := dt_strict_seq d + 1, dt_screen_seq := dt_strict_seq d + 1\<rparr>)"
  by (auto simp: feeds_def same_control_def counts_up_def counters_ok_def)

lemma feed_screen_segment_feeds:
  assumes "feed_screen_segment env d bs l = (d', l')"
  shows "feeds d d'"
proof (cases "dt_initial_input_pending d \<and> dt_input_readiness d \<noteq> ManifestIdle")
  case False
  then show ?thesis
    using assms feed_screen_segment_observed_feeds [of env d bs l d' l']
    by (auto simp: feed_screen_segment_def screen_only_feeds dest: feed_screen_segment_latched_feeds
        split: if_splits prod.splits)
next
  case True
  obtain d1 l1 drew where r: "(if lt_open l then feed_screen_segment_latched env d bs l
      else (case screen_feed (de_vt env) (dt_screen d) bs of (t, drew) \<Rightarrow> (d\<lparr>dt_screen := t\<rparr>, l, drew))) = (d1, l1, drew)"
    by (cases "if lt_open l then feed_screen_segment_latched env d bs l
      else (case screen_feed (de_vt env) (dt_screen d) bs of (t, drew) \<Rightarrow> (d\<lparr>dt_screen := t\<rparr>, l, drew))") auto
  then have "feeds d d1"
    by (auto simp: screen_only_feeds dest: feed_screen_segment_latched_feeds split: if_splits prod.splits)
  moreover have "d' = sight_full_context env (if recent_text (de_vt env) (dt_screen d1) \<noteq> recent_text (de_vt env) (dt_screen d) \<or> drew
      then d1\<lparr>dt_strict_seq := dt_strict_seq d1 + 1, dt_screen_seq := dt_strict_seq d1 + 1\<rparr> else d1)"
    using assms True r by (simp add: feed_screen_segment_def Let_def)
  ultimately show ?thesis using stamp_screen_feeds [of d1] sight_full_context_feeds by (auto intro: feeds_trans)
qed

lemma apply_osc_event_feeds:
  "apply_osc_event d item changes = (d', changes', relevant) \<Longrightarrow> feeds d d'"
  by (auto simp: apply_osc_event_def apply_program_status_def feeds_def same_control_def counts_up_def counters_ok_def
      split: osc_evidence.splits option.splits program_status_report.splits if_splits)

lemma feed_events_feeds:
  "feed_events env bs consumed events d l = (d', l') \<Longrightarrow> feeds d d'"
proof (induction events arbitrary: consumed d l)
  case (Cons event rest)
  obtain item e where event: "event = (item, e)" by fastforce
  obtain d1 l1 where s: "feed_screen_segment env d (slice bs consumed e) l = (d1, l1)" by fastforce
  obtain d2 changes relevant where a: "apply_osc_event d1 item (lt_osc_changes l1) = (d2, changes, relevant)"
    by (cases "apply_osc_event d1 item (lt_osc_changes l1)") auto
  let ?d3 = "if relevant then sight_full_context env d2 else d2"
  obtain l3 where "feed_events env bs e rest ?d3 l3 = (d', l')"
    using Cons.prems event s a by (auto simp: Let_def split: if_splits)
  from Cons.IH [OF this] have "feeds ?d3 d'" .
  moreover have "feeds d2 ?d3" by (simp add: sight_full_context_feeds)
  moreover have "feeds d d2" using feed_screen_segment_feeds [OF s] apply_osc_event_feeds [OF a] by (rule feeds_trans)
  ultimately show ?case by (blast intro: feeds_trans)
qed (auto dest: feed_screen_segment_feeds)

section \<open>Runs\<close>

text \<open>
  A detector, the time of the last operation on it, and what it emitted since it was last configured.
  Time does not go back.
\<close>

inductive detector_run ::
  "('v, 'd, 't, 'e, 'r) detector_env \<Rightarrow> ('v, 'd, 'r) detector \<Rightarrow> nat \<Rightarrow> (nat \<times> transition) list \<Rightarrow> bool"
  for env where
  create: "detector_run env (detector_new env rows cols now config) now []"
| feed:
    "detector_run env d t out \<Longrightarrow> t \<le> now \<Longrightarrow> detector_feed env d now bs = (d', ts) \<Longrightarrow>
     detector_run env d' now (out @ map (Pair now) ts)"
| tick:
    "detector_run env d t out \<Longrightarrow> t \<le> now \<Longrightarrow> detector_tick env d now = (d', ts) \<Longrightarrow>
     detector_run env d' now (out @ map (Pair now) ts)"
| finish: "detector_run env d t out \<Longrightarrow> detector_run env (finish_initial_input d) t out"
| resize: "detector_run env d t out \<Longrightarrow> detector_run env (detector_resize env d rows cols) t out"
| reconfigure:
    "detector_run env d t out \<Longrightarrow> t \<le> now \<Longrightarrow> detector_run env (detector_reconfigure env d now config) now []"
| resync: "detector_run env d t out \<Longrightarrow> detector_run env (resync_after_lag env d) t out"
| take_hint: "detector_run env d t out \<Longrightarrow> detector_run env (fst (take_cwd_hint d)) t out"

text \<open>The same operations as a relation between detectors.\<close>

inductive detector_step ::
  "('v, 'd, 't, 'e, 'r) detector_env \<Rightarrow> ('v, 'd, 'r) detector \<Rightarrow> ('v, 'd, 'r) detector \<Rightarrow> bool"
  for env where
  "detector_step env d (fst (detector_feed env d now bs))"
| "detector_step env d (fst (detector_tick env d now))"
| "detector_step env d (finish_initial_input d)"
| "detector_step env d (detector_resize env d rows cols)"
| "detector_step env d (detector_reconfigure env d now config)"
| "detector_step env d (resync_after_lag env d)"
| "detector_step env d (fst (take_cwd_hint d))"

text \<open>What an evaluating tick and a feed do to the state machine.\<close>

definition machine_feed :: "state_machine \<Rightarrow> nat \<Rightarrow> observation list \<Rightarrow> state_machine \<times> transition list" where
  "machine_feed m now obs =
     (case observe_all m (map (Pair now) obs) of (m', out) \<Rightarrow> (m', map snd out))"

lemma machine_feed_Nil [simp]: "machine_feed m now [] = (m, [])"
  by (simp add: machine_feed_def)

lemma machine_feed_Cons:
  "machine_feed m now (ob # obs) =
     (case observe m now ob of (m1, r) \<Rightarrow>
      case machine_feed m1 now obs of (m2, ts) \<Rightarrow> (m2, push_transition [] r @ ts))"
  by (auto simp: machine_feed_def push_transition_def case_prod_unfold Let_def split: option.split)

lemma machine_feed_snoc:
  "machine_feed m now (obs @ [ob]) =
     (case machine_feed m now obs of (m1, ts) \<Rightarrow>
      case observe m1 now ob of (m2, r) \<Rightarrow> (m2, push_transition ts r))"
proof (induction obs arbitrary: m)
  case Nil
  show ?case by (simp add: machine_feed_Cons push_transition_def case_prod_unfold split: option.split)
next
  case (Cons x obs)
  then show ?case
    by (simp add: machine_feed_Cons case_prod_unfold push_transition_def split: option.split)
qed

section \<open>Evidence is visible evidence\<close>

definition visible_hit :: "evidence_hit option \<Rightarrow> bool" where
  "visible_hit hit \<longleftrightarrow> (\<forall>h. hit = Some h \<longrightarrow> is_visible_source (ev_source (eh_evidence h)))"

definition visible_ob :: "observation \<Rightarrow> bool" where
  "visible_ob ob \<longleftrightarrow> (\<forall>e. ob = Evidence e \<longrightarrow> is_visible_source (ev_source e))"

lemma manifest_hit_visible: "visible_hit (manifest_hit env m screen title progress arr fr held)"
  by (auto simp: visible_hit_def manifest_hit_def Let_def manifest_source_def is_visible_source_def
      split: option.splits if_splits manifest_region.splits)

lemma overlay_visible: "visible_hit screen \<Longrightarrow> visible_hit (overlay_program_status held screen)"
  by (auto simp: visible_hit_def overlay_program_status_def record_hit_def is_visible_source_def
      split: option.splits program_state.splits if_splits)

lemma manifest_evidence_visible: "visible_hit (manifest_evidence env d fr held)"
  by (cases "dt_manifest d") (simp add: manifest_evidence_def visible_hit_def, simp add: manifest_evidence_def manifest_hit_visible)

lemma activity_evidence_visible: "visible_hit (activity_evidence env d fr)"
  by (simp add: activity_evidence_def Let_def overlay_visible manifest_evidence_visible)

definition latch_ok :: "chunk_latch \<Rightarrow> bool" where
  "latch_ok l \<longleftrightarrow> (\<forall>e. lt_sighted l = Some e \<longrightarrow> is_visible_source (ev_source e))"

lemma latch_evaluate_ok: "latch_ok l \<Longrightarrow> latch_ok (latch_evaluate env l m t title progress drew)"
proof -
  assume l: "latch_ok l"
  have "visible_hit (overlay_program_status held (manifest_hit env m t title progress a fr held'))" for held a fr held'
    by (intro overlay_visible manifest_hit_visible)
  then show ?thesis
    using l by (auto simp: latch_evaluate_def Let_def latch_ok_def visible_hit_def split: option.split)
qed

lemma feed_screen_segment_latched_ok:
  assumes "feed_screen_segment_latched env d bs l = (d', l', drew)" and "latch_ok l"
  shows "latch_ok l'"
proof (cases "dt_manifest d")
  case (Some m)
  let ?watch = "\<lambda>(drew, l) t drew_chars. (drew \<or> drew_chars,
    latch_evaluate env l m t (evaluated_title (dt_latest_title d) (dt_launch_name d)) (dt_latest_progress d) drew_chars)"
  have "latch_ok (snd (snd (feed_observed (de_vt env) ?watch (dt_screen d) bs (False, l))))"
    by (rule feed_observed_watch) (auto simp: latch_evaluate_ok assms(2))
  then show ?thesis
    using assms(1) Some by (auto simp: feed_screen_segment_latched_def Let_def split: prod.splits)
qed (use assms in \<open>auto simp: feed_screen_segment_latched_def split: prod.splits\<close>)

lemma feed_screen_segment_observed_ok:
  assumes "feed_screen_segment_observed env d bs l = (d', l')" and "latch_ok l"
  shows "latch_ok l'"
proof -
  let ?title = "evaluated_title (dt_latest_title d) (dt_launch_name d)"
  let ?watch = "\<lambda>(ro, l) t drew_chars.
    (readiness_observe env (dt_manifest d) ?title (dt_latest_progress d) (dt_title_seq d) ro t drew_chars,
     case dt_manifest d of None \<Rightarrow> l | Some m \<Rightarrow> latch_evaluate env l m t ?title (dt_latest_progress d) drew_chars)"
  let ?ro = "\<lparr>ro_strict_seq = dt_strict_seq d, ro_screen_seq = dt_screen_seq d,
    ro_idle_barrier = dt_idle_barrier d, ro_baseline = recent_text (de_vt env) (dt_screen d)\<rparr>"
  have "latch_ok (snd (snd (feed_observed (de_vt env) ?watch (dt_screen d) bs (?ro, l))))"
    by (rule feed_observed_watch) (auto simp: latch_evaluate_ok assms(2) split: option.splits)
  then show ?thesis
    using assms(1) by (auto simp: feed_screen_segment_observed_def Let_def split: prod.splits)
qed

lemma feed_screen_segment_ok:
  "feed_screen_segment env d bs l = (d', l') \<Longrightarrow> latch_ok l \<Longrightarrow> latch_ok l'"
  by (auto simp: feed_screen_segment_def Let_def split: if_splits prod.splits
      dest: feed_screen_segment_latched_ok feed_screen_segment_observed_ok)

lemma latch_at_osc_point_ok: "latch_ok l \<Longrightarrow> latch_ok (latch_at_osc_point env d l)"
proof -
  assume "latch_ok l"
  then have "latch_ok (l\<lparr>lt_program_status := dt_program_status d\<rparr>)" by (simp add: latch_ok_def)
  then show ?thesis by (auto simp: latch_at_osc_point_def Let_def latch_evaluate_ok split: option.splits)
qed

lemma feed_events_ok:
  "feed_events env bs consumed events d l = (d', l') \<Longrightarrow> latch_ok l \<Longrightarrow> latch_ok l'"
proof (induction events arbitrary: consumed d l)
  case (Cons event rest)
  obtain item e where event: "event = (item, e)" by fastforce
  obtain d1 l1 where s: "feed_screen_segment env d (slice bs consumed e) l = (d1, l1)" by fastforce
  obtain d2 changes relevant where a: "apply_osc_event d1 item (lt_osc_changes l1) = (d2, changes, relevant)"
    by (cases "apply_osc_event d1 item (lt_osc_changes l1)") auto
  let ?d3 = "if relevant then sight_full_context env d2 else d2" and ?l2 = "l1\<lparr>lt_osc_changes := changes\<rparr>"
  let ?l3 = "if relevant then latch_at_osc_point env ?d3 ?l2 else ?l2"
  have "latch_ok ?l2" using feed_screen_segment_ok [OF s Cons.prems(2)] by (simp add: latch_ok_def)
  then have "latch_ok ?l3" by (simp add: latch_at_osc_point_ok)
  moreover have "feed_events env bs e rest ?d3 ?l3 = (d', l')"
    using Cons.prems(1) event s a by (auto simp: Let_def split: if_splits)
  ultimately show ?case using Cons.IH by blast
qed (auto dest: feed_screen_segment_ok)

section \<open>Feeding\<close>

text \<open>The detector after the state machine, and nothing else, observed something at one time.\<close>

definition observes ::
  "('v, 'd, 'r) detector \<Rightarrow> nat \<Rightarrow> observation list \<Rightarrow> ('v, 'd, 'r) detector \<Rightarrow> transition list \<Rightarrow> bool" where
  "observes d now obs d' ts \<longleftrightarrow>
     machine_feed (dt_state d) now obs = (dt_state d', ts) \<and> d' = d\<lparr>dt_state := dt_state d'\<rparr> \<and>
     (\<forall>ob \<in> set obs. visible_ob ob)"

lemma observes_Nil: "observes d now [] d []"
  by (simp add: observes_def)

lemma observes_evidence:
  assumes "observes d now obs d1 ts1" and "detector_observe_evidence d1 now e ts1 = (d2, ts2)"
    and "is_visible_source (ev_source e)"
  shows "observes d now (obs @ [Evidence e]) d2 ts2"
proof -
  obtain m t where o: "observe_evidence (dt_state d1) now e = (m, t)" by fastforce
  then have d2: "d2 = d1\<lparr>dt_state := m\<rparr>" "ts2 = push_transition ts1 t"
    using assms(2) by (simp_all add: detector_observe_evidence_def)
  have d1: "machine_feed (dt_state d) now obs = (dt_state d1, ts1)" "d1 = d\<lparr>dt_state := dt_state d1\<rparr>"
    "\<forall>ob \<in> set obs. visible_ob ob" using assms(1) by (simp_all add: observes_def)
  have "machine_feed (dt_state d) now (obs @ [Evidence e]) = (dt_state d2, ts2)"
    using o by (simp add: machine_feed_snoc d1(1) observe_def d2)
  moreover have "d2 = d\<lparr>dt_state := dt_state d2\<rparr>" unfolding d2(1) by (subst d1(2)) simp
  ultimately show ?thesis using d1(3) assms(3) by (auto simp: observes_def visible_ob_def)
qed

lemma observes_bytes:
  "observe_bytes (dt_state d) now = (m, t) \<Longrightarrow> observes d now [Bytes] (d\<lparr>dt_state := m\<rparr>) (push_transition [] t)"
  using machine_feed_snoc [of "dt_state d" now "[]" Bytes] by (simp add: observes_def observe_def visible_ob_def)

lemma feed_context_parts:
  assumes "feed_context env d bs = (d', l, before, act)"
  shows "latch_ok l" and "feeds ((sight_full_context env d)\<lparr>dt_context_dirty := True\<rparr>) d'"
proof -
  let ?d0 = "(sight_full_context env d)\<lparr>dt_context_dirty := True\<rparr>"
  obtain pa a where pa: "process_activity_observe (dt_process_activity ?d0) bs = (pa, a)" by fastforce
  obtain osc found where osc: "advance_with_offsets (de_b64 env) (dt_osc ?d0) bs = (osc, found)" by fastforce
  let ?d2 = "?d0\<lparr>dt_process_activity := pa, dt_osc := osc\<rparr>"
  let ?l0 = "latch_new (latch_gate_open ?d2) (recent_text (de_vt env) (dt_screen ?d2)) (dt_program_status ?d2)"
  obtain events where ev: "feed_events env bs 0 events ?d2 ?l0 = (d', l)"
    using assms pa osc by (auto simp: feed_context_def Let_def split: prod.splits)
  show "latch_ok l" by (rule feed_events_ok [OF ev]) (simp add: latch_ok_def latch_new_def)
  have "feeds ?d0 ?d2" by (simp add: feeds_def same_control_def counts_up_def counters_ok_def)
  then show "feeds ?d0 d'" using feed_events_feeds [OF ev] by (rule feeds_trans)
qed

text \<open>Only the state machine changes when the evidence is observed.\<close>

lemma feed_evidence_observes:
  assumes "feed_evidence env d l before act now = (d', ts)" and latch: "latch_ok l"
  shows "\<exists>obs. observes d now obs d' ts"
proof -
  define hit where "hit = activity_evidence env d \<lparr>fr_screen = (recent_text (de_vt env) (dt_screen d) \<noteq> before),
    fr_osc_title = oc_title (lt_osc_changes l), fr_osc_progress = oc_progress (lt_osc_changes l)\<rparr>"
  note run = assms(1) [unfolded feed_evidence_def Let_def, folded hit_def]
  have vis: "visible_hit hit" unfolding hit_def by (rule activity_evidence_visible)
  show ?thesis
  proof (cases hit)
    case None
    then show ?thesis
      using run observes_Nil [of d now] by (auto split: if_splits prod.splits option.splits dest!: observes_bytes)
  next
    case (Some h)
    then have h: "is_visible_source (ev_source (eh_evidence h))" using vis by (simp add: visible_hit_def)
    obtain d1 ts1 obs where o: "observes d now obs d1 ts1"
      and f: "detector_observe_evidence d1 now (eh_evidence h) ts1 = (d', ts)"
    proof (cases "\<exists>sighted. lt_sighted l = Some sighted \<and> ev_activity (eh_evidence h) = Idle \<and>
        \<not> (eh_overrides_program_status h \<and> (case dt_program_status d of None \<Rightarrow> False | Some r \<Rightarrow> status_state r = PsWorking))")
      case True
      then obtain sighted where s: "lt_sighted l = Some sighted" by blast
      obtain d1 ts1 where e: "detector_observe_evidence d now sighted [] = (d1, ts1)" by fastforce
      have "observes d now ([] @ [Evidence sighted]) d1 ts1"
        by (rule observes_evidence [OF observes_Nil e]) (use latch s in \<open>simp add: latch_ok_def\<close>)
      then show ?thesis using that run True Some s e by (auto split: if_splits)
    next
      case False
      then show ?thesis using that [OF observes_Nil] run Some by (auto split: option.splits if_splits)
    qed
    from observes_evidence [OF o f h] show ?thesis by blast
  qed
qed

lemma detector_feed_observes:
  assumes "detector_feed env d now bs = (d', ts)"
  obtains d1 obs where "feeds ((sight_full_context env d)\<lparr>dt_context_dirty := True\<rparr>) d1" and "observes d1 now obs d' ts"
proof -
  obtain d1 l before act where c: "feed_context env d bs = (d1, l, before, act)"
    by (cases "feed_context env d bs") auto
  then have "feed_evidence env d1 l before act now = (d', ts)" using assms by (simp add: detector_feed_def)
  from feed_evidence_observes [OF this feed_context_parts(1) [OF c]] feed_context_parts(2) [OF c] that
  show ?thesis by blast
qed

section \<open>Ticks\<close>

lemma evidence_frame [simp]:
  "manifest_evidence env (d\<lparr>dt_state := m\<rparr>) fr held = manifest_evidence env d fr held"
  "manifest_evidence env (d\<lparr>dt_context_dirty := b\<rparr>) fr held = manifest_evidence env d fr held"
  "manifest_evidence env (d\<lparr>dt_needs_visible_recheck := b\<rparr>) fr held = manifest_evidence env d fr held"
  "manifest_evidence env (d\<lparr>dt_idle_barrier := k\<rparr>) fr held = manifest_evidence env d fr held"
  by (simp_all add: manifest_evidence_def cong: option.case_cong)

lemma sight_frame [simp]:
  "manifest_evidence env (sight_visible_blocker d h) fr held = manifest_evidence env d fr held"
  "dt_program_status (sight_visible_blocker d h) = dt_program_status d"
  "dt_state (sight_visible_blocker d h) = dt_state d"
  "dt_needs_visible_recheck (sight_visible_blocker d h) = dt_needs_visible_recheck d"
  "sight_visible_blocker (sight_visible_blocker d h) h = sight_visible_blocker d h"
  by (simp_all add: sight_visible_blocker_def)

text \<open>The evidence a tick looks at.\<close>

abbreviation tick_hit :: "('v, 'd, 't, 'e, 'r) detector_env \<Rightarrow> ('v, 'd, 'r) detector \<Rightarrow> evidence_hit option" where
  "tick_hit env d \<equiv> manifest_evidence env d freshness_all (dt_program_status d \<noteq> None)"

definition sighted_hit :: "('v, 'd, 't, 'e, 'r) detector_env \<Rightarrow> ('v, 'd, 'r) detector \<Rightarrow> ('v, 'd, 'r) detector" where
  "sighted_hit env d = (case tick_hit env d of None \<Rightarrow> d | Some hit \<Rightarrow> sight_visible_blocker d hit)"

lemma sighted_hit_frame [simp]:
  "manifest_evidence env (sighted_hit env d) fr held = manifest_evidence env d fr held"
  "dt_program_status (sighted_hit env d) = dt_program_status d" "dt_state (sighted_hit env d) = dt_state d"
  "dt_needs_visible_recheck (sighted_hit env d) = dt_needs_visible_recheck d"
  by (simp_all add: sighted_hit_def split: option.split)

definition tick_evaluates :: "('v, 'd, 'r) detector \<Rightarrow> bool" where
  "tick_evaluates d \<longleftrightarrow> dt_context_dirty d \<or> dt_needs_visible_recheck d \<or> has_pending (dt_state d)"

definition tick_observation :: "('v, 'd, 't, 'e, 'r) detector_env \<Rightarrow> ('v, 'd, 'r) detector \<Rightarrow> observation list" where
  "tick_observation env d =
     (case overlay_program_status (dt_program_status d) (tick_hit env d) of
        None \<Rightarrow> []
      | Some hit \<Rightarrow>
          if ev_activity (eh_evidence hit) \<noteq> Working \<or> dt_needs_visible_recheck d then [Evidence (eh_evidence hit)] else [])"

lemma detector_tick_skips:
  "\<not> tick_evaluates d \<Longrightarrow>
     detector_tick env d now =
       (case machine_feed (dt_state d) now [Tick] of (m, ts) \<Rightarrow> (d\<lparr>dt_state := m\<rparr>, ts))"
  by (simp add: detector_tick_def tick_evaluates_def machine_feed_Cons observe_def case_prod_unfold)

lemma detector_tick_evaluates:
  assumes "tick_evaluates d"
  shows "detector_tick env d now =
    (case machine_feed (dt_state d) now (tick_observation env d @ [Tick]) of (m, ts) \<Rightarrow>
       ((sighted_hit env d)\<lparr>dt_context_dirty := False, dt_needs_visible_recheck := False, dt_state := m\<rparr>, ts))"
  using assms unfolding detector_tick_def tick_evaluates_def Let_def sighted_hit_def [symmetric] tick_observation_def
  by (simp add: machine_feed_Cons detector_observe_evidence_def observe_def case_prod_unfold push_transition_def
      split: option.split)

text \<open>Observing a debounced state leaves it published or pending; a later tick changes neither.\<close>

lemma observe_evidence_settles:
  assumes "observe_evidence m now e = (m', r)" and "debounced e"
  shows "has_pending m' \<or> map_option ps_transition (sm_published m') = Some e"
proof -
  have "observe_debounced m now e = (m', r)" using assms by (auto simp: observe_evidence_def debounced_def)
  then show ?thesis
    by (auto simp: observe_debounced_def publish_changed_or_refreshed_def publish_pending_if_ready_def publish_def
        record_published_def has_pending_def note_observed_def candidate_new_def Let_def split: if_splits option.splits)
qed

lemma machine_tick_keeps:
  assumes "machine_tick m now = (m', r)"
  shows "has_pending m' = has_pending m"
    and "map_option ps_transition (sm_published m') = map_option ps_transition (sm_published m)"
  using assms by (auto simp: machine_tick_def publish_def record_published_def has_pending_def split: option.splits if_splits)

text \<open>With no candidate pending, observing the published state again is what a tick does anyway.\<close>

lemma machine_feed_published:
  assumes "\<not> has_pending m" and "map_option ps_transition (sm_published m) = Some e" and "debounced e"
    and "0 < dc_stable_visible_refresh (sm_config m)"
  shows "machine_feed m now [Evidence e, Tick] = machine_feed m now [Tick]"
proof -
  obtain p where p: "sm_published m = Some p" "ps_transition p = e" using assms(2) by auto
  have m: "m\<lparr>sm_pending := None\<rparr> = m" using assms(1) by (cases m) (simp add: has_pending_def)
  have "observe_evidence m now e = (if refresh_due m now p then publish m now e else (m, None))"
    using assms(3) p m
    by (auto simp: observe_evidence_def observe_debounced_def publish_changed_or_refreshed_def debounced_def)
  moreover have "machine_tick m now = (if refresh_due m now p then publish m now e else (m, None))"
    using p by (simp add: machine_tick_def)
  moreover have "machine_tick (fst (publish m now e)) now = (fst (publish m now e), None)"
    using assms(4) by (simp add: machine_tick_def publish_def record_published_def refresh_due_def)
  ultimately show ?thesis
    by (auto simp: machine_feed_Cons observe_def push_transition_def publish_def case_prod_unfold)
qed

text \<open>A tick that skips its evaluation would have found nothing new.\<close>

definition names_blocker :: "('v, 'd, 'r) detector \<Rightarrow> evidence_hit \<Rightarrow> bool" where
  "names_blocker d h \<longleftrightarrow>
     dt_initial_input_pending d \<and> dt_input_readiness d = ManifestIdle \<and>
     ev_activity (eh_evidence h) = Blocked \<and> eh_visible_blocker h"

definition settled :: "('v, 'd, 't, 'e, 'r) detector_env \<Rightarrow> ('v, 'd, 'r) detector \<Rightarrow> bool" where
  "settled env d \<longleftrightarrow>
     (\<not> tick_evaluates d \<longrightarrow>
        (\<forall>h. tick_hit env d = Some h \<longrightarrow> names_blocker d h \<longrightarrow> dt_idle_barrier d = dt_strict_seq d) \<and>
        (\<forall>h. overlay_program_status (dt_program_status d) (tick_hit env d) = Some h \<longrightarrow> debounced (eh_evidence h) \<longrightarrow>
           map_option ps_transition (sm_published (dt_state d)) = Some (eh_evidence h)))"

lemma settled_dirty: "dt_context_dirty d \<Longrightarrow> settled env d"
  by (simp add: settled_def tick_evaluates_def)

lemma sight_visible_blocker_fields [simp]:
  "dt_idle_barrier (sight_visible_blocker d h) = (if names_blocker d h then dt_strict_seq d else dt_idle_barrier d)"
  "dt_strict_seq (sight_visible_blocker d h) = dt_strict_seq d"
  "dt_initial_input_pending (sight_visible_blocker d h) = dt_initial_input_pending d"
  "dt_input_readiness (sight_visible_blocker d h) = dt_input_readiness d"
  by (simp_all add: sight_visible_blocker_def names_blocker_def)

lemma tick_settles:
  assumes "settled env d" and "detector_tick env d now = (d', ts)"
  shows "settled env d'"
proof (cases "tick_evaluates d")
  case False
  obtain m r where m: "machine_tick (dt_state d) now = (m, r)" by fastforce
  then have d': "d' = d\<lparr>dt_state := m\<rparr>"
    using assms(2) False by (simp add: detector_tick_skips machine_feed_Cons observe_def)
  note keeps = machine_tick_keeps [OF m]
  have "tick_evaluates d' = tick_evaluates d" using keeps(1) d' by (simp add: tick_evaluates_def)
  then show ?thesis using assms(1) keeps(2) False by (simp add: settled_def d' names_blocker_def)
next
  case True
  obtain m where run: "machine_feed (dt_state d) now (tick_observation env d @ [Tick]) = (m, ts)"
    and d': "d' = (sighted_hit env d)\<lparr>dt_context_dirty := False, dt_needs_visible_recheck := False, dt_state := m\<rparr>"
    using assms(2) True by (auto simp: detector_tick_evaluates split: prod.splits)
  obtain m1 ts1 where m1: "machine_feed (dt_state d) now (tick_observation env d) = (m1, ts1)" by fastforce
  obtain r where m: "machine_tick m1 now = (m, r)" using run m1 by (auto simp: machine_feed_snoc observe_def split: prod.splits)
  have hit: "tick_hit env d' = tick_hit env d" "dt_program_status d' = dt_program_status d"
    unfolding d' by (simp_all add: sighted_hit_def split: option.split)
  have "dt_idle_barrier d' = dt_strict_seq d'" if "tick_hit env d = Some h" "names_blocker d' h" for h
    using that unfolding d' by (simp add: sighted_hit_def names_blocker_def)
  moreover have "map_option ps_transition (sm_published m) = Some (eh_evidence h)"
    if "overlay_program_status (dt_program_status d) (tick_hit env d) = Some h" "debounced (eh_evidence h)" "\<not> has_pending m" for h
  proof -
    have "observe_evidence (dt_state d) now (eh_evidence h) = (m1, snd (observe_evidence (dt_state d) now (eh_evidence h)))"
      using m1 that(1,2)
      by (auto simp: tick_observation_def machine_feed_Cons observe_def debounced_def split: prod.splits)
    from observe_evidence_settles [OF this that(2)] machine_tick_keeps [OF m] that(3) show ?thesis by simp
  qed
  ultimately show ?thesis unfolding settled_def hit by (auto simp: d' tick_evaluates_def)
qed

lemma run_settled: "detector_run env d t out \<Longrightarrow> settled env d"
proof (induction rule: detector_run.induct)
  case (feed d t out now bs d' ts)
  from detector_feed_observes [OF feed.hyps(3)] obtain d1 obs where
    "feeds ((sight_full_context env d)\<lparr>dt_context_dirty := True\<rparr>) d1" "observes d1 now obs d' ts" .
  then have "dt_context_dirty d1" "d' = d1\<lparr>dt_state := dt_state d'\<rparr>"
    by (simp_all add: feeds_def same_control_def observes_def)
  then have "dt_context_dirty d'" by (metis detector.select_convs(14) detector.surjective detector.update_convs(3))
  then show ?case by (rule settled_dirty)
next
  case (tick d t out now d' ts)
  then show ?case using tick_settles by blast
next
  case (finish d t out)
  then show ?case
    by (cases "dt_initial_input_pending d") (auto simp: finish_initial_input_def Let_def intro: settled_dirty)
next
  case (take_hint d t out)
  then show ?case
    by (simp add: take_cwd_hint_def settled_def tick_evaluates_def names_blocker_def manifest_evidence_def cong: option.case_cong)
qed (auto intro!: settled_dirty simp: detector_new_def detector_resize_def detector_reconfigure_def resync_after_lag_def Let_def
    sight_full_context_def sight_visible_blocker_def split: option.splits)

lemma skipped_tick_same:
  assumes "settled env d" and "0 < dc_stable_visible_refresh (sm_config (dt_state d))"
  shows "detector_tick env d now = detector_tick env (d\<lparr>dt_context_dirty := True\<rparr>) now"
proof (cases "tick_evaluates d")
  case True
  then show ?thesis
    by (simp add: detector_tick_evaluates tick_evaluates_def tick_observation_def sighted_hit_def sight_visible_blocker_def
        cong: option.case_cong split: option.split prod.split)
next
  case False
  then have flags: "\<not> dt_context_dirty d" "\<not> dt_needs_visible_recheck d" "\<not> has_pending (dt_state d)"
    by (auto simp: tick_evaluates_def)
  let ?d = "d\<lparr>dt_context_dirty := True\<rparr>"
  have ev: "tick_evaluates ?d" by (simp add: tick_evaluates_def)
  have obs: "tick_observation env ?d = tick_observation env d" by (simp add: tick_observation_def cong: option.case_cong)
  have bar: "dt_idle_barrier d = dt_strict_seq d" if "tick_hit env d = Some h" "names_blocker d h" for h
    using assms(1) False that by (simp add: settled_def)
  have "sighted_hit env ?d = ?d"
  proof (cases "tick_hit env d")
    case (Some h)
    have "?d\<lparr>dt_idle_barrier := dt_strict_seq d\<rparr> = ?d" if "dt_idle_barrier d = dt_strict_seq d"
      using that by (cases d) simp
    then show ?thesis using Some bar [OF Some] by (auto simp: sighted_hit_def sight_visible_blocker_def names_blocker_def)
  qed (simp add: sighted_hit_def)
  moreover have "machine_feed (dt_state d) now (tick_observation env d @ [Tick]) = machine_feed (dt_state d) now [Tick]"
  proof (cases "overlay_program_status (dt_program_status d) (tick_hit env d)")
    case (Some h)
    have "observe_evidence (dt_state d) now (eh_evidence h) = (dt_state d, None)" if "ev_activity (eh_evidence h) = UnknownActivity"
      using that by (simp add: observe_evidence_def)
    moreover have "machine_feed (dt_state d) now [Evidence (eh_evidence h), Tick] = machine_feed (dt_state d) now [Tick]"
      if "debounced (eh_evidence h)"
      using assms False Some that flags(3) by (intro machine_feed_published) (auto simp: settled_def)
    ultimately show ?thesis
      using Some flags(2)
      by (cases "ev_activity (eh_evidence h)")
        (simp_all add: tick_observation_def debounced_def machine_feed_Cons observe_def push_transition_def case_prod_unfold)
  qed (simp add: tick_observation_def)
  moreover have "?d\<lparr>dt_context_dirty := False, dt_needs_visible_recheck := False, dt_state := m\<rparr> = d\<lparr>dt_state := m\<rparr>" for m
    using flags by (cases d) simp
  ultimately show ?thesis
    using False ev obs by (simp add: detector_tick_skips detector_tick_evaluates split: prod.split)
qed

section \<open>Sequence points over a run\<close>

lemma observes_counts_up: "observes d now obs d' ts \<Longrightarrow> counts_up d d'"
proof -
  assume "observes d now obs d' ts"
  then obtain m where "d' = d\<lparr>dt_state := m\<rparr>" by (auto simp: observes_def)
  then show ?thesis by (simp add: counts_up_def counters_ok_def)
qed

lemma detector_feed_counts_up:
  "counts_up (sight_full_context env d) (fst (detector_feed env d now bs))"
proof -
  obtain d' ts where f: "detector_feed env d now bs = (d', ts)" by fastforce
  from detector_feed_observes [OF f] obtain d1 obs where
    d1: "feeds ((sight_full_context env d)\<lparr>dt_context_dirty := True\<rparr>) d1" "observes d1 now obs d' ts" .
  have "counts_up (sight_full_context env d) d1"
    using d1(1) by (auto simp: feeds_def counts_up_def counters_ok_def)
  with observes_counts_up [OF d1(2)] f show ?thesis by (auto intro: counts_up_trans)
qed

lemma sight_full_context_counts_up: "counts_up d (sight_full_context env d)"
  using sight_full_context_feeds [of d env] by (simp add: feeds_def)

lemma quiet_counts_up:
  "dt_strict_seq d' = dt_strict_seq d \<Longrightarrow> dt_idle_barrier d' = dt_idle_barrier d \<Longrightarrow>
     dt_title_seq d' \<le> dt_title_seq d \<Longrightarrow> dt_screen_seq d' \<le> dt_screen_seq d \<Longrightarrow> counts_up d d'"
  by (simp add: counts_up_def counters_ok_def)

lemma detector_tick_counts_up: "counts_up d (fst (detector_tick env d now))"
proof (cases "tick_evaluates d")
  case True
  have "counts_up d (sighted_hit env d)"
    using sight_visible_blocker_feeds [of d] by (auto simp: sighted_hit_def feeds_def counts_up_def split: option.split)
  then show ?thesis
    using True by (auto simp: detector_tick_evaluates counts_up_def counters_ok_def split: prod.split)
qed (auto simp: detector_tick_skips intro: quiet_counts_up split: prod.split)

lemma detector_step_counts_up: "detector_step env d d' \<Longrightarrow> counts_up d d'"
proof (induction rule: detector_step.induct)
  case (1 d now bs)
  show ?case by (rule counts_up_trans [OF sight_full_context_counts_up detector_feed_counts_up])
next
  case (4 d rows cols)
  show ?case unfolding detector_resize_def
    by (rule counts_up_trans [OF quiet_counts_up sight_full_context_counts_up]) simp_all
next
  case (5 d now config)
  show ?case unfolding detector_reconfigure_def Let_def
    by (rule counts_up_trans [OF quiet_counts_up sight_full_context_counts_up]) simp_all
qed (auto simp: detector_tick_counts_up finish_initial_input_def resync_after_lag_def take_cwd_hint_def Let_def
    intro!: quiet_counts_up)

interpretation detector_steps: step_relation "detector_step env" "\<lambda>_. True" counts_up for env
  by unfold_locales (auto simp: counts_up_def dest!: detector_step_counts_up)

lemma detector_steps_count_up: "(detector_step env)\<^sup>*\<^sup>* d d' \<Longrightarrow> counts_up d d'"
  by (rule detector_steps.steps_chain) simp_all

lemma step_counters_ok: "detector_step env d d' \<Longrightarrow> counters_ok d \<Longrightarrow> counters_ok d'"
  by (auto simp: counts_up_def dest: detector_step_counts_up)

lemma run_counters_ok: "detector_run env d t out \<Longrightarrow> counters_ok d"
proof (induction rule: detector_run.induct)
  case (create rows cols now config)
  show ?case by (simp add: detector_new_def counters_ok_def)
next
  case (feed d t out now bs d' ts)
  then show ?case
    using step_counters_ok [OF detector_step.intros(1) [where env = env and d = d and now = now and bs = bs]] by simp
next
  case (tick d t out now d' ts)
  then show ?case
    using step_counters_ok [OF detector_step.intros(2) [where env = env and d = d and now = now]] by simp
qed (blast intro: step_counters_ok detector_step.intros)+

section \<open>The detector drives the state machine\<close>

text \<open>The sources the detector reports: what it can see, and bytes of the process.\<close>

definition tracked :: "evidence \<Rightarrow> bool" where
  "tracked e \<longleftrightarrow> is_visible_source (ev_source e) \<or> ev_source e = Process"

definition sources_ok :: "state_machine \<Rightarrow> bool" where
  "sources_ok m \<longleftrightarrow>
     (\<forall>p. sm_published m = Some p \<longrightarrow> tracked (ps_transition p)) \<and> (\<forall>p. sm_pending m = Some p \<longrightarrow> tracked (pc_evidence p))"

lemma observe_sources:
  assumes "sources_ok m" and "visible_ob ob" and "observe m now ob = (m', r)"
  shows "sources_ok m'" and "r = Some e \<Longrightarrow> tracked e"
  using assms
  by (auto simp: observe_def observe_bytes_def observe_evidence_def observe_working_def observe_debounced_def machine_tick_def
      clear_pending_def publish_def record_published_def publish_changed_or_refreshed_def publish_pending_if_ready_def
      candidate_new_def note_observed_def sources_ok_def tracked_def visible_ob_def Let_def
      split: observation.splits agent_activity.splits option.splits if_splits)
    (metis evidence.select_convs(2))

lemma machine_run_sources:
  "machine_run s0 c m obs out \<Longrightarrow> \<forall>x \<in> set obs. visible_ob (snd x) \<Longrightarrow> sources_ok m \<and> (\<forall>x \<in> set out. tracked (snd x))"
proof (induction rule: machine_run.induct)
  case (observe m obs out now ob m' r)
  then have "sources_ok m" "visible_ob ob" by simp_all
  note observe_sources [OF this observe.hyps(3)]
  then show ?case using observe by (cases r) auto
qed (simp add: sources_ok_def machine_new_def)

lemma observe_all_now:
  "snd (observe_all m (map (Pair now) obs)) = map (Pair now) (snd (machine_feed m now obs))"
proof (induction obs arbitrary: m)
  case (Cons ob obs)
  then show ?case
    by (simp add: machine_feed_Cons case_prod_unfold Let_def push_transition_def split: option.split)
qed simp

text \<open>The state machine of a detector has observed visible evidence, in time, and emitted what the detector did.\<close>

definition driven :: "state_machine \<Rightarrow> nat \<Rightarrow> (nat \<times> transition) list \<Rightarrow> bool" where
  "driven m t out \<longleftrightarrow>
     (\<exists>s0 c obs. machine_run s0 c m obs out \<and> sorted (map fst obs) \<and>
        (\<forall>x \<in> set obs. fst x \<le> t) \<and> (\<forall>x \<in> set obs. visible_ob (snd x)))"

lemma driven_start: "driven (machine_new now c) now []"
  unfolding driven_def using machine_run.start [of now c] by fastforce

lemma driven_feed:
  assumes "driven m t out" and "t \<le> now" and "machine_feed m now obs = (m', ts)" and "\<forall>ob \<in> set obs. visible_ob ob"
  shows "driven m' now (out @ map (Pair now) ts)"
proof -
  from assms(1) obtain s0 c obs0 where run: "machine_run s0 c m obs0 out" "sorted (map fst obs0)"
    "\<forall>x \<in> set obs0. fst x \<le> t" "\<forall>x \<in> set obs0. visible_ob (snd x)" by (auto simp: driven_def)
  have "sorted (map (fst \<circ> Pair now) obs)" by (induction obs) auto
  then have sorted: "sorted (map fst (obs0 @ map (Pair now) obs))"
    using run(2,3) assms(2) by (auto simp: sorted_append)
  have "fst (observe_all m (map (Pair now) obs)) = m'" using assms(3) by (simp add: machine_feed_def split: prod.splits)
  with observe_all_run [OF run(1) sorted] assms(3)
  have "machine_run s0 c m' (obs0 @ map (Pair now) obs) (out @ map (Pair now) ts)" by (simp add: observe_all_now)
  moreover have "\<forall>x \<in> set (obs0 @ map (Pair now) obs). fst x \<le> now" using run(3) assms(2) by fastforce
  moreover have "\<forall>x \<in> set (obs0 @ map (Pair now) obs). visible_ob (snd x)" using run(4) assms(4) by auto
  ultimately show ?thesis using sorted unfolding driven_def by blast
qed

lemma driven_clear: "driven m t out \<Longrightarrow> driven (clear_pending m) t out"
  using driven_feed [of m t out t "[ClearPending]" "clear_pending m" "[]"]
  by (simp add: machine_feed_Cons observe_def push_transition_def visible_ob_def)

lemma tick_observation_visible: "\<forall>ob \<in> set (tick_observation env d). visible_ob ob"
  using overlay_visible [OF manifest_evidence_visible, of "dt_program_status d" env d freshness_all "dt_program_status d \<noteq> None"]
  by (auto simp: tick_observation_def visible_ob_def visible_hit_def split: option.splits)

lemma detector_tick_machine:
  assumes "detector_tick env d now = (d', ts)"
  obtains obs where "machine_feed (dt_state d) now obs = (dt_state d', ts)" and "\<forall>ob \<in> set obs. visible_ob ob"
proof (cases "tick_evaluates d")
  case True
  then show ?thesis
    using assms that [of "tick_observation env d @ [Tick]"] tick_observation_visible [of env d]
    by (auto simp: detector_tick_evaluates visible_ob_def split: prod.splits)
next
  case False
  then show ?thesis
    using assms that [of "[Tick]"] by (auto simp: detector_tick_skips visible_ob_def split: prod.splits)
qed

lemma sight_full_context_state [simp]: "dt_state (sight_full_context env d) = dt_state d"
  using sight_full_context_feeds [of d env] by (simp add: feeds_def same_control_def)

lemma run_driven: "detector_run env d t out \<Longrightarrow> driven (dt_state d) t out"
proof (induction rule: detector_run.induct)
  case (create rows cols now config)
  show ?case by (simp add: detector_new_def driven_start)
next
  case (feed d t out now bs d' ts)
  from detector_feed_observes [OF feed.hyps(3)] obtain d1 obs where
    "feeds ((sight_full_context env d)\<lparr>dt_context_dirty := True\<rparr>) d1" "observes d1 now obs d' ts" .
  then have "machine_feed (dt_state d) now obs = (dt_state d', ts)" "\<forall>ob \<in> set obs. visible_ob ob"
    by (simp_all add: feeds_def same_control_def observes_def)
  from driven_feed [OF feed.IH feed.hyps(2) this] show ?case .
next
  case (tick d t out now d' ts)
  from detector_tick_machine [OF tick.hyps(3)] obtain obs where
    "machine_feed (dt_state d) now obs = (dt_state d', ts)" "\<forall>ob \<in> set obs. visible_ob ob" .
  from driven_feed [OF tick.IH tick.hyps(2) this] show ?case .
next
  case (reconfigure d t out now config)
  show ?case by (simp add: detector_reconfigure_def Let_def driven_clear driven_start)
qed (simp_all add: finish_initial_input_def detector_resize_def resync_after_lag_def take_cwd_hint_def Let_def driven_clear)

section \<open>Guarantees\<close>

text \<open>
  C32.  Skipping is invisible: in every run, a tick that does not evaluate the unchanged context leaves
  the same detector and emits the same transitions as the tick that would evaluate it.
\<close>

theorem tick_skip_sound:
  assumes "detector_run env d t out" and "0 < dc_stable_visible_refresh (sm_config (dt_state d))"
  shows "detector_tick env d now = detector_tick env (d\<lparr>dt_context_dirty := True\<rparr>) now"
  using skipped_tick_same [OF run_settled [OF assms(1)] assms(2)] .


text \<open>
  The detector does not flicker: between two configurations, every transition it emits differs
  from the one before it, or repeats a visible state at least the refresh interval later.
\<close>

theorem detector_emissions_change_or_refresh:
  assumes "detector_run env d t out"
  shows "successively
    (\<lambda>x y. snd x \<noteq> snd y \<or>
       (is_visible_source (ev_source (snd y)) \<and> fst x + dc_stable_visible_refresh (sm_config (dt_state d)) \<le> fst y)) out"
proof -
  from run_driven [OF assms] obtain s0 c obs where run: "machine_run s0 c (dt_state d) obs out"
    "\<forall>x \<in> set obs. visible_ob (snd x)" by (auto simp: driven_def)
  have inv: "machine_inv s0 c (dt_state d) obs out" by (rule machine_run_inv [OF run(1)])
  then have cfg: "dc_stable_visible_refresh (sm_config (dt_state d)) = dc_stable_visible_refresh c" by (simp add: machine_inv_def)
  have "tracked (snd x)" if "x \<in> set out" for x using machine_run_sources [OF run] that by blast
  then have src: "ev_source (snd x) \<noteq> Report \<and> ev_source (snd x) \<noteq> UnknownSource" if "x \<in> set out" for x
    using that by (fastforce simp: tracked_def is_visible_source_def)
  have "successively (\<lambda>x y. snd x \<noteq> snd y \<or> ev_source (snd y) = Report \<or> ev_source (snd y) = UnknownSource \<or>
      (is_visible_source (ev_source (snd y)) \<and> fst x + dc_stable_visible_refresh c \<le> fst y)) out"
    using inv by (simp add: machine_inv_def spaced_emissions_def)
  then show ?thesis unfolding cfg by (rule successively_mono) (use src in auto)
qed

text \<open>A terminal that draws nothing, and a manifest that reads the title.\<close>

definition quiet_env :: "(bytes, unit, unit, unit, bytes) detector_env" where
  "quiet_env =
     \<lparr>de_vt = log_vt\<lparr>vte_advance := (\<lambda>d bs. (d, []))\<rparr>, de_manifest = demo_env, de_b64 = (\<lambda>_. None)\<rparr>"

definition title_rule :: "bytes \<Rightarrow> agent_activity \<Rightarrow> int \<Rightarrow> bool \<Rightarrow> bytes rule" where
  "title_rule needle activity priority blocker =
     \<lparr>rule_id = needle, rule_activity = activity, rule_priority = priority, rule_region = RegOscTitle,
      rule_visible_blocker = blocker, rule_overrides_program_status = False, rule_gate = GateContains needle\<rparr>"

definition title_config :: "bytes detector_config" where
  "title_config =
     \<lparr>cfg_detection = demo_config,
      cfg_manifest = Some
        \<lparr>mf_rules = [title_rule ''ok'' Idle 1 False, title_rule ''ask'' Blocked 2 True], mf_process = None,
         mf_program_status = None, mf_source = [], mf_latches_working = False\<rparr>,
      cfg_input_readiness = ManifestIdle, cfg_launch_name = None\<rparr>"

definition title_bytes :: "bytes \<Rightarrow> bytes" where
  "title_bytes title = ESC # '']2;'' @ title @ [BEL]"

definition asked :: "(bytes, unit, bytes) detector" where
  "asked = fst (detector_feed quiet_env (detector_new quiet_env 24 80 0 title_config) 1 (title_bytes ''ask''))"

lemma title_scan:
  "advance_with_offsets b64 parser_new (title_bytes ''ask'') = (parser_new, [(Title ''ask'', 8)])"
  "advance_with_offsets b64 parser_new (title_bytes ''ok'') = (parser_new, [(Title ''ok'', 7)])"
  by (simp_all add: title_bytes_def advance_with_offsets_def parser_new_def parser_defs finish_osc_def osc_item_def
    supported_command_def MAX_OSC_COMMAND_BYTES_def MAX_SUPPORTED_OSC_PAYLOAD_BYTES_def
    from_utf8_lossy_valid is_utf8_ascii is_ascii_def)

lemma quiet_vt [simp]:
  "vte_advance (de_vt quiet_env) p bs = (p, [])" "vg_size (de_vt quiet_env) g = (24, 80)"
  "vg_cell (de_vt quiet_env) g r c = None" "vg_process (de_vt quiet_env) g bs = g @ bs"
  "vg_cursor_position (de_vt quiet_env) g = (0, 0)" "de_manifest quiet_env = demo_env"
  by (simp_all add: quiet_env_def)

lemma quiet_loop:
  "\<not> fl_dirty l \<Longrightarrow> st_draw_parser (fl_tracker l) = Some p \<Longrightarrow>
   foldl (feed_observed_step (de_vt quiet_env) watch columns) l bs = l\<lparr>fl_pending := fl_pending l @ bs\<rparr>"
proof (induction bs arbitrary: l)
  case (Cons b bs)
  have "feed_observed_step (de_vt quiet_env) watch columns l b = l\<lparr>fl_pending := fl_pending l @ [b]\<rparr>"
    using Cons.prems by (cases l) (simp add: feed_observed_step_def draw_byte_def observed_feed_default_def)
  then show ?case using Cons.IH [of "l\<lparr>fl_pending := fl_pending l @ [b]\<rparr>"] Cons.prems by simp
qed (cases l, simp)

lemma quiet_feed [simp]:
  "st_draw_parser t = Some p \<Longrightarrow>
   feed_observed (de_vt quiet_env) watch t bs s = (t\<lparr>st_parser := st_parser t @ bs\<rparr>, s)"
  by (simp add: feed_observed_def quiet_loop grid_process_def)

lemma quiet_columns: "set (slice_columns_from (de_vt quiet_env) g row m n) \<subseteq> {CHR '' ''}"
proof (induction "m - n" arbitrary: n)
  case (Suc k)
  then have "set (slice_columns_from (de_vt quiet_env) g row m (Suc n)) \<subseteq> {CHR '' ''}" by (intro Suc.hyps(1)) simp
  then show ?case by (subst slice_columns_from.simps) auto
qed (subst slice_columns_from.simps, simp)

lemma quiet_text [simp]: "recent_text (de_vt quiet_env) t = []"
proof -
  have "trim_end_spaces xs = []" if "set xs \<subseteq> {CHR '' ''}" for xs using that by (auto simp: trim_end_spaces_def)
  then have "trimmed_line (de_vt quiet_env) t row 80 = []" for row
    using quiet_columns by (auto simp: trimmed_line_def slice_columns_def)
  then have "\<forall>line \<in> set (rev (visible_lines (de_vt quiet_env) t)). line = []"
    by (auto simp: visible_lines_def)
  then have "dropWhile (\<lambda>line. line = []) (rev (visible_lines (de_vt quiet_env) t)) = []"
    by (simp only: dropWhile_eq_Nil_conv)
  then show ?thesis by (simp only: recent_text_def rev.simps join_with.simps)
qed

definition title_hit :: "bytes \<Rightarrow> nat \<Rightarrow> evidence_hit" where
  "title_hit t arrival =
     \<lparr>eh_evidence = \<lparr>ev_activity = (if t = ''ask'' then Blocked else Idle), ev_source = OscTitle\<rparr>,
      eh_visible_blocker = (t = ''ask''), eh_overrides_program_status = False, eh_arrival = arrival\<rparr>"

lemma title_evidence:
  assumes "fr_osc_title fr" and "t \<in> {''ask'', ''ok''}"
  shows "manifest_hit quiet_env (the (cfg_manifest title_config)) screen (Some t) progress arr fr False =
    Some (title_hit t (ar_title arr))"
proof -
  have "\<not> sublist ''ask'' ''ok''" "\<not> sublist ''ok'' ''ask''" by code_simp+
  then show ?thesis using assms
    by (auto simp: manifest_hit_def title_config_def title_rule_def Let_def match_context_for_def required_regions_def
     freshness_includes_def region_source_text_def match_context_first_highest first_highest_def applicable_def
     with_region_text_def with_program_status_held_def match_context_default_def rule_match_def
     manifest_source_def demo_env_def is_visible_manifest_source_def title_hit_def)
qed

lemma no_title_evidence:
  "manifest_hit quiet_env (the (cfg_manifest title_config)) screen None progress arr fr False = None"
  by (simp add: manifest_hit_def title_config_def title_rule_def Let_def match_context_for_def required_regions_def
     freshness_includes_def region_source_text_def match_context_first_highest first_highest_def applicable_def
     with_region_text_def with_program_status_held_def match_context_default_def)

definition titled :: "bytes option \<Rightarrow> (bytes, unit, bytes) detector \<Rightarrow> bool" where
  "titled title d \<longleftrightarrow>
     dt_manifest d = cfg_manifest title_config \<and> dt_input_readiness d = ManifestIdle \<and> dt_launch_name d = None \<and>
     dt_initial_input_pending d \<and> dt_latest_title d = title \<and> dt_program_status d = None \<and>
     dt_osc d = parser_new \<and> st_draw_parser (dt_screen d) \<noteq> None"

lemma titled_evidence:
  "titled (Some t) d \<Longrightarrow> fr_osc_title fr \<Longrightarrow> t \<in> {''ask'', ''ok''} \<Longrightarrow>
   manifest_evidence quiet_env d fr False = Some (title_hit t (dt_title_seq d))"
  "titled None d \<Longrightarrow> manifest_evidence quiet_env d fr False = None"
  using title_evidence [of fr t] no_title_evidence
  by (auto simp: titled_def manifest_evidence_def title_config_def evaluated_title_def)

lemma sight_full_context_fields [simp]:
  "dt_manifest (sight_full_context env d) = dt_manifest d" "dt_input_readiness (sight_full_context env d) = dt_input_readiness d"
  "dt_launch_name (sight_full_context env d) = dt_launch_name d" "dt_latest_title (sight_full_context env d) = dt_latest_title d"
  "dt_initial_input_pending (sight_full_context env d) = dt_initial_input_pending d"
  "dt_program_status (sight_full_context env d) = dt_program_status d" "dt_osc (sight_full_context env d) = dt_osc d"
  "dt_screen (sight_full_context env d) = dt_screen d" "dt_strict_seq (sight_full_context env d) = dt_strict_seq d"
  "dt_process_activity (sight_full_context env d) = dt_process_activity d"
  "dt_needs_visible_recheck (sight_full_context env d) = dt_needs_visible_recheck d"
  by (simp_all add: sight_full_context_def sight_visible_blocker_def split: option.split)

lemma quiet_segment:
  assumes "titled title d"
  shows "feed_screen_segment quiet_env d bs l =
    (d\<lparr>dt_screen := (dt_screen d)\<lparr>st_parser := st_parser (dt_screen d) @ bs\<rparr>\<rparr>, l)"
proof -
  obtain p where "st_draw_parser (dt_screen d) = Some p" using assms by (auto simp: titled_def)
  then show ?thesis using assms by (cases d) (simp add: titled_def feed_screen_segment_def feed_screen_segment_observed_def)
qed

lemma closed_latch:
  "titled title d \<Longrightarrow> \<not> lt_open l \<Longrightarrow> latch_at_osc_point quiet_env d l = l\<lparr>lt_program_status := None\<rparr>"
  by (auto simp: titled_def latch_at_osc_point_def latch_evaluate_def title_config_def)

text \<open>One title, fed to a terminal that draws nothing.\<close>

lemma title_events:
  assumes "titled title d" and "\<not> lt_open l" and "t \<in> {''ask'', ''ok''}"
  shows "\<exists>d' l'. feed_events quiet_env bs 0 [(Title t, e)] d l = (d', l') \<and> titled (Some t) d' \<and>
    dt_state d' = dt_state d \<and> dt_title_seq d' = Suc (dt_strict_seq d) \<and> dt_strict_seq d' = Suc (dt_strict_seq d) \<and>
    dt_context_dirty d' = dt_context_dirty d \<and> dt_needs_visible_recheck d' = dt_needs_visible_recheck d \<and>
    lt_sighted l' = lt_sighted l \<and> oc_title (lt_osc_changes l') = (oc_title (lt_osc_changes l) \<or> title \<noteq> Some t) \<and>
    (t = ''ok'' \<longrightarrow> dt_idle_barrier d' = dt_idle_barrier d)"
proof -
  let ?d1 = "d\<lparr>dt_screen := (dt_screen d)\<lparr>st_parser := st_parser (dt_screen d) @ slice bs 0 e\<rparr>\<rparr>"
  let ?d2 = "?d1\<lparr>dt_latest_title := Some t, dt_strict_seq := dt_strict_seq d + 1, dt_title_seq := dt_strict_seq d + 1\<rparr>"
  let ?l2 = "l\<lparr>lt_osc_changes := (lt_osc_changes l)\<lparr>oc_title := (oc_title (lt_osc_changes l) \<or> title \<noteq> Some t)\<rparr>\<rparr>"
  let ?d3 = "sight_full_context quiet_env ?d2"
  have t2: "titled (Some t) ?d2" using assms(1) by (simp add: titled_def)
  then have ev: "manifest_evidence quiet_env ?d2 freshness_all False = Some (title_hit t (dt_title_seq ?d2))"
    by (rule titled_evidence(1)) (use assms(3) in \<open>simp_all add: freshness_all_def\<close>)
  have d3: "?d3 = (if t = ''ask'' then ?d2\<lparr>dt_idle_barrier := dt_strict_seq ?d2\<rparr> else ?d2)"
    using ev t2 by (simp only: sight_full_context_def sight_visible_blocker_def titled_def title_hit_def) simp
  have t3: "titled (Some t) ?d3" using t2 unfolding d3 by (simp add: titled_def)
  have l3: "latch_at_osc_point quiet_env ?d3 ?l2 = ?l2\<lparr>lt_program_status := None\<rparr>"
    by (rule closed_latch [OF t3]) (simp add: assms(2))
  have title: "dt_latest_title d = title" using assms(1) by (simp add: titled_def)
  have "feed_events quiet_env bs 0 [(Title t, e)] d l = feed_screen_segment quiet_env ?d3 (drop e bs) (?l2\<lparr>lt_program_status := None\<rparr>)"
    using quiet_segment [OF assms(1)] l3 title by (simp add: apply_osc_event_def)
  also note quiet_segment [OF t3]
  finally have eq: "feed_events quiet_env bs 0 [(Title t, e)] d l =
    (?d3\<lparr>dt_screen := (dt_screen ?d3)\<lparr>st_parser := st_parser (dt_screen ?d3) @ drop e bs\<rparr>\<rparr>, ?l2\<lparr>lt_program_status := None\<rparr>)" .
  show ?thesis by (intro exI conjI, rule eq [unfolded d3]) (use t2 in \<open>simp_all add: titled_def\<close>)
qed

lemma title_feed:
  assumes "titled title d" and "t \<in> {''ask'', ''ok''}" and "title \<noteq> Some t"
  shows "\<exists>d' ts. detector_feed quiet_env d now (title_bytes t) = (d', ts) \<and> titled (Some t) d' \<and>
    dt_title_seq d' = Suc (dt_strict_seq d) \<and> dt_strict_seq d' = Suc (dt_strict_seq d) \<and>
    dt_context_dirty d' \<and> dt_needs_visible_recheck d' = dt_needs_visible_recheck d \<and>
    (dt_state d', ts) =
      (case observe_evidence (dt_state d) now (eh_evidence (title_hit t 0)) of (m, r) \<Rightarrow> (m, push_transition [] r)) \<and>
    (t = ''ok'' \<longrightarrow> dt_idle_barrier d' = dt_idle_barrier (sight_full_context quiet_env d))"
proof -
  let ?bs = "title_bytes t"
  let ?d0 = "(sight_full_context quiet_env d)\<lparr>dt_context_dirty := True\<rparr>"
  let ?d2 = "?d0\<lparr>dt_process_activity := fst (process_activity_observe (dt_process_activity d) ?bs), dt_osc := parser_new\<rparr>"
  let ?l0 = "latch_new (latch_gate_open ?d2) [] (dt_program_status ?d2)"
  have t2: "titled title ?d2" using assms(1) by (simp add: titled_def)
  have m2: "latch_gate_open ?d2 = False" "Option.bind (dt_manifest ?d2) mf_program_status = None"
    using t2 by (simp_all add: latch_gate_open_def latch_eligible_def titled_def title_config_def)
  obtain e where scan: "advance_with_offsets b64 (dt_osc ?d0) ?bs = (parser_new, [(Title t, e)])" for b64
    using assms(1,2) title_scan that by (fastforce simp: titled_def)
  obtain d' l where ev: "feed_events quiet_env ?bs 0 [(Title t, e)] ?d2 ?l0 = (d', l)" and d': "titled (Some t) d'"
    "dt_state d' = dt_state ?d2" "dt_title_seq d' = Suc (dt_strict_seq ?d2)" "dt_strict_seq d' = Suc (dt_strict_seq ?d2)"
    "dt_context_dirty d'" "dt_needs_visible_recheck d' = dt_needs_visible_recheck ?d2"
    "lt_sighted l = None" "oc_title (lt_osc_changes l)"
    "t = ''ok'' \<Longrightarrow> dt_idle_barrier d' = dt_idle_barrier (sight_full_context quiet_env d)"
    using title_events [OF t2, of ?l0 t ?bs e] m2 assms(2,3) by (auto simp: latch_new_def)
  have ctx: "feed_context quiet_env d ?bs = (d', l, [], snd (process_activity_observe (dt_process_activity d) ?bs))"
    using ev scan m2(2) by (simp add: feed_context_def Let_def case_prod_unfold is_program_status_def)
  let ?fr = "\<lparr>fr_screen = False, fr_osc_title = True, fr_osc_progress = oc_progress (lt_osc_changes l)\<rparr>"
  have hit: "activity_evidence quiet_env d' ?fr = Some (title_hit t (dt_title_seq d'))"
    using d'(1) titled_evidence(1) [OF d'(1), of ?fr] assms(2)
    by (simp add: activity_evidence_def overlay_program_status_def titled_def)
  obtain m r where o: "observe_evidence (dt_state d) now (eh_evidence (title_hit t 0)) = (m, r)" by fastforce
  have "detector_feed quiet_env d now ?bs = (d'\<lparr>dt_state := m\<rparr>, push_transition [] r)"
    using ctx hit d'(2,7,8) o
    by (simp add: detector_feed_def feed_evidence_def Let_def detector_observe_evidence_def title_hit_def)
  then show ?thesis using d' o by (simp add: titled_def)
qed

lemma titled_new: "titled None (detector_new quiet_env 24 80 0 title_config)"
  by (simp add: titled_def detector_new_def title_config_def screen_new_def)

definition answered :: "(bytes, unit, bytes) detector" where
  "answered = fst (detector_feed quiet_env asked 2 (title_bytes ''ok''))"

definition blocked_title :: evidence where
  "blocked_title = \<lparr>ev_activity = Blocked, ev_source = OscTitle\<rparr>"

lemma blocked_machine:
  "observe_evidence (machine_new 0 demo_config) 1 blocked_title =
     ((machine_new 0 demo_config)\<lparr>sm_pending := Some (candidate_new 1 blocked_title)\<rparr>, None)"
  "machine_feed ((machine_new 0 demo_config)\<lparr>sm_pending := Some (candidate_new 1 blocked_title)\<rparr>) 3
     [Evidence blocked_title, Tick] =
     ((machine_new 0 demo_config)\<lparr>sm_published := Some \<lparr>ps_transition = blocked_title, ps_emitted_at = 3\<rparr>,
        sm_last_emitted := Some blocked_title\<rparr>, [blocked_title])"
  "machine_feed ((machine_new 0 demo_config)\<lparr>sm_published := Some \<lparr>ps_transition = blocked_title, ps_emitted_at = 3\<rparr>,
        sm_last_emitted := Some blocked_title\<rparr>) 8 [Tick] =
     ((machine_new 0 demo_config)\<lparr>sm_published := Some \<lparr>ps_transition = blocked_title, ps_emitted_at = 8\<rparr>,
        sm_last_emitted := Some blocked_title\<rparr>, [blocked_title])"
  by code_simp+

lemma asked_fields:
  "titled (Some ''ask'') asked" "dt_strict_seq asked = 1" "dt_context_dirty asked" "\<not> dt_needs_visible_recheck asked"
  "dt_state asked = (machine_new 0 demo_config)\<lparr>sm_pending := Some (candidate_new 1 blocked_title)\<rparr>"
  "detector_feed quiet_env (detector_new quiet_env 24 80 0 title_config) 1 (title_bytes ''ask'') = (asked, [])"
proof -
  have "eh_evidence (title_hit ''ask'' 0) = blocked_title" "cfg_detection title_config = demo_config"
    by (simp_all add: title_hit_def blocked_title_def title_config_def)
  then show "titled (Some ''ask'') asked" "dt_strict_seq asked = 1" "dt_context_dirty asked"
    "\<not> dt_needs_visible_recheck asked"
    "dt_state asked = (machine_new 0 demo_config)\<lparr>sm_pending := Some (candidate_new 1 blocked_title)\<rparr>"
    "detector_feed quiet_env (detector_new quiet_env 24 80 0 title_config) 1 (title_bytes ''ask'') = (asked, [])"
    using title_feed [OF titled_new, of "''ask''" 1] blocked_machine(1)
    by (auto simp: asked_def detector_new_def push_transition_def)
qed

lemma asked_evidence: "manifest_evidence quiet_env asked freshness_all False = Some (title_hit ''ask'' (dt_title_seq asked))"
  by (rule titled_evidence(1) [OF asked_fields(1)]) (simp_all add: freshness_all_def)

lemma answered_fields:
  "titled (Some ''ok'') answered" "dt_title_seq answered = 2" "dt_idle_barrier answered = 1"
proof -
  have "dt_idle_barrier (sight_full_context quiet_env asked) = 1"
    using asked_evidence asked_fields(1,2)
    by (simp add: sight_full_context_def sight_visible_blocker_def titled_def title_hit_def)
  then show "titled (Some ''ok'') answered" "dt_title_seq answered = 2" "dt_idle_barrier answered = 1"
    using title_feed [OF asked_fields(1), of "''ok''" 2] asked_fields(2) by (auto simp: answered_def)
qed

lemma asked_run: "detector_run quiet_env asked 1 []"
  using detector_run.feed [OF detector_run.create _ asked_fields(6)] by simp

lemma answered_ready: "input_ready quiet_env answered"
proof -
  have "manifest_evidence quiet_env answered freshness_all False = Some (title_hit ''ok'' (dt_title_seq answered))"
    by (rule titled_evidence(1) [OF answered_fields(1)]) (simp_all add: freshness_all_def)
  then show ?thesis using answered_fields by (simp add: input_ready_def titled_def title_hit_def)
qed


definition ticked :: "(bytes, unit, bytes) detector" where
  "ticked = fst (detector_tick quiet_env asked 3)"

lemma ticked_fields:
  "detector_tick quiet_env asked 3 = (ticked, [blocked_title])" "\<not> tick_evaluates ticked"
  "dt_state ticked = (machine_new 0 demo_config)\<lparr>sm_published := Some \<lparr>ps_transition = blocked_title, ps_emitted_at = 3\<rparr>,
     sm_last_emitted := Some blocked_title\<rparr>"
proof -
  have "tick_observation quiet_env asked = [Evidence blocked_title]"
    using asked_evidence asked_fields(1)
    by (simp add: tick_observation_def overlay_program_status_def titled_def title_hit_def blocked_title_def)
  moreover have "tick_evaluates asked" using asked_fields(3) by (simp add: tick_evaluates_def)
  ultimately have "detector_tick quiet_env asked 3 =
      ((sighted_hit quiet_env asked)\<lparr>dt_context_dirty := False, dt_needs_visible_recheck := False,
         dt_state := (machine_new 0 demo_config)\<lparr>sm_published := Some \<lparr>ps_transition = blocked_title, ps_emitted_at = 3\<rparr>,
           sm_last_emitted := Some blocked_title\<rparr>\<rparr>, [blocked_title])"
    using blocked_machine(2) asked_fields(5) by (simp add: detector_tick_evaluates)
  then show "detector_tick quiet_env asked 3 = (ticked, [blocked_title])" "\<not> tick_evaluates ticked"
    "dt_state ticked = (machine_new 0 demo_config)\<lparr>sm_published := Some \<lparr>ps_transition = blocked_title, ps_emitted_at = 3\<rparr>,
       sm_last_emitted := Some blocked_title\<rparr>"
    by (simp_all add: ticked_def tick_evaluates_def has_pending_def machine_new_def)
qed

lemma ticked_run: "detector_run quiet_env ticked 3 [(3, blocked_title)]"
  using detector_run.tick [OF asked_run _ ticked_fields(1)] by simp

theorem tick_skip_sound_witness:
  "\<not> tick_evaluates ticked \<and>
   detector_tick quiet_env ticked 8 = detector_tick quiet_env (ticked\<lparr>dt_context_dirty := True\<rparr>) 8"
  using tick_skip_sound [OF ticked_run, of 8] ticked_fields(2,3) by (simp add: machine_new_def demo_config_def)

theorem detector_emissions_change_or_refresh_witness:
  "\<exists>d. detector_run quiet_env d 8 [(3, blocked_title), (8, blocked_title)] \<and>
     successively (\<lambda>x y. snd x \<noteq> snd y \<or>
       (is_visible_source (ev_source (snd y)) \<and> fst x + dc_stable_visible_refresh (sm_config (dt_state d)) \<le> fst y))
       [(3, blocked_title), (8, blocked_title)]"
proof -
  have "detector_tick quiet_env ticked 8 =
      (ticked\<lparr>dt_state := (machine_new 0 demo_config)\<lparr>sm_published := Some \<lparr>ps_transition = blocked_title, ps_emitted_at = 8\<rparr>,
        sm_last_emitted := Some blocked_title\<rparr>\<rparr>, [blocked_title])" (is "_ = (?d, _)")
    using blocked_machine(3) ticked_fields(2,3) by (simp add: detector_tick_skips)
  from detector_run.tick [OF ticked_run _ this]
  have run: "detector_run quiet_env ?d 8 [(3, blocked_title), (8, blocked_title)]" by simp
  show ?thesis by (intro exI [of _ ?d] conjI run detector_emissions_change_or_refresh [OF run])
qed

end
