(* ===== verification/Turn_Table.thy ===== *)
theory Turn_Table
  imports Detect_Machine
begin

text \<open>
  The turns of one session (\<open>crates/daemon/src/session/turn_events.rs\<close>, \<open>TurnTable\<close> and
  \<open>TurnProgress\<close>): a turn opens when the agent starts to work, pauses while it is blocked, settles for
  a window after it went idle, and is then closed for good, or is abandoned; the input a session
  received is a token that the turn answering it takes.  The readings of the monotonic clock and of
  the wall clock are arguments (\<open>now\<close>, \<open>wall\<close>); the two readings of the monotonic clock that
  \<open>TurnProgress::settle\<close> takes under its lock for a session that is gone are one reading here.
\<close>

section \<open>Records\<close>

record turn_owner =
  to_entry :: nat
  to_agent :: nat

datatype turn_state = TurnOpen | TurnPaused | TurnSettling (settle_deadline: nat) | TurnClosed | TurnAbandoned

type_synonym metadata = "bytes \<rightharpoonup> bytes"

record turn_record =
  tr_owner :: turn_owner
  tr_started_nanos :: "nat option"
  tr_started :: "nat option"
  tr_ended :: "nat option"
  tr_ended_metadata :: "metadata option"
  tr_state :: turn_state
  tr_holds_input :: bool
  tr_inbox_reported_at :: "nat option"
  tr_inbox_reported :: bool
  tr_signal_reported :: bool

record handback =
  hb_started_nanos :: "nat option"
  hb_started :: "nat option"

definition RECENT_TURNS :: nat where "RECENT_TURNS = 8"

text \<open>The ordered map of the records is the list of its entries by ascending turn number.\<close>

record turn_table =
  tt_next_id :: nat
  tt_newest :: "nat option"
  tt_records :: "(nat \<times> turn_record) list"
  tt_token :: bool
  tt_returned_start :: "handback option"

definition turn_table_default :: turn_table where
  "turn_table_default =
     \<lparr>tt_next_id = 0, tt_newest = None, tt_records = [], tt_token = False, tt_returned_start = None\<rparr>"

fun btree_insert :: "'k::linorder \<Rightarrow> 'v \<Rightarrow> ('k \<times> 'v) list \<Rightarrow> ('k \<times> 'v) list" where
  "btree_insert k v [] = [(k, v)]"
| "btree_insert k v ((k', v') # rest) =
     (if k < k' then (k, v) # (k', v') # rest
      else if k = k' then (k, v) # rest
      else (k', v') # btree_insert k v rest)"

definition btree_modify :: "'k \<Rightarrow> ('v \<Rightarrow> 'v) \<Rightarrow> ('k \<times> 'v) list \<Rightarrow> ('k \<times> 'v) list" where
  "btree_modify k f = map (\<lambda>(k', v). (k', if k' = k then f v else v))"

section \<open>The table\<close>

text \<open>\<open>TurnTable::open\<close>; the loop that drops the oldest records keeps the last of them.\<close>

definition table_open :: "turn_table \<Rightarrow> turn_owner \<Rightarrow> nat option \<Rightarrow> nat \<Rightarrow> turn_table \<times> nat" where
  "table_open t owner started_nanos now =
     (let i = tt_next_id t + 1;
          r = \<lparr>tr_owner = owner, tr_started_nanos = started_nanos,
               tr_started = map_option (\<lambda>_. now) started_nanos, tr_ended = None, tr_ended_metadata = None,
               tr_state = TurnOpen, tr_holds_input = False, tr_inbox_reported_at = None,
               tr_inbox_reported = False, tr_signal_reported = False\<rparr>;
          rs = btree_insert i r (tt_records t)
      in (t\<lparr>tt_next_id := i, tt_records := drop (length rs - RECENT_TURNS) rs, tt_newest := Some i\<rparr>, i))"

definition newest_record :: "turn_table \<Rightarrow> (nat \<times> turn_record) option" where
  "newest_record t =
     (case tt_newest t of
        None \<Rightarrow> None
      | Some i \<Rightarrow> map_option (Pair i) (map_of (tt_records t) i))"

definition put_record :: "turn_table \<Rightarrow> nat \<Rightarrow> turn_record \<Rightarrow> turn_table" where
  "put_record t i r = t\<lparr>tt_records := btree_modify i (\<lambda>_. r) (tt_records t)\<rparr>"

definition abandon :: "turn_record \<Rightarrow> turn_record \<times> handback option" where
  "abandon r =
     (r\<lparr>tr_state := TurnAbandoned, tr_holds_input := False\<rparr>,
      if tr_holds_input r then Some \<lparr>hb_started_nanos = tr_started_nanos r, hb_started = tr_started r\<rparr> else None)"

text \<open>The owner of a turn left.\<close>

definition depart :: "turn_record \<Rightarrow> turn_record \<times> handback option" where
  "depart r =
     (case tr_state r of
        TurnSettling _ \<Rightarrow> (r\<lparr>tr_state := TurnClosed\<rparr>, None)
      | TurnOpen \<Rightarrow> abandon r
      | TurnPaused \<Rightarrow> abandon r
      | TurnClosed \<Rightarrow> (r, None)
      | TurnAbandoned \<Rightarrow> (r, None))"

definition give_back :: "turn_table \<Rightarrow> handback option \<Rightarrow> turn_table" where
  "give_back t h = (case h of None \<Rightarrow> t | Some _ \<Rightarrow> t\<lparr>tt_token := True, tt_returned_start := h\<rparr>)"

definition depart_changed :: "turn_table \<Rightarrow> turn_owner \<Rightarrow> turn_table" where
  "depart_changed t owner =
     (case newest_record t of
        None \<Rightarrow> t
      | Some (i, r) \<Rightarrow>
          if tr_owner r \<noteq> owner
          then (case depart r of (r', h) \<Rightarrow> give_back (put_record t i r') h) else t)"

definition discard_input :: "turn_table \<Rightarrow> turn_table" where
  "discard_input t =
     t\<lparr>tt_records := map (\<lambda>(i, r). (i, r\<lparr>tr_holds_input := False\<rparr>)) (tt_records t),
       tt_token := False, tt_returned_start := None\<rparr>"

definition abandoned_state :: "nat \<Rightarrow> turn_state \<Rightarrow> turn_state" where
  "abandoned_state now s =
     (case s of
        TurnClosed \<Rightarrow> TurnClosed
      | TurnSettling deadline \<Rightarrow> if deadline \<le> now then TurnClosed else TurnAbandoned
      | _ \<Rightarrow> TurnAbandoned)"

definition abandon_all :: "turn_table \<Rightarrow> nat \<Rightarrow> turn_table" where
  "abandon_all t now =
     discard_input
       (t\<lparr>tt_records := map (\<lambda>(i, r). (i, r\<lparr>tr_state := abandoned_state now (tr_state r)\<rparr>)) (tt_records t)\<rparr>)"

definition take_token :: "turn_table \<Rightarrow> nat \<Rightarrow> turn_table" where
  "take_token t i =
     (if \<not> tt_token t then t
      else
        (let returned = tt_returned_start t in
         t\<lparr>tt_token := False, tt_returned_start := None,
           tt_records := btree_modify i (\<lambda>r.
             (let r' = r\<lparr>tr_holds_input := True\<rparr> in
              case returned of
                None \<Rightarrow> r'
              | Some h \<Rightarrow>
                  if hb_started h \<noteq> None
                  then r'\<lparr>tr_started_nanos := hb_started_nanos h, tr_started := hb_started h\<rparr> else r'))
             (tt_records t)\<rparr>))"

text \<open>Whether a \<open>working\<close> after \<open>previous\<close> continues the newest turn.\<close>

definition continues_turn :: "turn_table \<Rightarrow> agent_activity option \<Rightarrow> nat \<Rightarrow> bool" where
  "continues_turn t previous now =
     (case newest_record t of
        None \<Rightarrow> False
      | Some (_, r) \<Rightarrow>
          (case tr_state r of
             TurnPaused \<Rightarrow> previous = Some Blocked
           | TurnSettling deadline \<Rightarrow> now < deadline
           | _ \<Rightarrow> False))"

definition enter_working ::
  "turn_table \<Rightarrow> turn_owner \<Rightarrow> agent_activity option \<Rightarrow> nat option \<Rightarrow> nat \<Rightarrow> turn_table \<times> nat option" where
  "enter_working t owner previous started_nanos now =
     (let fresh = (\<lambda>t' h. case table_open (give_back t' h) owner started_nanos now of (t'', i) \<Rightarrow> (t'', Some i)) in
      case newest_record t of
        None \<Rightarrow> fresh t None
      | Some (i, r) \<Rightarrow>
          (if tr_state r = TurnPaused \<and> previous = Some Blocked
           then (put_record t i (r\<lparr>tr_state := TurnOpen\<rparr>), None)
           else
             (case tr_state r of
                TurnSettling deadline \<Rightarrow>
                  if now < deadline
                  then (put_record t i (r\<lparr>tr_state := TurnOpen, tr_ended := None, tr_ended_metadata := None\<rparr>), None)
                  else fresh (put_record t i (r\<lparr>tr_state := TurnClosed\<rparr>)) None
              | TurnOpen \<Rightarrow> (case abandon r of (r', h) \<Rightarrow> fresh (put_record t i r') h)
              | TurnPaused \<Rightarrow> (case abandon r of (r', h) \<Rightarrow> fresh (put_record t i r') h)
              | TurnClosed \<Rightarrow> fresh t None
              | TurnAbandoned \<Rightarrow> fresh t None)))"

section \<open>The progress of a session\<close>

record turn_change =
  ch_started :: "nat option"
  ch_ended :: "nat option"

definition no_change :: turn_change where
  "no_change = \<lparr>ch_started = None, ch_ended = None\<rparr>"

record turn_snapshot =
  tn_started_nanos :: "nat option"
  tn_length :: "nat option"
  tn_metadata :: metadata
  tn_inbox_reported :: bool
  tn_signal_reported :: bool

definition record_reported :: "turn_record \<Rightarrow> bool" where
  "record_reported r \<longleftrightarrow> tr_inbox_reported r \<or> tr_signal_reported r"

definition record_snapshot :: "turn_record \<Rightarrow> turn_snapshot" where
  "record_snapshot r =
     \<lparr>tn_started_nanos = tr_started_nanos r,
      tn_length = (case (tr_started r, tr_ended r) of (Some a, Some b) \<Rightarrow> Some (b - a) | _ \<Rightarrow> None),
      tn_metadata = unwrap_or (tr_ended_metadata r) Map.empty,
      tn_inbox_reported = tr_inbox_reported r, tn_signal_reported = tr_signal_reported r\<rparr>"

datatype turn_verdict = Hold "nat option" | Surface turn_snapshot | DropReport

text \<open>The nanosecond counters are zero when nothing was observed.\<close>

record turn_progress =
  tp_last_output_nanos :: nat
  tp_turn_started_nanos :: nat
  tp_record_start_floor :: nat
  tp_table :: turn_table

definition turn_progress_default :: turn_progress where
  "turn_progress_default =
     \<lparr>tp_last_output_nanos = 0, tp_turn_started_nanos = 0, tp_record_start_floor = 0, tp_table = turn_table_default\<rparr>"

definition non_zero :: "nat \<Rightarrow> nat option" where
  "non_zero n = (if n \<noteq> 0 then Some n else None)"

definition note_output :: "turn_progress \<Rightarrow> nat \<Rightarrow> turn_progress" where
  "note_output p nanos = p\<lparr>tp_last_output_nanos := nanos\<rparr>"

definition last_output_nanos :: "turn_progress \<Rightarrow> nat option" where
  "last_output_nanos p = non_zero (tp_last_output_nanos p)"

definition turn_started_nanos :: "turn_progress \<Rightarrow> nat option" where
  "turn_started_nanos p = non_zero (tp_turn_started_nanos p)"

text \<open>The tail of \<open>note_activity\<close>: the change of a turn that does not enter \<open>working\<close>.\<close>

definition leave_working ::
  "turn_table \<Rightarrow> agent_activity option \<Rightarrow> agent_activity \<Rightarrow> metadata \<Rightarrow> nat \<Rightarrow> nat \<Rightarrow> turn_table \<times> nat option" where
  "leave_working t previous next metadata window now =
     (case newest_record t of
        None \<Rightarrow> (t, None)
      | Some (i, r) \<Rightarrow>
          if previous = Some Working \<and> next = Working then (t, None)
          else if previous = Some Working \<and> next = Blocked \<and> tr_state r = TurnOpen
          then (put_record t i (r\<lparr>tr_state := TurnPaused\<rparr>), None)
          else if previous = Some Working \<and> next = Idle \<and> tr_state r = TurnOpen
          then (put_record t i (r\<lparr>tr_ended := Some now, tr_ended_metadata := Some metadata,
                                  tr_state := TurnSettling (now + window)\<rparr>), Some i)
          else if (previous = Some Working \<and> tr_state r = TurnOpen) \<or>
                  (previous = Some Blocked \<and> next = Idle \<and> tr_state r = TurnPaused)
          then (case abandon r of (r', h) \<Rightarrow> (give_back (put_record t i r') h, None))
          else (t, None))"

definition note_activity ::
  "turn_progress \<Rightarrow> turn_owner \<Rightarrow> agent_activity option \<Rightarrow> agent_activity \<Rightarrow> metadata \<Rightarrow> nat \<Rightarrow> nat \<Rightarrow> bool \<Rightarrow> nat \<Rightarrow>
   turn_progress \<times> turn_change" where
  "note_activity p owner previous next metadata wall window detector_observed now =
     (let t = depart_changed (tp_table p) owner;
          nanos = max wall (max (tp_turn_started_nanos p) (tp_record_start_floor p) + 1);
          p1 = p\<lparr>tp_table := t,
                 tp_turn_started_nanos :=
                   (if next = Working \<and> previous \<noteq> Some Working then nanos else tp_turn_started_nanos p)\<rparr>;
          running = (case newest_record t of None \<Rightarrow> False | Some (_, r) \<Rightarrow> tr_state r = TurnOpen)
      in if next = Working \<and> (previous \<noteq> Some Working \<or> \<not> running)
         then
           if detector_observed \<and> \<not> tt_token t \<and> \<not> continues_turn t previous now then (p1, no_change)
           else
             (case enter_working t owner previous (non_zero nanos) now of
                (t', None) \<Rightarrow> (p1\<lparr>tp_table := t'\<rparr>, no_change)
              | (t', Some i) \<Rightarrow>
                  (p1\<lparr>tp_record_start_floor := nanos, tp_table := take_token t' i\<rparr>,
                   \<lparr>ch_started = Some i, ch_ended = None\<rparr>))
         else
           (case leave_working t previous next metadata window now of
              (t', ended) \<Rightarrow> (p1\<lparr>tp_table := t'\<rparr>, \<lparr>ch_started = None, ch_ended = ended\<rparr>)))"

definition progress_adopt :: "turn_progress \<Rightarrow> turn_owner \<Rightarrow> nat \<Rightarrow> turn_progress \<times> nat option" where
  "progress_adopt p owner now =
     (let t = depart_changed (tp_table p) owner;
          live = (case newest_record t of
                    None \<Rightarrow> False | Some (_, r) \<Rightarrow> tr_state r = TurnOpen \<or> tr_state r = TurnPaused)
      in if live then (p\<lparr>tp_table := t\<rparr>, None)
         else (case table_open t owner None now of (t', i) \<Rightarrow> (p\<lparr>tp_table := t'\<rparr>, Some i)))"

definition progress_depart :: "turn_progress \<Rightarrow> turn_owner \<Rightarrow> turn_progress" where
  "progress_depart p owner = p\<lparr>tp_table := depart_changed (tp_table p) owner\<rparr>"

definition progress_note_input :: "turn_progress \<Rightarrow> turn_progress" where
  "progress_note_input p = p\<lparr>tp_table := (tp_table p)\<lparr>tt_token := True, tt_returned_start := None\<rparr>\<rparr>"

definition forget_input :: "turn_progress \<Rightarrow> turn_progress" where
  "forget_input p = p\<lparr>tp_table := discard_input (tp_table p)\<rparr>"

definition progress_abandon_all :: "turn_progress \<Rightarrow> nat \<Rightarrow> turn_progress" where
  "progress_abandon_all p now = p\<lparr>tp_table := abandon_all (tp_table p) now\<rparr>"

definition progress_abandon_running :: "turn_progress \<Rightarrow> turn_owner \<Rightarrow> turn_progress" where
  "progress_abandon_running p owner =
     p\<lparr>tp_table :=
       (case newest_record (tp_table p) of
          None \<Rightarrow> tp_table p
        | Some (i, r) \<Rightarrow>
            if tr_owner r = owner \<and> (tr_state r = TurnOpen \<or> tr_state r = TurnPaused)
            then (case abandon r of (r', h) \<Rightarrow> give_back (put_record (tp_table p) i r') h)
            else tp_table p)\<rparr>"

definition progress_attach_report :: "turn_progress \<Rightarrow> turn_owner \<Rightarrow> nat \<Rightarrow> turn_progress \<times> nat option" where
  "progress_attach_report p owner now =
     (let t = depart_changed (tp_table p) owner in
      case newest_record t of
        None \<Rightarrow> (p\<lparr>tp_table := t\<rparr>, None)
      | Some (i, r) \<Rightarrow>
          (let unreported = (if tr_owner r = owner \<and> \<not> record_reported r then Some i else None) in
           case tr_state r of
             TurnOpen \<Rightarrow> (p\<lparr>tp_table := t\<rparr>, Some i)
           | TurnPaused \<Rightarrow> (p\<lparr>tp_table := t\<rparr>, Some i)
           | TurnSettling deadline \<Rightarrow>
               if now < deadline then (p\<lparr>tp_table := t\<rparr>, Some i)
               else (p\<lparr>tp_table := put_record t i (r\<lparr>tr_state := TurnClosed\<rparr>)\<rparr>, unreported)
           | TurnClosed \<Rightarrow> (p\<lparr>tp_table := t\<rparr>, unreported)
           | TurnAbandoned \<Rightarrow> (p\<lparr>tp_table := t\<rparr>, None)))"

definition settle_departed :: "turn_table \<Rightarrow> nat \<Rightarrow> turn_owner option \<Rightarrow> turn_table" where
  "settle_departed t i owner =
     (case (map_of (tt_records t) i, owner) of
        (Some r, Some w) \<Rightarrow>
          if tr_owner r \<noteq> w then (case depart r of (r', h) \<Rightarrow> give_back (put_record t i r') h) else t
      | _ \<Rightarrow> t)"

definition progress_settle ::
  "turn_progress \<Rightarrow> nat \<Rightarrow> turn_owner option \<Rightarrow> nat \<Rightarrow> turn_progress \<times> turn_verdict" where
  "progress_settle p i owner now =
     (let t0 = (if owner = None then abandon_all (tp_table p) now else tp_table p);
          t = settle_departed t0 i owner
      in case map_of (tt_records t) i of
           None \<Rightarrow> (p\<lparr>tp_table := t\<rparr>, DropReport)
         | Some r \<Rightarrow>
             (case tr_state r of
                TurnAbandoned \<Rightarrow> (p\<lparr>tp_table := t\<rparr>, DropReport)
              | TurnOpen \<Rightarrow> (p\<lparr>tp_table := t\<rparr>, Hold None)
              | TurnPaused \<Rightarrow> (p\<lparr>tp_table := t\<rparr>, Hold None)
              | TurnSettling deadline \<Rightarrow>
                  if now < deadline then (p\<lparr>tp_table := t\<rparr>, Hold (Some (deadline - now)))
                  else (p\<lparr>tp_table := put_record t i (r\<lparr>tr_state := TurnClosed\<rparr>)\<rparr>, Surface (record_snapshot r))
              | TurnClosed \<Rightarrow> (p\<lparr>tp_table := t\<rparr>, Surface (record_snapshot r))))"

definition progress_recently_reported :: "turn_progress \<Rightarrow> nat \<Rightarrow> nat \<Rightarrow> bool" where
  "progress_recently_reported p within now =
     (case newest_record (tp_table p) of
        None \<Rightarrow> False
      | Some (_, r) \<Rightarrow> (case tr_inbox_reported_at r of None \<Rightarrow> False | Some at \<Rightarrow> now - at \<le> within))"

definition progress_mark_reported :: "turn_progress \<Rightarrow> nat \<Rightarrow> bool \<Rightarrow> bool \<Rightarrow> nat \<Rightarrow> turn_progress" where
  "progress_mark_reported p i inbox signal now =
     p\<lparr>tp_table := (tp_table p)\<lparr>tt_records := btree_modify i (\<lambda>r.
       r\<lparr>tr_inbox_reported_at := (if inbox \<and> \<not> tr_inbox_reported r then Some now else tr_inbox_reported_at r),
         tr_inbox_reported := (tr_inbox_reported r \<or> inbox),
         tr_signal_reported := (tr_signal_reported r \<or> signal)\<rparr>) (tt_records (tp_table p))\<rparr>\<rparr>"

end
