(* ===== verification/Turn_Run.thy ===== *)
theory Turn_Run
  imports Turn_Table
begin

text \<open>
  Runs of the operations on the turns of a session.  Every operation is a short chain of edits of the
  table; the invariants are proved once per edit.  Shown: the life cycle of a turn, that a turn is
  reported only after it went idle, and that the turns opened by output alone answer distinct inputs.
\<close>

section \<open>The records as a map\<close>

abbreviation recs :: "turn_table \<Rightarrow> nat \<Rightarrow> turn_record option" where
  "recs t \<equiv> map_of (tt_records t)"

lemma map_of_modify [simp]: "map_of (btree_modify k f xs) i = (if i = k then map_option f (map_of xs i) else map_of xs i)"
  by (induction xs) (auto simp: btree_modify_def)

lemma keys_modify [simp]: "map fst (btree_modify k f xs) = map fst xs"
  by (induction xs) (auto simp: btree_modify_def)

lemma map_of_insert [simp]: "map_of (btree_insert k v xs) = (map_of xs)(k \<mapsto> v)"
  by (induction k v xs rule: btree_insert.induct) (auto simp: fun_eq_iff)

lemma insert_last: "\<forall>x \<in> set xs. fst x < k \<Longrightarrow> btree_insert k v xs = xs @ [(k, v)]"
  by (induction k v xs rule: btree_insert.induct) auto

lemma map_of_map_value: "map_of (map (\<lambda>(i, r). (i, f r)) xs) i = map_option f (map_of xs i)"
  by (induction xs) auto

lemma map_of_drop:
  "distinct (map fst xs) \<Longrightarrow> map_of (drop n xs) i = Some r \<Longrightarrow> map_of xs i = Some r"
  by (metis map_of_SomeD map_of_is_SomeI in_set_dropD)

section \<open>Edits\<close>

text \<open>
  The edits one operation makes at time \<open>now\<close>: \<open>own\<close> is the owner it names and \<open>idle\<close> the turn it
  announces as ended with the window it gives it.
\<close>

inductive edit ::
  "nat \<Rightarrow> turn_owner option \<Rightarrow> (nat \<times> nat) option \<Rightarrow> turn_table \<Rightarrow> turn_table \<Rightarrow> bool"
  for now own idle where
  leave: "recs t i = Some r \<Longrightarrow> own = Some w \<Longrightarrow> tr_owner r \<noteq> w \<Longrightarrow> depart r = (r', h) \<Longrightarrow>
    edit now own idle t (give_back (put_record t i r') h)"
| give_up: "recs t i = Some r \<Longrightarrow> tr_state r \<in> {TurnOpen, TurnPaused} \<Longrightarrow> abandon r = (r', h) \<Longrightarrow>
    edit now own idle t (give_back (put_record t i r') h)"
| resume: "newest_record t = Some (i, r) \<Longrightarrow> tr_state r = TurnPaused \<Longrightarrow>
    edit now own idle t (put_record t i (r\<lparr>tr_state := TurnOpen\<rparr>))"
| unsettle: "newest_record t = Some (i, r) \<Longrightarrow> tr_state r = TurnSettling dl \<Longrightarrow> now < dl \<Longrightarrow>
    edit now own idle t (put_record t i (r\<lparr>tr_state := TurnOpen, tr_ended := None, tr_ended_metadata := None\<rparr>))"
| close: "recs t i = Some r \<Longrightarrow> tr_state r = TurnSettling dl \<Longrightarrow> dl \<le> now \<Longrightarrow>
    edit now own idle t (put_record t i (r\<lparr>tr_state := TurnClosed\<rparr>))"
| pause: "newest_record t = Some (i, r) \<Longrightarrow> tr_state r = TurnOpen \<Longrightarrow>
    edit now own idle t (put_record t i (r\<lparr>tr_state := TurnPaused\<rparr>))"
| end_turn: "newest_record t = Some (i, r) \<Longrightarrow> tr_state r = TurnOpen \<Longrightarrow> idle = Some (i, window) \<Longrightarrow>
    own = Some (tr_owner r) \<Longrightarrow>
    edit now own idle t (put_record t i (r\<lparr>tr_ended := Some now, tr_ended_metadata := Some meta,
      tr_state := TurnSettling (now + window)\<rparr>))"
| open_turn: "(\<And>i r. newest_record t = Some (i, r) \<Longrightarrow> tr_state r \<notin> {TurnOpen, TurnPaused}) \<Longrightarrow>
    edit now own idle t (fst (table_open t w sn now))"
| take: "edit now own idle t (take_token t i)"
| discard: "edit now own idle t (discard_input t)"
| abandons: "edit now own idle t (abandon_all t now)"
| mark: "(\<And>r. tr_inbox_reported r \<Longrightarrow> a r) \<Longrightarrow> (\<And>r. tr_signal_reported r \<Longrightarrow> b r) \<Longrightarrow>
    edit now own idle t (t\<lparr>tt_records := btree_modify i (\<lambda>r. r\<lparr>tr_inbox_reported_at := at r,
    tr_inbox_reported := a r, tr_signal_reported := b r\<rparr>) (tt_records t)\<rparr>)"

definition turn_keys :: "turn_table \<Rightarrow> nat list" where
  "turn_keys t = map fst (tt_records t)"

definition table_inv :: "turn_table \<Rightarrow> bool" where
  "table_inv t \<longleftrightarrow>
     sorted_wrt (<) (turn_keys t) \<and> length (turn_keys t) \<le> RECENT_TURNS \<and>
     (\<forall>i \<in> set (turn_keys t). i \<le> tt_next_id t) \<and>
     (case tt_newest t of None \<Rightarrow> turn_keys t = [] | Some i \<Rightarrow> i = tt_next_id t \<and> i \<in> set (turn_keys t)) \<and>
     (\<forall>i r. recs t i = Some r \<longrightarrow> tr_state r \<in> {TurnOpen, TurnPaused} \<longrightarrow> tt_newest t = Some i)"

text \<open>What every edit of existing records keeps.\<close>

definition same_shape :: "turn_table \<Rightarrow> turn_table \<Rightarrow> bool" where
  "same_shape t t' \<longleftrightarrow>
     turn_keys t' = turn_keys t \<and> tt_next_id t' = tt_next_id t \<and> tt_newest t' = tt_newest t"

lemma table_inv_same_shape:
  assumes "table_inv t" and "same_shape t t'"
    and "\<And>i r'. recs t' i = Some r' \<Longrightarrow> tr_state r' \<in> {TurnOpen, TurnPaused} \<Longrightarrow> tt_newest t = Some i"
  shows "table_inv t'"
  using assms unfolding table_inv_def same_shape_def by (simp cong: option.case_cong)

lemma newest_recordD: "newest_record t = Some (i, r) \<Longrightarrow> tt_newest t = Some i \<and> recs t i = Some r"
  by (auto simp: newest_record_def split: option.splits)

lemma same_shape_put [simp]: "same_shape t (put_record t i r)"
  by (simp add: same_shape_def put_record_def turn_keys_def)

lemma same_shape_give_back [simp]: "same_shape t (give_back t' h) = same_shape t t'"
  by (simp add: same_shape_def give_back_def turn_keys_def split: option.split)

lemma recs_put [simp]: "recs (put_record t i r) j = (if j = i then map_option (\<lambda>_. r) (recs t j) else recs t j)"
  by (simp add: put_record_def)

lemma recs_give_back [simp]: "recs (give_back t h) = recs t"
  by (simp add: give_back_def split: option.split)

lemma depart_fields:
  assumes "depart r = (r', h)"
  shows "tr_owner r' = tr_owner r" "tr_state r' \<notin> {TurnOpen, TurnPaused}"
    "tr_holds_input r' \<Longrightarrow> tr_holds_input r \<and> h = None"
    "h \<noteq> None \<Longrightarrow> tr_holds_input r \<and> tr_state r' = TurnAbandoned \<and> tr_state r \<in> {TurnOpen, TurnPaused}"
    "tr_state r \<in> {TurnClosed, TurnAbandoned} \<Longrightarrow> r' = r"
    "tr_ended r' = tr_ended r"
  using assms by (auto simp: depart_def abandon_def split: turn_state.splits if_splits)

lemma abandon_fields:
  assumes "abandon r = (r', h)"
  shows "tr_owner r' = tr_owner r" "tr_state r' = TurnAbandoned" "\<not> tr_holds_input r'"
    "h \<noteq> None \<longleftrightarrow> tr_holds_input r" "tr_ended r' = tr_ended r"
  using assms by (auto simp: abandon_def split: if_splits)

text \<open>Opening a turn: the oldest record may leave, and the new turn is the newest.\<close>

lemma table_open_records:
  assumes "table_inv t" and "table_open t w sn now = (t', i)"
  shows "i = Suc (tt_next_id t)" and "tt_next_id t' = i" and "tt_newest t' = Some i" and "tt_token t' = tt_token t"
    and "turn_keys t' = drop (Suc (length (turn_keys t)) - RECENT_TURNS) (turn_keys t @ [i])"
    and "recs t' i = Some \<lparr>tr_owner = w, tr_started_nanos = sn, tr_started = map_option (\<lambda>_. now) sn, tr_ended = None,
      tr_ended_metadata = None, tr_state = TurnOpen, tr_holds_input = False, tr_inbox_reported_at = None,
      tr_inbox_reported = False, tr_signal_reported = False\<rparr>"
    and "j \<noteq> i \<Longrightarrow> recs t' j = Some r \<Longrightarrow> recs t j = Some r"
proof -
  define new where "new = \<lparr>tr_owner = w, tr_started_nanos = sn, tr_started = map_option (\<lambda>_. now) sn, tr_ended = None,
      tr_ended_metadata = None, tr_state = TurnOpen, tr_holds_input = False, tr_inbox_reported_at = None,
      tr_inbox_reported = False, tr_signal_reported = False\<rparr>"
  have "\<forall>x \<in> set (tt_records t). fst x < Suc (tt_next_id t)"
    using assms(1) by (auto simp: table_inv_def turn_keys_def less_Suc_eq_le)
  then have ins: "btree_insert (Suc (tt_next_id t)) new (tt_records t) = tt_records t @ [(Suc (tt_next_id t), new)]"
    by (rule insert_last)
  let ?n = "Suc (length (tt_records t)) - RECENT_TURNS"
  have t': "t' = t\<lparr>tt_next_id := Suc (tt_next_id t),
      tt_records := drop ?n (tt_records t @ [(Suc (tt_next_id t), new)]), tt_newest := Some (Suc (tt_next_id t))\<rparr>"
    and i: "i = Suc (tt_next_id t)"
    using assms(2) ins unfolding table_open_def Let_def new_def [symmetric] by auto
  show "i = Suc (tt_next_id t)" "tt_next_id t' = i" "tt_newest t' = Some i" "tt_token t' = tt_token t"
    using t' i by simp_all
  show "turn_keys t' = drop (Suc (length (turn_keys t)) - RECENT_TURNS) (turn_keys t @ [i])"
    using t' i by (simp add: turn_keys_def drop_map RECENT_TURNS_def)
  have old: "i \<notin> set (map fst (tt_records t))"
    using assms(1) i by (auto simp: table_inv_def turn_keys_def)
  have dist: "distinct (map fst (tt_records t @ [(i, new)]))"
    using assms(1) old by (auto simp: table_inv_def turn_keys_def strict_sorted_iff)
  have n: "?n \<le> length (tt_records t)" by (simp add: RECENT_TURNS_def)
  then have dr: "drop ?n (tt_records t @ [(i, new)]) = drop ?n (tt_records t) @ [(i, new)]" by simp
  then have "(i, new) \<in> set (tt_records t')" using t' i by simp
  moreover have "distinct (map fst (tt_records t'))"
    using distinct_drop [OF dist, of ?n] unfolding drop_map t' i by simp
  ultimately show "recs t' i = Some \<lparr>tr_owner = w, tr_started_nanos = sn, tr_started = map_option (\<lambda>_. now) sn, tr_ended = None,
      tr_ended_metadata = None, tr_state = TurnOpen, tr_holds_input = False, tr_inbox_reported_at = None,
      tr_inbox_reported = False, tr_signal_reported = False\<rparr>"
    unfolding new_def by (rule map_of_is_SomeI [rotated])
  show "j \<noteq> i \<Longrightarrow> recs t' j = Some r \<Longrightarrow> recs t j = Some r"
    using map_of_drop [OF dist, of ?n j r] t' i old by (auto simp: map_add_Some_iff)
qed

lemma recs_discard: "recs (discard_input t) i = map_option (\<lambda>r. r\<lparr>tr_holds_input := False\<rparr>) (recs t i)"
  by (simp add: discard_input_def map_of_map_value)

lemma recs_abandon_all:
  "recs (abandon_all t now) i =
     map_option (\<lambda>r. r\<lparr>tr_state := abandoned_state now (tr_state r), tr_holds_input := False\<rparr>) (recs t i)"
  by (simp add: abandon_all_def recs_discard map_of_map_value option.map_comp comp_def)

lemma same_shape_input [simp]:
  "same_shape t (discard_input t)" "same_shape t (abandon_all t now)" "same_shape t (take_token t i)"
  "same_shape t (t\<lparr>tt_token := a, tt_returned_start := b\<rparr>)" "same_shape t (t\<lparr>tt_records := btree_modify i f (tt_records t)\<rparr>)"
  by (simp_all add: same_shape_def turn_keys_def discard_input_def abandon_all_def take_token_def Let_def case_prod_unfold)

lemma recs_take_token:
  "recs (take_token t i) j = Some r' \<Longrightarrow>
     \<exists>r. recs t j = Some r \<and> tr_state r' = tr_state r \<and> tr_owner r' = tr_owner r \<and> tr_ended r' = tr_ended r \<and>
       tr_holds_input r' = (tr_holds_input r \<or> (j = i \<and> tt_token t))"
  by (auto simp: take_token_def Let_def split: option.splits if_splits)

text \<open>An edit keeps the life cycle: it changes no state that is final and moves only the newest turn.\<close>

definition kept :: "turn_record \<Rightarrow> turn_record \<Rightarrow> bool" where
  "kept r r' \<longleftrightarrow>
     tr_owner r' = tr_owner r \<and>
     (tr_state r \<in> {TurnClosed, TurnAbandoned} \<longrightarrow> tr_state r' = tr_state r \<and> tr_ended r' = tr_ended r)"

abbreviation running_state :: "turn_state \<Rightarrow> bool" where
  "running_state s \<equiv> s = TurnOpen \<or> s = TurnPaused"

definition moves :: "turn_table \<Rightarrow> turn_table \<Rightarrow> bool" where
  "moves t t' \<longleftrightarrow>
     same_shape t t' \<and>
     (\<forall>i r'. recs t' i = Some r' \<longrightarrow>
        (\<exists>r. recs t i = Some r \<and> kept r r' \<and> (running_state (tr_state r') \<longrightarrow> tt_newest t = Some i)))"

lemma table_inv_running: "table_inv t \<Longrightarrow> recs t i = Some r \<Longrightarrow> running_state (tr_state r) \<Longrightarrow> tt_newest t = Some i"
  unfolding table_inv_def by blast

lemma kept_refl [simp]: "kept r r"
  by (simp add: kept_def)

lemma put_moves:
  assumes "table_inv t" and "recs t i = Some r" and "kept r r'" and "running_state (tr_state r') \<Longrightarrow> tt_newest t = Some i"
  shows "moves t (put_record t i r')" and "moves t (give_back (put_record t i r') h)"
proof -
  have "\<exists>s. recs t j = Some s \<and> kept s s' \<and> (running_state (tr_state s') \<longrightarrow> tt_newest t = Some j)"
    if "recs (put_record t i r') j = Some s'" for j s'
    using that assms table_inv_running [OF assms(1), of j s'] by (cases "j = i") auto
  then show "moves t (put_record t i r')" unfolding moves_def by simp
  then show "moves t (give_back (put_record t i r') h)" by (simp add: moves_def)
qed

lemma bulk_moves:
  assumes "table_inv t" and "same_shape t t'"
    and "\<And>i r'. recs t' i = Some r' \<Longrightarrow> \<exists>r. recs t i = Some r \<and> kept r r' \<and> (running_state (tr_state r') \<longrightarrow> running_state (tr_state r))"
  shows "moves t t'"
  unfolding moves_def
proof (intro conjI allI impI)
  fix i r' assume "recs t' i = Some r'"
  with assms(3) obtain r where "recs t i = Some r" "kept r r'" "running_state (tr_state r') \<longrightarrow> running_state (tr_state r)"
    by blast
  then show "\<exists>r. recs t i = Some r \<and> kept r r' \<and> (running_state (tr_state r') \<longrightarrow> tt_newest t = Some i)"
    using table_inv_running [OF assms(1)] by blast
qed (rule assms(2))

lemma abandoned_state_simps [simp]:
  "abandoned_state now TurnClosed = TurnClosed" "abandoned_state now TurnAbandoned = TurnAbandoned"
  "abandoned_state now s \<noteq> TurnOpen" "abandoned_state now s \<noteq> TurnPaused"
  by (cases s; simp add: abandoned_state_def)+

lemma edit_moves:
  assumes "edit now own idle t t'" and inv: "table_inv t"
  shows "moves t t' \<or>
    (\<exists>w sn. t' = fst (table_open t w sn now) \<and> (\<forall>i r. newest_record t = Some (i, r) \<longrightarrow> \<not> running_state (tr_state r)))"
  using assms(1)
proof cases
  case (leave i r w r' h)
  have "moves t t'" unfolding leave(1)
    by (rule put_moves(2) [OF inv leave(2)]) (use depart_fields [OF leave(5)] in \<open>auto simp: kept_def\<close>)
  then show ?thesis ..
next
  case (give_up i r r' h)
  have "moves t t'" unfolding give_up(1)
    by (rule put_moves(2) [OF inv give_up(2)]) (use abandon_fields [OF give_up(4)] give_up(3) in \<open>auto simp: kept_def\<close>)
  then show ?thesis ..
next
  case (open_turn w sn)
  then have "\<forall>i r. newest_record t = Some (i, r) \<longrightarrow> \<not> running_state (tr_state r)" by simp
  then show ?thesis by (intro disjI2 exI [of _ w] exI [of _ sn] conjI open_turn(1))
next
  case (take i)
  have "moves t t'" unfolding take
  proof (rule bulk_moves [OF inv])
    fix j r' assume "recs (take_token t i) j = Some r'"
    from recs_take_token [OF this]
    show "\<exists>r. recs t j = Some r \<and> kept r r' \<and> (running_state (tr_state r') \<longrightarrow> running_state (tr_state r))"
      unfolding kept_def by force
  qed simp
  then show ?thesis ..
next
  case abandons
  have "moves t t'" unfolding abandons
    by (rule bulk_moves [OF inv]) (auto simp: recs_abandon_all kept_def)
  then show ?thesis ..
next
  case discard
  have "moves t t'" unfolding discard by (rule bulk_moves [OF inv]) (auto simp: recs_discard kept_def)
  then show ?thesis ..
next
  case (mark i at a b)
  have "moves t t'" unfolding mark(1) by (rule bulk_moves [OF inv]) (auto simp: kept_def split: if_splits)
  then show ?thesis ..
next
  case (close i r dl)
  have "moves t t'" unfolding close(1) by (rule put_moves(1) [OF inv close(2)]) (simp_all add: kept_def close(3))
  then show ?thesis ..
next
  case (resume i r)
  note new = newest_recordD [OF resume(2)]
  have "moves t t'" unfolding resume(1)
    by (rule put_moves(1) [OF inv conjunct2 [OF new]]) (simp_all add: kept_def resume(3) new)
  then show ?thesis ..
next
  case (unsettle i r dl)
  note new = newest_recordD [OF unsettle(2)]
  have "moves t t'" unfolding unsettle(1)
    by (rule put_moves(1) [OF inv conjunct2 [OF new]]) (simp_all add: kept_def unsettle(3) new)
  then show ?thesis ..
next
  case (pause i r)
  note new = newest_recordD [OF pause(2)]
  have "moves t t'" unfolding pause(1)
    by (rule put_moves(1) [OF inv conjunct2 [OF new]]) (simp_all add: kept_def pause(3) new)
  then show ?thesis ..
next
  case (end_turn i r window meta)
  note new = newest_recordD [OF end_turn(2)]
  have "moves t t'" unfolding end_turn(1)
    by (rule put_moves(1) [OF inv conjunct2 [OF new]]) (simp_all add: kept_def end_turn(3) new)
  then show ?thesis ..
qed

lemma edit_table_inv:
  assumes "edit now own idle t t'" and inv: "table_inv t"
  shows "table_inv t'"
  using edit_moves [OF assms]
proof (elim disjE exE conjE)
  assume m: "moves t t'"
  show ?thesis by (rule table_inv_same_shape [OF inv]) (use m in \<open>unfold moves_def, blast+\<close>)
next
  fix w sn assume t': "t' = fst (table_open t w sn now)"
    and idle: "\<forall>i r. newest_record t = Some (i, r) \<longrightarrow> \<not> running_state (tr_state r)"
  obtain i where o: "table_open t w sn now = (t', i)" using t' by (metis prod.collapse)
  note rec = table_open_records [OF inv o]
  have keys: "turn_keys t' = drop (Suc (length (turn_keys t)) - RECENT_TURNS) (turn_keys t) @ [i]"
    unfolding rec(5) by (simp add: RECENT_TURNS_def)
  have le: "j \<le> tt_next_id t" if "j \<in> set (turn_keys t)" for j using inv that unfolding table_inv_def by blast
  have "sorted_wrt (<) (turn_keys t @ [i])"
    using inv rec(1) by (auto simp: table_inv_def sorted_wrt_append less_Suc_eq_le)
  then have sorted: "sorted_wrt (<) (turn_keys t')" unfolding rec(5) by (rule sorted_wrt_drop)
  have run: "tt_newest t' = Some j" if "recs t' j = Some r" "running_state (tr_state r)" for j r
  proof (rule ccontr)
    assume "tt_newest t' \<noteq> Some j"
    then have old: "recs t j = Some r" using rec(3,7) that(1) by auto
    then have "newest_record t = Some (j, r)" using table_inv_running [OF inv old that(2)] by (simp add: newest_record_def)
    then show False using idle that(2) by blast
  qed
  have "length (turn_keys t') \<le> RECENT_TURNS" unfolding rec(5) by simp
  moreover have "\<forall>j \<in> set (turn_keys t'). j \<le> tt_next_id t'"
    using le rec(1,2) unfolding keys by (auto dest: in_set_dropD intro: le_SucI)
  ultimately show ?thesis using sorted run rec(2,3) keys unfolding table_inv_def by simp
qed

text \<open>Numbers whose turn, if it is still recorded, is in a given final state.\<close>

definition final_in :: "turn_state \<Rightarrow> turn_table \<Rightarrow> nat set \<Rightarrow> bool" where
  "final_in s t X \<longleftrightarrow> (\<forall>i \<in> X. i \<le> tt_next_id t \<and> (\<forall>r. recs t i = Some r \<longrightarrow> tr_state r = s))"

lemma edit_final_in:
  assumes "edit now own idle t t'" and inv: "table_inv t" and "s \<in> {TurnClosed, TurnAbandoned}" and "final_in s t X"
  shows "final_in s t' X"
  using edit_moves [OF assms(1) inv]
proof (elim disjE exE conjE)
  assume m: "moves t t'"
  show ?thesis unfolding final_in_def
  proof (intro ballI conjI allI impI)
    fix i r' assume i: "i \<in> X" and "recs t' i = Some r'"
    with m obtain r where "recs t i = Some r" "kept r r'" unfolding moves_def by blast
    then show "tr_state r' = s" using assms(3,4) i by (auto simp: final_in_def kept_def)
  next
    fix i assume "i \<in> X"
    then show "i \<le> tt_next_id t'" using assms(4) m by (simp add: final_in_def moves_def same_shape_def)
  qed
next
  fix w sn assume t': "t' = fst (table_open t w sn now)"
  obtain i where o: "table_open t w sn now = (t', i)" using t' by (metis prod.collapse)
  note rec = table_open_records [OF inv o]
  show ?thesis using assms(4) rec(1,2,7) unfolding final_in_def by (metis le_SucI not_less_eq_eq order_refl)
qed

section \<open>The input token\<close>

text \<open>
  With \<open>n\<close> inputs so far: the armed token and the turns that took one and were not abandoned are at most
  \<open>n\<close>; the turns \<open>D\<close> opened on output alone are among them or abandoned; the turns \<open>S\<close> are closed.
\<close>

definition stock :: "nat \<Rightarrow> nat set \<Rightarrow> nat set \<Rightarrow> turn_table \<Rightarrow> bool" where
  "stock n D S t \<longleftrightarrow>
     table_inv t \<and> final_in TurnClosed t S \<and>
     (\<exists>H A. finite H \<and> card H + of_bool (tt_token t) \<le> n \<and> D \<subseteq> H \<union> A \<and> S \<inter> A = {} \<and>
        final_in TurnAbandoned t A \<and> (\<forall>i r. recs t i = Some r \<longrightarrow> tr_holds_input r \<longrightarrow> i \<in> H))"

lemma stockI:
  assumes "table_inv t" and "final_in TurnClosed t S" and "finite H" and "card H + of_bool (tt_token t) \<le> n"
    and "D \<subseteq> H \<union> A" and "S \<inter> A = {}" and "final_in TurnAbandoned t A"
    and "\<And>i r. recs t i = Some r \<Longrightarrow> tr_holds_input r \<Longrightarrow> i \<in> H"
  shows "stock n D S t"
  using assms unfolding stock_def by blast

lemma stock_same:
  assumes "stock n D S t" and "edit now own idle t t'" and "tt_token t' \<Longrightarrow> tt_token t"
    and "\<And>i r. recs t' i = Some r \<Longrightarrow> tr_holds_input r \<Longrightarrow> \<exists>r. recs t i = Some r \<and> tr_holds_input r"
  shows "stock n D S t'"
proof -
  from assms(1) obtain H A where inv: "table_inv t" "final_in TurnClosed t S"
    and H: "finite H" "card H + of_bool (tt_token t) \<le> n" "D \<subseteq> H \<union> A" "S \<inter> A = {}" "final_in TurnAbandoned t A"
    "\<And>i r. recs t i = Some r \<Longrightarrow> tr_holds_input r \<Longrightarrow> i \<in> H" unfolding stock_def by blast
  show ?thesis
  proof (rule stockI [OF edit_table_inv [OF assms(2) inv(1)] edit_final_in [OF assms(2) inv(1) _ inv(2)] H(1) _ H(3,4)
        edit_final_in [OF assms(2) inv(1) _ H(5)]])
    show "card H + of_bool (tt_token t') \<le> n" using H(2) assms(3) by (cases "tt_token t'") auto
  qed (use H(6) assms(4) in blast)+
qed

text \<open>A turn that gives its input back is abandoned.\<close>

lemma stock_give_back:
  assumes "stock n D S t" and "edit now own idle t (give_back (put_record t i r') (Some b))"
    and r: "recs t i = Some r" "tr_holds_input r" "tr_state r \<noteq> TurnClosed" "tr_state r' = TurnAbandoned" "\<not> tr_holds_input r'"
  shows "stock n D S (give_back (put_record t i r') (Some b))" (is "stock n D S ?t")
proof -
  from assms(1) obtain H A where inv: "table_inv t" "final_in TurnClosed t S"
    and H: "finite H" "card H + of_bool (tt_token t) \<le> n" "D \<subseteq> H \<union> A" "S \<inter> A = {}" "final_in TurnAbandoned t A"
    "\<And>i r. recs t i = Some r \<Longrightarrow> tr_holds_input r \<Longrightarrow> i \<in> H" unfolding stock_def by blast
  have i: "i \<in> H" "i \<notin> S" using H(6) [OF r(1,2)] inv(2) r(1,3) by (auto simp: final_in_def)
  show ?thesis
  proof (rule stockI [where H = "H - {i}" and A = "insert i A"])
    show "card (H - {i}) + of_bool (tt_token ?t) \<le> n" using H(1,2) i(1) by (simp add: card_Diff_singleton) (cases "card H", auto)
    have "final_in TurnAbandoned ?t A" using edit_final_in [OF assms(2) inv(1) _ H(5)] by simp
    moreover have "i \<le> tt_next_id ?t"
      using inv(1) map_of_SomeD [OF r(1)]
      by (force simp: table_inv_def turn_keys_def give_back_def put_record_def)
    ultimately show "final_in TurnAbandoned ?t (insert i A)" using r by (auto simp: final_in_def)
  qed (use edit_table_inv [OF assms(2) inv(1)] edit_final_in [OF assms(2) inv(1) _ inv(2)] H i r in \<open>auto split: if_splits\<close>)
qed

text \<open>The turn that takes the armed token.\<close>

lemma stock_take:
  assumes "stock n D S t" and "tt_token t"
  shows "stock n (insert i D) S (take_token t i)"
proof -
  have e: "edit 0 None None t (take_token t i)" by (rule edit.take)
  from assms(1) obtain H A where inv: "table_inv t" "final_in TurnClosed t S"
    and H: "finite H" "card H + of_bool (tt_token t) \<le> n" "D \<subseteq> H \<union> A" "S \<inter> A = {}" "final_in TurnAbandoned t A"
    "\<And>i r. recs t i = Some r \<Longrightarrow> tr_holds_input r \<Longrightarrow> i \<in> H" unfolding stock_def by blast
  show ?thesis
  proof (rule stockI [where H = "insert i H" and A = A])
    show "card (insert i H) + of_bool (tt_token (take_token t i)) \<le> n"
      using H(1,2) assms(2) by (simp add: take_token_def card_insert_if)
    show "j \<in> insert i H" if "recs (take_token t i) j = Some r" "tr_holds_input r" for j r
      using recs_take_token [OF that(1)] that(2) H(6) by blast
  qed (use edit_table_inv [OF e inv(1)] edit_final_in [OF e inv(1)] inv(2) H in auto)
qed

lemma token_frame [simp]:
  "tt_token (put_record t i r) = tt_token t" "tt_token (discard_input t) = False" "tt_token (abandon_all t now) = False"
  "give_back t None = t"
  by (simp_all add: put_record_def discard_input_def abandon_all_def give_back_def)

lemma edit_stock:
  assumes e: "edit now own idle t t'" and st: "stock n D S t"
  shows "stock n D S t'"
  using e
proof cases
  case (leave i r w r' h)
  note d = depart_fields [OF leave(5)]
  show ?thesis
  proof (cases h)
    case None
    show ?thesis by (rule stock_same [OF st e]) (use None leave d in \<open>auto split: if_splits\<close>)
  next
    case (Some b)
    then show ?thesis using stock_give_back [OF st e [unfolded leave(1) Some] leave(2)] d leave(1) by auto
  qed
next
  case (give_up i r r' h)
  note d = abandon_fields [OF give_up(4)]
  show ?thesis
  proof (cases h)
    case None
    show ?thesis by (rule stock_same [OF st e]) (use None give_up d in \<open>auto split: if_splits\<close>)
  next
    case (Some b)
    then show ?thesis using stock_give_back [OF st e [unfolded give_up(1) Some] give_up(2)] d give_up(1,3) by auto
  qed
next
  case (open_turn w sn)
  obtain i where o: "table_open t w sn now = (t', i)" using open_turn(1) by (metis prod.collapse)
  have "table_inv t" using st by (simp add: stock_def)
  note rec = table_open_records [OF this o]
  have "\<exists>r. recs t j = Some r \<and> tr_holds_input r" if "recs t' j = Some r" "tr_holds_input r" for j r
    using that rec(6) rec(7) [of j r] by (cases "j = i") auto
  then show ?thesis by (intro stock_same [OF st e]) (use rec(4) in auto)
next
  case (take i)
  show ?thesis
  proof (cases "tt_token t")
    case True
    then show ?thesis using stock_take [OF st True, of i] take unfolding stock_def by blast
  qed (use st take in \<open>simp add: take_token_def\<close>)
next
  case (mark i at a b)
  show ?thesis by (rule stock_same [OF st e]) (use mark(1) in \<open>auto split: if_splits\<close>)
qed (rule stock_same [OF st e]; use newest_recordD in \<open>force simp: recs_discard recs_abandon_all split: if_splits\<close>)+

section \<open>Operations as chains of edits\<close>

lemma newest_put [simp]:
  "newest_record (give_back t h) = newest_record t"
  "newest_record t = Some (i, r) \<Longrightarrow> newest_record (put_record t i r') = Some (i, r')"
proof -
  show "newest_record (give_back t h) = newest_record t"
    by (simp add: newest_record_def give_back_def split: option.split)
  show "newest_record (put_record t i r') = Some (i, r')" if "newest_record t = Some (i, r)"
    using newest_recordD [OF that] by (simp add: newest_record_def put_record_def)
qed

lemma depart_changed_edit: "(edit now (Some w) idle)\<^sup>*\<^sup>* t (depart_changed t w)"
proof (cases "newest_record t")
  case (Some x)
  obtain i r where x: "x = (i, r)" by fastforce
  obtain r' h where d: "depart r = (r', h)" by fastforce
  have "edit now (Some w) idle t (give_back (put_record t i r') h)" if "tr_owner r \<noteq> w"
    using newest_recordD [OF Some [unfolded x]] that d by (intro edit.leave) auto
  then show ?thesis using Some x d by (auto simp: depart_changed_def)
qed (simp add: depart_changed_def)

lemma depart_changed_owner:
  assumes "newest_record (depart_changed t w) = Some (i, r)" and "running_state (tr_state r)"
  shows "tr_owner r = w"
proof (cases "newest_record t")
  case (Some x)
  obtain j s where x: "x = (j, s)" by fastforce
  obtain s' h where d: "depart s = (s', h)" by fastforce
  show ?thesis using assms Some x d depart_fields [OF d] by (auto simp: depart_changed_def split: if_splits)
qed (use assms in \<open>simp add: depart_changed_def\<close>)

lemma open_after_edits:
  assumes "(edit now own idle)\<^sup>*\<^sup>* t u" and "(case table_open u w sn now of (t'', i) \<Rightarrow> (t'', Some i)) = (t', opened)"
    and "\<And>i r. newest_record u = Some (i, r) \<Longrightarrow> tr_state r \<notin> {TurnOpen, TurnPaused}"
  shows "(edit now own idle)\<^sup>*\<^sup>* t t'"
proof -
  have "edit now own idle u (fst (table_open u w sn now))" by (rule edit.open_turn) (rule assms(3))
  then show ?thesis using assms(1,2) by (auto simp: case_prod_unfold intro: rtranclp.rtrancl_into_rtrancl)
qed

lemma enter_working_edit:
  assumes "enter_working t w previous sn now = (t', opened)"
  shows "(edit now own idle)\<^sup>*\<^sup>* t t'"
proof -
  note fresh = open_after_edits [where t = t and w = w and sn = sn and t' = t' and opened = opened]
  show ?thesis
  proof (cases "newest_record t")
    case None
    then show ?thesis using assms by (intro fresh [where u = t]) (auto simp: enter_working_def)
  next
    case (Some x)
    obtain i r where x: "x = (i, r)" by fastforce
    note new = Some [unfolded x] and rec = newest_recordD [OF Some [unfolded x]]
    obtain r' h where ab: "abandon r = (r', h)" by fastforce
    note run = assms [unfolded enter_working_def Let_def new option.case prod.case]
    show ?thesis
    proof (cases "tr_state r = TurnPaused \<and> previous = Some Blocked")
      case True
      then show ?thesis using run edit.resume [OF new] by auto
    next
      case False
      note run = run [unfolded if_not_P [OF False]]
      show ?thesis
      proof (cases "tr_state r")
        case (TurnSettling dl)
        show ?thesis
        proof (cases "now < dl")
          case True
          then show ?thesis using run TurnSettling edit.unsettle [OF new TurnSettling True] by auto
        next
          case False
          have "edit now own idle t (put_record t i (r\<lparr>tr_state := TurnClosed\<rparr>))"
            by (rule edit.close [OF conjunct2 [OF rec] TurnSettling]) (use False in simp)
          then show ?thesis using run TurnSettling False new
            by (intro fresh [where u = "put_record t i (r\<lparr>tr_state := TurnClosed\<rparr>)"]) auto
        qed
      next
        case TurnClosed
        then show ?thesis using run new by (intro fresh [where u = t]) auto
      next
        case TurnAbandoned
        then show ?thesis using run new by (intro fresh [where u = t]) auto
      next
        case TurnOpen
        then have "edit now own idle t (give_back (put_record t i r') h)" using rec ab by (intro edit.give_up) auto
        then show ?thesis using run TurnOpen new ab abandon_fields(2) [OF ab]
          by (intro fresh [where u = "give_back (put_record t i r') h"]) auto
      next
        case TurnPaused
        then have "edit now own idle t (give_back (put_record t i r') h)" using rec ab by (intro edit.give_up) auto
        then show ?thesis using run TurnPaused new ab abandon_fields(2) [OF ab]
          by (intro fresh [where u = "give_back (put_record t i r') h"]) auto
      qed
    qed
  qed
qed

lemma enter_working_token:
  "enter_working t w previous sn now = (t', Some i) \<Longrightarrow> tt_token t \<Longrightarrow> tt_token t'"
  by (auto simp: enter_working_def Let_def table_open_def put_record_def give_back_def
      split: option.splits prod.splits if_splits turn_state.splits)

lemma continues_turn_resumes:
  "continues_turn t previous now \<Longrightarrow> enter_working t w previous sn now = (t', opened) \<Longrightarrow> opened = None"
  by (auto simp: continues_turn_def enter_working_def split: option.splits turn_state.splits)

lemma leave_working_edit:
  assumes "leave_working t previous next metadata window now = (t', ended)"
    and "\<And>i r. newest_record t = Some (i, r) \<Longrightarrow> running_state (tr_state r) \<Longrightarrow> tr_owner r = w"
  shows "(edit now (Some w) (map_option (\<lambda>i. (i, window)) ended))\<^sup>*\<^sup>* t t'"
proof (cases "newest_record t")
  case (Some x)
  obtain i r where x: "x = (i, r)" by fastforce
  note new = Some [unfolded x]
  obtain r' h where ab: "abandon r = (r', h)" by fastforce
  let ?g = "edit now (Some w) (map_option (\<lambda>i. (i, window)) ended)"
  note run = assms(1) [unfolded leave_working_def new option.case prod.case ab]
  have pause: "?g t (put_record t i (r\<lparr>tr_state := TurnPaused\<rparr>))" if "tr_state r = TurnOpen"
    using edit.pause [OF new that] .
  have up: "?g t (give_back (put_record t i r') h)" if "running_state (tr_state r)"
    using newest_recordD [OF new] ab that by (intro edit.give_up) auto
  have fin: "?g t (put_record t i (r\<lparr>tr_ended := Some now, tr_ended_metadata := Some metadata,
      tr_state := TurnSettling (now + window)\<rparr>))" if "tr_state r = TurnOpen" "ended = Some i"
    using edit.end_turn [OF new that(1), of _ window] assms(2) [OF new] that by simp
  show ?thesis using run pause up fin by (auto split: if_splits)
qed (use assms in \<open>simp add: leave_working_def\<close>)

section \<open>Runs\<close>

datatype turn_op =
    OpActivity turn_owner "agent_activity option" agent_activity metadata nat nat bool
  | OpAdopt turn_owner
  | OpDepart turn_owner
  | OpInput
  | OpForgetInput
  | OpAbandonAll
  | OpAbandonRunning turn_owner
  | OpAttach turn_owner
  | OpSettle nat "turn_owner option"
  | OpMark nat bool bool
  | OpOutput nat

datatype turn_answer =
    Changed turn_change
  | Opened "nat option"
  | Attached "nat option"
  | Verdict turn_verdict
  | Noted

fun turn_step :: "nat \<Rightarrow> turn_op \<Rightarrow> turn_progress \<Rightarrow> turn_progress \<times> turn_answer" where
  "turn_step now (OpActivity w previous next meta wall window detected) p =
     apsnd Changed (note_activity p w previous next meta wall window detected now)"
| "turn_step now (OpAdopt w) p = apsnd Opened (progress_adopt p w now)"
| "turn_step now (OpDepart w) p = (progress_depart p w, Noted)"
| "turn_step now OpInput p = (progress_note_input p, Noted)"
| "turn_step now OpForgetInput p = (forget_input p, Noted)"
| "turn_step now OpAbandonAll p = (progress_abandon_all p now, Noted)"
| "turn_step now (OpAbandonRunning w) p = (progress_abandon_running p w, Noted)"
| "turn_step now (OpAttach w) p = apsnd Attached (progress_attach_report p w now)"
| "turn_step now (OpSettle i w) p = apsnd Verdict (progress_settle p i w now)"
| "turn_step now (OpMark i inbox signal) p = (progress_mark_reported p i inbox signal now, Noted)"
| "turn_step now (OpOutput nanos) p = (note_output p nanos, Noted)"

fun op_owner :: "turn_op \<Rightarrow> turn_owner option" where
  "op_owner (OpActivity w _ _ _ _ _ _) = Some w"
| "op_owner (OpAdopt w) = Some w"
| "op_owner (OpDepart w) = Some w"
| "op_owner (OpAttach w) = Some w"
| "op_owner (OpSettle _ w) = w"
| "op_owner _ = None"

fun op_idle :: "turn_op \<Rightarrow> turn_answer \<Rightarrow> (nat \<times> nat) option" where
  "op_idle (OpActivity _ _ _ _ _ window _) (Changed c) = map_option (\<lambda>i. (i, window)) (ch_ended c)"
| "op_idle _ _ = None"

lemma activity_edits:
  assumes "note_activity p w previous next meta wall window detected now = (p', c)"
  shows "(edit now (Some w) (map_option (\<lambda>i. (i, window)) (ch_ended c)))\<^sup>*\<^sup>* (tp_table p) (tp_table p')"
proof -
  let ?t = "depart_changed (tp_table p) w"
  note dep = depart_changed_edit [where now = now and w = w and t = "tp_table p"]
  note run = assms [unfolded note_activity_def Let_def]
  show ?thesis
  proof (cases "next = Working \<and> (previous \<noteq> Some Working \<or>
      \<not> (case newest_record ?t of None \<Rightarrow> False | Some (_, r) \<Rightarrow> tr_state r = TurnOpen))")
    case True
    note run = run [unfolded if_P [OF True]]
    show ?thesis
    proof (cases "detected \<and> \<not> tt_token ?t \<and> \<not> continues_turn ?t previous now")
      case True
      then show ?thesis using run dep by auto
    next
      case False
      obtain t1 o1 where e: "enter_working ?t w previous
        (non_zero (max wall (max (tp_turn_started_nanos p) (tp_record_start_floor p) + 1))) now = (t1, o1)" by fastforce
      note chain = rtranclp_trans [OF dep enter_working_edit [OF e]]
      show ?thesis
        using run [unfolded if_not_P [OF False]] e chain rtranclp.rtrancl_into_rtrancl [OF chain edit.take]
        by (cases o1) auto
    qed
  next
    case False
    obtain t1 o1 where e: "leave_working ?t previous next meta window now = (t1, o1)" by fastforce
    show ?thesis
      using run [unfolded if_not_P [OF False]] e rtranclp_trans [OF dep leave_working_edit [OF e depart_changed_owner]] by auto
  qed
qed

lemma adopt_edits:
  assumes "progress_adopt p w now = (p', opened)"
  shows "(edit now (Some w) idle)\<^sup>*\<^sup>* (tp_table p) (tp_table p')"
proof -
  let ?t = "depart_changed (tp_table p) w"
  note dep = depart_changed_edit [where now = now and w = w and t = "tp_table p" and idle = idle]
  have "edit now (Some w) idle ?t (fst (table_open ?t w None now))"
    if "\<not> (case newest_record ?t of None \<Rightarrow> False | Some (_, r) \<Rightarrow> running_state (tr_state r))"
    using that by (intro edit.open_turn) auto
  then show ?thesis
    using assms dep rtranclp.rtrancl_into_rtrancl [OF dep]
    by (auto simp: progress_adopt_def Let_def case_prod_unfold split: if_splits)
qed

lemma attach_edits:
  assumes "progress_attach_report p w now = (p', i)"
  shows "(edit now (Some w) idle)\<^sup>*\<^sup>* (tp_table p) (tp_table p')"
proof -
  let ?t = "depart_changed (tp_table p) w"
  note dep = depart_changed_edit [where now = now and w = w and t = "tp_table p" and idle = idle]
  have "edit now (Some w) idle ?t (put_record ?t j (r\<lparr>tr_state := TurnClosed\<rparr>))"
    if "newest_record ?t = Some (j, r)" "tr_state r = TurnSettling dl" "\<not> now < dl" for j r dl
    using newest_recordD [OF that(1)] that(2,3) by (intro edit.close) auto
  then show ?thesis
    using assms dep rtranclp.rtrancl_into_rtrancl [OF dep]
    by (auto simp: progress_attach_report_def Let_def split: option.splits turn_state.splits if_splits)
qed

lemma settle_edits:
  assumes "progress_settle p i w now = (p', v)"
  shows "(edit now w idle)\<^sup>*\<^sup>* (tp_table p) (tp_table p')"
proof -
  let ?g = "edit now w idle"
  let ?u = "if w = None then abandon_all (tp_table p) now else tp_table p"
  let ?t = "settle_departed ?u i w"
  have "?g\<^sup>*\<^sup>* (tp_table p) ?u" by (auto intro: edit.abandons)
  moreover have "?g\<^sup>*\<^sup>* ?u ?t"
  proof (cases "recs ?u i")
    case (Some r)
    obtain r' h where d: "depart r = (r', h)" by fastforce
    have "?g ?u (give_back (put_record ?u i r') h)" if "w = Some u" "tr_owner r \<noteq> u" for u
      using Some d that by (intro edit.leave) auto
    then show ?thesis using Some d by (auto simp: settle_departed_def split: option.split)
  qed (simp add: settle_departed_def)
  ultimately have base: "?g\<^sup>*\<^sup>* (tp_table p) ?t" by (rule rtranclp_trans)
  have "?g ?t (put_record ?t i (r\<lparr>tr_state := TurnClosed\<rparr>))"
    if "recs ?t i = Some r" "tr_state r = TurnSettling dl" "\<not> now < dl" for r dl
    using that by (intro edit.close) auto
  then show ?thesis
    using assms base rtranclp.rtrancl_into_rtrancl [OF base]
    unfolding progress_settle_def Let_def by (auto split: option.splits turn_state.splits if_splits)
qed

lemma abandon_running_edits: "(edit now own idle)\<^sup>*\<^sup>* (tp_table p) (tp_table (progress_abandon_running p w))"
proof (cases "newest_record (tp_table p)")
  case (Some x)
  obtain i r where x: "x = (i, r)" by fastforce
  obtain r' h where ab: "abandon r = (r', h)" by fastforce
  have "edit now own idle (tp_table p) (give_back (put_record (tp_table p) i r') h)" if "running_state (tr_state r)"
    using newest_recordD [OF Some [unfolded x]] ab that by (intro edit.give_up) auto
  then show ?thesis using Some x ab by (auto simp: progress_abandon_running_def)
qed (simp add: progress_abandon_running_def)

lemma step_edits:
  assumes "turn_step now opn p = (p', a)" and "opn \<noteq> OpInput"
  shows "(edit now (op_owner opn) (op_idle opn a))\<^sup>*\<^sup>* (tp_table p) (tp_table p')"
proof (cases opn)
  case (OpActivity w previous nxt meta wall window detected)
  then show ?thesis using assms activity_edits [of p w previous nxt meta wall window detected now p'] by (auto simp: apsnd_def map_prod_def split: prod.splits)
next
  case (OpMark i inbox signal)
  have "edit now None None (tp_table p) (tp_table p')"
    using assms(1) OpMark by (auto simp: progress_mark_reported_def intro!: edit.mark)
  then show ?thesis using OpMark by auto
qed (use assms adopt_edits attach_edits settle_edits abandon_running_edits depart_changed_edit edit.discard edit.abandons in
  \<open>auto simp: apsnd_def map_prod_def progress_depart_def forget_input_def progress_abandon_all_def note_output_def split: prod.splits\<close>)

type_synonym turn_trace = "(nat \<times> turn_op \<times> turn_answer) list"

inductive turn_run :: "turn_progress \<Rightarrow> nat \<Rightarrow> turn_trace \<Rightarrow> bool" where
  start: "turn_run turn_progress_default t []"
| step: "turn_run p t tr \<Longrightarrow> t \<le> now \<Longrightarrow> turn_step now opn p = (p', a) \<Longrightarrow> turn_run p' now (tr @ [(now, opn, a)])"

text \<open>No turn returns once its record is gone, and what is final stays.\<close>

definition grows :: "turn_table \<Rightarrow> turn_table \<Rightarrow> bool" where
  "grows t t' \<longleftrightarrow>
     tt_next_id t \<le> tt_next_id t' \<and>
     (\<forall>i r'. i \<le> tt_next_id t \<longrightarrow> recs t' i = Some r' \<longrightarrow> (\<exists>r. recs t i = Some r \<and> kept r r'))"

lemma kept_trans: "kept r r' \<Longrightarrow> kept r' r'' \<Longrightarrow> kept r r''"
  by (auto simp: kept_def)

lemma grows_trans: "grows t t' \<Longrightarrow> grows t' t'' \<Longrightarrow> grows t t''"
  unfolding grows_def by (meson kept_trans le_trans)

lemma edit_grows:
  assumes "edit now own idle t t'" and inv: "table_inv t"
  shows "grows t t'"
  using edit_moves [OF assms]
proof (elim disjE exE conjE)
  assume "moves t t'"
  then show ?thesis unfolding moves_def grows_def same_shape_def by auto
next
  fix w sn assume "t' = fst (table_open t w sn now)"
  then obtain i where "table_open t w sn now = (t', i)" by (metis prod.collapse)
  note rec = table_open_records [OF inv this]
  have "\<exists>r. recs t j = Some r \<and> kept r r'" if "j \<le> tt_next_id t" "recs t' j = Some r'" for j r'
    using that rec(1) rec(7) [of j r'] by (intro exI [of _ r']) simp
  then show ?thesis using rec(1,2) unfolding grows_def by simp
qed

interpretation table_edits: step_relation "edit now own idle" table_inv grows for now own idle
proof
  show "table_inv t \<Longrightarrow> grows t t" for t by (simp add: grows_def kept_def)
qed (blast intro: edit_table_inv edit_grows grows_trans)+

lemma edits_grow: "(edit now own idle)\<^sup>*\<^sup>* t t' \<Longrightarrow> table_inv t \<Longrightarrow> table_inv t' \<and> grows t t'"
  using table_edits.steps_good table_edits.steps_chain by blast

lemma note_input_table:
  "turn_keys (tp_table (progress_note_input p)) = turn_keys (tp_table p)" "recs (tp_table (progress_note_input p)) = recs (tp_table p)"
  "tt_next_id (tp_table (progress_note_input p)) = tt_next_id (tp_table p)"
  "tt_newest (tp_table (progress_note_input p)) = tt_newest (tp_table p)" "tt_token (tp_table (progress_note_input p))"
  by (simp_all add: progress_note_input_def turn_keys_def)

lemma step_grows:
  assumes "turn_step now opn p = (p', a)" and "table_inv (tp_table p)"
  shows "table_inv (tp_table p') \<and> grows (tp_table p) (tp_table p')"
proof (cases "opn = OpInput")
  case True
  then have "p' = progress_note_input p" using assms(1) by simp
  then show ?thesis using assms(2) by (simp add: table_inv_def grows_def note_input_table kept_def cong: option.case_cong)
qed (use edits_grow step_edits assms in blast)

lemma run_table_inv: "turn_run p t tr \<Longrightarrow> table_inv (tp_table p)"
proof (induction rule: turn_run.induct)
  case (start t)
  then show ?case by (simp add: turn_progress_default_def turn_table_default_def table_inv_def turn_keys_def)
qed (use step_grows in blast)

section \<open>Only idle turns settle\<close>

definition announced :: "turn_trace \<Rightarrow> nat \<Rightarrow> turn_owner \<Rightarrow> nat \<Rightarrow> nat \<Rightarrow> bool" where
  "announced tr i w ended window \<longleftrightarrow>
     (\<exists>opn a. (ended, opn, a) \<in> set tr \<and> op_owner opn = Some w \<and> op_idle opn a = Some (i, window))"

definition succeeded :: "turn_trace \<Rightarrow> turn_owner \<Rightarrow> nat \<Rightarrow> bool" where
  "succeeded tr w since \<longleftrightarrow>
     (\<exists>t opn a u. (t, opn, a) \<in> set tr \<and> since \<le> t \<and> op_owner opn = Some u \<and> u \<noteq> w)"

definition settled_idle :: "turn_trace \<Rightarrow> nat \<Rightarrow> nat \<Rightarrow> turn_owner \<Rightarrow> nat option \<Rightarrow> bool" where
  "settled_idle tr now i w e \<longleftrightarrow>
     (\<exists>ended window. e = Some ended \<and> announced tr i w ended window \<and> (ended + window \<le> now \<or> succeeded tr w ended))"

definition idle_ok :: "turn_trace \<Rightarrow> nat \<Rightarrow> turn_table \<Rightarrow> bool" where
  "idle_ok tr now t \<longleftrightarrow>
     (\<forall>i r. recs t i = Some r \<longrightarrow>
        (\<forall>dl. tr_state r = TurnSettling dl \<longrightarrow>
           (\<exists>ended window. tr_ended r = Some ended \<and> dl = ended + window \<and> announced tr i (tr_owner r) ended window)) \<and>
        (tr_state r = TurnClosed \<longrightarrow> settled_idle tr now i (tr_owner r) (tr_ended r)))"

lemma idle_okD:
  assumes "idle_ok tr now t" and "recs t i = Some r"
  shows "tr_state r = TurnSettling dl \<Longrightarrow>
      \<exists>ended window. tr_ended r = Some ended \<and> dl = ended + window \<and> announced tr i (tr_owner r) ended window"
    and "tr_state r = TurnClosed \<Longrightarrow> settled_idle tr now i (tr_owner r) (tr_ended r)"
  using assms unfolding idle_ok_def by blast+

lemma idle_ok_put:
  assumes "idle_ok tr now t"
    and "\<And>dl. tr_state r' = TurnSettling dl \<Longrightarrow>
      \<exists>ended window. tr_ended r' = Some ended \<and> dl = ended + window \<and> announced tr i (tr_owner r') ended window"
    and "tr_state r' = TurnClosed \<Longrightarrow> settled_idle tr now i (tr_owner r') (tr_ended r')"
  shows "idle_ok tr now (put_record t i r')" and "idle_ok tr now (give_back (put_record t i r') h)"
proof -
  show "idle_ok tr now (put_record t i r')"
    unfolding idle_ok_def recs_put
  proof (intro allI impI)
    fix j r assume "(if j = i then map_option (\<lambda>_. r') (recs t j) else recs t j) = Some r"
    then consider "j = i" "r = r'" | "recs t j = Some r" by (auto split: if_splits)
    then show "(\<forall>dl. tr_state r = TurnSettling dl \<longrightarrow>
        (\<exists>ended window. tr_ended r = Some ended \<and> dl = ended + window \<and> announced tr j (tr_owner r) ended window)) \<and>
      (tr_state r = TurnClosed \<longrightarrow> settled_idle tr now j (tr_owner r) (tr_ended r))"
      by cases (use assms(2,3) idle_okD [OF assms(1)] in blast)+
  qed
  then show "idle_ok tr now (give_back (put_record t i r') h)" by (simp add: idle_ok_def)
qed

lemma idle_ok_bulk:
  assumes "idle_ok tr now t"
    and "\<And>i r'. recs t' i = Some r' \<Longrightarrow> tr_state r' \<in> {TurnOpen, TurnPaused, TurnAbandoned} \<or>
      (\<exists>r. recs t i = Some r \<and> tr_state r' = tr_state r \<and> tr_owner r' = tr_owner r \<and> tr_ended r' = tr_ended r)"
  shows "idle_ok tr now t'"
  unfolding idle_ok_def
proof (intro allI impI)
  fix i r' assume "recs t' i = Some r'"
  from assms(2) [OF this] consider "tr_state r' \<in> {TurnOpen, TurnPaused, TurnAbandoned}"
    | r where "recs t i = Some r" "tr_state r' = tr_state r" "tr_owner r' = tr_owner r" "tr_ended r' = tr_ended r" by blast
  then show "(\<forall>dl. tr_state r' = TurnSettling dl \<longrightarrow>
      (\<exists>ended window. tr_ended r' = Some ended \<and> dl = ended + window \<and> announced tr i (tr_owner r') ended window)) \<and>
    (tr_state r' = TurnClosed \<longrightarrow> settled_idle tr now i (tr_owner r') (tr_ended r'))"
    by cases (use idle_okD [OF assms(1)] in auto)
qed

lemma idle_ok_closing:
  assumes "idle_ok tr now t" and "recs t i = Some r" and "tr_state r = TurnSettling dl"
    and "dl \<le> now \<or> (\<forall>ended window. announced tr i (tr_owner r) ended window \<longrightarrow> succeeded tr (tr_owner r) ended)"
  shows "settled_idle tr now i (tr_owner r) (tr_ended r)"
  using idle_okD(1) [OF assms(1-3)] assms(4) unfolding settled_idle_def by auto

lemma idle_ok_abandon_all:
  assumes "idle_ok tr now t"
  shows "idle_ok tr now (abandon_all t now)"
  unfolding idle_ok_def recs_abandon_all
proof (intro allI impI)
  fix i r' assume "map_option (\<lambda>r. r\<lparr>tr_state := abandoned_state now (tr_state r), tr_holds_input := False\<rparr>) (recs t i) = Some r'"
  then obtain r where r: "recs t i = Some r" "tr_state r' = abandoned_state now (tr_state r)" "tr_owner r' = tr_owner r"
    "tr_ended r' = tr_ended r" by auto
  show "(\<forall>dl. tr_state r' = TurnSettling dl \<longrightarrow>
      (\<exists>ended window. tr_ended r' = Some ended \<and> dl = ended + window \<and> announced tr i (tr_owner r') ended window)) \<and>
    (tr_state r' = TurnClosed \<longrightarrow> settled_idle tr now i (tr_owner r') (tr_ended r'))"
    using r idle_okD(2) [OF assms r(1)] idle_ok_closing [OF assms r(1)]
    by (cases "tr_state r") (auto simp: abandoned_state_def)
qed

lemma edit_idle_ok:
  assumes "edit now (op_owner opn) (op_idle opn a) t t'" and inv: "table_inv t" and ok: "idle_ok tr now t"
    and here: "(now, opn, a) \<in> set tr" and past: "\<And>x. x \<in> set tr \<Longrightarrow> fst x \<le> now"
  shows "idle_ok tr now t'"
  using assms(1)
proof cases
  case (leave i r w r' h)
  have seen: "succeeded tr (tr_owner r) ended" if "announced tr i (tr_owner r) ended window" for ended window
    using that here past leave(3,4) unfolding announced_def succeeded_def by fastforce
  show ?thesis unfolding leave(1)
    by (rule idle_ok_put(2) [OF ok];
        use leave(5) idle_okD [OF ok leave(2)] idle_ok_closing [OF ok leave(2)] seen in
          \<open>cases "tr_state r"; auto simp: depart_def abandon_def\<close>)
next
  case (give_up i r r' h)
  show ?thesis unfolding give_up(1) by (rule idle_ok_put(2) [OF ok]) (simp_all add: abandon_fields [OF give_up(4)])
next
  case (close i r dl)
  show ?thesis unfolding close(1)
    by (rule idle_ok_put(1) [OF ok]) (use idle_ok_closing [OF ok close(2,3)] close(4) in simp_all)
next
  case (end_turn i r window meta)
  have "announced tr i (tr_owner r) now window" using here end_turn(4,5) unfolding announced_def by metis
  then show ?thesis unfolding end_turn(1) by (intro idle_ok_put(1) [OF ok]) auto
next
  case (open_turn w sn)
  obtain i where "table_open t w sn now = (t', i)" using open_turn(1) by (metis prod.collapse)
  note rec = table_open_records [OF inv this]
  show ?thesis
  proof (rule idle_ok_bulk [OF ok])
    fix j r' assume "recs t' j = Some r'"
    then show "tr_state r' \<in> {TurnOpen, TurnPaused, TurnAbandoned} \<or>
      (\<exists>r. recs t j = Some r \<and> tr_state r' = tr_state r \<and> tr_owner r' = tr_owner r \<and> tr_ended r' = tr_ended r)"
      using rec(6) rec(7) [of j r'] by (cases "j = i") auto
  qed
next
  case (take i)
  show ?thesis unfolding take by (rule idle_ok_bulk [OF ok]) (use recs_take_token in blast)
next
  case discard
  show ?thesis unfolding discard by (rule idle_ok_bulk [OF ok]) (auto simp: recs_discard)
next
  case abandons
  then show ?thesis using idle_ok_abandon_all [OF ok] by simp
next
  case (mark i at a b)
  show ?thesis unfolding mark(1) by (rule idle_ok_bulk [OF ok]) (auto split: if_splits)
next
  case (resume i r)
  show ?thesis unfolding resume(1) by (rule idle_ok_put(1) [OF ok]) simp_all
next
  case (unsettle i r dl)
  show ?thesis unfolding unsettle(1) by (rule idle_ok_put(1) [OF ok]) simp_all
next
  case (pause i r)
  show ?thesis unfolding pause(1) by (rule idle_ok_put(1) [OF ok]) simp_all
qed

lemma idle_ok_mono:
  assumes "idle_ok tr t tab" and "t \<le> now"
  shows "idle_ok (tr @ tr') now tab"
proof -
  have "announced (tr @ tr') i w e n" if "announced tr i w e n" for i w e n
    using that unfolding announced_def by auto
  moreover have "settled_idle (tr @ tr') now i w e" if "settled_idle tr t i w e" for i w e
    using that assms(2) unfolding settled_idle_def announced_def succeeded_def by fastforce
  ultimately show ?thesis using assms(1) unfolding idle_ok_def by meson
qed

lemma edits_idle_ok:
  assumes "(edit now (op_owner opn) (op_idle opn a))\<^sup>*\<^sup>* t t'" and "table_inv t" and "idle_ok tr now t"
    and "(now, opn, a) \<in> set tr" and "\<And>x. x \<in> set tr \<Longrightarrow> fst x \<le> now"
  shows "idle_ok tr now t'"
  using assms(1)
proof (induction rule: rtranclp_induct)
  case (step y z)
  then show ?case using edit_idle_ok [OF step(2) _ step(3) assms(4,5)] edits_grow [OF step(1) assms(2)] by blast
qed (rule assms(3))

lemma run_past: "turn_run p t tr \<Longrightarrow> x \<in> set tr \<Longrightarrow> fst x \<le> t"
  by (induction rule: turn_run.induct) fastforce+

lemma run_idle_ok: "turn_run p t tr \<Longrightarrow> idle_ok tr t (tp_table p)"
proof (induction rule: turn_run.induct)
  case (start t)
  then show ?case by (simp add: idle_ok_def turn_progress_default_def turn_table_default_def)
next
  case (step p t tr now opn p' a)
  note run = turn_run.step [OF step(1-3)]
  note ok = idle_ok_mono [OF step(4,2), of "[(now, opn, a)]"]
  show ?case
  proof (cases "opn = OpInput")
    case True
    then show ?thesis using step(3) ok by (auto simp: idle_ok_def note_input_table)
  next
    case False
    show ?thesis
      by (rule edits_idle_ok [OF step_edits [OF step(3) False] run_table_inv [OF step(1)] ok])
        (use run_past [OF run] in auto)
  qed
qed

lemma surface_closed:
  assumes "progress_settle p i w now = (p', Surface s)"
  shows "\<exists>r. recs (tp_table p') i = Some r \<and> tr_state r = TurnClosed \<and> s = record_snapshot r"
  using assms unfolding progress_settle_def Let_def
  by (auto simp: record_snapshot_def split: option.splits turn_state.splits if_splits)

section \<open>Turns opened on output\<close>

definition is_input :: "nat \<times> turn_op \<times> turn_answer \<Rightarrow> bool" where
  "is_input x = (case fst (snd x) of OpInput \<Rightarrow> True | _ \<Rightarrow> False)"

fun detected_turn :: "nat \<times> turn_op \<times> turn_answer \<Rightarrow> nat option" where
  "detected_turn (_, OpActivity _ _ _ _ _ _ True, Changed c) = ch_started c"
| "detected_turn _ = None"

fun surfaced_turn :: "nat \<times> turn_op \<times> turn_answer \<Rightarrow> nat option" where
  "surfaced_turn (_, OpSettle i _, Verdict (Surface _)) = Some i"
| "surfaced_turn _ = None"

definition detected_turns :: "turn_trace \<Rightarrow> nat set" where
  "detected_turns tr = set (List.map_filter detected_turn tr)"

definition surfaced_turns :: "turn_trace \<Rightarrow> nat set" where
  "surfaced_turns tr = set (List.map_filter surfaced_turn tr)"

lemma map_filter_snoc [simp]:
  "List.map_filter f (xs @ [x]) = List.map_filter f xs @ (case f x of None \<Rightarrow> [] | Some y \<Rightarrow> [y])"
  by (simp add: List.map_filter_def split: option.split)

lemma edits_stock: "(edit now own idle)\<^sup>*\<^sup>* t t' \<Longrightarrow> stock n D S t \<Longrightarrow> stock n D S t'"
  by (induction rule: rtranclp_induct) (auto intro: edit_stock)

lemma stock_surface:
  assumes "stock n D S t" and "recs t i = Some r" and "tr_state r = TurnClosed"
  shows "stock n D (insert i S) t"
proof -
  obtain H A where H: "finite H" "card H + of_bool (tt_token t) \<le> n" "D \<subseteq> H \<union> A" "S \<inter> A = {}" "final_in TurnAbandoned t A"
    "\<And>i r. recs t i = Some r \<Longrightarrow> tr_holds_input r \<Longrightarrow> i \<in> H" and inv: "table_inv t" and S: "final_in TurnClosed t S"
    using assms(1) unfolding stock_def by blast
  have "i \<notin> A" using H(5) assms(2,3) unfolding final_in_def by fastforce
  moreover have "i \<in> set (turn_keys t)" using assms(2) by (force simp: turn_keys_def dest: map_of_SomeD)
  then have "final_in TurnClosed t (insert i S)" using S inv assms(2,3) unfolding final_in_def table_inv_def by auto
  ultimately show ?thesis using H by (intro stockI [OF inv _ H(1,2,3)]) auto
qed

lemma stock_note_input:
  assumes "stock n D S (tp_table p)"
  shows "stock (Suc n) D S (tp_table (progress_note_input p))"
proof -
  let ?t = "tp_table p" and ?u = "tp_table (progress_note_input p)"
  obtain H A where H: "finite H" "card H + of_bool (tt_token ?t) \<le> n" "D \<subseteq> H \<union> A" "S \<inter> A = {}" "final_in TurnAbandoned ?t A"
    "\<And>i r. recs ?t i = Some r \<Longrightarrow> tr_holds_input r \<Longrightarrow> i \<in> H" and inv: "table_inv ?t" and S: "final_in TurnClosed ?t S"
    using assms unfolding stock_def by blast
  have "table_inv ?u" using inv by (simp add: table_inv_def note_input_table cong: option.case_cong)
  then show ?thesis using H S by (intro stockI [of _ _ H _ _ A]) (auto simp: final_in_def note_input_table)
qed

lemma stock_detected:
  assumes "note_activity p w previous nxt meta wall window True now = (p', c)" and "ch_started c = Some i"
    and st: "stock n D S (tp_table p)"
  shows "stock n (insert i D) S (tp_table p')"
proof -
  let ?t = "depart_changed (tp_table p) w"
  let ?sn = "non_zero (max wall (max (tp_turn_started_nanos p) (tp_record_start_floor p) + 1))"
  obtain t1 o1 where e: "enter_working ?t w previous ?sn now = (t1, o1)" by fastforce
  have o1: "o1 = Some i" and p': "tp_table p' = take_token t1 i" and "tt_token ?t \<or> continues_turn ?t previous now"
    using assms(1,2) e unfolding note_activity_def Let_def no_change_def
    by (auto split: if_splits option.splits prod.splits)
  then have "tt_token t1" using enter_working_token continues_turn_resumes [OF _ e] e by auto
  moreover have "stock n D S t1"
    using edits_stock [OF depart_changed_edit [where now = now and idle = None] st]
      edits_stock [OF enter_working_edit [OF e, where own = None and idle = None]] by blast
  ultimately show ?thesis unfolding p' by (intro stock_take)
qed

lemma step_stock:
  assumes "turn_step now opn p = (p', a)" and st: "stock n (detected_turns tr) (surfaced_turns tr) (tp_table p)"
  shows "stock (n + length (filter is_input [(now, opn, a)])) (detected_turns (tr @ [(now, opn, a)]))
    (surfaced_turns (tr @ [(now, opn, a)])) (tp_table p')"
proof (cases "opn = OpInput")
  case True
  then show ?thesis
    using assms stock_note_input [OF st] by (auto simp: is_input_def detected_turns_def surfaced_turns_def)
next
  case False
  let ?x = "(now, opn, a)"
  note base = edits_stock [OF step_edits [OF assms(1) False] st]
  have n: "\<not> is_input ?x" using False by (cases opn) (simp_all add: is_input_def)
  consider (plain) "detected_turn ?x = None" "surfaced_turn ?x = None"
    | (det) i where "detected_turn ?x = Some i" "surfaced_turn ?x = None"
    | (sur) i where "surfaced_turn ?x = Some i" "detected_turn ?x = None"
    by (cases ?x rule: surfaced_turn.cases; cases "detected_turn ?x") auto
  then show ?thesis
  proof cases
    case plain
    then show ?thesis using base n by (simp add: detected_turns_def surfaced_turns_def)
  next
    case (det i)
    then obtain w previous nxt meta wall window c where x: "opn = OpActivity w previous nxt meta wall window True"
      "a = Changed c" "ch_started c = Some i" by (cases ?x rule: detected_turn.cases) auto
    then have "note_activity p w previous nxt meta wall window True now = (p', c)"
      using assms(1) by (auto simp: apsnd_def map_prod_def split: prod.splits)
    from stock_detected [OF this x(3) st] show ?thesis using det n by (simp add: detected_turns_def surfaced_turns_def)
  next
    case (sur i)
    then obtain w s where x: "opn = OpSettle i w" "a = Verdict (Surface s)" by (cases ?x rule: surfaced_turn.cases) auto
    then have "progress_settle p i w now = (p', Surface s)"
      using assms(1) by (auto simp: apsnd_def map_prod_def split: prod.splits)
    from surface_closed [OF this] show ?thesis
      using stock_surface [OF base] sur n by (auto simp: detected_turns_def surfaced_turns_def)
  qed
qed

lemma run_stock:
  "turn_run p t tr \<Longrightarrow> stock (length (filter is_input tr)) (detected_turns tr) (surfaced_turns tr) (tp_table p)"
proof (induction rule: turn_run.induct)
  case (start t)
  have "stock 0 {} {} turn_table_default"
    by (rule stockI [of _ _ "{}" _ _ "{}"]) (simp_all add: final_in_def turn_table_default_def table_inv_def turn_keys_def)
  then show ?case by (simp add: detected_turns_def surfaced_turns_def turn_progress_default_def List.map_filter_def)
next
  case (step p t tr now opn p' a)
  then show ?case using step_stock [OF step(3,4)] by (simp add: add.commute)
qed

section \<open>Reports are remembered\<close>

definition reported_kept :: "turn_table \<Rightarrow> turn_table \<Rightarrow> bool" where
  "reported_kept t t' \<longleftrightarrow>
     (\<forall>i r'. i \<le> tt_next_id t \<longrightarrow> recs t' i = Some r' \<longrightarrow>
        (\<exists>r. recs t i = Some r \<and> (tr_inbox_reported r \<longrightarrow> tr_inbox_reported r') \<and> (tr_signal_reported r \<longrightarrow> tr_signal_reported r')))"

lemma reported_kept_put:
  assumes "recs t i = Some r" and "tr_inbox_reported r' = tr_inbox_reported r" and "tr_signal_reported r' = tr_signal_reported r"
  shows "reported_kept t (put_record t i r')" and "reported_kept t (give_back (put_record t i r') h)"
  using assms by (auto simp: reported_kept_def)

lemma depart_reported:
  "depart r = (r', h) \<Longrightarrow> tr_inbox_reported r' = tr_inbox_reported r \<and> tr_signal_reported r' = tr_signal_reported r"
  by (cases "tr_state r") (auto simp: depart_def abandon_def)

lemma edit_reported:
  assumes "edit now own idle t t'" and inv: "table_inv t"
  shows "reported_kept t t'"
  using assms(1)
proof cases
  case (leave i r w r' h)
  then show ?thesis using reported_kept_put(2) [OF leave(2)] depart_reported [OF leave(5)] by simp
next
  case (give_up i r r' h)
  have "tr_inbox_reported r' = tr_inbox_reported r" "tr_signal_reported r' = tr_signal_reported r"
    using give_up(4) by (auto simp: abandon_def)
  then show ?thesis using reported_kept_put(2) [OF give_up(2), of r' h] give_up(1) by simp
next
  case (close i r dl)
  then show ?thesis using reported_kept_put(1) [OF close(2)] by simp
next
  case (resume i r)
  then show ?thesis using reported_kept_put(1) newest_recordD [OF resume(2)] by simp
next
  case (unsettle i r dl)
  then show ?thesis using reported_kept_put(1) newest_recordD [OF unsettle(2)] by simp
next
  case (pause i r)
  then show ?thesis using reported_kept_put(1) newest_recordD [OF pause(2)] by simp
next
  case (end_turn i r window meta)
  then show ?thesis using reported_kept_put(1) newest_recordD [OF end_turn(2)] by simp
next
  case (open_turn w sn)
  obtain i where "table_open t w sn now = (t', i)" using open_turn(1) by (metis prod.collapse)
  note rec = table_open_records [OF inv this]
  have "recs t j = Some r'" if "j \<le> tt_next_id t" "recs t' j = Some r'" for j r' using that rec(1) rec(7) [of j r'] by simp
  then show ?thesis unfolding reported_kept_def by blast
next
  case (take i)
  then show ?thesis
    by (auto simp: reported_kept_def take_token_def Let_def split: option.splits if_splits)
next
  case discard
  then show ?thesis by (auto simp: reported_kept_def recs_discard)
next
  case abandons
  then show ?thesis by (auto simp: reported_kept_def recs_abandon_all)
next
  case (mark a b i at)
  show ?thesis unfolding mark(1) using mark(2,3) by (auto simp: reported_kept_def split: if_splits)
qed

lemma reported_kept_trans:
  assumes "reported_kept a b" and "reported_kept b c" and "tt_next_id a \<le> tt_next_id b"
  shows "reported_kept a c"
  unfolding reported_kept_def
proof (intro allI impI)
  fix i r'' assume i: "i \<le> tt_next_id a" and "recs c i = Some r''"
  then obtain r' where r': "recs b i = Some r'" "tr_inbox_reported r' \<longrightarrow> tr_inbox_reported r''"
    "tr_signal_reported r' \<longrightarrow> tr_signal_reported r''" using assms(2,3) unfolding reported_kept_def by (meson le_trans)
  then obtain r where "recs a i = Some r" "tr_inbox_reported r \<longrightarrow> tr_inbox_reported r'" "tr_signal_reported r \<longrightarrow> tr_signal_reported r'"
    using assms(1) i unfolding reported_kept_def by meson
  then show "\<exists>r. recs a i = Some r \<and> (tr_inbox_reported r \<longrightarrow> tr_inbox_reported r'') \<and> (tr_signal_reported r \<longrightarrow> tr_signal_reported r'')"
    using r' by blast
qed

interpretation report_edits: step_relation "edit now own idle" table_inv "\<lambda>a b. grows a b \<and> reported_kept a b" for now own idle
proof
  show "table_inv t \<Longrightarrow> grows t t \<and> reported_kept t t" for t by (simp add: grows_def kept_def reported_kept_def)
  show "grows a b \<and> reported_kept a b \<Longrightarrow> grows b c \<and> reported_kept b c \<Longrightarrow> grows a c \<and> reported_kept a c" for a b c
    using grows_trans reported_kept_trans grows_def by blast
qed (blast intro: edit_table_inv edit_grows edit_reported)+

lemma edits_reported: "(edit now own idle)\<^sup>*\<^sup>* t t' \<Longrightarrow> table_inv t \<Longrightarrow> reported_kept t t'"
  using report_edits.steps_chain by blast

lemma step_reported:
  assumes "turn_step now opn p = (p', a)" and "table_inv (tp_table p)"
  shows "reported_kept (tp_table p) (tp_table p')"
proof (cases "opn = OpInput")
  case True
  then show ?thesis using assms(1) by (auto simp: reported_kept_def note_input_table)
qed (use edits_reported step_edits assms in blast)

end
