(* ===== verification/Turn_Guarantees.thy ===== *)
theory Turn_Guarantees
  imports Turn_Run
begin

text \<open>
  What the turns of a session promise to the reports built on them
  (\<open>crates/daemon/src/session/turn_events.rs\<close>, \<open>TurnProgress\<close>), over every sequence of its operations.
\<close>

fun turn_play :: "turn_progress \<Rightarrow> (nat \<times> turn_op) list \<Rightarrow> turn_progress \<times> turn_trace" where
  "turn_play p [] = (p, [])"
| "turn_play p ((now, opn) # rest) =
     (case turn_step now opn p of (p', a) \<Rightarrow> apsnd (Cons (now, opn, a)) (turn_play p' rest))"

lemma turn_play_from:
  assumes "turn_run p t tr" and "sorted (t # map fst ops)" and "turn_play p ops = (p', tr')"
  shows "turn_run p' (last (t # map fst ops)) (tr @ tr')"
  using assms
proof (induction ops arbitrary: p t tr p' tr')
  case (Cons x rest)
  obtain now opn q a where x: "x = (now, opn)" "turn_step now opn p = (q, a)" by (metis surj_pair)
  obtain tr2 where rest: "turn_play q rest = (p', tr2)" "tr' = (now, opn, a) # tr2"
    using Cons.prems(3) x by (auto simp: apsnd_def map_prod_def split: prod.splits)
  have "turn_run q now (tr @ [(now, opn, a)])" using turn_run.step [OF Cons.prems(1) _ x(2)] Cons.prems(2) x(1) by simp
  from Cons.IH [OF this _ rest(1)] show ?case using Cons.prems(2) x(1) rest(2) by simp
qed simp

lemma turn_play_run:
  "sorted (map fst ops) \<Longrightarrow> turn_play turn_progress_default ops = (p, tr) \<Longrightarrow> turn_run p (last (0 # map fst ops)) tr"
  using turn_play_from [OF turn_run.start [of 0], of ops p tr] by simp

definition an_owner :: turn_owner where
  "an_owner = \<lparr>to_entry = 1, to_agent = 4\<rparr>"

definition a_session :: "(nat \<times> turn_op) list" where
  "a_session =
     [(0, OpInput), (1, OpActivity an_owner None Working Map.empty 100 5 True),
      (3, OpActivity an_owner (Some Working) Idle Map.empty 300 5 True)]"

lemmas turn_eval = turn_progress_default_def turn_table_default_def an_owner_def a_session_def progress_note_input_def
  note_activity_def depart_changed_def newest_record_def enter_working_def table_open_def RECENT_TURNS_def non_zero_def
  take_token_def leave_working_def put_record_def btree_modify_def no_change_def Let_def give_back_def
  progress_settle_def settle_departed_def record_snapshot_def

definition a_progress :: turn_progress where
  "a_progress = fst (turn_play turn_progress_default a_session)"

definition a_trace :: turn_trace where
  "a_trace = snd (turn_play turn_progress_default a_session)"

lemma a_session_run: "turn_run a_progress 3 a_trace"
  using turn_play_run [of a_session a_progress a_trace]
  by (simp add: a_progress_def a_trace_def) (simp add: a_session_def)

text \<open>
  C16. The life cycle of a turn.  In every run of a session at most the eight most recent turns are
  recorded, their numbers are strictly ascending and the last one is the newest number given out, and
  only the newest turn is running (open or paused).  Every further operation keeps this; it never
  brings back a turn whose record was dropped, never changes the owner of a turn, and leaves a turn
  that is closed or abandoned in that state with the same end.
\<close>

theorem turn_lifecycle:
  assumes "turn_run p t tr" and "turn_step now opn p = (p', a)"
  shows "table_inv (tp_table p) \<and> table_inv (tp_table p') \<and> grows (tp_table p) (tp_table p')"
  using step_grows [OF assms(2) run_table_inv [OF assms(1)]] run_table_inv [OF assms(1)] by blast

theorem turn_lifecycle_witness:
  "grows (tp_table a_progress) (tp_table (fst (turn_step 4 OpAbandonAll a_progress))) \<and> tt_next_id (tp_table a_progress) = 1"
  using turn_lifecycle [OF a_session_run, of 4 OpAbandonAll "fst (turn_step 4 OpAbandonAll a_progress)"]
  by (simp add: a_progress_def) (simp add: turn_eval)


lemma a_session_surfaces:
  "turn_step 8 (OpSettle 1 (Some an_owner)) a_progress =
     (fst (turn_step 8 (OpSettle 1 (Some an_owner)) a_progress),
      Verdict (Surface \<lparr>tn_started_nanos = Some 100, tn_length = Some 2, tn_metadata = Map.empty,
        tn_inbox_reported = False, tn_signal_reported = False\<rparr>))"
  by (simp add: a_progress_def turn_eval)


text \<open>
  C15. Output alone never makes up a turn.  Of the turns that the detector opened, at most one per input
  of the session is ever surfaced, however the operations interleave: an input is spent by the turn
  that takes it, and returns only when that turn is abandoned, which then can never be surfaced.
\<close>

theorem detected_turns_need_input:
  assumes "turn_run p t tr"
  shows "card (detected_turns tr \<inter> surfaced_turns tr) \<le> length (filter is_input tr)"
proof -
  obtain H A where "finite H" "card H + of_bool (tt_token (tp_table p)) \<le> length (filter is_input tr)"
    "detected_turns tr \<subseteq> H \<union> A" "surfaced_turns tr \<inter> A = {}"
    using run_stock [OF assms] unfolding stock_def by blast
  then show ?thesis using card_mono [of H "detected_turns tr \<inter> surfaced_turns tr"] by fastforce
qed

definition a_surfaced_trace :: turn_trace where
  "a_surfaced_trace = a_trace @ [(8, OpSettle 1 (Some an_owner), snd (turn_step 8 (OpSettle 1 (Some an_owner)) a_progress))]"

theorem detected_turns_need_input_witness:
  "card (detected_turns a_surfaced_trace \<inter> surfaced_turns a_surfaced_trace) \<le> 1 \<and>
   detected_turns a_surfaced_trace \<inter> surfaced_turns a_surfaced_trace = {1}"
proof -
  have "turn_run (fst (turn_step 8 (OpSettle 1 (Some an_owner)) a_progress)) 8 a_surfaced_trace"
    unfolding a_surfaced_trace_def by (rule turn_run.step [OF a_session_run _ prod.collapse [symmetric]]) simp
  note most = detected_turns_need_input [OF this]
  have "length (filter is_input a_surfaced_trace) = 1"
    by (simp add: a_surfaced_trace_def a_trace_def is_input_def turn_eval)
  moreover have "detected_turns a_surfaced_trace = {1}" "surfaced_turns a_surfaced_trace = {1}"
    unfolding a_surfaced_trace_def detected_turns_def surfaced_turns_def map_filter_snoc
    by (simp_all add: a_trace_def a_progress_def List.map_filter_def turn_eval)
  ultimately show ?thesis using most by simp
qed

end
