(* ===== verification/Turn_Journal.thy ===== *)
theory Turn_Journal
  imports Turn_Table Rust_Text
begin

text \<open>
  The journal of turn events and the pool of turn waiters of one registry
  (\<open>crates/daemon/src/session/turn_events.rs\<close>, \<open>TurnEvents\<close>): a bounded ring of events with one ascending
  sequence, the terminal flag and the turns of every known session, the changes announced to the
  notification projector, and the slots of the waiting requests.  The sequence and the version are
  unbounded numbers here.  The unit of the monotonic clock is the nanosecond; clock readings and
  formatted times are arguments.
\<close>

section \<open>Data\<close>

type_synonym session_id = bytes

datatype session_state = Starting | Running | Stopped | Done | Failed

definition is_terminal :: "session_state \<Rightarrow> bool" where
  "is_terminal s \<longleftrightarrow> s = Stopped \<or> s = Done \<or> s = Failed"

datatype turn_event_kind = TurnCompleted | AgentBlocked | ApprovalRequired | Exited

definition kind_as_str :: "turn_event_kind \<Rightarrow> bytes" where
  "kind_as_str k =
     (case k of TurnCompleted \<Rightarrow> ''turn_completed'' | AgentBlocked \<Rightarrow> ''agent_blocked''
      | ApprovalRequired \<Rightarrow> ''approval_required'' | Exited \<Rightarrow> ''exited'')"

record turn_entry =
  te_seq :: nat
  te_session :: session_id
  te_kind :: turn_event_kind
  te_at :: bytes
  te_notification :: "bytes option"

record cursor_position =
  cp_seq :: nat
  cp_issued_nanos :: nat

record turn_scan =
  ts_event :: "turn_entry option"
  ts_latest :: nat
  ts_evicted :: bool

datatype turn_edge = EdgeStarted session_id nat nat | EdgeEnded session_id nat nat

fun edge_happened_at :: "turn_edge \<Rightarrow> nat" where
  "edge_happened_at (EdgeStarted _ _ at) = at"
| "edge_happened_at (EdgeEnded _ _ at) = at"

record journal =
  jn_entries :: "turn_entry list"
  jn_latest :: nat
  jn_terminal :: "session_id \<rightharpoonup> bool"
  jn_progress :: "session_id \<rightharpoonup> turn_progress"

definition journal_default :: journal where
  "journal_default = \<lparr>jn_entries = [], jn_latest = 0, jn_terminal = Map.empty, jn_progress = Map.empty\<rparr>"

record waiters =
  wt_global :: nat
  wt_per_session :: "session_id \<rightharpoonup> nat"

definition waiters_default :: waiters where
  "waiters_default = \<lparr>wt_global = 0, wt_per_session = Map.empty\<rparr>"

text \<open>The edge channel is the list of what was sent on it; its receiver can be taken once.\<close>

record turn_events =
  ev_epoch :: bytes
  ev_capacity :: nat
  ev_flap_window_ms :: nat
  ev_wall_clock_pin :: nat
  ev_held_rechecks :: nat
  ev_edges :: "turn_edge list"
  ev_edge_receiver :: bool
  ev_journal :: journal
  ev_version :: nat
  ev_waiters :: waiters

definition DEFAULT_ATTENTION_DEBOUNCE_SECS :: nat where "DEFAULT_ATTENTION_DEBOUNCE_SECS = 5"

definition turn_events_new :: "bytes \<Rightarrow> nat \<Rightarrow> turn_events" where
  "turn_events_new epoch capacity =
     \<lparr>ev_epoch = epoch, ev_capacity = max capacity 1,
      ev_flap_window_ms = DEFAULT_ATTENTION_DEBOUNCE_SECS * 1000, ev_wall_clock_pin = 0, ev_held_rechecks = 0,
      ev_edges = [], ev_edge_receiver = True, ev_journal = journal_default, ev_version = 0,
      ev_waiters = waiters_default\<rparr>"

definition take_edge_receiver :: "turn_events \<Rightarrow> turn_events \<times> bool" where
  "take_edge_receiver ev = (ev\<lparr>ev_edge_receiver := False\<rparr>, ev_edge_receiver ev)"

section \<open>The turns of the known sessions\<close>

definition existing_progress :: "turn_events \<Rightarrow> session_id \<Rightarrow> turn_progress option" where
  "existing_progress ev sid = jn_progress (ev_journal ev) sid"

definition put_progress :: "turn_events \<Rightarrow> session_id \<Rightarrow> turn_progress \<Rightarrow> turn_events" where
  "put_progress ev sid p =
     ev\<lparr>ev_journal := (ev_journal ev)\<lparr>jn_progress := (jn_progress (ev_journal ev))(sid \<mapsto> p)\<rparr>\<rparr>"

text \<open>\<open>TurnEvents::progress\<close>: the record of the session, created when absent.\<close>

definition events_progress :: "turn_events \<Rightarrow> session_id \<Rightarrow> turn_events \<times> turn_progress" where
  "events_progress ev sid =
     (let p = unwrap_or (existing_progress ev sid) turn_progress_default in (put_progress ev sid p, p))"

definition on_existing :: "turn_events \<Rightarrow> session_id \<Rightarrow> (turn_progress \<Rightarrow> turn_progress) \<Rightarrow> turn_events" where
  "on_existing ev sid f =
     (case existing_progress ev sid of None \<Rightarrow> ev | Some p \<Rightarrow> put_progress ev sid (f p))"

definition events_depart :: "turn_events \<Rightarrow> session_id \<Rightarrow> turn_owner \<Rightarrow> turn_events" where
  "events_depart ev sid owner = on_existing ev sid (\<lambda>p. progress_depart p owner)"

definition events_note_input :: "turn_events \<Rightarrow> session_id \<Rightarrow> turn_events" where
  "events_note_input ev sid =
     (case jn_terminal (ev_journal ev) sid of
        None \<Rightarrow> ev
      | Some _ \<Rightarrow> (case events_progress ev sid of (ev', p) \<Rightarrow> put_progress ev' sid (progress_note_input p)))"

definition new_generation :: "turn_events \<Rightarrow> session_id \<Rightarrow> turn_events" where
  "new_generation ev sid = on_existing ev sid forget_input"

definition events_abandon_running :: "turn_events \<Rightarrow> session_id \<Rightarrow> turn_owner \<Rightarrow> turn_events" where
  "events_abandon_running ev sid owner = on_existing ev sid (\<lambda>p. progress_abandon_running p owner)"

definition send_edge :: "turn_events \<Rightarrow> turn_edge option \<Rightarrow> turn_events" where
  "send_edge ev edge = (case edge of None \<Rightarrow> ev | Some e \<Rightarrow> ev\<lparr>ev_edges := ev_edges ev @ [e]\<rparr>)"

definition events_adopt :: "turn_events \<Rightarrow> session_id \<Rightarrow> turn_owner \<Rightarrow> nat \<Rightarrow> turn_events" where
  "events_adopt ev sid owner now =
     (case events_progress ev sid of
        (ev', p) \<Rightarrow>
          (case progress_adopt p owner now of
             (p', opened) \<Rightarrow> send_edge (put_progress ev' sid p') (map_option (\<lambda>i. EdgeStarted sid i now) opened)))"

definition events_attach_report :: "turn_events \<Rightarrow> session_id \<Rightarrow> turn_owner \<Rightarrow> nat \<Rightarrow> turn_events \<times> nat option" where
  "events_attach_report ev sid owner now =
     (case existing_progress ev sid of
        None \<Rightarrow> (ev, None)
      | Some p \<Rightarrow> (case progress_attach_report p owner now of (p', turn) \<Rightarrow> (put_progress ev sid p', turn)))"

definition events_recently_reported :: "turn_events \<Rightarrow> session_id \<Rightarrow> nat \<Rightarrow> nat \<Rightarrow> bool" where
  "events_recently_reported ev sid within now =
     (case existing_progress ev sid of None \<Rightarrow> False | Some p \<Rightarrow> progress_recently_reported p within now)"

definition events_settle ::
  "turn_events \<Rightarrow> session_id \<Rightarrow> nat \<Rightarrow> turn_owner option \<Rightarrow> nat \<Rightarrow> turn_events \<times> turn_verdict" where
  "events_settle ev sid turn owner now =
     (case existing_progress ev sid of
        None \<Rightarrow> (ev, DropReport)
      | Some p \<Rightarrow> (case progress_settle p turn owner now of (p', v) \<Rightarrow> (put_progress ev sid p', v)))"

definition events_mark_reported :: "turn_events \<Rightarrow> session_id \<Rightarrow> nat \<Rightarrow> bool \<Rightarrow> bool \<Rightarrow> nat \<Rightarrow> turn_events" where
  "events_mark_reported ev sid turn inbox signal now =
     on_existing ev sid (\<lambda>p. progress_mark_reported p turn inbox signal now)"

definition note_held_recheck :: "turn_events \<Rightarrow> turn_events" where
  "note_held_recheck ev = ev\<lparr>ev_held_rechecks := ev_held_rechecks ev + 1\<rparr>"

definition wall_nanos :: "turn_events \<Rightarrow> nat \<Rightarrow> nat" where
  "wall_nanos ev unix_now = (if ev_wall_clock_pin ev = 0 then unix_now else ev_wall_clock_pin ev)"

definition events_note_activity ::
  "turn_events \<Rightarrow> session_id \<Rightarrow> turn_owner \<Rightarrow> agent_activity option \<Rightarrow> agent_activity \<Rightarrow> metadata \<Rightarrow> bool \<Rightarrow> nat \<Rightarrow> nat \<Rightarrow>
   turn_events" where
  "events_note_activity ev sid owner previous nxt meta detector_observed unix_now now =
     (let window = ev_flap_window_ms ev * 1000000 in
      case events_progress ev sid of
        (ev', p) \<Rightarrow>
          (case note_activity p owner previous nxt meta (wall_nanos ev unix_now) window detector_observed now of
             (p', c) \<Rightarrow>
               send_edge
                 (send_edge (put_progress ev' sid p') (map_option (\<lambda>i. EdgeStarted sid i now) (ch_started c)))
                 (map_option (\<lambda>i. EdgeEnded sid i now) (ch_ended c))))"

section \<open>The journal\<close>

definition bump :: "turn_events \<Rightarrow> turn_events" where
  "bump ev = ev\<lparr>ev_version := ev_version ev + 1\<rparr>"

text \<open>The loop of \<open>append\<close> that drops the oldest entries keeps the last \<open>capacity\<close> of them.\<close>

definition append_entry ::
  "nat \<Rightarrow> journal \<Rightarrow> session_id \<Rightarrow> turn_event_kind \<Rightarrow> bytes option \<Rightarrow> bytes \<Rightarrow> journal" where
  "append_entry capacity j sid kind notification at =
     (let seq = jn_latest j + 1;
          entries = jn_entries j @ [\<lparr>te_seq = seq, te_session = sid, te_kind = kind, te_at = at, te_notification = notification\<rparr>]
      in j\<lparr>jn_latest := seq, jn_entries := drop (length entries - capacity) entries\<rparr>)"

definition record_append :: "turn_events \<Rightarrow> session_id \<Rightarrow> turn_event_kind \<Rightarrow> bytes option \<Rightarrow> bytes \<Rightarrow> turn_events" where
  "record_append ev sid kind notification at =
     ev\<lparr>ev_journal := append_entry (ev_capacity ev) (ev_journal ev) sid kind notification at\<rparr>"

definition record_event :: "turn_events \<Rightarrow> session_id \<Rightarrow> turn_event_kind \<Rightarrow> bytes option \<Rightarrow> bytes \<Rightarrow> turn_events" where
  "record_event ev sid kind notification at = bump (record_append ev sid kind notification at)"

text \<open>The part of \<open>observe_state\<close> under the journal's lock, and whether it recorded an exit.\<close>

definition observe_append :: "turn_events \<Rightarrow> session_id \<Rightarrow> session_state \<Rightarrow> nat \<Rightarrow> bytes \<Rightarrow> turn_events \<times> bool" where
  "observe_append ev sid state now at =
     (let j = ev_journal ev;
          terminal = is_terminal state;
          previous = jn_terminal j sid;
          j1 = j\<lparr>jn_terminal := (jn_terminal j)(sid \<mapsto> terminal)\<rparr>
      in if terminal \<and> previous = Some False
         then
           (let j2 = (case jn_progress j1 sid of
                        None \<Rightarrow> j1
                      | Some p \<Rightarrow> j1\<lparr>jn_progress := (jn_progress j1)(sid \<mapsto> progress_abandon_all p now)\<rparr>)
            in (record_append (ev\<lparr>ev_journal := j2\<rparr>) sid Exited None at, True))
         else (ev\<lparr>ev_journal := j1\<rparr>, False))"

definition observe_state :: "turn_events \<Rightarrow> session_id \<Rightarrow> session_state \<Rightarrow> nat \<Rightarrow> bytes \<Rightarrow> turn_events" where
  "observe_state ev sid state now at =
     (case observe_append ev sid state now at of (ev', exited) \<Rightarrow> if exited then bump ev' else ev')"

definition forget_entry :: "turn_events \<Rightarrow> session_id \<Rightarrow> turn_events" where
  "forget_entry ev sid =
     ev\<lparr>ev_journal := (ev_journal ev)\<lparr>jn_terminal := (jn_terminal (ev_journal ev))(sid := None),
                                       jn_progress := (jn_progress (ev_journal ev))(sid := None)\<rparr>\<rparr>"

definition forget :: "turn_events \<Rightarrow> session_id \<Rightarrow> turn_events" where
  "forget ev sid = bump (forget_entry ev sid)"

definition latest :: "turn_events \<Rightarrow> nat" where
  "latest ev = jn_latest (ev_journal ev)"

text \<open>Whether entries after position \<open>seq\<close> were dropped.\<close>

definition evicted_after :: "journal \<Rightarrow> nat \<Rightarrow> bool" where
  "evicted_after j seq =
     (case jn_entries j of [] \<Rightarrow> False | oldest # _ \<Rightarrow> u64_saturating_add seq 1 < te_seq oldest)"

definition journal_scan :: "turn_events \<Rightarrow> nat \<Rightarrow> session_id list \<Rightarrow> turn_event_kind list \<Rightarrow> turn_scan" where
  "journal_scan ev after targets kinds =
     (let j = ev_journal ev in
      \<lparr>ts_event = List.find (\<lambda>e. te_session e \<in> set targets \<and> te_kind e \<in> set kinds)
                    (filter (\<lambda>e. after < te_seq e) (jn_entries j)),
       ts_latest = jn_latest j, ts_evicted = evicted_after j after\<rparr>)"

section \<open>Cursors\<close>

definition CURSOR_TAG :: bytes where "CURSOR_TAG = ''t1''"

definition CURSOR_SEPARATOR :: byte where "CURSOR_SEPARATOR = CHR ''.''"

definition MAX_SESSION_TURN_CURSOR_BYTES :: nat where "MAX_SESSION_TURN_CURSOR_BYTES = 256"

definition is_ascii_graphic :: "byte \<Rightarrow> bool" where
  "is_ascii_graphic b \<longleftrightarrow> 33 \<le> byte_val b \<and> byte_val b \<le> 126"

text \<open>\<open>SessionTurnCursor::new\<close>; a cursor is its wire spelling.\<close>

definition turn_cursor_new :: "bytes \<Rightarrow> bytes option" where
  "turn_cursor_new value =
     (if value = [] \<or> MAX_SESSION_TURN_CURSOR_BYTES < length value \<or> \<not> list_all is_ascii_graphic value
      then None else Some value)"

fun splitn :: "nat \<Rightarrow> 'a \<Rightarrow> 'a list \<Rightarrow> 'a list list" where
  "splitn 0 c xs = []"
| "splitn (Suc 0) c xs = [xs]"
| "splitn (Suc (Suc n)) c xs = (case split_once c xs of None \<Rightarrow> [xs] | Some (a, b) \<Rightarrow> a # splitn (Suc n) c b)"

definition place :: "turn_events \<Rightarrow> bytes \<Rightarrow> cursor_position option" where
  "place ev cursor =
     (case splitn 4 CURSOR_SEPARATOR cursor of
        [tag, seq_field, issued_field, epoch] \<Rightarrow>
          if tag \<noteq> CURSOR_TAG then None
          else
            (case (parse_u64 seq_field, parse_u64 issued_field) of
               (Some seq, Some issued) \<Rightarrow>
                 if epoch \<noteq> ev_epoch ev then None
                 else if jn_latest (ev_journal ev) < seq then None
                 else if evicted_after (ev_journal ev) seq then None
                 else Some \<lparr>cp_seq = seq, cp_issued_nanos = issued\<rparr>
             | _ \<Rightarrow> None)
      | _ \<Rightarrow> None)"

text \<open>\<open>TurnEvents::cursor\<close>; \<open>None\<close> is the panic of its \<open>expect\<close>.\<close>

definition event_cursor :: "turn_events \<Rightarrow> nat \<Rightarrow> nat \<Rightarrow> bytes option" where
  "event_cursor ev seq issued =
     turn_cursor_new
       (CURSOR_TAG @ [CURSOR_SEPARATOR] @ show_nat seq @ [CURSOR_SEPARATOR] @ show_nat issued @ [CURSOR_SEPARATOR] @
        ev_epoch ev)"

text \<open>
  \<open>generate_daemon_instance_id\<close>: the process, the distance of the system clock from the Unix epoch in
  nanoseconds and a counter of the process.
\<close>

definition daemon_instance_id :: "nat \<Rightarrow> nat \<Rightarrow> nat \<Rightarrow> bytes" where
  "daemon_instance_id pid nanos seq = ''d-'' @ show_nat pid @ ''-'' @ show_nat nanos @ ''-'' @ show_nat seq"

text \<open>\<open>unix_nanos_now\<close> of a system clock that reads \<open>elapsed\<close> after the Unix epoch, or before it.\<close>

definition unix_nanos_now :: "nat option \<Rightarrow> nat" where
  "unix_nanos_now elapsed = unwrap_or (Option.bind elapsed u64_try_from) 0"

section \<open>Waiter slots\<close>

definition add_waiter :: "(session_id \<rightharpoonup> nat) \<Rightarrow> session_id \<Rightarrow> session_id \<rightharpoonup> nat" where
  "add_waiter m sid = m(sid \<mapsto> unwrap_or (m sid) 0 + 1)"

text \<open>A permit is the list of its targets.\<close>

definition acquire :: "turn_events \<Rightarrow> session_id list \<Rightarrow> nat \<Rightarrow> nat \<Rightarrow> turn_events \<times> session_id list option" where
  "acquire ev targets global_cap session_cap =
     (let w = ev_waiters ev in
      if global_cap \<le> wt_global w then (ev, None)
      else if list_ex (\<lambda>sid. case wt_per_session w sid of None \<Rightarrow> False | Some c \<Rightarrow> session_cap \<le> c) targets
      then (ev, None)
      else
        (ev\<lparr>ev_waiters := \<lparr>wt_global = wt_global w + 1, wt_per_session = foldl add_waiter (wt_per_session w) targets\<rparr>\<rparr>,
         Some targets))"

definition drop_waiter :: "(session_id \<rightharpoonup> nat) \<Rightarrow> session_id \<Rightarrow> session_id \<rightharpoonup> nat" where
  "drop_waiter m sid =
     (case m sid of None \<Rightarrow> m | Some c \<Rightarrow> if c - 1 = 0 then m(sid := None) else m(sid \<mapsto> c - 1))"

definition permit_drop :: "turn_events \<Rightarrow> session_id list \<Rightarrow> turn_events" where
  "permit_drop ev targets =
     ev\<lparr>ev_waiters := \<lparr>wt_global = wt_global (ev_waiters ev) - 1,
                      wt_per_session = foldl drop_waiter (wt_per_session (ev_waiters ev)) targets\<rparr>\<rparr>"

definition has_waiters :: "turn_events \<Rightarrow> session_id \<Rightarrow> bool" where
  "has_waiters ev sid = (case wt_per_session (ev_waiters ev) sid of None \<Rightarrow> False | Some c \<Rightarrow> 0 < c)"

section \<open>The journal as a log\<close>

text \<open>The journal retains the last entries of the log of everything that was ever recorded.\<close>

definition logged :: "turn_events \<Rightarrow> turn_entry list \<Rightarrow> bool" where
  "logged ev log \<longleftrightarrow>
     0 < ev_capacity ev \<and> jn_latest (ev_journal ev) = length log \<and>
     jn_entries (ev_journal ev) = drop (length log - ev_capacity ev) log \<and>
     (\<forall>i < length log. te_seq (log ! i) = Suc i)"

definition new_entry :: "turn_events \<Rightarrow> session_id \<Rightarrow> turn_event_kind \<Rightarrow> bytes option \<Rightarrow> bytes \<Rightarrow> turn_entry" where
  "new_entry ev sid kind notification at =
     \<lparr>te_seq = jn_latest (ev_journal ev) + 1, te_session = sid, te_kind = kind, te_at = at, te_notification = notification\<rparr>"

lemma logged_new: "logged (turn_events_new epoch capacity) []"
  by (simp add: logged_def turn_events_new_def journal_default_def)

lemma logged_cong:
  assumes "logged ev log" and "ev_capacity ev' = ev_capacity ev" and "jn_latest (ev_journal ev') = jn_latest (ev_journal ev)"
    and "jn_entries (ev_journal ev') = jn_entries (ev_journal ev)"
  shows "logged ev' log"
  using assms by (simp add: logged_def)

lemma logged_append:
  assumes "logged ev log"
  shows "logged (record_append ev sid kind notification at) (log @ [new_entry ev sid kind notification at])"
proof -
  let ?c = "ev_capacity ev" and ?e = "new_entry ev sid kind notification at"
  have "drop (Suc (length (drop (length log - ?c) log)) - ?c) (drop (length log - ?c) log @ [?e]) =
      drop (Suc (length log) - ?c) (log @ [?e])"
    using assms by (cases "?c \<le> length log") (auto simp: logged_def Suc_diff_le)
  moreover have "te_seq ((log @ [?e]) ! i) = Suc i" if "i < Suc (length log)" for i
    using assms that by (cases "i = length log") (auto simp: logged_def new_entry_def nth_append)
  ultimately show ?thesis using assms by (auto simp: logged_def record_append_def append_entry_def new_entry_def Let_def)
qed

lemma evicted_after_iff:
  assumes "logged ev log" and "length log \<le> u64_max"
  shows "evicted_after (ev_journal ev) n \<longleftrightarrow> n < length log - ev_capacity ev"
proof (cases "log = []")
  case False
  let ?k = "length log - ev_capacity ev"
  have k: "?k < length log" using False assms(1) by (simp add: logged_def)
  then have "jn_entries (ev_journal ev) = log ! ?k # drop (Suc ?k) log"
    using assms(1) by (simp add: logged_def Cons_nth_drop_Suc)
  then have "evicted_after (ev_journal ev) n \<longleftrightarrow> u64_saturating_add n 1 < te_seq (log ! ?k)" by (simp add: evicted_after_def)
  moreover have "te_seq (log ! ?k) = Suc ?k" using assms(1) k by (simp add: logged_def)
  ultimately show ?thesis using assms(2) k by (auto simp: u64_saturating_add_def)
qed (use assms in \<open>simp add: evicted_after_def logged_def\<close>)

section \<open>Reading a retained log\<close>

text \<open>
  What a reader relies on: a source that retains the end of a log of numbered entries and answers the
  first matching entry after a position, unless entries after that position were lost.
\<close>

locale log_reader =
  fixes retains :: "'s \<Rightarrow> 'e list \<Rightarrow> bool"
    and first_after :: "'s \<Rightarrow> nat \<Rightarrow> 'f \<Rightarrow> 'e option"
    and lost_after :: "'s \<Rightarrow> nat \<Rightarrow> bool"
    and matches :: "'f \<Rightarrow> 'e \<Rightarrow> bool"
    and number :: "'e \<Rightarrow> nat"
  assumes first_law: "retains s log \<Longrightarrow> \<not> lost_after s n \<Longrightarrow> first_after s n f = List.find (matches f) (drop n log)"
    and number_law: "retains s log \<Longrightarrow> i < length log \<Longrightarrow> number (log ! i) = Suc i"
begin

lemma found_exact:
  assumes "retains s log" and "\<not> lost_after s n" and "first_after s n f = Some e"
  shows "n \<le> number e \<and> number e \<le> length log \<and> filter (matches f) (slice log n (number e)) = [e]"
proof -
  have "List.find (matches f) (drop n log) = Some e" using assms first_law by metis
  then obtain i where i: "i < length (drop n log)" "matches f (drop n log ! i)" "e = drop n log ! i"
    "\<forall>j<i. \<not> matches f (drop n log ! j)" by (auto simp: find_Some_iff)
  have "slice log n (Suc (n + i)) = take i (drop n log) @ [e]"
    using i(1,3) by (simp add: slice_def drop_take take_Suc_conv_app_nth)
  moreover have "filter (matches f) (take i (drop n log)) = []" using i(1,4) by (auto simp: filter_empty_conv in_set_conv_nth)
  moreover have "number e = Suc (n + i)" using number_law [OF assms(1), of "n + i"] i(1,3) by simp
  ultimately show ?thesis using i(1,2,3) by simp
qed

lemma none_exact:
  assumes "retains s log" and "\<not> lost_after s n" and "first_after s n f = None"
  shows "filter (matches f) (drop n log) = []"
proof -
  have "List.find (matches f) (drop n log) = None" using first_law [OF assms(1,2), of f] assms(3) by simp
  then show ?thesis by (auto simp: find_None_iff filter_empty_conv)
qed

end

text \<open>A scan that lost nothing finds the first selected entry of the log after its position.\<close>

definition selected :: "session_id list \<Rightarrow> turn_event_kind list \<Rightarrow> turn_entry \<Rightarrow> bool" where
  "selected targets kinds e \<longleftrightarrow> te_session e \<in> set targets \<and> te_kind e \<in> set kinds"

lemma filter_seq:
  assumes "\<forall>i < length log. te_seq (log ! i) = Suc i" and "k \<le> n"
  shows "filter (\<lambda>e. n < te_seq e) (drop k log) = drop n log"
proof -
  have "filter (\<lambda>e. n < te_seq e) (drop k log) = filter (\<lambda>e. n < te_seq e) (take (n - k) (drop k log) @ drop n log)"
    using assms(2) append_take_drop_id [of "n - k" "drop k log"] by simp
  also have "\<dots> = drop n log"
  proof -
    have "\<not> n < te_seq e" if "e \<in> set (take (n - k) (drop k log))" for e
      using that assms by (auto simp: in_set_conv_nth)
    moreover have "n < te_seq e" if "e \<in> set (drop n log)" for e
      using that assms by (auto simp: in_set_conv_nth)
    ultimately show ?thesis by (simp add: filter_empty_conv filter_id_conv)
  qed
  finally show ?thesis .
qed

lemma scan_log:
  assumes "logged ev log" and "length log \<le> u64_max"
  shows "ts_latest (journal_scan ev n targets kinds) = length log"
    and "ts_evicted (journal_scan ev n targets kinds) \<longleftrightarrow> n < length log - ev_capacity ev"
    and "\<not> ts_evicted (journal_scan ev n targets kinds) \<Longrightarrow>
      ts_event (journal_scan ev n targets kinds) = List.find (selected targets kinds) (drop n log)"
proof -
  show "ts_latest (journal_scan ev n targets kinds) = length log" using assms(1) by (simp add: journal_scan_def Let_def logged_def)
  show ev: "ts_evicted (journal_scan ev n targets kinds) \<longleftrightarrow> n < length log - ev_capacity ev"
    using evicted_after_iff [OF assms] by (simp add: journal_scan_def Let_def)
  assume "\<not> ts_evicted (journal_scan ev n targets kinds)"
  then have "filter (\<lambda>e. n < te_seq e) (jn_entries (ev_journal ev)) = drop n log"
    using assms(1) ev filter_seq [of log "length log - ev_capacity ev" n] by (simp add: logged_def)
  then show "ts_event (journal_scan ev n targets kinds) = List.find (selected targets kinds) (drop n log)"
    by (simp add: journal_scan_def Let_def selected_def [abs_def])
qed

interpretation turn_log: log_reader "\<lambda>ev log. logged ev log \<and> length log \<le> u64_max"
  "\<lambda>ev n f. ts_event (journal_scan ev n (fst f) (snd f))" "\<lambda>ev n. evicted_after (ev_journal ev) n"
  "\<lambda>f. selected (fst f) (snd f)" te_seq
proof
  fix ev :: turn_events and log :: "turn_entry list" and n and f :: "session_id list \<times> turn_event_kind list"
  assume "logged ev log \<and> length log \<le> u64_max" and "\<not> evicted_after (ev_journal ev) n"
  then show "ts_event (journal_scan ev n (fst f) (snd f)) = List.find (selected (fst f) (snd f)) (drop n log)"
    using scan_log(3) [of ev log n "fst f" "snd f"] by (simp add: journal_scan_def Let_def)
qed (simp add: logged_def)

lemmas scan_found = turn_log.found_exact [where f = "(ids, kinds)" for ids kinds, unfolded fst_conv snd_conv]
lemmas scan_none = turn_log.none_exact [where f = "(ids, kinds)" for ids kinds, unfolded fst_conv snd_conv]

section \<open>Cursors round trip\<close>

lemma splitn_four:
  assumes "c \<notin> set x" "c \<notin> set y" "c \<notin> set z"
  shows "splitn 4 c (x @ [c] @ y @ [c] @ z @ [c] @ rest) = [x, y, z, rest]"
  using assms by (simp add: eval_nat_numeral split_once_append)

lemma separator_free: "CURSOR_SEPARATOR \<notin> set CURSOR_TAG" "CURSOR_SEPARATOR \<notin> set (show_nat n)"
  using show_nat_digits [of CURSOR_SEPARATOR n]
  by (auto simp: CURSOR_SEPARATOR_def CURSOR_TAG_def is_ascii_digit_def)

lemma event_cursor_fields:
  assumes "event_cursor ev seq issued = Some c"
  shows "splitn 4 CURSOR_SEPARATOR c = [CURSOR_TAG, show_nat seq, show_nat issued, ev_epoch ev]"
proof -
  have "c = CURSOR_TAG @ [CURSOR_SEPARATOR] @ show_nat seq @ [CURSOR_SEPARATOR] @ show_nat issued @ [CURSOR_SEPARATOR] @ ev_epoch ev"
    using assms by (simp add: event_cursor_def turn_cursor_new_def split: if_splits)
  then show ?thesis using splitn_four [OF separator_free(1) separator_free(2) separator_free(2)] by simp
qed

lemma place_cursor:
  assumes "event_cursor ev seq issued = Some c" and "seq \<le> u64_max" and "issued \<le> u64_max"
  shows "place ev' c =
    (if ev_epoch ev \<noteq> ev_epoch ev' \<or> jn_latest (ev_journal ev') < seq \<or> evicted_after (ev_journal ev') seq then None
     else Some \<lparr>cp_seq = seq, cp_issued_nanos = issued\<rparr>)"
  using assms(2,3) by (simp add: place_def event_cursor_fields [OF assms(1)] parse_show_nat)

lemma show_nat_length: "n < 10 ^ k \<Longrightarrow> 0 < k \<Longrightarrow> length (show_nat n) \<le> k"
proof (induction n arbitrary: k rule: show_nat.induct)
  case (1 n)
  show ?case
  proof (cases "n < 10")
    case False
    then obtain j where j: "k = Suc j" "0 < j" using 1 by (cases k; cases "k - 1") auto
    have "n div 10 < 10 ^ j" using 1(2) j(1) by (simp add: div_less_iff_less_mult mult.commute)
    then show ?thesis using 1(1) [OF False] False j by (subst show_nat.simps) simp
  qed (use 1 in \<open>subst show_nat.simps, simp\<close>)
qed

lemma show_nat_graphic: "list_all is_ascii_graphic (show_nat n)"
  using show_nat_digits [of _ n] by (fastforce simp: list_all_iff is_ascii_digit_def is_ascii_graphic_def)

text \<open>A cursor of a daemon instance whose identifier is short and printable is always well formed.\<close>

definition epoch_ok :: "bytes \<Rightarrow> bool" where
  "epoch_ok epoch \<longleftrightarrow> length epoch \<le> 211 \<and> list_all is_ascii_graphic epoch"

lemma event_cursor_ok:
  assumes "epoch_ok (ev_epoch ev)" and "seq \<le> u64_max" and "issued \<le> u64_max"
  shows "\<exists>c. event_cursor ev seq issued = Some c"
proof -
  have len: "length (show_nat n) \<le> 20" if "n \<le> u64_max" for n
    by (rule show_nat_length) (use that in \<open>simp_all add: u64_max_def\<close>)
  show ?thesis
    using show_nat_graphic assms(1) len [OF assms(2)] len [OF assms(3)]
    by (auto simp: event_cursor_def turn_cursor_new_def epoch_ok_def MAX_SESSION_TURN_CURSOR_BYTES_def CURSOR_TAG_def
        CURSOR_SEPARATOR_def is_ascii_graphic_def)
qed

lemma daemon_epoch_ok:
  assumes "pid < 2 ^ 32" and "nanos < 2 ^ 128" and "seq \<le> u64_max"
  shows "epoch_ok (daemon_instance_id pid nanos seq)"
proof -
  have "length (show_nat pid) \<le> 10" "length (show_nat nanos) \<le> 39" "length (show_nat seq) \<le> 20"
    by (rule show_nat_length; use assms in \<open>simp add: u64_max_def\<close>)+
  then show ?thesis using show_nat_graphic by (simp add: epoch_ok_def daemon_instance_id_def is_ascii_graphic_def)
qed

lemma unix_nanos_now_bound: "unix_nanos_now elapsed \<le> u64_max"
  by (cases elapsed; cases "u64_try_from (the elapsed)") (auto simp: unix_nanos_now_def u64_try_from_def split: if_splits)

section \<open>Every slot is accounted for\<close>

text \<open>\<open>permits\<close> are the permits alive; a wait names each target once.\<close>

definition slots_exact :: "turn_events \<Rightarrow> session_id list list \<Rightarrow> bool" where
  "slots_exact ev permits \<longleftrightarrow>
     wt_global (ev_waiters ev) = length permits \<and>
     (\<forall>sid. wt_per_session (ev_waiters ev) sid =
        (let n = length (filter (\<lambda>p. sid \<in> set p) permits) in if n = 0 then None else Some n))"

lemma foldl_add_waiter:
  "distinct xs \<Longrightarrow>
   foldl add_waiter m xs sid = (if sid \<in> set xs then Some (unwrap_or (m sid) 0 + 1) else m sid)"
  by (induction xs arbitrary: m) (auto simp: add_waiter_def)

lemma foldl_drop_waiter:
  "distinct xs \<Longrightarrow>
   foldl drop_waiter m xs sid =
     (if sid \<in> set xs then Option.bind (m sid) (\<lambda>c. if c - 1 = 0 then None else Some (c - 1)) else m sid)"
  by (induction xs arbitrary: m) (auto simp: drop_waiter_def split: option.splits)

lemma slots_acquired:
  assumes "slots_exact ev permits" and "acquire ev targets global session = (ev', Some p)" and "distinct targets"
  shows "slots_exact ev' (p # permits)" and "p = targets" and "length (p # permits) \<le> global"
    and "sid \<in> set targets \<Longrightarrow> 0 < session \<Longrightarrow> length (filter (\<lambda>p. sid \<in> set p) (p # permits)) \<le> session"
proof -
  let ?w = "ev_waiters ev" and ?n = "\<lambda>sid. length (filter (\<lambda>p. sid \<in> set p) permits)"
  have got: "p = targets" "wt_global ?w < global"
    "\<not> list_ex (\<lambda>sid. case wt_per_session ?w sid of None \<Rightarrow> False | Some c \<Rightarrow> session \<le> c) targets"
    "ev' = ev\<lparr>ev_waiters := \<lparr>wt_global = wt_global ?w + 1, wt_per_session = foldl add_waiter (wt_per_session ?w) targets\<rparr>\<rparr>"
    using assms(2) by (auto simp: acquire_def Let_def split: if_splits)
  show "p = targets" by (rule got(1))
  show "length (p # permits) \<le> global" using got(2) assms(1) by (simp add: slots_exact_def)
  show "slots_exact ev' (p # permits)"
    using assms(1,3) got(1,4) by (auto simp: slots_exact_def Let_def foldl_add_waiter)
  assume "sid \<in> set targets" "0 < session"
  then have "?n sid < session" using got(3) assms(1) by (auto simp: slots_exact_def Let_def list_ex_iff split: if_splits)
  then show "length (filter (\<lambda>p. sid \<in> set p) (p # permits)) \<le> session" by simp
qed

lemma slots_refused: "acquire ev targets global session = (ev', None) \<Longrightarrow> ev' = ev"
  by (auto simp: acquire_def Let_def split: if_splits)

lemma slots_released:
  assumes "slots_exact ev permits" and "p \<in> set permits" and "distinct p"
  shows "slots_exact (permit_drop ev p) (remove1 p permits)"
proof -
  have n: "length (filter (\<lambda>q. sid \<in> set q) (remove1 p permits)) =
      (if sid \<in> set p then length (filter (\<lambda>q. sid \<in> set q) permits) - 1 else length (filter (\<lambda>q. sid \<in> set q) permits))" for sid
    using assms(2) by (simp add: filter_remove1 length_remove1)
  have pos: "0 < length (filter (\<lambda>q. sid \<in> set q) permits)" if "sid \<in> set p" for sid
    using that assms(2) by (auto simp: filter_empty_conv)
  show ?thesis
    using assms pos by (auto simp: slots_exact_def permit_drop_def foldl_drop_waiter Let_def n length_remove1)
qed

lemma slots_has_waiters: "slots_exact ev permits \<Longrightarrow> has_waiters ev sid \<longleftrightarrow> (\<exists>p \<in> set permits. sid \<in> set p)"
  by (auto simp: slots_exact_def has_waiters_def Let_def filter_empty_conv split: if_splits)

end
