(* ===== verification/Turn_Wait.thy ===== *)
theory Turn_Wait
  imports Turn_Journal
begin

text \<open>
  The bounded long wait for turn events (\<open>crates/daemon/src/session/turn_wait.rs\<close>, the request and result
  types of \<open>crates/protocol/src/turn_wait.rs\<close>, and the places of \<open>crates/daemon/src/session/mod.rs\<close> that change
  an entry of the registry together with the journal).  A wait runs concurrently with the rest of the
  daemon: each of its reads under a lock sees the registry of that moment, so the model reads a
  sequence of registries, one per read, and the properties quantify over every sequence that the
  steps of the daemon can produce.
\<close>

section \<open>The registry\<close>

record session_entry =
  se_state :: session_state
  se_activity :: "agent_activity option"
  se_owner :: turn_owner
  se_reference_launch :: "bytes option"

record session_info =
  si_state :: session_state
  si_activity :: "agent_activity option"

text \<open>
  \<open>rg_holder\<close> is the change of the session map that the holder of its lock has noted in the journal but
  not yet made; \<open>rg_unbumped\<close> counts journal changes whose version bump is still to come; \<open>rg_clock\<close> is
  the reading of the system clock.
\<close>

datatype pending_change = Insert session_id session_entry | Remove session_id

record registry =
  rg_sessions :: "session_id \<rightharpoonup> session_entry"
  rg_external :: "session_id \<rightharpoonup> session_info"
  rg_unpersisted :: "session_id \<rightharpoonup> bytes"
  rg_turns :: turn_events
  rg_holder :: "pending_change option"
  rg_unbumped :: nat
  rg_clock :: "nat option"

definition set_unpersisted :: "registry \<Rightarrow> session_id \<Rightarrow> bytes option \<Rightarrow> registry" where
  "set_unpersisted r sid shown = r\<lparr>rg_unpersisted := (rg_unpersisted r)(sid := shown)\<rparr>"

text \<open>
  The installers under the lock of the session map: first the journal takes the state the entry will
  have, then the entry is inserted.  \<open>observe_entry\<close> is the call of \<open>observe_state\<close> in them.
\<close>

definition observe_entry :: "registry \<Rightarrow> session_id \<Rightarrow> session_state \<Rightarrow> nat \<Rightarrow> bytes \<Rightarrow> registry" where
  "observe_entry r sid state now at =
     (case observe_append (rg_turns r) sid state now at of
        (ev, exited) \<Rightarrow> r\<lparr>rg_turns := ev, rg_unbumped := rg_unbumped r + of_bool exited\<rparr>)"

definition begin_transition :: "registry \<Rightarrow> session_id \<Rightarrow> session_entry \<Rightarrow> nat \<Rightarrow> bytes \<Rightarrow> registry" where
  "begin_transition r sid candidate now at =
     (observe_entry (set_unpersisted r sid None) sid (se_state candidate) now at)\<lparr>rg_holder := Some (Insert sid candidate)\<rparr>"

definition begin_install :: "registry \<Rightarrow> session_id \<Rightarrow> session_entry \<Rightarrow> nat \<Rightarrow> bytes \<Rightarrow> registry" where
  "begin_install r sid entry now at =
     (let entry' = (if se_reference_launch entry = None
                    then entry\<lparr>se_reference_launch := Option.bind (rg_sessions r sid) se_reference_launch\<rparr> else entry);
          r1 = observe_entry (set_unpersisted r sid None) sid (se_state entry) now at;
          ev1 = events_depart (new_generation (rg_turns r1) sid) sid (se_owner entry);
          ev2 = (if se_activity entry = Some Working then events_adopt ev1 sid (se_owner entry) now else ev1)
      in r1\<lparr>rg_turns := ev2, rg_holder := Some (Insert sid entry')\<rparr>)"

definition begin_placeholder :: "registry \<Rightarrow> session_id \<Rightarrow> session_entry \<Rightarrow> bytes \<Rightarrow> nat \<Rightarrow> bytes \<Rightarrow> registry \<times> bool" where
  "begin_placeholder r sid placeholder shown now at =
     (case rg_sessions r sid of
        Some _ \<Rightarrow> (r, False)
      | None \<Rightarrow>
          ((observe_entry (set_unpersisted r sid (Some shown)) sid (se_state placeholder) now at)
             \<lparr>rg_holder := Some (Insert sid placeholder)\<rparr>, True))"

definition begin_remove :: "registry \<Rightarrow> session_id \<Rightarrow> registry" where
  "begin_remove r sid =
     (set_unpersisted r sid None)\<lparr>rg_turns := forget_entry (rg_turns r) sid, rg_unbumped := rg_unbumped r + 1,
       rg_holder := Some (Remove sid)\<rparr>"

definition commit_change :: "registry \<Rightarrow> registry" where
  "commit_change r =
     (case rg_holder r of
        None \<Rightarrow> r
      | Some (Insert sid entry) \<Rightarrow> r\<lparr>rg_sessions := (rg_sessions r)(sid \<mapsto> entry), rg_holder := None\<rparr>
      | Some (Remove sid) \<Rightarrow> r\<lparr>rg_sessions := (rg_sessions r)(sid := None), rg_holder := None\<rparr>)"

text \<open>A removal whose record could not be deleted lists its entry again.\<close>

definition relist :: "registry \<Rightarrow> session_id \<Rightarrow> session_entry \<Rightarrow> registry" where
  "relist r sid entry =
     (case rg_sessions r sid of None \<Rightarrow> r\<lparr>rg_sessions := (rg_sessions r)(sid \<mapsto> entry)\<rparr> | Some _ \<Rightarrow> r)"

section \<open>Requests and results\<close>

definition MAX_SESSION_WAIT_TURN_TARGETS :: nat where "MAX_SESSION_WAIT_TURN_TARGETS = 32"

datatype turn_wait_params_error =
    NoTargets | TooManyTargets nat nat | DuplicateTarget | NoKinds | DuplicateKind | ZeroTimeout

record wait_params =
  wp_session_ids :: "session_id list"
  wp_until :: "turn_event_kind list"
  wp_after :: "bytes option"
  wp_timeout_ms :: "nat option"

definition has_duplicate :: "'a list \<Rightarrow> bool" where
  "has_duplicate values = list_ex (\<lambda>i. values ! i \<in> set (take i values)) [0..<length values]"

definition wait_params_new ::
  "session_id list \<Rightarrow> turn_event_kind list \<Rightarrow> bytes option \<Rightarrow> nat option \<Rightarrow> (turn_wait_params_error, wait_params) result" where
  "wait_params_new session_ids until after timeout_ms =
     (if session_ids = [] then Err NoTargets
      else if MAX_SESSION_WAIT_TURN_TARGETS < length session_ids
      then Err (TooManyTargets MAX_SESSION_WAIT_TURN_TARGETS (length session_ids))
      else if has_duplicate session_ids then Err DuplicateTarget
      else if until = [] then Err NoKinds
      else if has_duplicate until then Err DuplicateKind
      else if timeout_ms = Some 0 then Err ZeroTimeout
      else Ok \<lparr>wp_session_ids = session_ids, wp_until = until, wp_after = after, wp_timeout_ms = timeout_ms\<rparr>)"

datatype wait_reason = ReasonEvent | ReasonTimeout | ReasonCursorReset | ReasonTargetsEnded | ReasonUnknown

record session_turn_event =
  sv_session :: session_id
  sv_kind :: turn_event_kind
  sv_at :: bytes
  sv_notification :: "bytes option"

record session_turn_progress =
  sp_session :: session_id
  sp_state :: session_state
  sp_activity :: "agent_activity option"
  sp_last_output_at :: "bytes option"
  sp_output_advanced :: bool
  sp_turn_started_at :: "bytes option"

record turn_wait_result =
  wr_reason :: wait_reason
  wr_event :: "session_turn_event option"
  wr_cursor :: bytes
  wr_progress :: "session_turn_progress list"

datatype wait_error = WaitLimitExceeded | SessionNotFound session_id | WaiterLimitReached | DaemonShuttingDown | WaitPanic

text \<open>Durations in milliseconds.\<close>

record wait_config =
  wc_turn_wait_default :: nat
  wc_turn_wait_max :: nat
  wc_turn_global_waiters :: nat
  wc_turn_session_waiters :: nat

section \<open>Reads\<close>

type_synonym views = "nat \<Rightarrow> registry"

type_synonym 'a look = "views \<Rightarrow> nat \<Rightarrow> (wait_error, 'a) result \<times> nat"

definition look_ret :: "'a \<Rightarrow> 'a look" where
  "look_ret x = (\<lambda>v k. (Ok x, k))"

definition look_fail :: "wait_error \<Rightarrow> 'a look" where
  "look_fail e = (\<lambda>v k. (Err e, k))"

definition look_read :: "(registry \<Rightarrow> 'a) \<Rightarrow> 'a look" where
  "look_read f = (\<lambda>v k. (Ok (f (v k)), Suc k))"

definition look_bind :: "'a look \<Rightarrow> ('a \<Rightarrow> 'b look) \<Rightarrow> 'b look" where
  "look_bind m f = (\<lambda>v k. case m v k of (Inl e, k') \<Rightarrow> (Inl e, k') | (Inr x, k') \<Rightarrow> f x v k')"

text \<open>\<open>SessionRegistry::inspect\<close>: the managed sessions, then the external ones.\<close>

definition inspect :: "session_id \<Rightarrow> session_info look" where
  "inspect sid =
     look_bind (look_read (\<lambda>r. rg_sessions r sid)) (\<lambda>entry.
       case entry of
         Some e \<Rightarrow> look_ret \<lparr>si_state = se_state e, si_activity = se_activity e\<rparr>
       | None \<Rightarrow>
           look_bind (look_read (\<lambda>r. rg_external r sid)) (\<lambda>info.
             case info of Some i \<Rightarrow> look_ret i | None \<Rightarrow> look_fail (SessionNotFound sid)))"

fun inspect_all :: "session_id list \<Rightarrow> bool look" where
  "inspect_all [] = look_ret True"
| "inspect_all (sid # rest) =
     look_bind (inspect sid) (\<lambda>info. look_bind (inspect_all rest) (\<lambda>t. look_ret (is_terminal (si_state info) \<and> t)))"

datatype outcome = OutcomeEvent turn_entry | OutcomeEnded nat | OutcomePending nat | OutcomeReset nat

definition turn_outcome :: "wait_params \<Rightarrow> nat \<Rightarrow> outcome look" where
  "turn_outcome params after_seq =
     look_bind (inspect_all (wp_session_ids params)) (\<lambda>all_terminal.
     look_bind (look_read (\<lambda>r. journal_scan (rg_turns r) after_seq (wp_session_ids params) (wp_until params))) (\<lambda>s.
       look_ret
         (if ts_evicted s then OutcomeReset (ts_latest s)
          else
            (case ts_event s of
               Some entry \<Rightarrow> OutcomeEvent entry
             | None \<Rightarrow> if all_terminal then OutcomeEnded (ts_latest s) else OutcomePending (ts_latest s)))))"

text \<open>\<open>SessionRegistry::turn_progress\<close>; the \<open>time\<close> crate formats the timestamps.\<close>

definition turn_progress_of :: "(nat \<Rightarrow> bytes option) \<Rightarrow> session_id \<Rightarrow> nat \<Rightarrow> session_turn_progress look" where
  "turn_progress_of rfc3339 sid since_nanos =
     look_bind (inspect sid) (\<lambda>info.
     look_bind (look_read (\<lambda>r. existing_progress (rg_turns r) sid)) (\<lambda>progress.
       let last_output = Option.bind progress last_output_nanos;
           started = Option.bind progress turn_started_nanos
       in look_ret
            \<lparr>sp_session = sid, sp_state = si_state info, sp_activity = si_activity info,
             sp_last_output_at = Option.bind last_output rfc3339,
             sp_output_advanced = (case last_output of None \<Rightarrow> False | Some nanos \<Rightarrow> since_nanos < nanos),
             sp_turn_started_at = Option.bind started rfc3339\<rparr>))"

fun target_progress :: "(nat \<Rightarrow> bytes option) \<Rightarrow> session_id list \<Rightarrow> nat \<Rightarrow> session_turn_progress list look" where
  "target_progress rfc3339 [] since = look_ret []"
| "target_progress rfc3339 (sid # rest) since =
     look_bind (turn_progress_of rfc3339 sid since) (\<lambda>p.
     look_bind (target_progress rfc3339 rest since) (\<lambda>ps. look_ret (p # ps)))"

definition wire_event :: "turn_entry \<Rightarrow> session_turn_event" where
  "wire_event e =
     \<lparr>sv_session = te_session e, sv_kind = te_kind e, sv_at = te_at e, sv_notification = te_notification e\<rparr>"

definition turn_result ::
  "(nat \<Rightarrow> bytes option) \<Rightarrow> wait_reason \<Rightarrow> turn_entry option \<Rightarrow> nat \<Rightarrow> session_id list \<Rightarrow> nat \<Rightarrow> turn_wait_result look" where
  "turn_result rfc3339 reason event cursor_seq targets since_nanos =
     look_bind (target_progress rfc3339 targets since_nanos) (\<lambda>progress.
     look_bind (look_read (\<lambda>r. event_cursor (rg_turns r) cursor_seq (unix_nanos_now (rg_clock r)))) (\<lambda>cursor.
       case cursor of
         None \<Rightarrow> look_fail WaitPanic
       | Some c \<Rightarrow>
           look_ret \<lparr>wr_reason = reason, wr_event = map_option wire_event event, wr_cursor = c, wr_progress = progress\<rparr>))"

definition turn_outcome_result ::
  "(nat \<Rightarrow> bytes option) \<Rightarrow> wait_params \<Rightarrow> nat \<Rightarrow> nat \<Rightarrow> bool \<Rightarrow> turn_wait_result option look" where
  "turn_outcome_result rfc3339 params after_seq since_nanos at_deadline =
     look_bind (turn_outcome params after_seq) (\<lambda>out.
       let finish = (\<lambda>reason event seq.
             look_bind (turn_result rfc3339 reason event seq (wp_session_ids params) since_nanos) (\<lambda>res. look_ret (Some res)))
       in case out of
            OutcomeEvent entry \<Rightarrow> finish ReasonEvent (Some entry) (te_seq entry)
          | OutcomeEnded l \<Rightarrow> finish ReasonTargetsEnded None l
          | OutcomeReset l \<Rightarrow> finish ReasonCursorReset None l
          | OutcomePending l \<Rightarrow> if at_deadline then finish ReasonTimeout None l else look_ret None)"

section \<open>The wait\<close>

text \<open>
  What wakes the parked wait: the branches of the select.  A change notification fires only when the
  version differs from the one last seen.
\<close>

datatype wake = WakeShutdown | WakeDeadline | WakeChanged | WakeClosed

datatype wait_status = Finished "(wait_error, turn_wait_result) result" | Parked (parked_seen: nat) (parked_after: nat)

fun wait_loop ::
  "(nat \<Rightarrow> bytes option) \<Rightarrow> wait_params \<Rightarrow> nat \<Rightarrow> nat \<Rightarrow> nat \<Rightarrow> wake list \<Rightarrow> views \<Rightarrow> nat \<Rightarrow> wait_status \<times> nat" where
  "wait_loop rfc3339 params after_seq since_nanos seen [] v k = (Parked seen after_seq, k)"
| "wait_loop rfc3339 params after_seq since_nanos seen (WakeShutdown # wakes) v k = (Finished (Err DaemonShuttingDown), k)"
| "wait_loop rfc3339 params after_seq since_nanos seen (WakeClosed # wakes) v k = (Finished (Err DaemonShuttingDown), k)"
| "wait_loop rfc3339 params after_seq since_nanos seen (WakeDeadline # wakes) v k =
     (case turn_outcome_result rfc3339 params after_seq since_nanos True v k of
        (Inl e, k') \<Rightarrow> (Finished (Err e), k')
      | (Inr None, k') \<Rightarrow> (Finished (Err WaitPanic), k')
      | (Inr (Some res), k') \<Rightarrow> (Finished (Ok res), k'))"
| "wait_loop rfc3339 params after_seq since_nanos seen (WakeChanged # wakes) v k =
     (if ev_version (rg_turns (v k)) = seen
      then wait_loop rfc3339 params after_seq since_nanos seen wakes v (Suc k)
      else
        (case turn_outcome_result rfc3339 params after_seq since_nanos False v (Suc k) of
           (Inl e, k') \<Rightarrow> (Finished (Err e), k')
         | (Inr None, k') \<Rightarrow>
             wait_loop rfc3339 params after_seq since_nanos (ev_version (rg_turns (v k))) wakes v k'
         | (Inr (Some res), k') \<Rightarrow> (Finished (Ok res), k')))"

definition wait_check ::
  "(nat \<Rightarrow> bytes option) \<Rightarrow> wait_config \<Rightarrow> wait_params \<Rightarrow> nat \<Rightarrow> nat \<Rightarrow> nat \<Rightarrow> wake list \<Rightarrow> views \<Rightarrow> nat \<Rightarrow>
   wait_status \<times> nat" where
  "wait_check rfc3339 config params after_seq since_nanos seen wakes v k =
     (case turn_outcome_result rfc3339 params after_seq since_nanos False v k of
        (Inl e, k') \<Rightarrow> (Finished (Err e), k')
      | (Inr (Some res), k') \<Rightarrow> (Finished (Ok res), k')
      | (Inr None, k') \<Rightarrow>
          (case acquire (rg_turns (v k')) (wp_session_ids params) (wc_turn_global_waiters config)
                  (wc_turn_session_waiters config) of
             (_, None) \<Rightarrow> (Finished (Err WaiterLimitReached), Suc k')
           | (_, Some _) \<Rightarrow> wait_loop rfc3339 params after_seq since_nanos seen wakes v (Suc k')))"

definition wait_turn ::
  "(nat \<Rightarrow> bytes option) \<Rightarrow> wait_config \<Rightarrow> wait_params \<Rightarrow> wake list \<Rightarrow> views \<Rightarrow> nat \<Rightarrow> wait_status \<times> nat" where
  "wait_turn rfc3339 config params wakes v k =
     (let call_nanos = unix_nanos_now (rg_clock (v k));
          timeout = (case wp_timeout_ms params of None \<Rightarrow> wc_turn_wait_default config | Some millis \<Rightarrow> millis)
      in if wc_turn_wait_max config < timeout then (Finished (Err WaitLimitExceeded), Suc k)
         else
           (case inspect_all (wp_session_ids params) v (Suc k) of
              (Inl e, k1) \<Rightarrow> (Finished (Err e), k1)
            | (Inr _, k1) \<Rightarrow>
                (let seen = ev_version (rg_turns (v k1)) in
                 case wp_after params of
                   None \<Rightarrow>
                     wait_check rfc3339 config params (latest (rg_turns (v (Suc k1)))) call_nanos seen wakes v (Suc (Suc k1))
                 | Some cursor \<Rightarrow>
                     (case place (rg_turns (v (Suc k1))) cursor of
                        Some position \<Rightarrow>
                          wait_check rfc3339 config params (cp_seq position) (cp_issued_nanos position) seen wakes v
                            (Suc (Suc k1))
                      | None \<Rightarrow>
                          (case turn_result rfc3339 ReasonCursorReset None (latest (rg_turns (v (Suc (Suc k1)))))
                                  (wp_session_ids params) call_nanos v (Suc (Suc (Suc k1))) of
                             (Inl e, k2) \<Rightarrow> (Finished (Err e), k2)
                           | (Inr res, k2) \<Rightarrow> (Finished (Ok res), k2))))))"

end
