(* ===== verification/Turn_Wait_Run.thy ===== *)
theory Turn_Wait_Run
  imports Turn_Wait
begin

text \<open>
  Waits for turn events against every interleaving with the rest of the daemon: the steps of the
  registry and its journal, the sequence of registries a wait reads, and what the waits return.
\<close>

section \<open>Steps of the daemon\<close>

text \<open>A world is a registry with the log of all entries ever recorded.\<close>

type_synonym world = "registry \<times> turn_entry list"

text \<open>What the operations on turns, edges and waiter slots leave alone.\<close>

definition journal_alike :: "turn_events \<Rightarrow> turn_events \<Rightarrow> bool" where
  "journal_alike ev ev' \<longleftrightarrow>
     ev_epoch ev' = ev_epoch ev \<and> ev_capacity ev' = ev_capacity ev \<and> ev_version ev' = ev_version ev \<and>
     jn_entries (ev_journal ev') = jn_entries (ev_journal ev) \<and> jn_latest (ev_journal ev') = jn_latest (ev_journal ev) \<and>
     jn_terminal (ev_journal ev') = jn_terminal (ev_journal ev)"

definition exits :: "turn_events \<Rightarrow> session_id \<Rightarrow> session_state \<Rightarrow> bytes \<Rightarrow> turn_entry list" where
  "exits ev sid state at =
     (if is_terminal state \<and> jn_terminal (ev_journal ev) sid = Some False then [new_entry ev sid Exited None at] else [])"

inductive world_step :: "session_id set \<Rightarrow> world \<Rightarrow> world \<Rightarrow> bool" for X where
  append: "world_step X (r, log)
    (r\<lparr>rg_turns := record_append (rg_turns r) sid kind notification at, rg_unbumped := rg_unbumped r + 1\<rparr>,
     log @ [new_entry (rg_turns r) sid kind notification at])"
| bump: "rg_unbumped r = Suc n \<Longrightarrow> world_step X (r, log) (r\<lparr>rg_turns := bump (rg_turns r), rg_unbumped := n\<rparr>, log)"
| transition: "rg_holder r = None \<Longrightarrow>
    world_step X (r, log) (begin_transition r sid entry now at, log @ exits (rg_turns r) sid (se_state entry) at)"
| install: "rg_holder r = None \<Longrightarrow>
    world_step X (r, log) (begin_install r sid entry now at, log @ exits (rg_turns r) sid (se_state entry) at)"
| placeholder: "rg_holder r = None \<Longrightarrow> begin_placeholder r sid entry shown now at = (r', True) \<Longrightarrow>
    world_step X (r, log) (r', log @ exits (rg_turns r) sid (se_state entry) at)"
| remove: "rg_holder r = None \<Longrightarrow> sid \<in> X \<Longrightarrow> world_step X (r, log) (begin_remove r sid, log)"
| commit: "world_step X (r, log) (commit_change r, log)"
| relist: "rg_holder r = None \<Longrightarrow> sid \<in> X \<Longrightarrow> world_step X (r, log) (relist r sid entry, log)"
| removed: "sid \<in> X \<Longrightarrow>
    world_step X (r, log) (r\<lparr>rg_turns := forget_entry (rg_turns r) sid, rg_unbumped := rg_unbumped r + 1\<rparr>, log)"
| turns: "journal_alike (rg_turns r) ev \<Longrightarrow> world_step X (r, log) (r\<lparr>rg_turns := ev\<rparr>, log)"
| other: "rg_turns r' = rg_turns r \<Longrightarrow> rg_holder r' = rg_holder r \<Longrightarrow> rg_unbumped r' = rg_unbumped r \<Longrightarrow>
    (\<And>sid. map_option se_state (rg_sessions r' sid) = map_option se_state (rg_sessions r sid)) \<Longrightarrow>
    world_step X (r, log) (r', log)"

lemma journal_alike_refl [simp]: "journal_alike ev ev"
  by (simp add: journal_alike_def)

lemma journal_alike_trans: "journal_alike a b \<Longrightarrow> journal_alike b c \<Longrightarrow> journal_alike a c"
  by (simp add: journal_alike_def)

lemma put_progress_alike [simp]: "journal_alike ev (put_progress ev' sid p) = journal_alike ev ev'"
  by (simp add: journal_alike_def put_progress_def)

lemma send_edge_alike [simp]: "journal_alike ev (send_edge ev' e) = journal_alike ev ev'"
  by (simp add: journal_alike_def send_edge_def split: option.split)

text \<open>Every operation on turns and slots is such a step.\<close>

lemma turn_operations_alike:
  "journal_alike ev (events_depart ev sid owner)" "journal_alike ev (events_note_input ev sid)"
  "journal_alike ev (new_generation ev sid)" "journal_alike ev (events_abandon_running ev sid owner)"
  "journal_alike ev (events_adopt ev sid owner now)" "journal_alike ev (fst (events_attach_report ev sid owner now))"
  "journal_alike ev (fst (events_settle ev sid turn who now))" "journal_alike ev (events_mark_reported ev sid turn a b now)"
  "journal_alike ev (events_note_activity ev sid owner previous nxt meta detected unix now)"
  "journal_alike ev (note_held_recheck ev)" "journal_alike ev (fst (take_edge_receiver ev))"
  "journal_alike ev (fst (acquire ev targets g s))" "journal_alike ev (permit_drop ev targets)"
  by (auto simp: events_depart_def events_note_input_def new_generation_def events_abandon_running_def on_existing_def
      events_adopt_def events_attach_report_def events_settle_def events_mark_reported_def events_note_activity_def
      events_progress_def Let_def split: option.split prod.split)
    (auto simp: journal_alike_def note_held_recheck_def take_edge_receiver_def acquire_def permit_drop_def Let_def)

section \<open>What a step keeps\<close>

definition advances :: "world \<Rightarrow> world \<Rightarrow> bool" where
  "advances w w' \<longleftrightarrow>
     (case (w, w') of ((r, log), (r', log')) \<Rightarrow>
        logged (rg_turns r') log' \<and> ev_epoch (rg_turns r') = ev_epoch (rg_turns r) \<and>
        ev_capacity (rg_turns r') = ev_capacity (rg_turns r) \<and>
        (\<exists>es. log' = log @ es \<and>
          ev_version (rg_turns r) + rg_unbumped r + length es \<le> ev_version (rg_turns r') + rg_unbumped r'))"

lemma advances_trans: "advances a b \<Longrightarrow> advances b c \<Longrightarrow> advances a c"
  unfolding advances_def by (auto split: prod.splits) 

lemma alike_logged: "journal_alike ev ev' \<Longrightarrow> logged ev log \<Longrightarrow> logged ev' log"
  by (simp add: journal_alike_def logged_def)

lemma observe_entry_advances:
  assumes "logged (rg_turns r) log" and "journal_alike (rg_turns r) (rg_turns q)" and "rg_unbumped q = rg_unbumped r"
  shows "advances (r, log) (observe_entry q sid state now at, log @ exits (rg_turns r) sid state at)"
proof -
  let ?ev = "rg_turns q"
  have q: "logged ?ev log" using alike_logged [OF assms(2,1)] .
  have e: "exits (rg_turns r) sid state at = exits ?ev sid state at"
    using assms(2) by (simp add: exits_def new_entry_def journal_alike_def)
  show ?thesis
  proof (cases "is_terminal state \<and> jn_terminal (ev_journal ?ev) sid = Some False")
    case True
    let ?ev2 = "ev_journal_update (\<lambda>_. (case jn_progress (ev_journal ?ev) sid of
         None \<Rightarrow> (ev_journal ?ev)\<lparr>jn_terminal := (jn_terminal (ev_journal ?ev))(sid \<mapsto> True)\<rparr>
       | Some p \<Rightarrow> (ev_journal ?ev)\<lparr>jn_terminal := (jn_terminal (ev_journal ?ev))(sid \<mapsto> True),
           jn_progress := (jn_progress (ev_journal ?ev))(sid \<mapsto> progress_abandon_all p now)\<rparr>)) ?ev"
    have o: "observe_append ?ev sid state now at = (record_append ?ev2 sid Exited None at, True)"
      using True by (simp add: observe_append_def Let_def split: option.split)
    have "logged ?ev2 log" by (rule logged_cong [OF q]) (simp_all split: option.split)
    from logged_append [OF this, of sid Exited None at]
    have "logged (record_append ?ev2 sid Exited None at) (log @ [new_entry ?ev sid Exited None at])"
      by (simp add: new_entry_def split: option.splits)
    then show ?thesis using True assms(2,3) unfolding e
      by (simp add: advances_def observe_entry_def o exits_def journal_alike_def) (simp add: record_append_def)
  next
    case False
    then have "observe_append ?ev sid state now at =
        (?ev\<lparr>ev_journal := (ev_journal ?ev)\<lparr>jn_terminal := (jn_terminal (ev_journal ?ev))(sid \<mapsto> is_terminal state)\<rparr>\<rparr>, False)"
      by (auto simp: observe_append_def Let_def)
    moreover have "exits ?ev sid state at = []" using False by (simp add: exits_def)
    ultimately show ?thesis using q assms(2,3) unfolding e
      by (simp add: advances_def observe_entry_def journal_alike_def logged_def)
  qed
qed

text \<open>What follows an observation under the same lock changes only turns.\<close>

lemma advances_alike:
  assumes "advances w (r, log)" and "journal_alike (rg_turns r) (rg_turns r')" and "rg_unbumped r' = rg_unbumped r"
  shows "advances w (r', log)"
  using assms alike_logged [OF assms(2)] unfolding advances_def journal_alike_def by (auto split: prod.splits)

lemma install_alike:
  "journal_alike ev (events_depart (new_generation ev sid) sid owner)"
  "journal_alike ev (events_adopt (events_depart (new_generation ev sid) sid owner) sid owner now)"
  by (meson journal_alike_trans turn_operations_alike(1,3,5))+

lemma set_unpersisted_simps [simp]:
  "rg_turns (set_unpersisted r sid shown) = rg_turns r" "rg_unbumped (set_unpersisted r sid shown) = rg_unbumped r"
  "rg_sessions (set_unpersisted r sid shown) = rg_sessions r" "rg_holder (set_unpersisted r sid shown) = rg_holder r"
  by (simp_all add: set_unpersisted_def)

lemma advances_refl: "logged (rg_turns r) log \<Longrightarrow> advances (r, log) (r, log)"
  by (simp add: advances_def)

lemma step_advances:
  assumes "world_step X w w'" and "logged (rg_turns (fst w)) (snd w)"
  shows "advances w w'"
  using assms
proof cases
  case (append r log sid kind notification at)
  then show ?thesis using logged_append [of "rg_turns r" log sid kind notification at] assms(2)
    by (simp add: advances_def) (simp add: record_append_def)
next
  case (bump r n log)
  then show ?thesis using assms(2) by (simp add: advances_def bump_def logged_def)
next
  case (transition r log sid entry now at)
  have "advances (r, log) (observe_entry (set_unpersisted r sid None) sid (se_state entry) now at,
      log @ exits (rg_turns r) sid (se_state entry) at)"
    by (rule observe_entry_advances) (use assms(2) transition in simp_all)
  then show ?thesis unfolding transition(1,2) by (rule advances_alike) (simp_all add: begin_transition_def)
next
  case (install r log sid entry now at)
  have "advances (r, log) (observe_entry (set_unpersisted r sid None) sid (se_state entry) now at,
      log @ exits (rg_turns r) sid (se_state entry) at)"
    by (rule observe_entry_advances) (use assms(2) install in simp_all)
  then show ?thesis unfolding install(1,2)
    by (rule advances_alike)
      (simp_all add: begin_install_def Let_def install_alike)
next
  case (placeholder r sid entry shown now at r' log)
  have "advances (r, log) (observe_entry (set_unpersisted r sid (Some shown)) sid (se_state entry) now at,
      log @ exits (rg_turns r) sid (se_state entry) at)"
    by (rule observe_entry_advances) (use assms(2) placeholder in simp_all)
  then show ?thesis unfolding placeholder(1,2)
    by (rule advances_alike) (use placeholder(4) in \<open>auto simp: begin_placeholder_def split: option.splits\<close>)
next
  case (remove r sid log)
  then show ?thesis using assms(2) by (simp add: advances_def begin_remove_def forget_entry_def logged_def)
next
  case (commit r log)
  then show ?thesis using assms(2)
    by (auto simp: advances_def commit_change_def split: option.split pending_change.split)
next
  case (relist r sid log entry)
  then show ?thesis using assms(2) by (auto simp: advances_def relist_def split: option.split)
next
  case (removed sid r log)
  then show ?thesis using assms(2) by (simp add: advances_def forget_entry_def logged_def)
next
  case (turns r ev log)
  show ?thesis unfolding turns(1,2) by (rule advances_alike [OF advances_refl]) (use assms(2) turns in simp_all)
next
  case (other r' r log)
  show ?thesis unfolding other(1,2) by (rule advances_alike [OF advances_refl]) (use assms(2) other in simp_all)
qed

lemma advances_logged: "advances w w' \<Longrightarrow> logged (rg_turns (fst w')) (snd w')"
  by (auto simp: advances_def split: prod.splits)

interpretation world_steps: step_relation "world_step X" "\<lambda>w. logged (rg_turns (fst w)) (snd w)" advances for X
proof
  show "logged (rg_turns (fst w)) (snd w) \<Longrightarrow> advances w w" for w using advances_refl [of "fst w" "snd w"] by simp
qed (use step_advances advances_logged advances_trans in blast)+

lemma steps_advance: "(world_step X)\<^sup>*\<^sup>* w w' \<Longrightarrow> logged (rg_turns (fst w)) (snd w) \<Longrightarrow> advances w w'"
  by (rule world_steps.steps_chain)

section \<open>The registries a wait reads\<close>

definition world_views :: "session_id set \<Rightarrow> (nat \<Rightarrow> world) \<Rightarrow> bool" where
  "world_views X w \<longleftrightarrow>
     logged (rg_turns (fst (w 0))) (snd (w 0)) \<and> epoch_ok (ev_epoch (rg_turns (fst (w 0)))) \<and>
     (\<forall>k. (world_step X)\<^sup>*\<^sup>* (w k) (w (Suc k))) \<and> (\<forall>k. length (snd (w k)) \<le> u64_max)"

abbreviation regs :: "(nat \<Rightarrow> world) \<Rightarrow> views" where
  "regs w \<equiv> \<lambda>k. fst (w k)"

abbreviation log_at :: "(nat \<Rightarrow> world) \<Rightarrow> nat \<Rightarrow> turn_entry list" where
  "log_at w k \<equiv> snd (w k)"

lemma views_steps:
  assumes "world_views X w" and "j \<le> k"
  shows "(world_step X)\<^sup>*\<^sup>* (w j) (w k)"
  using assms(2)
proof (induction k rule: dec_induct)
  case (step n)
  then show ?case using assms(1) unfolding world_views_def by (meson rtranclp_trans)
qed simp

lemma views_logged: "world_views X w \<Longrightarrow> logged (rg_turns (regs w k)) (log_at w k)"
  using advances_logged [OF steps_advance [OF views_steps [of X w 0 k]]] by (simp add: world_views_def)

lemma views_advance: "world_views X w \<Longrightarrow> j \<le> k \<Longrightarrow> advances (w j) (w k)"
  using steps_advance [OF views_steps [of X w j k] views_logged [of X w j]] by blast

lemma views_grow:
  assumes "world_views X w" and "j \<le> k"
  shows "\<exists>es. log_at w k = log_at w j @ es"
  using views_advance [OF assms] by (auto simp: advances_def split: prod.splits)

lemma views_bound: "world_views X w \<Longrightarrow> length (log_at w k) \<le> u64_max"
  by (simp add: world_views_def)

lemma views_length: "world_views X w \<Longrightarrow> j \<le> k \<Longrightarrow> length (log_at w j) \<le> length (log_at w k)"
  using views_grow by fastforce

lemma views_epoch:
  assumes "world_views X w"
  shows "ev_epoch (rg_turns (regs w k)) = ev_epoch (rg_turns (regs w 0))"
    and "ev_capacity (rg_turns (regs w k)) = ev_capacity (rg_turns (regs w 0))"
  using views_advance [OF assms, of 0 k] by (auto simp: advances_def split: prod.splits)

section \<open>What the reads of a wait see\<close>

lemma look_simps [simp]:
  "look_ret x v k = (Ok x, k)" "look_fail e v k = (Err e, k)" "look_read f v k = (Ok (f (v k)), Suc k)"
  by (simp_all add: look_ret_def look_fail_def look_read_def)

lemma look_bind_Ok:
  assumes "look_bind m f v k = (Inr y, k')"
  obtains x k1 where "m v k = (Inr x, k1)" and "f x v k1 = (Inr y, k')"
  using assms by (auto simp: look_bind_def split: prod.splits sum.splits)

lemma look_bind_pos:
  assumes "look_bind m f v k = (y, k')" and "\<And>x k1. m v k = (x, k1) \<Longrightarrow> k \<le> k1"
    and "\<And>x k1 y k2. f x v k1 = (y, k2) \<Longrightarrow> k1 \<le> k2"
  shows "k \<le> k'"
  using assms(1) assms(2) assms(3) unfolding look_bind_def
  by (auto split: prod.splits sum.splits) (meson le_trans)

lemma inspect_pos: "inspect sid v k = (y, k') \<Longrightarrow> k \<le> k'"
  by (auto simp: inspect_def look_bind_def split: option.splits)

lemma inspect_all_pos: "inspect_all ids v k = (y, k') \<Longrightarrow> k \<le> k'"
proof (induction ids arbitrary: k y k')
  case (Cons sid rest)
  show ?case
    using Cons.prems unfolding inspect_all.simps
  proof (rule look_bind_pos)
    fix info k1 z k2 assume "look_bind (inspect_all rest) (\<lambda>t. look_ret (is_terminal (si_state info) \<and> t)) v k1 = (z, k2)"
    then show "k1 \<le> k2" by (rule look_bind_pos) (auto intro: Cons.IH)
  qed (rule inspect_pos)
qed simp

lemma turn_progress_of_pos: "turn_progress_of rfc sid since v k = (y, k') \<Longrightarrow> k \<le> k'"
  using inspect_pos [of sid v k] by (fastforce simp: turn_progress_of_def look_bind_def Let_def split: prod.splits sum.splits)

lemma target_progress_pos: "target_progress rfc ids since v k = (y, k') \<Longrightarrow> k \<le> k'"
proof (induction ids arbitrary: k y k')
  case (Cons sid rest)
  show ?case
    using Cons.prems unfolding target_progress.simps
  proof (rule look_bind_pos)
    fix p k1 z k2 assume "look_bind (target_progress rfc rest since) (\<lambda>ps. look_ret (p # ps)) v k1 = (z, k2)"
    then show "k1 \<le> k2" by (rule look_bind_pos) (auto intro: Cons.IH)
  qed (rule turn_progress_of_pos)
qed simp

lemma turn_result_Ok:
  assumes "turn_result rfc reason event seq ids since v k = (Inr res, k')"
  shows "\<exists>j. k \<le> j \<and> k' = Suc j \<and> wr_reason res = reason \<and> wr_event res = map_option wire_event event \<and>
    event_cursor (rg_turns (v j)) seq (unix_nanos_now (rg_clock (v j))) = Some (wr_cursor res)"
proof -
  obtain ps j where ps: "target_progress rfc ids since v k = (Inr ps, j)"
    and rest: "look_bind (look_read (\<lambda>r. event_cursor (rg_turns r) seq (unix_nanos_now (rg_clock r)))) (\<lambda>cursor.
       case cursor of None \<Rightarrow> look_fail WaitPanic
       | Some c \<Rightarrow> look_ret \<lparr>wr_reason = reason, wr_event = map_option wire_event event, wr_cursor = c, wr_progress = ps\<rparr>)
       v j = (Inr res, k')"
    using assms unfolding turn_result_def by (rule look_bind_Ok)
  show ?thesis
    using target_progress_pos [OF ps] rest
    by (intro exI [of _ j]) (auto simp: look_bind_def split: option.splits)
qed

definition outcome_of :: "wait_params \<Rightarrow> nat \<Rightarrow> bool \<Rightarrow> turn_events \<Rightarrow> outcome" where
  "outcome_of params n ended ev =
     (let s = journal_scan ev n (wp_session_ids params) (wp_until params) in
      if ts_evicted s then OutcomeReset (ts_latest s)
      else (case ts_event s of
              Some entry \<Rightarrow> OutcomeEvent entry
            | None \<Rightarrow> if ended then OutcomeEnded (ts_latest s) else OutcomePending (ts_latest s)))"

lemma turn_outcome_Ok:
  assumes "turn_outcome params n v k = (Inr out, k')"
  obtains ended j where "inspect_all (wp_session_ids params) v k = (Inr ended, j)" and "k' = Suc j"
    and "out = outcome_of params n ended (rg_turns (v j))"
  using assms unfolding turn_outcome_def
  by (elim look_bind_Ok) (auto simp: outcome_of_def Let_def)

fun result_of :: "outcome \<Rightarrow> bool \<Rightarrow> (wait_reason \<times> turn_entry option \<times> nat) option" where
  "result_of (OutcomeEvent e) d = Some (ReasonEvent, Some e, te_seq e)"
| "result_of (OutcomeEnded l) d = Some (ReasonTargetsEnded, None, l)"
| "result_of (OutcomeReset l) d = Some (ReasonCursorReset, None, l)"
| "result_of (OutcomePending l) d = (if d then Some (ReasonTimeout, None, l) else None)"

lemma outcome_result_alt:
  "turn_outcome_result rfc params n since d =
     look_bind (turn_outcome params n) (\<lambda>out.
       case result_of out d of
         None \<Rightarrow> look_ret None
       | Some (reason, event, seq) \<Rightarrow>
           look_bind (turn_result rfc reason event seq (wp_session_ids params) since) (\<lambda>res. look_ret (Some res)))"
  unfolding turn_outcome_result_def by (rule arg_cong [where f = "look_bind _"], rule ext) (auto split: outcome.split)

text \<open>One check of a wait: at read \<open>j\<close> it scanned the journal, at a later read \<open>i\<close> it issued the cursor.\<close>

lemma outcome_result_Ok:
  assumes "turn_outcome_result rfc params n since d v k = (Inr o1, k')"
  obtains ended j where "inspect_all (wp_session_ids params) v k = (Inr ended, j)" and "k \<le> j" and "j < k'"
    and "case result_of (outcome_of params n ended (rg_turns (v j))) d of
        None \<Rightarrow> o1 = None
      | Some (reason, event, seq) \<Rightarrow>
          (\<exists>res i. o1 = Some res \<and> j < i \<and> k' = Suc i \<and> wr_reason res = reason \<and> wr_event res = map_option wire_event event \<and>
             event_cursor (rg_turns (v i)) seq (unix_nanos_now (rg_clock (v i))) = Some (wr_cursor res))"
proof -
  from assms obtain out k1 where o: "turn_outcome params n v k = (Inr out, k1)"
    and r: "(case result_of out d of None \<Rightarrow> look_ret None
       | Some (reason, event, seq) \<Rightarrow>
           look_bind (turn_result rfc reason event seq (wp_session_ids params) since) (\<lambda>res. look_ret (Some res))) v k1 = (Inr o1, k')"
    unfolding outcome_result_alt by (elim look_bind_Ok)
  from turn_outcome_Ok [OF o] obtain ended j where j: "inspect_all (wp_session_ids params) v k = (Inr ended, j)" "k1 = Suc j"
    "out = outcome_of params n ended (rg_turns (v j))" .
  show ?thesis
  proof (cases "result_of out d")
    case None
    then show ?thesis using r j inspect_all_pos [OF j(1)] by (intro that [OF j(1)]) auto
  next
    case (Some x)
    obtain reason event seq where x: "x = (reason, event, seq)" by (metis surj_pair)
    obtain res where res: "turn_result rfc reason event seq (wp_session_ids params) since v (Suc j) = (Inr res, k')" "o1 = Some res"
      using r j(2) unfolding Some x by (auto elim!: look_bind_Ok)
    from turn_result_Ok [OF this(1)] show ?thesis
      using inspect_all_pos [OF j(1)] j(3) Some x res(2) by (intro that [OF j(1)]) auto
  qed
qed

definition checked :: "wait_params \<Rightarrow> nat \<Rightarrow> views \<Rightarrow> nat \<Rightarrow> turn_wait_result \<Rightarrow> nat \<Rightarrow> bool" where
  "checked params n v k res k' \<longleftrightarrow>
     (\<exists>k0 j i ended d event seq.
        k \<le> k0 \<and> inspect_all (wp_session_ids params) v k0 = (Inr ended, j) \<and> j < i \<and> k' = Suc i \<and>
        result_of (outcome_of params n ended (rg_turns (v j))) d = Some (wr_reason res, event, seq) \<and>
        wr_event res = map_option wire_event event \<and>
        event_cursor (rg_turns (v i)) seq (unix_nanos_now (rg_clock (v i))) = Some (wr_cursor res))"

definition pending_at :: "wait_params \<Rightarrow> nat \<Rightarrow> views \<Rightarrow> nat \<Rightarrow> bool" where
  "pending_at params n v j \<longleftrightarrow> (\<exists>ended l. outcome_of params n ended (rg_turns (v j)) = OutcomePending l)"

lemma outcome_result_checked:
  assumes "turn_outcome_result rfc params n since d v k0 = (Inr (Some res), k')" and "k \<le> k0"
  shows "checked params n v k res k'"
  using assms(1)
proof (rule outcome_result_Ok)
  fix ended j assume j: "inspect_all (wp_session_ids params) v k0 = (Inr ended, j)" "k0 \<le> j" "j < k'"
    and c: "case result_of (outcome_of params n ended (rg_turns (v j))) d of
        None \<Rightarrow> Some res = None
      | Some (reason, event, seq) \<Rightarrow>
          (\<exists>res' i. Some res = Some res' \<and> j < i \<and> k' = Suc i \<and> wr_reason res' = reason \<and>
             wr_event res' = map_option wire_event event \<and>
             event_cursor (rg_turns (v i)) seq (unix_nanos_now (rg_clock (v i))) = Some (wr_cursor res'))"
  obtain event seq i where "result_of (outcome_of params n ended (rg_turns (v j))) d = Some (wr_reason res, event, seq)"
    "j < i" "k' = Suc i" "wr_event res = map_option wire_event event"
    "event_cursor (rg_turns (v i)) seq (unix_nanos_now (rg_clock (v i))) = Some (wr_cursor res)"
    using c by (cases "result_of (outcome_of params n ended (rg_turns (v j))) d") auto
  then show ?thesis unfolding checked_def using assms(2) j(1) by blast
qed

lemma outcome_result_pending:
  assumes "turn_outcome_result rfc params n since d v k = (Inr None, k')"
  shows "\<not> d \<and> (\<exists>j. k \<le> j \<and> j < k' \<and> pending_at params n v j)"
  using assms
proof (rule outcome_result_Ok)
  fix ended j assume "k \<le> j" "j < k'"
    and c: "case result_of (outcome_of params n ended (rg_turns (v j))) d of
        None \<Rightarrow> (None :: turn_wait_result option) = None
      | Some (reason, event, seq) \<Rightarrow>
          (\<exists>res' i. (None :: turn_wait_result option) = Some res' \<and> j < i \<and> k' = Suc i \<and> wr_reason res' = reason \<and>
             wr_event res' = map_option wire_event event \<and>
             event_cursor (rg_turns (v i)) seq (unix_nanos_now (rg_clock (v i))) = Some (wr_cursor res'))"
  moreover from c have "result_of (outcome_of params n ended (rg_turns (v j))) d = None"
    by (cases "result_of (outcome_of params n ended (rg_turns (v j))) d") auto
  ultimately show ?thesis
    unfolding pending_at_def by (cases "outcome_of params n ended (rg_turns (v j))") (auto split: if_splits)
qed

lemma check_cases:
  obtains e where "x = Inl e" | "x = Inr None" | y where "x = Inr (Some y)"
  by (metis old.sum.exhaust option.exhaust)

lemma wait_loop_result:
  assumes "wait_loop rfc params n since seen wakes v k = (Finished (Inr res), k')" and "b \<le> k"
  shows "checked params n v b res k'"
  using assms
proof (induction rfc params n since seen wakes v k rule: wait_loop.induct)
  case (4 rfc params n since seen wakes v k)
  then show ?case
    by (auto intro: outcome_result_checked [OF _ 4(2)] split: prod.splits sum.splits option.splits)
next
  case (5 rfc params n since seen wakes v k)
  show ?case
  proof (cases "ev_version (rg_turns (v k)) = seen")
    case True
    then show ?thesis using 5 by simp
  next
    case False
    obtain x k1 where x: "turn_outcome_result rfc params n since False v (Suc k) = (x, k1)" by fastforce
    show ?thesis
    proof (cases x rule: check_cases)
      case 2
      then have "k1 > k" using outcome_result_pending [of rfc params n since False v "Suc k" k1] x by auto
      then show ?thesis using 5(2) [OF False _ 2] 5(3,4) x 2 False by auto
    next
      case (3 r)
      then show ?thesis using 5(3,4) x False outcome_result_checked [of rfc params n since False v "Suc k" r k1 b] by auto
    qed (use 5(3) x False in auto)
  qed
qed auto

lemma wait_check_result:
  assumes "wait_check rfc config params n since seen wakes v k = (Finished (Inr res), k')"
  shows "checked params n v k res k'"
proof -
  obtain x k1 where x: "turn_outcome_result rfc params n since False v k = (x, k1)" by fastforce
  show ?thesis
  proof (cases x rule: check_cases)
    case 2
    have "k \<le> k1" using outcome_result_pending [OF x [unfolded 2]] by auto
    then show ?thesis
      using assms x 2 wait_loop_result [of rfc params n since seen wakes v "Suc k1" res k' k]
      by (auto simp: wait_check_def split: prod.splits option.splits)
  next
    case (3 r)
    then show ?thesis using assms x outcome_result_checked [of rfc params n since False v k r k1 k]
      by (auto simp: wait_check_def)
  qed (use assms x in \<open>auto simp: wait_check_def\<close>)
qed

lemma wait_turn_result:
  assumes "wait_turn rfc config params wakes v k = (Finished (Inr res), k')"
  shows "(\<exists>k1 c. k < k1 \<and> k1 < k' \<and> wp_after params = Some c \<and> place (rg_turns (v k1)) c = None \<and>
      wr_reason res = ReasonCursorReset \<and> wr_event res = None) \<or>
    (\<exists>k1 n. k < k1 \<and> checked params n v (Suc k1) res k' \<and>
      (case wp_after params of
         None \<Rightarrow> n = latest (rg_turns (v k1))
       | Some c \<Rightarrow> map_option cp_seq (place (rg_turns (v k1)) c) = Some n))"
proof -
  obtain x k1 where x: "inspect_all (wp_session_ids params) v (Suc k) = (x, k1)" by fastforce
  have k1: "k < Suc k1" using inspect_all_pos [OF x] by simp
  note run = assms [unfolded wait_turn_def Let_def x prod.case]
  obtain y where y: "x = Inr y" using run by (cases x) (auto split: if_splits)
  show ?thesis
  proof (cases "wp_after params")
    case None
    then have "checked params (latest (rg_turns (v (Suc k1)))) v (Suc (Suc k1)) res k'"
      using run y by (auto split: if_splits intro: wait_check_result)
    then show ?thesis using None k1
      by - (rule disjI2, rule exI [of _ "Suc k1"], rule exI [of _ "latest (rg_turns (v (Suc k1)))"], simp)
  next
    case (Some c)
    show ?thesis
    proof (cases "place (rg_turns (v (Suc k1))) c")
      case None
      then obtain l where "turn_result rfc ReasonCursorReset None l (wp_session_ids params) (unix_nanos_now (rg_clock (v k))) v
          (Suc (Suc (Suc k1))) = (Inr res, k')"
        using run y Some by (auto split: if_splits prod.splits sum.splits)
      from turn_result_Ok [OF this] show ?thesis using None Some k1 by (intro disjI1 exI [of _ "Suc k1"]) auto
    next
      case pos: (Some pos)
      then have "checked params (cp_seq pos) v (Suc (Suc k1)) res k'"
        using run y Some by (auto split: if_splits intro: wait_check_result)
      then show ?thesis using Some pos k1
        by - (rule disjI2, rule exI [of _ "Suc k1"], rule exI [of _ "cp_seq pos"], simp)
    qed
  qed
qed

section \<open>A check against the log\<close>

abbreviation sel :: "wait_params \<Rightarrow> turn_entry \<Rightarrow> bool" where
  "sel params \<equiv> selected (wp_session_ids params) (wp_until params)"

lemma outcome_log:
  assumes "logged ev log" and "length log \<le> u64_max" and "n \<le> length log"
    and "result_of (outcome_of params n ended ev) d = Some (reason, event, seq)" and "reason \<noteq> ReasonCursorReset"
  shows "n \<le> seq" and "seq \<le> length log"
    and "filter (sel params) (slice log n seq) = (case event of None \<Rightarrow> [] | Some e \<Rightarrow> [e])"
proof -
  let ?s = "journal_scan ev n (wp_session_ids params) (wp_until params)"
  have ok: "logged ev log \<and> length log \<le> u64_max" using assms(1,2) by simp
  have ne: "\<not> evicted_after (ev_journal ev) n" using assms(4,5) by (auto simp: outcome_of_def journal_scan_def Let_def split: if_splits)
  have "n \<le> seq \<and> seq \<le> length log \<and> filter (sel params) (slice log n seq) = (case event of None \<Rightarrow> [] | Some e \<Rightarrow> [e])"
  proof (cases "ts_event ?s")
    case None
    then have "event = None" "seq = length log"
      using assms(4,5) scan_log(1) [OF assms(1,2)] by (auto simp: outcome_of_def Let_def split: if_splits)
    then show ?thesis using scan_none [OF ok ne None] assms(3) by (simp add: slice_to_end)
  next
    case (Some e)
    then have "event = Some e" "seq = te_seq e" using assms(4,5) by (auto simp: outcome_of_def Let_def split: if_splits)
    then show ?thesis using scan_found [OF ok ne Some] by simp
  qed
  then show "n \<le> seq" "seq \<le> length log" "filter (sel params) (slice log n seq) = (case event of None \<Rightarrow> [] | Some e \<Rightarrow> [e])"
    by simp_all
qed

lemma pending_log:
  assumes "logged ev log" and "length log \<le> u64_max" and "outcome_of params n ended ev = OutcomePending l"
  shows "filter (sel params) (drop n log) = []" and "\<not> n < length log - ev_capacity ev"
proof -
  have ne: "\<not> evicted_after (ev_journal ev) n" and none: "ts_event (journal_scan ev n (wp_session_ids params) (wp_until params)) = None"
    using assms(3) by (auto simp: outcome_of_def journal_scan_def Let_def split: if_splits option.splits)
  show "filter (sel params) (drop n log) = []" using scan_none [OF conjI [OF assms(1,2)] ne none] .
  show "\<not> n < length log - ev_capacity ev" using evicted_after_iff [OF assms(1,2)] ne by simp
qed

text \<open>A cursor at position \<open>n\<close> of the daemon instance of \<open>w\<close>.\<close>

definition cursor_at :: "(nat \<Rightarrow> world) \<Rightarrow> bytes \<Rightarrow> nat \<Rightarrow> bool" where
  "cursor_at w c n \<longleftrightarrow> (\<exists>k issued. event_cursor (rg_turns (regs w k)) n issued = Some c \<and> issued \<le> u64_max \<and> n \<le> u64_max)"

lemma cursor_at_place:
  assumes "world_views X w" and "cursor_at w c n" and "place (rg_turns (regs w k)) c = Some pos"
  shows "cp_seq pos = n" and "n \<le> length (log_at w k)"
proof -
  obtain j issued where c: "event_cursor (rg_turns (regs w j)) n issued = Some c" "issued \<le> u64_max" "n \<le> u64_max"
    using assms(2) unfolding cursor_at_def by blast
  from place_cursor [OF c(1) c(3) c(2), of "rg_turns (regs w k)"] assms(3)
  show "cp_seq pos = n" "n \<le> length (log_at w k)"
    using views_logged [OF assms(1), of k] by (auto simp: logged_def split: if_splits)
qed

lemma wait_turn_exact:
  assumes "world_views X w" and "wait_turn rfc config params wakes (regs w) k = (Finished (Inr res), k')"
    and "wp_after params = Some c" and "cursor_at w c n" and "wr_reason res \<noteq> ReasonCursorReset"
  shows "\<exists>m. cursor_at w (wr_cursor res) m \<and> n \<le> m \<and> m \<le> length (log_at w k') \<and> k < k' \<and>
    map wire_event (filter (sel params) (slice (log_at w k') n m)) = (case wr_event res of None \<Rightarrow> [] | Some e \<Rightarrow> [e])"
proof -
  obtain k1 where k1: "k < k1" and ch: "checked params n (regs w) (Suc k1) res k'" and nk: "n \<le> length (log_at w k1)"
    using wait_turn_result [OF assms(2)] assms(3,5) cursor_at_place [OF assms(1,4)] by fastforce
  obtain k0 j i ended d event seq where st: "Suc k1 \<le> k0" "inspect_all (wp_session_ids params) (regs w) k0 = (Inr ended, j)"
      "j < i" "k' = Suc i"
      "result_of (outcome_of params n ended (rg_turns (regs w j))) d = Some (wr_reason res, event, seq)"
      "wr_event res = map_option wire_event event"
      "event_cursor (rg_turns (regs w i)) seq (unix_nanos_now (rg_clock (regs w i))) = Some (wr_cursor res)"
    using ch unfolding checked_def by blast
  have j: "k1 \<le> j" using st(1) inspect_all_pos [OF st(2)] by simp
  have "n \<le> length (log_at w j)" using nk views_length [OF assms(1) j] by simp
  note o = outcome_log [OF views_logged [OF assms(1)] views_bound [OF assms(1)] this st(5) assms(5)]
  obtain es where es: "log_at w k' = log_at w j @ es" using views_grow [OF assms(1), of j k'] st(3,4) by auto
  have "cursor_at w (wr_cursor res) seq"
    using st(7) unix_nanos_now_bound o(2) views_bound [OF assms(1), of j] unfolding cursor_at_def by (meson le_trans)
  then show ?thesis
    using o es st(3,4,6) j k1 slice_append_left [OF o(2), of es n]
    by (intro exI [of _ seq]) (auto split: option.splits)
qed

section \<open>Resets\<close>

lemma evicted_mono:
  assumes "world_views X w" and "j \<le> k" and "n < length (log_at w j) - ev_capacity (rg_turns (regs w j))"
  shows "n < length (log_at w k) - ev_capacity (rg_turns (regs w 0))"
  using assms(3) views_length [OF assms(1,2)] views_epoch(2) [OF assms(1), of j] by simp

lemma wait_turn_reset:
  assumes "world_views X w" and "wait_turn rfc config params wakes (regs w) k = (Finished (Inr res), k')"
    and "wp_after params = Some c" and "cursor_at w c n" and "n \<le> length (log_at w k)" and "wr_reason res = ReasonCursorReset"
  shows "n < length (log_at w k') - ev_capacity (rg_turns (regs w 0))"
  using wait_turn_result [OF assms(2)]
proof (elim disjE exE conjE)
  fix k1 c' assume k1: "k < k1" "k1 < k'" and "wp_after params = Some c'" and pl: "place (rg_turns (regs w k1)) c' = None"
  then have c': "c' = c" using assms(3) by simp
  obtain j issued where c: "event_cursor (rg_turns (regs w j)) n issued = Some c" "issued \<le> u64_max" "n \<le> u64_max"
    using assms(4) unfolding cursor_at_def by blast
  have "n \<le> jn_latest (ev_journal (rg_turns (regs w k1)))"
    using assms(5) views_length [OF assms(1), of k k1] k1(1) views_logged [OF assms(1), of k1] by (simp add: logged_def)
  then have "evicted_after (ev_journal (rg_turns (regs w k1))) n"
    using pl views_epoch(1) [OF assms(1), of j] views_epoch(1) [OF assms(1), of k1] unfolding c' place_cursor [OF c(1) c(3) c(2)] by (auto split: if_splits)
  then show ?thesis
    using evicted_mono [OF assms(1), of k1 k' n] k1(2)
      evicted_after_iff [OF views_logged [OF assms(1)] views_bound [OF assms(1)], of k1 n] by simp
next
  fix k1 m assume ch: "checked params m (regs w) (Suc k1) res k'"
    and "case wp_after params of None \<Rightarrow> m = latest (rg_turns (regs w k1))
      | Some c \<Rightarrow> map_option cp_seq (place (rg_turns (regs w k1)) c) = Some m"
  then have m: "m = n" using assms(3) cursor_at_place [OF assms(1,4)] by auto
  obtain j i ended d event seq where j: "j < i" "k' = Suc i"
      "result_of (outcome_of params n ended (rg_turns (regs w j))) d = Some (ReasonCursorReset, event, seq)"
    using ch assms(6) unfolding checked_def m by auto
  then have "ts_evicted (journal_scan (rg_turns (regs w j)) n (wp_session_ids params) (wp_until params))"
    by (auto simp: outcome_of_def Let_def split: if_splits option.splits)
  then show ?thesis
    using evicted_mono [OF assms(1), of j k' n] j(1,2) scan_log(2) [OF views_logged [OF assms(1)] views_bound [OF assms(1)]]
    by simp
qed

section \<open>Exits of the targets\<close>

text \<open>The session is in the registry and running, and no change of it is under way that ends it.\<close>

definition running_target :: "registry \<Rightarrow> session_id \<Rightarrow> bool" where
  "running_target r sid \<longleftrightarrow>
     jn_terminal (ev_journal (rg_turns r)) sid = Some False \<and>
     (case rg_sessions r sid of None \<Rightarrow> False | Some e \<Rightarrow> \<not> is_terminal (se_state e)) \<and>
     (case rg_holder r of
        None \<Rightarrow> True
      | Some (Insert s e) \<Rightarrow> s = sid \<longrightarrow> \<not> is_terminal (se_state e)
      | Some (Remove s) \<Rightarrow> s \<noteq> sid)"

definition exit_logged :: "nat \<Rightarrow> session_id \<Rightarrow> turn_entry list \<Rightarrow> bool" where
  "exit_logged n sid log \<longleftrightarrow> (\<exists>e \<in> set (drop n log). te_session e = sid \<and> te_kind e = Exited)"

lemma exit_logged_append: "exit_logged n sid log \<Longrightarrow> exit_logged n sid (log @ es)"
  by (auto simp: exit_logged_def)

lemma exit_logged_exits:
  assumes "running_target r sid" and "is_terminal state" and "n \<le> length log"
  shows "exit_logged n sid (log @ exits (rg_turns r) sid state at)"
  using assms by (simp add: exit_logged_def exits_def running_target_def new_entry_def)

lemma observe_entry_simps:
  "rg_sessions (observe_entry r sid state now at) = rg_sessions r"
  "rg_holder (observe_entry r sid state now at) = rg_holder r"
  "jn_terminal (ev_journal (rg_turns (observe_entry r sid state now at))) =
     (jn_terminal (ev_journal (rg_turns r)))(sid \<mapsto> is_terminal state)"
  by (auto simp: observe_entry_def observe_append_def record_append_def append_entry_def Let_def split: option.splits)

lemma install_terminal:
  "jn_terminal (ev_journal (rg_turns (begin_install r sid entry now at))) =
     (jn_terminal (ev_journal (rg_turns r)))(sid \<mapsto> is_terminal (se_state entry))"
  using install_alike [of "rg_turns (observe_entry (set_unpersisted r sid None) sid (se_state entry) now at)" sid "se_owner entry"]
  by (simp add: begin_install_def Let_def journal_alike_def observe_entry_simps)

lemma begin_simps:
  "rg_sessions (begin_transition r sid entry now at) = rg_sessions r"
  "rg_holder (begin_transition r sid entry now at) = Some (Insert sid entry)"
  "jn_terminal (ev_journal (rg_turns (begin_transition r sid entry now at))) =
     (jn_terminal (ev_journal (rg_turns r)))(sid \<mapsto> is_terminal (se_state entry))"
  "rg_sessions (begin_install r sid entry now at) = rg_sessions r"
  "\<exists>e. rg_holder (begin_install r sid entry now at) = Some (Insert sid e) \<and> se_state e = se_state entry"
  by (auto simp: begin_transition_def begin_install_def Let_def observe_entry_simps)

lemma running_step:
  assumes "world_step X (r, log) (r', log')" and "running_target r sid" and "sid \<notin> X" and "n \<le> length log"
  shows "running_target r' sid \<or> exit_logged n sid log'"
  using assms(1)
proof cases
  case (transition s entry now at)
  then show ?thesis
    using assms(2) exit_logged_exits [OF assms(2) _ assms(4), of "se_state entry" at]
    by (cases "s = sid \<and> is_terminal (se_state entry)") (auto simp: running_target_def begin_simps)
next
  case (install s entry now at)
  obtain e where e: "rg_holder (begin_install r s entry now at) = Some (Insert s e)" "se_state e = se_state entry"
    using begin_simps(5) by blast
  show ?thesis
    using assms(2) exit_logged_exits [OF assms(2) _ assms(4), of "se_state entry" at] install e
    by (cases "s = sid \<and> is_terminal (se_state entry)") (auto simp: running_target_def begin_simps install_terminal)
next
  case (placeholder s entry shown now at)
  have "s \<noteq> sid" using placeholder assms(2) by (auto simp: begin_placeholder_def running_target_def split: option.splits)
  then show ?thesis
    using placeholder assms(2) by (auto simp: begin_placeholder_def running_target_def observe_entry_simps split: option.splits)
next
  case commit
  then show ?thesis using assms(2)
    by (auto simp: running_target_def commit_change_def split: option.splits pending_change.splits)
next
  case (other)
  have "map_option se_state (rg_sessions r' sid) = map_option se_state (rg_sessions r sid)" using other by simp
  then show ?thesis using assms(2) other(1,2,3) by (auto simp: running_target_def split: option.splits)
qed (use assms(2,3) in \<open>auto simp: running_target_def record_append_def append_entry_def bump_def begin_remove_def
      forget_entry_def relist_def journal_alike_def Let_def split: option.splits\<close>)

lemma running_steps:
  assumes "(world_step X)\<^sup>*\<^sup>* w w'" and "logged (rg_turns (fst w)) (snd w)" and "n \<le> length (snd w)" and "sid \<notin> X"
    and "running_target (fst w) sid \<or> exit_logged n sid (snd w)"
  shows "running_target (fst w') sid \<or> exit_logged n sid (snd w')"
  using assms(1)
proof (induction rule: rtranclp_induct)
  case (step y z)
  have adv: "advances w y" "advances y z"
    using steps_advance [OF step(1) assms(2)] step_advances [OF step(2) advances_logged] by blast+
  have "n \<le> length (snd y)" using adv(1) assms(3) by (auto simp: advances_def split: prod.splits)
  then show ?case
    using step(2,3) adv(2) running_step [of X "fst y" "snd y" "fst z" "snd z" sid n] assms(4)
    by (auto simp: advances_def exit_logged_append split: prod.splits)
qed (rule assms(5))

lemma inspect_all_terminal:
  assumes "inspect_all ids v k = (Inr True, j)" and "sid \<in> set ids"
  shows "\<exists>i. k \<le> i \<and> i < j \<and> \<not> running_target (v i) sid"
  using assms
proof (induction ids arbitrary: k)
  case (Cons s rest)
  obtain info k1 where s: "inspect s v k = (Inr info, k1)" and rest: "inspect_all rest v k1 = (Inr True, j)"
    and tm: "is_terminal (si_state info)"
    using Cons.prems(1) by (auto elim!: look_bind_Ok)
  show ?case
  proof (cases "s = sid")
    case True
    have "k < k1" using s by (auto simp: inspect_def look_bind_def split: option.splits)
    moreover have "\<not> running_target (v k) sid"
      using s tm True by (auto simp: inspect_def look_bind_def running_target_def split: option.splits)
    ultimately show ?thesis using inspect_all_pos [OF rest] by (intro exI [of _ k]) auto
  next
    case False
    then show ?thesis using Cons.IH [OF rest] Cons.prems(2) inspect_pos [OF s] by (auto intro: le_trans)
  qed
qed simp

lemma wait_turn_ended:
  assumes "world_views X w" and "wait_turn rfc config params wakes (regs w) k = (Finished (Inr res), k')"
    and "wp_after params = Some c" and "cursor_at w c n" and n: "n \<le> length (log_at w k)"
    and "Exited \<in> set (wp_until params)" and "sid \<in> set (wp_session_ids params)" and "sid \<notin> X"
    and "running_target (regs w k) sid"
  shows "wr_reason res \<noteq> ReasonTargetsEnded"
proof
  assume ended: "wr_reason res = ReasonTargetsEnded"
  obtain k1 where k1: "k < k1" and ch: "checked params n (regs w) (Suc k1) res k'"
    using wait_turn_result [OF assms(2)] assms(3) ended cursor_at_place [OF assms(1,4)] by fastforce
  obtain k0 j all d event seq where st: "Suc k1 \<le> k0" "inspect_all (wp_session_ids params) (regs w) k0 = (Inr all, j)"
      "result_of (outcome_of params n all (rg_turns (regs w j))) d = Some (ReasonTargetsEnded, event, seq)"
    using ch ended unfolding checked_def by auto
  let ?s = "journal_scan (rg_turns (regs w j)) n (wp_session_ids params) (wp_until params)"
  have sc: "all" "\<not> ts_evicted ?s" "ts_event ?s = None"
    using st(3) by (auto simp: outcome_of_def Let_def split: if_splits option.splits)
  obtain i where i: "k0 \<le> i" "i < j" "\<not> running_target (regs w i) sid"
    using inspect_all_terminal [of _ "regs w" k0 j sid] st(2) sc(1) assms(7) by auto
  have "exit_logged n sid (log_at w i)"
    using running_steps [OF views_steps [OF assms(1), of k i] views_logged [OF assms(1)] n assms(8)] assms(9) i(1,3) st(1) k1 by auto
  then have "exit_logged n sid (log_at w j)"
    using views_grow [OF assms(1), of i j] i(2) exit_logged_append by fastforce
  then have "List.find (sel params) (drop n (log_at w j)) \<noteq> None"
    using assms(6,7) by (auto simp: exit_logged_def find_None_iff selected_def)
  then show False
    using sc(3) scan_log(3) [OF views_logged [OF assms(1)] views_bound [OF assms(1)] sc(2)] by simp
qed

section \<open>Parked waits\<close>

definition parked_on :: "wait_params \<Rightarrow> nat \<Rightarrow> views \<Rightarrow> nat \<Rightarrow> nat \<Rightarrow> bool" where
  "parked_on params n v seen k \<longleftrightarrow>
     (\<exists>i j. i \<le> j \<and> j < k \<and> ev_version (rg_turns (v i)) = seen \<and> pending_at params n v j)"

lemma parked_on_mono: "parked_on params n v seen k \<Longrightarrow> k \<le> k' \<Longrightarrow> parked_on params n v seen k'"
  unfolding parked_on_def by (elim exE, rename_tac i j, rule_tac x = i in exI, rule_tac x = j in exI) simp

lemma wait_loop_parked:
  assumes "wait_loop rfc params n since seen wakes v k = (Parked s a, k')" and "parked_on params n v seen k"
  shows "a = n \<and> parked_on params n v s k'"
  using assms
proof (induction rfc params n since seen wakes v k rule: wait_loop.induct)
  case (4 rfc params n since seen wakes v k)
  then show ?case by (auto split: prod.splits sum.splits option.splits)
next
  case (5 rfc params n since seen wakes v k)
  show ?case
  proof (cases "ev_version (rg_turns (v k)) = seen")
    case True
    then show ?thesis using 5(1) [OF True] 5(3) parked_on_mono [OF 5(4), of "Suc k"] by simp
  next
    case False
    obtain x k1 where x: "turn_outcome_result rfc params n since False v (Suc k) = (x, k1)" by fastforce
    show ?thesis
    proof (cases x rule: check_cases)
      case 2
      obtain j where "Suc k \<le> j" "j < k1" "pending_at params n v j"
        using outcome_result_pending [OF x [unfolded 2]] by blast
      then have "parked_on params n v (ev_version (rg_turns (v k))) k1"
        unfolding parked_on_def by (intro exI [of _ k] exI [of _ j]) auto
      then show ?thesis using 5(2) [OF False _ 2] 5(3) x 2 False by auto
    qed (use 5(3) x False in auto)
  qed
qed auto

lemma wait_check_parked:
  assumes "wait_check rfc config params n since (ev_version (rg_turns (v i))) wakes v k = (Parked s a, k')" and "i \<le> k"
  shows "a = n \<and> parked_on params n v s k'"
proof -
  obtain x k1 where x: "turn_outcome_result rfc params n since False v k = (x, k1)" by fastforce
  show ?thesis
  proof (cases x rule: check_cases)
    case 2
    obtain j where "k \<le> j" "j < k1" "pending_at params n v j"
      using outcome_result_pending [OF x [unfolded 2]] by blast
    then have "parked_on params n v (ev_version (rg_turns (v i))) (Suc k1)"
      using assms(2) unfolding parked_on_def by (intro exI [of _ i] exI [of _ j]) auto
    then show ?thesis
      using assms x 2 wait_loop_parked [of rfc params n since "ev_version (rg_turns (v i))" wakes v "Suc k1" s a k']
      by (auto simp: wait_check_def split: prod.splits option.splits)
  qed (use assms x in \<open>auto simp: wait_check_def\<close>)
qed

lemma wait_turn_parked:
  assumes "wait_turn rfc config params wakes v k = (Parked s n, k')"
  shows "parked_on params n v s k'"
proof -
  obtain x k1 where x: "inspect_all (wp_session_ids params) v (Suc k) = (x, k1)" by fastforce
  note run = assms [unfolded wait_turn_def Let_def x prod.case]
  obtain m since where "wait_check rfc config params m since (ev_version (rg_turns (v k1))) wakes v (Suc (Suc k1)) = (Parked s n, k')"
    using run by (auto split: if_splits sum.splits option.splits prod.splits)
  from wait_check_parked [OF this] show ?thesis by auto
qed

lemma parked_no_event:
  assumes "world_views X w" and "parked_on params n (regs w) (ev_version (rg_turns (regs w k))) k" and "rg_unbumped (regs w k) = 0"
  shows "filter (sel params) (drop n (log_at w k)) = []" and "\<not> n < length (log_at w k) - ev_capacity (rg_turns (regs w k))"
proof -
  obtain i j ended l where j: "i \<le> j" "j < k" "ev_version (rg_turns (regs w i)) = ev_version (rg_turns (regs w k))"
    and p: "outcome_of params n ended (rg_turns (regs w j)) = OutcomePending l"
    using assms(2) unfolding parked_on_def pending_at_def by blast
  have "log_at w k = log_at w i"
    using views_advance [OF assms(1), of i k] j assms(3) by (auto simp: advances_def split: prod.splits)
  then have same: "log_at w k = log_at w j"
    using views_grow [OF assms(1), of i j] views_length [OF assms(1), of j k] j(1,2) by auto
  show "filter (sel params) (drop n (log_at w k)) = []" "\<not> n < length (log_at w k) - ev_capacity (rg_turns (regs w k))"
    using pending_log [OF views_logged [OF assms(1)] views_bound [OF assms(1)] p] same views_epoch(2) [OF assms(1), of j]
      views_epoch(2) [OF assms(1), of k] by simp_all
qed

end
