(* ===== verification/Turn_Wait_Guarantees.thy ===== *)
theory Turn_Wait_Guarantees
  imports Turn_Wait_Run
begin

text \<open>
  What clients of \<open>session.wait_turn\<close> may rely on, for every interleaving of their waits with the daemon.
\<close>

section \<open>Chained waits\<close>

text \<open>
  A client that passes the cursor of each result to its next wait, whatever wakes those waits; the
  positions are the reads of the registry, and time may pass between the waits.
\<close>

inductive wait_chain ::
  "(nat \<Rightarrow> bytes option) \<Rightarrow> wait_config \<Rightarrow> wait_params \<Rightarrow> views \<Rightarrow> bytes \<Rightarrow> nat \<Rightarrow> session_turn_event list \<Rightarrow> bytes \<Rightarrow> nat \<Rightarrow> bool"
  for rfc config params v where
  stop: "wait_chain rfc config params v c k [] c k"
| wait: "wait_turn rfc config (params\<lparr>wp_after := Some c, wp_timeout_ms := timeout\<rparr>) wakes v k = (Finished (Inr res), k1) \<Longrightarrow>
    wr_reason res \<noteq> ReasonCursorReset \<Longrightarrow> k1 \<le> k2 \<Longrightarrow> wait_chain rfc config params v (wr_cursor res) k2 evs c' k' \<Longrightarrow>
    wait_chain rfc config params v c k ((case wr_event res of None \<Rightarrow> [] | Some e \<Rightarrow> [e]) @ evs) c' k'"

lemma chain_exact:
  assumes "world_views X w" and "wait_chain rfc config params (regs w) c k evs c' k'" and "cursor_at w c n"
    and "n \<le> length (log_at w k)"
  shows "k \<le> k' \<and> (\<exists>m. cursor_at w c' m \<and> n \<le> m \<and> m \<le> length (log_at w k') \<and>
      evs = map wire_event (filter (sel params) (slice (log_at w k') n m)))"
  using assms(2-4)
proof (induction arbitrary: n rule: wait_chain.induct)
  case (stop c k)
  then show ?case by auto
next
  case (wait timeout c wakes k res k1 k2 evs c' k')
  obtain m where m: "cursor_at w (wr_cursor res) m" "n \<le> m" "m \<le> length (log_at w k1)" "k < k1"
    "map wire_event (filter (sel params) (slice (log_at w k1) n m)) = (case wr_event res of None \<Rightarrow> [] | Some e \<Rightarrow> [e])"
    using wait_turn_exact [OF assms(1) wait.hyps(1) _ wait.prems(1) wait.hyps(2)] by auto
  have "m \<le> length (log_at w k2)" using m(3) views_length [OF assms(1) wait.hyps(3)] by simp
  from wait.IH [OF m(1) this] obtain m' where m': "k2 \<le> k'" "cursor_at w c' m'" "m \<le> m'" "m' \<le> length (log_at w k')"
    "evs = map wire_event (filter (sel params) (slice (log_at w k') m m'))" by blast
  obtain es where es: "log_at w k' = log_at w k1 @ es" using views_grow [OF assms(1), of k1 k'] wait.hyps(3) m'(1) by auto
  have "slice (log_at w k') n m' = slice (log_at w k1) n m @ slice (log_at w k') m m'"
    using slice_join [of n m m' "log_at w k'"] m(2) m'(3,4) slice_append_left [OF m(3), of es n] es by simp
  then have "(case wr_event res of None \<Rightarrow> [] | Some e \<Rightarrow> [e]) @ evs = map wire_event (filter (sel params) (slice (log_at w k') n m'))"
    using m(5) m'(5) by simp
  then show ?case using m(2,4) m' wait.hyps(3) by (intro conjI exI [of _ m']) auto
qed

section \<open>A wait always ends\<close>

lemma target_progress_error:
  assumes "target_progress rfc ids since v k = (Inl e, k')"
  shows "e \<noteq> WaitPanic"
  using assms
proof (induction ids arbitrary: k)
  case (Cons sid rest)
  have "turn_progress_of rfc sid since v k = (Inl WaitPanic, k') \<Longrightarrow> False"
    by (auto simp: turn_progress_of_def inspect_def look_bind_def Let_def split: option.splits)
  then show ?case using Cons by (auto simp: look_bind_def split: prod.splits sum.splits)
qed simp

lemma inspect_all_error: "inspect_all ids v k = (Inl e, k') \<Longrightarrow> e \<noteq> WaitPanic"
proof (induction ids arbitrary: k)
  case (Cons sid rest)
  have "inspect sid v k = (Inl WaitPanic, k') \<Longrightarrow> False"
    by (auto simp: inspect_def look_bind_def split: option.splits)
  then show ?case using Cons by (auto simp: look_bind_def split: prod.splits sum.splits)
qed simp

lemma turn_result_error:
  assumes "world_views X w" and "turn_result rfc reason event seq ids since (regs w) k = (Inl e, k')" and "seq \<le> u64_max"
  shows "e \<noteq> WaitPanic"
proof -
  have "\<exists>c. event_cursor (rg_turns (regs w j)) seq (unix_nanos_now (rg_clock (regs w j))) = Some c" for j
    by (rule event_cursor_ok [OF _ assms(3) unix_nanos_now_bound])
      (use assms(1) views_epoch(1) [OF assms(1), of j] in \<open>simp add: world_views_def\<close>)
  then show ?thesis using assms(2) target_progress_error [of rfc ids since "regs w" k e k']
    by (auto simp: turn_result_def look_bind_def split: prod.splits sum.splits) (metis option.case(2) look_simps(1) Pair_inject sum.distinct(1))
qed

lemma outcome_seq:
  assumes "logged ev log" and "length log \<le> u64_max"
    and "result_of (outcome_of params n ended ev) d = Some (reason, event, seq)"
  shows "seq \<le> u64_max"
proof -
  have "te_seq e \<le> length log" if "ts_event (journal_scan ev n ids kinds) = Some e" for e ids kinds
  proof -
    have "e \<in> set (jn_entries (ev_journal ev))"
      using that by (auto simp: journal_scan_def Let_def dest!: find_Some_in)
    then have "e \<in> set log" using assms(1) in_set_dropD by (fastforce simp: logged_def)
    then show ?thesis using assms(1) by (auto simp: logged_def in_set_conv_nth)
  qed
  moreover have "seq = length log \<or> (\<exists>e. ts_event (journal_scan ev n (wp_session_ids params) (wp_until params)) = Some e \<and> seq = te_seq e)"
    using assms(3) scan_log(1) [OF assms(1,2), of n "wp_session_ids params" "wp_until params"]
    by (cases "ts_event (journal_scan ev n (wp_session_ids params) (wp_until params))") (auto simp: outcome_of_def Let_def split: if_splits)
  ultimately show ?thesis using assms(2) by (meson le_trans order_refl)
qed

lemma outcome_result_error:
  assumes "world_views X w" and "turn_outcome_result rfc params n since d (regs w) k = (Inl e, k')"
  shows "e \<noteq> WaitPanic"
proof -
  obtain x k1 where x: "turn_outcome params n (regs w) k = (x, k1)" by fastforce
  show ?thesis
  proof (cases x)
    case (Inl a)
    then have "inspect_all (wp_session_ids params) (regs w) k = (Inl a, k1)"
      using x by (auto simp: turn_outcome_def look_bind_def split: prod.splits sum.splits)
    then show ?thesis using assms(2) x Inl inspect_all_error by (fastforce simp: outcome_result_alt look_bind_def)
  next
    case (Inr out)
    from turn_outcome_Ok [OF x [unfolded Inr]] obtain ended j where o: "out = outcome_of params n ended (rg_turns (regs w j))"
      by blast
    note run = assms(2) [unfolded outcome_result_alt look_bind_def [of "turn_outcome params n"] x prod.case Inr sum.case]
    show ?thesis
    proof (cases "result_of out d")
      case (Some y)
      obtain reason event seq where y: "y = (reason, event, seq)" by (metis surj_pair)
      have "turn_result rfc reason event seq (wp_session_ids params) since (regs w) k1 = (Inl e, k')"
        using run Some y by (auto simp: look_bind_def split: prod.splits sum.splits)
      moreover have "seq \<le> u64_max"
        using outcome_seq [OF views_logged [OF assms(1)] views_bound [OF assms(1)]] Some y o by blast
      ultimately show ?thesis by (rule turn_result_error [OF assms(1)])
    qed (use run in simp)
  qed
qed

definition final_wake :: "wake \<Rightarrow> bool" where
  "final_wake x \<longleftrightarrow> x \<noteq> WakeChanged"

lemma wait_loop_ends:
  assumes "world_views X w" and "list_ex final_wake wakes"
  shows "\<exists>r k'. wait_loop rfc params n since seen wakes (regs w) k = (Finished r, k') \<and> r \<noteq> Err WaitPanic"
  using assms(2)
proof (induction wakes arbitrary: seen k)
  case (Cons x wakes)
  show ?case
  proof (cases x)
    case WakeDeadline
    obtain y k1 where y: "turn_outcome_result rfc params n since True (regs w) k = (y, k1)" by fastforce
    show ?thesis
      by (cases y rule: check_cases)
        (use WakeDeadline y outcome_result_error [OF assms(1)] outcome_result_pending [of rfc params n since True "regs w" k k1] in auto)
  next
    case WakeChanged
    obtain y k1 where y: "turn_outcome_result rfc params n since False (regs w) (Suc k) = (y, k1)" by fastforce
    show ?thesis
      by (cases y rule: check_cases)
        (use WakeChanged y outcome_result_error [OF assms(1)] Cons in \<open>auto simp: final_wake_def\<close>)
  qed auto
qed simp

lemma wait_check_ends:
  assumes "world_views X w" and "list_ex final_wake wakes"
  shows "\<exists>r k'. wait_check rfc config params n since seen wakes (regs w) k = (Finished r, k') \<and> r \<noteq> Err WaitPanic"
proof -
  obtain y k1 where y: "turn_outcome_result rfc params n since False (regs w) k = (y, k1)" by fastforce
  show ?thesis
    by (cases y rule: check_cases)
      (use y outcome_result_error [OF assms(1)] wait_loop_ends [OF assms] in
        \<open>auto simp: wait_check_def split: prod.split option.split\<close>)
qed

lemma wait_turn_ends_here:
  assumes "world_views X w" and "list_ex final_wake wakes"
  shows "\<exists>r k'. wait_turn rfc config params wakes (regs w) k = (Finished r, k') \<and> r \<noteq> Err WaitPanic"
proof -
  obtain x k1 where x: "inspect_all (wp_session_ids params) (regs w) (Suc k) = (x, k1)" by fastforce
  have "latest (rg_turns (regs w j)) \<le> u64_max" for j
    using views_logged [OF assms(1), of j] views_bound [OF assms(1), of j] by (simp add: latest_def logged_def)
  note reset = turn_result_error [OF assms(1) _ this]
  show ?thesis
    using x inspect_all_error [of "wp_session_ids params" "regs w" "Suc k"] wait_check_ends [OF assms] reset
    by (auto simp: wait_turn_def Let_def split: sum.split option.split prod.split)
qed

section \<open>Waiter slots\<close>

lemma has_duplicate_iff: "has_duplicate xs \<longleftrightarrow> \<not> distinct xs"
proof -
  have "xs ! i \<in> set (take i xs) \<longleftrightarrow> (\<exists>j < i. xs ! j = xs ! i)" if "i < length xs" for i
    using that nth_image [of i xs, symmetric] by (auto simp: image_iff) (metis atLeastLessThan_iff zero_le)
  then have "has_duplicate xs \<longleftrightarrow> (\<exists>i < length xs. \<exists>j < i. xs ! j = xs ! i)"
    by (auto simp: has_duplicate_def list_ex_iff)
  then show ?thesis unfolding distinct_conv_nth by (metis nat_neq_iff order_less_trans)
qed

lemma wait_params_distinct: "wait_params_new ids until after timeout = Ok params \<Longrightarrow> distinct (wp_session_ids params) \<and> wp_session_ids params \<noteq> []"
  by (auto simp: wait_params_new_def has_duplicate_iff split: if_splits)

text \<open>
  The slots of the registry under any interleaving of waits that start, are refused and end, each with
  a request that passed validation, and of everything else the daemon does with its journal.
\<close>

inductive slot_run :: "wait_config \<Rightarrow> turn_events \<Rightarrow> session_id list list \<Rightarrow> bool" for config where
  start: "slot_run config (turn_events_new epoch capacity) []"
| begin_wait: "slot_run config ev permits \<Longrightarrow> wait_params_new ids until after timeout = Ok params \<Longrightarrow>
    acquire ev (wp_session_ids params) (wc_turn_global_waiters config) (wc_turn_session_waiters config) = (ev', Some p) \<Longrightarrow>
    slot_run config ev' (p # permits)"
| refuse: "slot_run config ev permits \<Longrightarrow>
    acquire ev targets (wc_turn_global_waiters config) (wc_turn_session_waiters config) = (ev', None) \<Longrightarrow>
    slot_run config ev' permits"
| end_wait: "slot_run config ev permits \<Longrightarrow> p \<in> set permits \<Longrightarrow> slot_run config (permit_drop ev p) (remove1 p permits)"
| other: "slot_run config ev permits \<Longrightarrow> ev_waiters ev' = ev_waiters ev \<Longrightarrow> slot_run config ev' permits"

definition slots_ok :: "wait_config \<Rightarrow> turn_events \<Rightarrow> session_id list list \<Rightarrow> bool" where
  "slots_ok config ev permits \<longleftrightarrow>
     slots_exact ev permits \<and> (\<forall>p \<in> set permits. distinct p) \<and>
     length permits \<le> wc_turn_global_waiters config \<and>
     (\<forall>sid. length (filter (\<lambda>p. sid \<in> set p) permits) \<le> max 1 (wc_turn_session_waiters config))"

lemma slot_run_ok: "slot_run config ev permits \<Longrightarrow> slots_ok config ev permits"
proof (induction rule: slot_run.induct)
  case (start epoch capacity)
  then show ?case by (simp add: slots_ok_def slots_exact_def turn_events_new_def waiters_default_def)
next
  case (begin_wait ev permits ids until after timeout params ev' p)
  have ex: "slots_exact ev permits" and dist: "distinct (wp_session_ids params)"
    using begin_wait.IH wait_params_distinct [OF begin_wait.hyps(2)] by (simp_all add: slots_ok_def)
  note acq = slots_acquired [OF ex begin_wait.hyps(3) dist]
  have "length (filter (\<lambda>q. sid \<in> set q) (p # permits)) \<le> max 1 (wc_turn_session_waiters config)" for sid
  proof (cases "sid \<in> set p \<and> 0 < wc_turn_session_waiters config")
    case True
    then show ?thesis using acq(2) acq(4) [of sid] by (simp add: le_max_iff_disj)
  next
    case False
    then show ?thesis using begin_wait.IH acq(2) begin_wait.hyps(3) ex
      by (cases "sid \<in> set p") (auto simp: slots_ok_def slots_exact_def acquire_def Let_def list_ex_iff split: if_splits option.splits)
  qed
  then show ?case using acq(1,2,3) dist begin_wait.IH by (auto simp: slots_ok_def)
next
  case (refuse ev permits targets ev')
  then show ?case using slots_refused by blast
next
  case (end_wait ev permits p)
  have "length (filter (\<lambda>q. sid \<in> set q) (remove1 p permits)) \<le> length (filter (\<lambda>q. sid \<in> set q) permits)" for sid
    by (simp add: filter_remove1 length_remove1)
  moreover have "slots_exact (permit_drop ev p) (remove1 p permits)"
    using slots_released end_wait unfolding slots_ok_def by blast
  ultimately show ?case using end_wait.IH by (auto simp: slots_ok_def length_remove1 dest: set_remove1_subset [THEN subsetD] intro: le_trans)
next
  case (other ev permits ev')
  then show ?case by (simp add: slots_ok_def slots_exact_def)
qed

section \<open>Properties\<close>

definition a_target :: session_id where "a_target = ''s-1''"

definition a_running_session :: session_entry where
  "a_running_session =
     \<lparr>se_state = Running, se_activity = Some Working, se_owner = \<lparr>to_entry = 1, to_agent = 4\<rparr>, se_reference_launch = None\<rparr>"

text \<open>A daemon with one running session that then completes a turn, and a client that waits for it.\<close>

definition a_registry :: registry where
  "a_registry =
     \<lparr>rg_sessions = [a_target \<mapsto> a_running_session], rg_external = Map.empty, rg_unpersisted = Map.empty,
      rg_turns = observe_state (turn_events_new ''d-7-9-0'' 4) a_target Running 0 ''12:00'', rg_holder = None,
      rg_unbumped = 0, rg_clock = Some 20\<rparr>"

definition a_completion :: turn_entry where
  "a_completion = new_entry (rg_turns a_registry) a_target TurnCompleted None ''12:05''"

definition a_later_registry :: registry where
  "a_later_registry =
     a_registry\<lparr>rg_turns := record_append (rg_turns a_registry) a_target TurnCompleted None ''12:05'', rg_unbumped := 1\<rparr>"

definition a_world :: "nat \<Rightarrow> nat \<Rightarrow> world" where
  "a_world m k = (if k < m then (a_registry, []) else (a_later_registry, [a_completion]))"

definition a_config :: wait_config where
  "a_config = \<lparr>wc_turn_wait_default = 30000, wc_turn_wait_max = 60000, wc_turn_global_waiters = 8, wc_turn_session_waiters = 2\<rparr>"

definition a_cursor :: bytes where "a_cursor = ''t1.0.20.d-7-9-0''"

definition a_request :: wait_params where
  "a_request = \<lparr>wp_session_ids = [a_target], wp_until = [TurnCompleted, Exited], wp_after = Some a_cursor, wp_timeout_ms = None\<rparr>"

lemma a_epoch: "epoch_ok ''d-7-9-0''"
  by (simp add: epoch_ok_def is_ascii_graphic_def)

lemma a_turns_epoch: "ev_epoch (rg_turns a_registry) = ''d-7-9-0''"
  by (simp add: a_registry_def observe_state_def observe_append_def turn_events_new_def is_terminal_def)

lemma a_turns_logged: "logged (rg_turns a_registry) []"
  by (simp add: a_registry_def observe_state_def observe_append_def turn_events_new_def journal_default_def logged_def is_terminal_def)

lemma a_world_views: "world_views {} (a_world m)"
proof -
  have "world_step {} (a_registry, []) (a_later_registry, [] @ [a_completion])"
    using world_step.append [of "{}" a_registry "[]" a_target TurnCompleted None "''12:05''"]
    by (simp add: a_later_registry_def a_completion_def a_registry_def)
  then have "(world_step {})\<^sup>*\<^sup>* (a_world m k) (a_world m (Suc k))" for k by (auto simp: a_world_def)
  moreover have "logged (rg_turns a_later_registry) [a_completion]"
    using logged_append [OF a_turns_logged, of a_target TurnCompleted None "''12:05''"]
    by (simp add: a_later_registry_def a_completion_def)
  moreover have "ev_epoch (rg_turns a_later_registry) = ''d-7-9-0''"
    using a_turns_epoch by (simp add: a_later_registry_def record_append_def)
  ultimately show ?thesis
    using a_turns_logged a_turns_epoch a_epoch by (auto simp: world_views_def a_world_def u64_max_def)
qed

lemma a_cursor_spelled: "event_cursor (rg_turns a_registry) 0 20 = Some a_cursor"
proof -
  have "digit 0 = CHR ''0''" "digit 2 = CHR ''2''" by code_simp+
  then show ?thesis
    by (simp add: event_cursor_def a_turns_epoch a_cursor_def CURSOR_TAG_def CURSOR_SEPARATOR_def turn_cursor_new_def
        show_nat.simps MAX_SESSION_TURN_CURSOR_BYTES_def is_ascii_graphic_def)
qed

lemma a_cursor_at: "cursor_at (a_world (Suc m)) a_cursor 0"
  unfolding cursor_at_def
  by (rule exI [of _ 0], rule exI [of _ 20]) (simp add: a_world_def a_cursor_spelled u64_max_def)

lemma a_place: "k < m \<Longrightarrow> place (rg_turns (regs (a_world m) k)) a_cursor = Some \<lparr>cp_seq = 0, cp_issued_nanos = 20\<rparr>"
  using a_turns_logged
  by (simp add: a_world_def place_cursor [OF a_cursor_spelled] u64_max_def logged_def evicted_after_def)

definition a_view :: "nat \<Rightarrow> views" where
  "a_view m k = (if k < m then a_registry else a_later_registry)"

lemma regs_a_world: "regs (a_world m) = a_view m"
  by (simp add: fun_eq_iff a_view_def a_world_def)

lemma a_inspect: "inspect a_target (a_view m) k = (Ok \<lparr>si_state = Running, si_activity = Some Working\<rparr>, Suc k)"
  by (simp add: inspect_def look_bind_def a_view_def a_later_registry_def a_registry_def a_running_session_def)

lemma a_scan: "ts_event (journal_scan (rg_turns a_later_registry) 0 [a_target] [TurnCompleted, Exited]) = Some a_completion"
    "\<not> ts_evicted (journal_scan (rg_turns a_later_registry) 0 [a_target] [TurnCompleted, Exited])"
    "ts_event (journal_scan (rg_turns a_registry) 0 [a_target] [TurnCompleted, Exited]) = None"
    "\<not> ts_evicted (journal_scan (rg_turns a_registry) 0 [a_target] [TurnCompleted, Exited])"
  by (simp_all add: journal_scan_def evicted_after_def a_later_registry_def a_completion_def record_append_def append_entry_def
      new_entry_def a_registry_def observe_state_def observe_append_def turn_events_new_def journal_default_def
      is_terminal_def u64_saturating_add_def u64_max_def)

lemma a_cursor_issued: "\<exists>c. event_cursor (rg_turns (regs (a_world m) k)) 1 20 = Some c"
  by (rule event_cursor_ok)
    (use a_epoch a_turns_epoch in \<open>simp_all add: a_world_def a_later_registry_def record_append_def u64_max_def\<close>)

lemmas a_eval = a_request_def a_config_def look_bind_def a_inspect turn_outcome_def turn_outcome_result_def is_terminal_def
  wait_check_def turn_result_def turn_progress_of_def

lemma a_wait:
  "\<exists>res. wait_turn (\<lambda>_. None) a_config a_request wakes (regs (a_world 5)) 0 = (Finished (Inr res), 9) \<and>
     wr_reason res = ReasonEvent \<and> wr_event res = Some (wire_event a_completion)"
proof -
  obtain c where "event_cursor (rg_turns a_later_registry) 1 20 = Some c"
    using a_cursor_issued [of 0 0] by (auto simp: a_world_def)
  moreover have "te_seq a_completion = 1"
    by (simp add: a_completion_def new_entry_def a_registry_def observe_state_def observe_append_def turn_events_new_def
        journal_default_def is_terminal_def)
  moreover have "rg_clock a_later_registry = Some 20" by (simp add: a_later_registry_def a_registry_def)
  ultimately show ?thesis
    using a_place [of 3 5] unfolding regs_a_world
    by (simp add: wait_turn_def a_eval a_view_def a_world_def a_scan unix_nanos_now_def u64_try_from_def u64_max_def Let_def)
qed

text \<open>
  C26. Chained waits lose no event and repeat none.  A client whose every wait passes the cursor of the
  previous result receives, over any number of waits, wakes and interleavings with the daemon, exactly
  the selected entries of the daemon's log between its first and its last cursor, in order, as long as
  no wait was answered with a cursor reset.
\<close>

theorem chained_waits_gapless:
  assumes "world_views X w" and "wait_chain rfc config params (regs w) c k evs c' k'" and "cursor_at w c n"
    and "n \<le> length (log_at w k)"
  shows "\<exists>m. cursor_at w c' m \<and> n \<le> m \<and> m \<le> length (log_at w k') \<and>
    evs = map wire_event (filter (selected (wp_session_ids params) (wp_until params)) (slice (log_at w k') n m))"
  using chain_exact [OF assms] by blast

theorem chained_waits_gapless_witness:
  "\<exists>c k' m. wait_chain (\<lambda>_. None) a_config a_request (regs (a_world 5)) a_cursor 0 [wire_event a_completion] c k' \<and>
     [wire_event a_completion] =
       map wire_event (filter (selected [a_target] [TurnCompleted, Exited]) (slice (log_at (a_world 5) k') 0 m))"
proof -
  obtain res where res: "wait_turn (\<lambda>_. None) a_config a_request [] (regs (a_world 5)) 0 = (Finished (Inr res), 9)"
    "wr_reason res = ReasonEvent" "wr_event res = Some (wire_event a_completion)" using a_wait by blast
  have same: "a_request\<lparr>wp_after := Some a_cursor, wp_timeout_ms := None\<rparr> = a_request" by (simp add: a_request_def)
  have step: "wait_turn (\<lambda>_. None) a_config (a_request\<lparr>wp_after := Some a_cursor, wp_timeout_ms := None\<rparr>) []
      (regs (a_world 5)) 0 = (Finished (Inr res), 9)" unfolding same by (rule res(1))
  have ch: "wait_chain (\<lambda>_. None) a_config a_request (regs (a_world 5)) a_cursor 0 [wire_event a_completion] (wr_cursor res) 9"
    using wait_chain.wait [OF step _ order_refl wait_chain.stop] res(2,3) by simp
  have "cursor_at (a_world 5) a_cursor 0" using a_cursor_at [of 4] by simp
  from chained_waits_gapless [OF a_world_views ch this le0] obtain m where
    "[wire_event a_completion] =
       map wire_event (filter (selected (wp_session_ids a_request) (wp_until a_request)) (slice (log_at (a_world 5) 9) 0 m))"
    by (elim exE conjE)
  moreover have "wp_session_ids a_request = [a_target]" "wp_until a_request = [TurnCompleted, Exited]"
    by (simp_all add: a_request_def)
  ultimately show ?thesis using ch by metis
qed

text \<open>
  C27. An exit is never missed.  When a wait that selects exits starts while one of its targets runs and
  passes a cursor issued before, it is never answered with \<open>targets_ended\<close>: however that target ends
  while the wait inspects its targets and scans the journal, the answer is an event (the exit, or an
  earlier one), a timeout or a reset.  Only a target that is removed from the registry is exempt.
\<close>

theorem exit_never_missed:
  assumes "world_views X w" and "wait_turn rfc config params wakes (regs w) k = (Finished (Inr res), k')"
    and "wp_after params = Some c" and "cursor_at w c n" and "n \<le> length (log_at w k)"
    and "Exited \<in> set (wp_until params)" and "sid \<in> set (wp_session_ids params)" and "sid \<notin> X"
    and "running_target (regs w k) sid"
  shows "wr_reason res \<noteq> ReasonTargetsEnded"
  by (rule wait_turn_ended [OF assms])

theorem exit_never_missed_witness:
  "\<exists>res. wait_turn (\<lambda>_. None) a_config a_request [] (regs (a_world 5)) 0 = (Finished (Inr res), 9) \<and>
     wr_reason res \<noteq> ReasonTargetsEnded"
proof -
  obtain res where res: "wait_turn (\<lambda>_. None) a_config a_request [] (regs (a_world 5)) 0 = (Finished (Inr res), 9)"
    using a_wait by blast
  have "running_target (regs (a_world 5) 0) a_target"
    by (simp add: a_world_def running_target_def a_registry_def a_running_session_def observe_state_def observe_append_def
        is_terminal_def turn_events_new_def)
  moreover have "cursor_at (a_world 5) a_cursor 0" using a_cursor_at [of 4] by simp
  ultimately have "wr_reason res \<noteq> ReasonTargetsEnded"
    using exit_never_missed [OF a_world_views res, of a_cursor 0 a_target] by (simp add: a_request_def)
  with res show ?thesis by blast
qed

text \<open>
  C28. No wake-up is lost.  While a wait is parked and no version bump is outstanding, either the journal
  changed since the version it last saw, so that its change notification fires, or the log holds no
  selected event after its position and nothing after it was evicted.
\<close>

theorem no_lost_wakeup:
  assumes "world_views X w" and "wait_turn rfc config params wakes (regs w) k = (Parked seen n, k')"
    and "k' \<le> j" and "rg_unbumped (regs w j) = 0"
  shows "ev_version (rg_turns (regs w j)) \<noteq> seen \<or>
    (filter (selected (wp_session_ids params) (wp_until params)) (drop n (log_at w j)) = [] \<and>
     length (log_at w j) - ev_capacity (rg_turns (regs w j)) \<le> n)"
proof (cases "ev_version (rg_turns (regs w j)) = seen")
  case True
  then have "parked_on params n (regs w) (ev_version (rg_turns (regs w j))) j"
    using parked_on_mono [OF wait_turn_parked [OF assms(2)] assms(3)] by simp
  from parked_no_event [OF assms(1) this assms(4)] show ?thesis by simp
qed simp

lemma a_wait_parked:
  "wait_turn (\<lambda>_. None) a_config a_request [] (regs (a_world 100)) 0 = (Parked (ev_version (rg_turns a_registry)) 0, 7)"
proof -
  have "wt_global (ev_waiters (rg_turns a_registry)) = 0" "wt_per_session (ev_waiters (rg_turns a_registry)) = Map.empty"
    by (simp_all add: a_registry_def observe_state_def observe_append_def turn_events_new_def waiters_default_def is_terminal_def)
  then show ?thesis
    using a_place [of 3 100] unfolding regs_a_world
    by (simp add: wait_turn_def a_eval a_view_def a_world_def a_scan acquire_def Let_def)
qed

theorem no_lost_wakeup_witness:
  "wait_turn (\<lambda>_. None) a_config a_request [] (regs (a_world 100)) 0 = (Parked (ev_version (rg_turns a_registry)) 0, 7) \<and>
   filter (selected [a_target] [TurnCompleted, Exited]) (drop 0 (log_at (a_world 100) 7)) = []"
proof -
  have "rg_unbumped (regs (a_world 100) 7) = 0" by (simp add: a_world_def a_registry_def)
  from no_lost_wakeup [OF a_world_views a_wait_parked order_refl this] show ?thesis
    using a_wait_parked by (simp add: a_world_def a_request_def)
qed

text \<open>
  C29. Every wait ends.  Whatever the daemon does meanwhile and however often the journal changes, a wait
  that reaches its deadline, a shutdown or the end of the journal's channel has a result or an error,
  and neither of its two \<open>expect\<close>s panics, since the identifier of the daemon is short and printable.
\<close>

theorem wait_always_ends:
  assumes "world_views X w" and "list_ex final_wake wakes"
  shows "\<exists>r k'. wait_turn rfc config params wakes (regs w) k = (Finished r, k') \<and> r \<noteq> Err WaitPanic"
  by (rule wait_turn_ends_here [OF assms])

theorem wait_always_ends_witness:
  "\<exists>r k'. wait_turn (\<lambda>_. None) a_config a_request [WakeChanged, WakeDeadline] (regs (a_world 100)) 0 = (Finished r, k') \<and>
     r \<noteq> Err WaitPanic"
  by (rule wait_always_ends [OF a_world_views]) (simp add: final_wake_def)

text \<open>
  A cursor is reset only when events were lost.  A wait with a cursor that this daemon instance
  issued before is answered with \<open>cursor_reset\<close> only if the entry right after the cursor's position was
  evicted from the journal by then, that is, at least as many entries followed it as the journal keeps.
\<close>

theorem reset_only_after_eviction:
  assumes "world_views X w" and "wait_turn rfc config params wakes (regs w) k = (Finished (Inr res), k')"
    and "wp_after params = Some c" and "cursor_at w c n" and "n \<le> length (log_at w k)" and "wr_reason res = ReasonCursorReset"
  shows "ev_capacity (rg_turns (regs w 0)) < length (log_at w k') - n"
  using wait_turn_reset [OF assms] by simp

text \<open>A journal of one entry that recorded two.\<close>

definition a_full_registry :: registry where
  "a_full_registry =
     a_registry\<lparr>rg_turns := record_append (record_append (turn_events_new ''d-7-9-0'' 1) a_target AgentBlocked None ''12:01'')
       a_target TurnCompleted None ''12:02''\<rparr>"

definition a_full_log :: "turn_entry list" where
  "a_full_log =
     [\<lparr>te_seq = 1, te_session = a_target, te_kind = AgentBlocked, te_at = ''12:01'', te_notification = None\<rparr>,
      \<lparr>te_seq = 2, te_session = a_target, te_kind = TurnCompleted, te_at = ''12:02'', te_notification = None\<rparr>]"

lemmas a_full_eval = a_full_registry_def a_full_log_def record_append_def append_entry_def turn_events_new_def journal_default_def

lemma a_full_views: "world_views {} (\<lambda>_. (a_full_registry, a_full_log))"
proof -
  have "logged (rg_turns a_full_registry) a_full_log"
    by (auto simp: logged_def a_full_eval Let_def less_Suc_eq nth_Cons')
  then show ?thesis using a_epoch by (simp add: world_views_def) (simp add: a_full_eval u64_max_def Let_def)
qed

lemma a_full_wait:
  "\<exists>res. wait_turn (\<lambda>_. None) a_config a_request [] (\<lambda>_. a_full_registry) 0 = (Finished (Inr res), 8) \<and>
     wr_reason res = ReasonCursorReset"
proof -
  let ?ev = "rg_turns a_full_registry"
  have i: "inspect a_target (\<lambda>_. a_full_registry) k = (Ok \<lparr>si_state = Running, si_activity = Some Working\<rparr>, Suc k)" for k
    by (simp add: inspect_def look_bind_def a_full_registry_def a_registry_def a_running_session_def)
  have ev: "ev_epoch ?ev = ''d-7-9-0''" "latest ?ev = 2" by (simp_all add: a_full_eval Let_def latest_def)
  have "place ?ev a_cursor = None"
    by (simp add: place_cursor [OF a_cursor_spelled] u64_max_def evicted_after_def a_full_eval Let_def u64_saturating_add_def)
  moreover obtain c where "event_cursor ?ev 2 20 = Some c"
    using event_cursor_ok [of ?ev 2 20] a_epoch ev by (auto simp: u64_max_def)
  moreover have "rg_clock a_full_registry = Some 20" by (simp add: a_full_registry_def a_registry_def)
  ultimately show ?thesis
    using ev by (simp add: wait_turn_def a_request_def a_config_def look_bind_def i turn_result_def turn_progress_of_def
        unix_nanos_now_def u64_try_from_def u64_max_def Let_def)
qed

theorem reset_only_after_eviction_witness:
  "ev_capacity (rg_turns a_full_registry) < length a_full_log - 0"
proof -
  obtain res where "wait_turn (\<lambda>_. None) a_config a_request [] (\<lambda>_. a_full_registry) 0 = (Finished (Inr res), 8)"
    "wr_reason res = ReasonCursorReset" using a_full_wait by blast
  moreover have "event_cursor (rg_turns a_full_registry) 0 20 = Some a_cursor"
    using a_cursor_spelled a_turns_epoch by (simp add: event_cursor_def) (simp add: a_full_eval Let_def)
  then have "cursor_at (\<lambda>_. (a_full_registry, a_full_log)) a_cursor 0"
    unfolding cursor_at_def by (intro exI [of _ 0] exI [of _ 20]) (simp add: u64_max_def)
  ultimately show ?thesis
    using reset_only_after_eviction [OF a_full_views, of "\<lambda>_. None" a_config a_request "[]" 0 res 8 a_cursor 0]
    by (simp add: a_request_def)
qed

text \<open>
  C30. Waiter slots are exact.  In every interleaving of waits the global counter is the number of waits
  that hold a permit, the counter of a session the number of those that target it (and absent at zero),
  so a session is observed exactly while some wait targets it, and neither counter ever exceeds its cap.
\<close>

theorem waiter_slots_exact:
  assumes "slot_run config ev permits"
  shows "wt_global (ev_waiters ev) = length permits \<and> length permits \<le> wc_turn_global_waiters config \<and>
    wt_per_session (ev_waiters ev) sid =
      (let n = length (filter (\<lambda>p. sid \<in> set p) permits) in if n = 0 then None else Some n) \<and>
    length (filter (\<lambda>p. sid \<in> set p) permits) \<le> max 1 (wc_turn_session_waiters config) \<and>
    (has_waiters ev sid \<longleftrightarrow> (\<exists>p \<in> set permits. sid \<in> set p))"
  using slot_run_ok [OF assms] slots_has_waiters [of ev permits sid] by (auto simp: slots_ok_def slots_exact_def)

theorem waiter_slots_exact_witness:
  "has_waiters (fst (acquire (turn_events_new ''d'' 4) [a_target] 8 2)) a_target"
proof -
  have p: "wait_params_new [a_target] [Exited] None None =
      Ok \<lparr>wp_session_ids = [a_target], wp_until = [Exited], wp_after = None, wp_timeout_ms = None\<rparr>"
    by (simp add: wait_params_new_def has_duplicate_def MAX_SESSION_WAIT_TURN_TARGETS_def)
  have "acquire (turn_events_new ''d'' 4) [a_target] 8 2 =
      (fst (acquire (turn_events_new ''d'' 4) [a_target] 8 2), Some [a_target])"
    by (simp add: acquire_def turn_events_new_def waiters_default_def Let_def)
  then have "slot_run a_config (fst (acquire (turn_events_new ''d'' 4) [a_target] 8 2)) [[a_target]]"
    by (intro slot_run.begin_wait [OF slot_run.start p]) (simp add: a_config_def)
  from waiter_slots_exact [OF this, of a_target] show ?thesis by simp
qed

end
