(* ===== verification/Attention.thy ===== *)
theory Attention
  imports Turn_Journal
begin

text \<open>
  The debounce of session notifications (\<open>crates/daemon/src/notifications/coordinator.rs\<close>): the task that holds
  a notification pending for the policy's window, drops it when the session resumes, and otherwise
  commits it to the inbox and records its turn event.  The answers of the notification store, what was
  read from the session registry and the clocks are arguments; what the task did is the list of its
  effects.
\<close>

section \<open>Records\<close>

datatype notification_kind =
    KindAgentBlocked | KindApprovalRequired | KindTurnCompleted | KindSessionFinished | KindError | KindSystem | KindUnknown

datatype notification_severity =
    SeverityInfo | SeveritySuccess | SeverityWarning | SeverityError | SeverityActionRequired | SeverityUnknown

datatype notification_status =
    StatusUnread | StatusRead | StatusAcknowledged | StatusArchived | StatusDeleted | StatusUnknown

record notification_source =
  src_provider :: bytes
  src_provider_event :: bytes
  src_host_local_source_id :: bytes

text \<open>Timestamps are texts, as in the source; the agent kind is its reference text.\<close>

record notification_record =
  nr_id :: bytes
  nr_source :: notification_source
  nr_kind :: notification_kind
  nr_severity :: notification_severity
  nr_status :: notification_status
  nr_title :: bytes
  nr_body :: bytes
  nr_metadata :: metadata
  nr_created_at :: bytes
  nr_session_id :: "session_id option"
  nr_agent_kind :: "bytes option"
  nr_source_id :: "bytes option"
  nr_dedupe_key :: "bytes option"
  nr_project_id :: "bytes option"
  nr_read_at :: "bytes option"
  nr_acked_at :: "bytes option"
  nr_archived_at :: "bytes option"
  nr_deleted_at :: "bytes option"
  nr_superseded_by :: "bytes option"
  nr_turn_started_at :: "bytes option"
  nr_turn_duration_ms :: "nat option"
  nr_session_metadata :: metadata
  nr_hook_admitted :: bool

record deferred_notification =
  df_record :: notification_record
  df_inbox :: bool
  df_unavailable :: "bytes option"
  df_signal :: bool
  df_turn :: "nat option"
  df_minted :: nat

definition for_turn :: "deferred_notification \<Rightarrow> nat \<Rightarrow> deferred_notification" where
  "for_turn d turn = (if nr_kind (df_record d) = KindTurnCompleted then d\<lparr>df_turn := Some turn\<rparr> else d)"

text \<open>The \<open>time\<close> crate formats timestamps; lengths are in nanoseconds.\<close>

definition stamp :: "(nat \<Rightarrow> bytes option) \<Rightarrow> notification_record \<Rightarrow> turn_snapshot \<Rightarrow> notification_record" where
  "stamp rfc3339 r turn =
     r\<lparr>nr_turn_started_at := Option.bind (tn_started_nanos turn) rfc3339,
       nr_turn_duration_ms := Option.bind (tn_length turn) (\<lambda>length. u64_try_from (length div 1000000)),
       nr_session_metadata := tn_metadata turn\<rparr>"

definition ATTENTION_DEDUPE_KEY_PREFIX :: bytes where "ATTENTION_DEDUPE_KEY_PREFIX = ''attention''"

definition TURN_DEDUPE_KEY_PREFIX :: bytes where "TURN_DEDUPE_KEY_PREFIX = ''turn''"

fun reserved_suffix_of :: "bytes list \<Rightarrow> bytes \<Rightarrow> (bytes \<times> bytes) option" where
  "reserved_suffix_of [] dedupe_key = None"
| "reserved_suffix_of (pre # rest) dedupe_key =
     (if dedupe_key = pre then Some (pre, [])
      else
        (case Option.bind (strip_prefix pre dedupe_key) (strip_prefix '':'') of
           Some sfx \<Rightarrow> Some (pre, sfx)
         | None \<Rightarrow> reserved_suffix_of rest dedupe_key))"

definition reserved_dedupe_session_suffix :: "bytes \<Rightarrow> (bytes \<times> bytes) option" where
  "reserved_dedupe_session_suffix dedupe_key =
     reserved_suffix_of [ATTENTION_DEDUPE_KEY_PREFIX, TURN_DEDUPE_KEY_PREFIX] dedupe_key"

definition is_turn_dedupe_key :: "bytes \<Rightarrow> bool" where
  "is_turn_dedupe_key dedupe_key =
     (case reserved_dedupe_session_suffix dedupe_key of
        None \<Rightarrow> False
      | Some (pre, sfx) \<Rightarrow> pre = TURN_DEDUPE_KEY_PREFIX \<and> sfx \<noteq> [])"

definition HOOKED_PROVIDERS :: "bytes list" where
  "HOOKED_PROVIDERS = [''shell'', ''codex'', ''claude'', ''hermes'', ''muse'', ''cline'']"

text \<open>Both registered hook schemas list these identity providers.\<close>

definition is_hook_provider :: "bytes \<Rightarrow> bool" where
  "is_hook_provider provider \<longleftrightarrow> provider \<in> set HOOKED_PROVIDERS"

definition to_ascii_lowercase :: "byte \<Rightarrow> byte" where
  "to_ascii_lowercase b = (if is_ascii_upper b then char_of (byte_val b + 32) else b)"

definition eq_ignore_ascii_case :: "bytes \<Rightarrow> bytes \<Rightarrow> bool" where
  "eq_ignore_ascii_case a b \<longleftrightarrow> map to_ascii_lowercase a = map to_ascii_lowercase b"

datatype source_priority_rank = Projector | User | Provider

definition source_priority :: "notification_record \<Rightarrow> source_priority_rank" where
  "source_priority r =
     (if nr_hook_admitted r \<or> is_hook_provider (src_provider (nr_source r)) then Provider
      else if eq_ignore_ascii_case (src_provider (nr_source r)) ''pohunek'' \<or>
        eq_ignore_ascii_case (src_provider (nr_source r)) ''daemon''
      then Projector else User)"

definition priority_rank :: "notification_record \<Rightarrow> nat" where
  "priority_rank r = (case source_priority r of Projector \<Rightarrow> 0 | User \<Rightarrow> 1 | Provider \<Rightarrow> 2)"

definition outranks :: "notification_record \<Rightarrow> notification_record \<Rightarrow> bool" where
  "outranks existing incoming \<longleftrightarrow> priority_rank incoming < priority_rank existing"

definition prefer_record :: "notification_record option \<Rightarrow> notification_record \<Rightarrow> notification_record" where
  "prefer_record existing incoming =
     (case existing of Some e \<Rightarrow> if outranks e incoming then e else incoming | None \<Rightarrow> incoming)"

definition turn_kind :: "notification_kind \<Rightarrow> turn_event_kind option" where
  "turn_kind kind =
     (case kind of
        KindTurnCompleted \<Rightarrow> Some TurnCompleted
      | KindAgentBlocked \<Rightarrow> Some AgentBlocked
      | KindApprovalRequired \<Rightarrow> Some ApprovalRequired
      | _ \<Rightarrow> None)"

section \<open>The coordinator\<close>

text \<open>Durations and instants in nanoseconds.\<close>

definition seconds :: "nat \<Rightarrow> nat" where "seconds n = n * 1000000000"

definition HELD_REPORT_RECHECK_FLOOR :: nat where "HELD_REPORT_RECHECK_FLOOR = seconds 1"

definition REPEAT_REPORT_FLOOR :: nat where "REPEAT_REPORT_FLOOR = seconds 2"

record resolve_as_of =
  ra_minted_before :: nat
  ra_monotonic :: nat

type_synonym pending_key = "bytes \<times> nat option"

record pending_entry =
  pe_inbox :: "notification_record option"
  pe_signal :: "notification_record option"
  pe_repeat_window :: nat
  pe_newest_foreign :: "nat option"
  pe_generation :: nat

record flush_token =
  ft_key :: pending_key
  ft_generation :: nat

text \<open>The delay queue is the list of its tokens with their deadlines.\<close>

record attention_coordinator =
  co_pending :: "pending_key \<rightharpoonup> pending_entry"
  co_queue :: "(nat \<times> flush_token) list"
  co_resolved_turns :: "bytes \<rightharpoonup> nat"
  co_generation :: nat

definition attention_new :: attention_coordinator where
  "attention_new =
     \<lparr>co_pending = Map.empty, co_queue = [], co_resolved_turns = Map.empty, co_generation = 0\<rparr>"

text \<open>
  What the task did: a timer armed for an entry, an entry that names no turn cancelled, a record
  handed to the store with the session of its turn and the store's answer, a turn event recorded,
  visible records acknowledged.
\<close>

datatype effect =
    Armed pending_key nat nat
  | Cancelled bytes
  | Committed "pending_key option" "session_id option" nat notification_record "notification_record option"
  | Signalled pending_key session_id turn_event_kind "bytes option"
  | Acknowledged bytes "resolve_as_of option"

definition prune_recently_resolved_turns :: "(bytes \<rightharpoonup> nat) \<Rightarrow> nat \<Rightarrow> nat \<Rightarrow> bytes \<rightharpoonup> nat" where
  "prune_recently_resolved_turns resolved debounce now =
     (\<lambda>key. case resolved key of None \<Rightarrow> None | Some at \<Rightarrow> if now - at \<le> debounce then Some at else None)"

definition latest_foreign :: "nat option \<Rightarrow> nat option \<Rightarrow> nat option" where
  "latest_foreign a b = (case (a, b) of (Some x, Some y) \<Rightarrow> Some (max x y) | (None, _) \<Rightarrow> b | (_, None) \<Rightarrow> a)"

text \<open>Whether a report that names no turn repeats what the inbox already holds, and the suppression it consumes.\<close>

definition suppressed_inbox ::
  "attention_coordinator \<Rightarrow> turn_events \<Rightarrow> nat \<Rightarrow> nat \<Rightarrow> deferred_notification \<Rightarrow> bytes \<Rightarrow> attention_coordinator \<times> bool" where
  "suppressed_inbox co ev debounce now d dedupe_key =
     (let r = df_record d;
          repeat_window = max (debounce * 2) REPEAT_REPORT_FLOOR;
          repeats = df_turn d = None \<and> nr_kind r = KindTurnCompleted \<and>
            (case nr_session_id r of None \<Rightarrow> False | Some sid \<Rightarrow> events_recently_reported ev sid repeat_window now)
      in if df_turn d = None \<and> df_inbox d \<and> nr_kind r = KindTurnCompleted \<and> is_turn_dedupe_key dedupe_key \<and>
            source_priority r \<noteq> Projector
         then
           if repeats then (co, True)
           else
             (case co_resolved_turns co dedupe_key of
                None \<Rightarrow> (co, False)
              | Some at \<Rightarrow> (co\<lparr>co_resolved_turns := (co_resolved_turns co)(dedupe_key := None)\<rparr>, now - at \<le> debounce))
         else (co, False))"

text \<open>The rest of \<open>defer\<close>: merge into the pending entry and arm its timer.\<close>

definition hold_pending ::
  "attention_coordinator \<Rightarrow> nat \<Rightarrow> nat \<Rightarrow> deferred_notification \<Rightarrow> bool \<Rightarrow> bytes \<Rightarrow> attention_coordinator \<times> effect list" where
  "hold_pending co debounce now d inbox dedupe_key =
     (let r = df_record d;
          key = (dedupe_key, df_turn d);
          foreign_at = (if source_priority r \<noteq> Projector then Some (df_minted d) else None);
          existing = co_pending co key;
          existing_inbox = Option.bind existing pe_inbox;
          existing_signal = Option.bind existing pe_signal;
          existing_foreign = Option.bind existing pe_newest_foreign;
          signal_record = (if df_signal d then Some (prefer_record existing_signal r) else existing_signal);
          inbox_record = (if inbox then Some (prefer_record existing_inbox r) else existing_inbox);
          kept = (if inbox then None else if existing_inbox \<noteq> None then map_option pe_generation existing else None);
          generation = (case kept of Some g \<Rightarrow> g | None \<Rightarrow> co_generation co + 1);
          entry = \<lparr>pe_inbox = inbox_record, pe_signal = signal_record,
                   pe_repeat_window = max (debounce * 2) REPEAT_REPORT_FLOOR,
                   pe_newest_foreign = latest_foreign existing_foreign foreign_at, pe_generation = generation\<rparr>;
          co' = co\<lparr>co_pending := (co_pending co)(key \<mapsto> entry)\<rparr>
      in case kept of
           Some _ \<Rightarrow> (co', [])
         | None \<Rightarrow>
             (co'\<lparr>co_generation := generation,
                  co_queue := co_queue co @ [(now + debounce, \<lparr>ft_key = key, ft_generation = generation\<rparr>)]\<rparr>,
              [Armed key generation debounce]))"

definition attention_defer ::
  "attention_coordinator \<Rightarrow> turn_events \<Rightarrow> nat \<Rightarrow> nat \<Rightarrow> notification_record option \<Rightarrow> deferred_notification \<Rightarrow>
   attention_coordinator \<times> effect list" where
  "attention_defer co ev secs now answer d =
     (case nr_dedupe_key (df_record d) of
        None \<Rightarrow> (co, if df_inbox d then [Committed None None (df_minted d) (df_record d) answer] else [])
      | Some dedupe_key \<Rightarrow>
          (let debounce = seconds secs;
               co1 = co\<lparr>co_resolved_turns := prune_recently_resolved_turns (co_resolved_turns co) debounce now\<rparr>
           in case suppressed_inbox co1 ev debounce now d dedupe_key of
                (co2, suppressed) \<Rightarrow>
                  (let inbox = df_inbox d \<and> \<not> suppressed in
                   if \<not> inbox \<and> \<not> df_signal d then (co2, [])
                   else hold_pending co2 debounce now d inbox dedupe_key)))"

text \<open>
  \<open>record_turn\<close>; \<open>working\<close> is what the registry said of the session's activity, \<open>at\<close> the time of the event.
\<close>

definition record_turn ::
  "turn_events \<Rightarrow> pending_key \<Rightarrow> notification_record \<Rightarrow> notification_record option \<Rightarrow> bool \<Rightarrow> bool \<Rightarrow> bytes \<Rightarrow>
   turn_events \<times> bool \<times> effect list" where
  "record_turn ev key signal committed names_turn working at =
     (case (nr_session_id signal, turn_kind (nr_kind signal)) of
        (Some sid, Some kind) \<Rightarrow>
          if kind = TurnCompleted \<and> \<not> names_turn \<and> working then (ev, False, [])
          else
            (let nid = (case committed of
                          Some c \<Rightarrow> if nr_kind c = nr_kind signal then Some (nr_id c) else None | None \<Rightarrow> None)
             in (record_event ev sid kind nid at, True, [Signalled key sid kind nid]))
      | _ \<Rightarrow> (ev, False, []))"

text \<open>\<open>flush\<close> of an entry that names no turn; \<open>minted_now\<close> is the clock that stamps records.\<close>

definition flush_unnamed ::
  "attention_coordinator \<Rightarrow> turn_events \<Rightarrow> nat \<Rightarrow> nat \<Rightarrow> notification_record option \<Rightarrow> bool \<Rightarrow> bytes \<Rightarrow> pending_key \<Rightarrow> pending_entry \<Rightarrow>
   attention_coordinator \<times> turn_events \<times> effect list" where
  "flush_unnamed co ev now minted_now answer working at key entry =
     (let repeats =
            (case pe_inbox entry of
               None \<Rightarrow> False
             | Some r \<Rightarrow>
                 nr_kind r = KindTurnCompleted \<and> source_priority r \<noteq> Projector \<and>
                 (case nr_session_id r of
                    None \<Rightarrow> False | Some sid \<Rightarrow> events_recently_reported ev sid (pe_repeat_window entry) now));
          inbox = (if repeats then None else pe_inbox entry);
          minted = unwrap_or (pe_newest_foreign entry) minted_now;
          committed = Option.bind inbox (\<lambda>_. answer);
          commits = (case inbox of None \<Rightarrow> [] | Some r \<Rightarrow> [Committed (Some key) None minted r answer]);
          co' = co\<lparr>co_pending := (co_pending co)(key := None)\<rparr>
      in case pe_signal entry of
           None \<Rightarrow> (co', ev, commits)
         | Some signal \<Rightarrow>
             (case record_turn ev key signal committed False working at of
                (ev', _, signals) \<Rightarrow> (co', ev', commits @ signals)))"

definition entry_session :: "pending_entry \<Rightarrow> session_id option" where
  "entry_session entry =
     Option.bind (case pe_signal entry of Some r \<Rightarrow> Some r | None \<Rightarrow> pe_inbox entry) nr_session_id"

text \<open>
  \<open>flush\<close> of an entry of turn \<open>turn\<close>, up to its verdict: the session and the snapshot to surface, if
  there is one.
\<close>

definition flush_verdict ::
  "attention_coordinator \<Rightarrow> turn_events \<Rightarrow> nat \<Rightarrow> nat \<Rightarrow> turn_owner option \<Rightarrow> flush_token \<Rightarrow> nat \<Rightarrow> pending_entry \<Rightarrow>
   attention_coordinator \<times> turn_events \<times> (session_id \<times> turn_snapshot) option" where
  "flush_verdict co ev secs now owner token turn entry =
     (let gone = co\<lparr>co_pending := (co_pending co)(ft_key token := None)\<rparr> in
      case entry_session entry of
        None \<Rightarrow> (gone, ev, None)
      | Some sid \<Rightarrow>
          (case events_settle ev sid turn owner now of
             (ev', DropReport) \<Rightarrow> (gone, ev', None)
           | (ev', Hold after) \<Rightarrow>
               (let wait = unwrap_or after (max (seconds secs) HELD_REPORT_RECHECK_FLOOR)
                in (co\<lparr>co_queue := co_queue co @ [(now + wait, token)]\<rparr>, note_held_recheck ev', None))
           | (ev', Surface snapshot) \<Rightarrow> (co, ev', Some (sid, snapshot))))"

text \<open>The rest of \<open>flush\<close>: commit and record what was not reported of the turn yet, and mark it.\<close>

definition flush_surface ::
  "(nat \<Rightarrow> bytes option) \<Rightarrow> attention_coordinator \<Rightarrow> turn_events \<Rightarrow> nat \<Rightarrow> nat \<Rightarrow> notification_record option \<Rightarrow> bytes \<Rightarrow>
   pending_key \<Rightarrow> nat \<Rightarrow> session_id \<Rightarrow> turn_snapshot \<Rightarrow> attention_coordinator \<times> turn_events \<times> effect list" where
  "flush_surface rfc3339 co ev now minted_now answer at key turn sid snapshot =
     (case co_pending co key of
        None \<Rightarrow> (co, ev, [])
      | Some entry \<Rightarrow>
          (let minted = unwrap_or (pe_newest_foreign entry) minted_now;
               inbox = (if tn_inbox_reported snapshot then None else pe_inbox entry);
               committed = Option.bind inbox (\<lambda>_. answer);
               commits = (case inbox of
                            None \<Rightarrow> [] | Some r \<Rightarrow> [Committed (Some key) (Some sid) minted (stamp rfc3339 r snapshot) answer]);
               co' = co\<lparr>co_pending := (co_pending co)(key := None)\<rparr>
           in case (if tn_signal_reported snapshot then None else pe_signal entry) of
                None \<Rightarrow> (co', events_mark_reported ev sid turn (committed \<noteq> None) False now, commits)
              | Some signal \<Rightarrow>
                  (case record_turn ev key signal committed True False at of
                     (ev', signaled, signals) \<Rightarrow>
                       (co', events_mark_reported ev' sid turn (committed \<noteq> None) signaled now, commits @ signals))))"

section \<open>Resolving\<close>

text \<open>The entries of turns under a key, in the order the map yields them.\<close>

definition closed_tokens :: "attention_coordinator \<Rightarrow> pending_key list \<Rightarrow> bytes \<Rightarrow> flush_token list" where
  "closed_tokens co order dedupe_key =
     List.map_filter (\<lambda>key.
       case co_pending co key of
         None \<Rightarrow> None
       | Some entry \<Rightarrow>
           if fst key = dedupe_key \<and> snd key \<noteq> None
           then Some \<lparr>ft_key = key, ft_generation = pe_generation entry\<rparr> else None) order"

text \<open>Whether the turn of a token is to be flushed before the resolve.\<close>

definition resolve_settles :: "attention_coordinator \<Rightarrow> turn_events \<Rightarrow> nat \<Rightarrow> turn_owner option \<Rightarrow> flush_token \<Rightarrow> turn_events \<times> bool" where
  "resolve_settles co ev now owner token =
     (case (snd (ft_key token), Option.bind (co_pending co (ft_key token)) entry_session) of
        (Some turn, Some sid) \<Rightarrow>
          (case events_settle ev sid turn owner now of
             (ev', Surface _) \<Rightarrow> (ev', True)
           | (ev', _) \<Rightarrow> (ev', False))
      | _ \<Rightarrow> (ev, False))"

definition refreshed_since :: "attention_coordinator \<Rightarrow> bytes \<Rightarrow> resolve_as_of option \<Rightarrow> bool" where
  "refreshed_since co dedupe_key as_of =
     (case co_pending co (dedupe_key, None) of
        None \<Rightarrow> False
      | Some entry \<Rightarrow>
          (case (as_of, pe_newest_foreign entry) of
             (Some a, Some foreign) \<Rightarrow> ra_minted_before a < foreign
           | _ \<Rightarrow> False))"

definition resolve_unnamed ::
  "attention_coordinator \<Rightarrow> nat \<Rightarrow> nat \<Rightarrow> bytes \<Rightarrow> resolve_as_of option \<Rightarrow> attention_coordinator \<times> effect list" where
  "resolve_unnamed co secs now dedupe_key as_of =
     (let refreshed = refreshed_since co dedupe_key as_of;
          removed_inbox = (if refreshed then None else Option.bind (co_pending co (dedupe_key, None)) pe_inbox);
          co1 = (if refreshed then co else co\<lparr>co_pending := (co_pending co)((dedupe_key, None) := None)\<rparr>);
          co2 = (if removed_inbox = None \<and> \<not> refreshed \<and> is_turn_dedupe_key dedupe_key
                 then co1\<lparr>co_resolved_turns :=
                        (prune_recently_resolved_turns (co_resolved_turns co1) (seconds secs) now)
                          (dedupe_key \<mapsto> (case as_of of None \<Rightarrow> now | Some a \<Rightarrow> ra_monotonic a))\<rparr>
                 else co1)
      in (co2, (if refreshed then [] else [Cancelled dedupe_key]) @ [Acknowledged dedupe_key as_of]))"

end
