(* ===== verification/Attention_Run.thy ===== *)
theory Attention_Run
  imports Attention Turn_Run
begin

text \<open>
  Runs of the debounce coordinator: one task that takes commands and expired timers in turn, while the
  turns of the sessions change between any two of its steps.
\<close>

section \<open>Steps\<close>

type_synonym resume_point = "(flush_token list \<times> bytes \<times> resolve_as_of option) option"

datatype attn_task =
    NoTask
  | Resolving "flush_token list" bytes "resolve_as_of option"
  | Flushing flush_token resume_point
  | Surfacing flush_token session_id turn_snapshot resume_point

definition resume_task :: "resume_point \<Rightarrow> attn_task" where
  "resume_task back = (case back of None \<Rightarrow> NoTask | Some (ts, key, as_of) \<Rightarrow> Resolving ts key as_of)"

record attn =
  an_co :: attention_coordinator
  an_turns :: turn_events
  an_task :: attn_task
  an_now :: nat
  an_log :: "(nat \<times> effect) list"

definition attn_start :: "turn_events \<Rightarrow> nat \<Rightarrow> attn" where
  "attn_start ev now = \<lparr>an_co = attention_new, an_turns = ev, an_task = NoTask, an_now = now, an_log = []\<rparr>"

definition note_effects :: "attn \<Rightarrow> effect list \<Rightarrow> (nat \<times> effect) list" where
  "note_effects s es = an_log s @ map (Pair (an_now s)) es"

definition current_entry :: "attention_coordinator \<Rightarrow> flush_token \<Rightarrow> pending_entry option" where
  "current_entry co token =
     (case co_pending co (ft_key token) of
        None \<Rightarrow> None
      | Some e \<Rightarrow> if pe_generation e = ft_generation token then Some e else None)"

text \<open>
  What the rest of the daemon does to the turns meanwhile: operations of turns, any number per step,
  on sessions that stay; the sessions \<open>X\<close> may also be forgotten or replaced.
\<close>

definition turns_change :: "session_id set \<Rightarrow> turn_events \<Rightarrow> turn_events \<Rightarrow> bool" where
  "turns_change X ev ev' \<longleftrightarrow>
     (\<forall>sid. sid \<notin> X \<longrightarrow>
        jn_progress (ev_journal ev') sid = jn_progress (ev_journal ev) sid \<or>
        (\<exists>now opn p' a. turn_step now opn (unwrap_or (jn_progress (ev_journal ev) sid) turn_progress_default) = (p', a) \<and>
           jn_progress (ev_journal ev') sid = Some p'))"

inductive attn_step :: "(nat \<Rightarrow> bytes option) \<Rightarrow> session_id set \<Rightarrow> attn \<Rightarrow> attn \<Rightarrow> bool" for rfc X where
  tick: "an_now s \<le> t \<Longrightarrow> attn_step rfc X s (s\<lparr>an_now := t\<rparr>)"
| turns: "turns_change X (an_turns s) ev \<Longrightarrow> attn_step rfc X s (s\<lparr>an_turns := ev\<rparr>)"
| command_defer: "an_task s = NoTask \<Longrightarrow> attention_defer (an_co s) (an_turns s) secs (an_now s) answer d = (co, es) \<Longrightarrow>
    attn_step rfc X s (s\<lparr>an_co := co, an_log := note_effects s es\<rparr>)"
| expire: "an_task s = NoTask \<Longrightarrow> (deadline, token) \<in> set (co_queue (an_co s)) \<Longrightarrow> deadline \<le> an_now s \<Longrightarrow>
    attn_step rfc X s (s\<lparr>an_co := (an_co s)\<lparr>co_queue := remove1 (deadline, token) (co_queue (an_co s))\<rparr>,
      an_task := Flushing token None\<rparr>)"
| command_resolve: "an_task s = NoTask \<Longrightarrow> set order = dom (co_pending (an_co s)) \<Longrightarrow>
    attn_step rfc X s (s\<lparr>an_task := Resolving (closed_tokens (an_co s) order key) key as_of\<rparr>)"
| resolve_token: "an_task s = Resolving (token # ts) key as_of \<Longrightarrow>
    resolve_settles (an_co s) (an_turns s) (an_now s) owner token = (ev, b) \<Longrightarrow>
    attn_step rfc X s (s\<lparr>an_turns := ev,
      an_task := (if b then Flushing token (Some (ts, key, as_of)) else Resolving ts key as_of)\<rparr>)"
| resolve_end: "an_task s = Resolving [] key as_of \<Longrightarrow> resolve_unnamed (an_co s) secs (an_now s) key as_of = (co, es) \<Longrightarrow>
    attn_step rfc X s (s\<lparr>an_co := co, an_task := NoTask, an_log := note_effects s es\<rparr>)"
| flush_stale: "an_task s = Flushing token back \<Longrightarrow> current_entry (an_co s) token = None \<Longrightarrow>
    attn_step rfc X s (s\<lparr>an_task := resume_task back\<rparr>)"
| flush_plain: "an_task s = Flushing token back \<Longrightarrow> current_entry (an_co s) token = Some entry \<Longrightarrow> snd (ft_key token) = None \<Longrightarrow>
    flush_unnamed (an_co s) (an_turns s) (an_now s) minted_now answer working at (ft_key token) entry = (co, ev, es) \<Longrightarrow>
    attn_step rfc X s (s\<lparr>an_co := co, an_turns := ev, an_task := resume_task back, an_log := note_effects s es\<rparr>)"
| flush_turn: "an_task s = Flushing token back \<Longrightarrow> current_entry (an_co s) token = Some entry \<Longrightarrow> snd (ft_key token) = Some turn \<Longrightarrow>
    flush_verdict (an_co s) (an_turns s) secs (an_now s) owner token turn entry = (co, ev, v) \<Longrightarrow>
    attn_step rfc X s (s\<lparr>an_co := co, an_turns := ev,
      an_task := (case v of None \<Rightarrow> resume_task back | Some (sid, snap) \<Rightarrow> Surfacing token sid snap back)\<rparr>)"
| surface: "an_task s = Surfacing token sid snap back \<Longrightarrow> snd (ft_key token) = Some turn \<Longrightarrow>
    flush_surface rfc (an_co s) (an_turns s) (an_now s) minted_now answer at (ft_key token) turn sid snap = (co, ev, es) \<Longrightarrow>
    attn_step rfc X s (s\<lparr>an_co := co, an_turns := ev, an_task := resume_task back, an_log := note_effects s es\<rparr>)"

inductive attn_run :: "(nat \<Rightarrow> bytes option) \<Rightarrow> session_id set \<Rightarrow> attn \<Rightarrow> bool" for rfc X where
  start: "jn_progress (ev_journal ev) = Map.empty \<Longrightarrow> attn_run rfc X (attn_start ev now)"
| step: "attn_run rfc X s \<Longrightarrow> attn_step rfc X s s' \<Longrightarrow> attn_run rfc X s'"

section \<open>What happens to the turns\<close>

lemma turns_change_refl [simp]: "turns_change X ev ev"
  by (simp add: turns_change_def)

lemma put_turn_step:
  assumes "jn_progress (ev_journal ev) sid = Some p" and "turn_step now opn p = (p', a)"
  shows "turns_change X ev (put_progress ev sid p')"
  using assms unfolding turns_change_def put_progress_def by (auto simp: unwrap_or_simps)

lemma settle_change:
  assumes "events_settle ev sid turn owner now = (ev', v)"
  shows "turns_change X ev ev'"
proof (cases "jn_progress (ev_journal ev) sid")
  case None
  then show ?thesis using assms by (simp add: events_settle_def existing_progress_def)
next
  case (Some p)
  obtain p' where "progress_settle p turn owner now = (p', v)" "ev' = put_progress ev sid p'"
    using assms Some by (auto simp: events_settle_def existing_progress_def split: prod.splits)
  then show ?thesis using put_turn_step [OF Some, of now "OpSettle turn owner" p' "Verdict v"] by (simp add: apsnd_def)
qed

lemma mark_change: "turns_change X ev (events_mark_reported ev sid turn a b now)"
proof (cases "jn_progress (ev_journal ev) sid")
  case None
  then show ?thesis by (simp add: events_mark_reported_def on_existing_def existing_progress_def)
next
  case (Some p)
  then show ?thesis
    using put_turn_step [OF Some, of now "OpMark turn a b"]
    by (simp add: events_mark_reported_def on_existing_def existing_progress_def)
qed

lemma turns_change_progress:
  "jn_progress (ev_journal ev') = jn_progress (ev_journal ev) \<Longrightarrow> turns_change X ev ev'"
  by (simp add: turns_change_def)

lemma record_event_progress [simp]: "jn_progress (ev_journal (record_event ev sid kind nid at)) = jn_progress (ev_journal ev)"
  by (simp add: record_event_def record_append_def bump_def append_entry_def Let_def)

lemma record_turn_progress:
  "record_turn ev key signal committed names working at = (ev', b, es) \<Longrightarrow> jn_progress (ev_journal ev') = jn_progress (ev_journal ev)"
  by (auto simp: record_turn_def Let_def split: option.splits if_splits)

lemma held_recheck_progress [simp]: "jn_progress (ev_journal (note_held_recheck ev)) = jn_progress (ev_journal ev)"
  by (simp add: note_held_recheck_def)

lemma flush_unnamed_progress:
  assumes "flush_unnamed co ev now m answer working at key entry = (co', ev', es)"
  shows "jn_progress (ev_journal ev') = jn_progress (ev_journal ev)"
  using assms unfolding flush_unnamed_def Let_def
  by (auto split: option.splits prod.splits dest: record_turn_progress)

text \<open>What is known of a turn of a session that stays, whatever happens to it.\<close>

definition tables_ok :: "session_id set \<Rightarrow> turn_events \<Rightarrow> bool" where
  "tables_ok X ev \<longleftrightarrow> (\<forall>sid p. sid \<notin> X \<longrightarrow> jn_progress (ev_journal ev) sid = Some p \<longrightarrow> table_inv (tp_table p))"

definition told :: "turn_events \<Rightarrow> session_id \<Rightarrow> nat \<Rightarrow> (turn_record \<Rightarrow> bool) \<Rightarrow> bool" where
  "told ev sid i flag \<longleftrightarrow>
     (\<exists>p. jn_progress (ev_journal ev) sid = Some p \<and> i \<le> tt_next_id (tp_table p) \<and>
        (\<forall>r. recs (tp_table p) i = Some r \<longrightarrow> flag r))"

abbreviation report_flag :: "(turn_record \<Rightarrow> bool) \<Rightarrow> bool" where
  "report_flag flag \<equiv> flag = tr_inbox_reported \<or> flag = tr_signal_reported \<or> flag = (\<lambda>_. True)"

lemma default_table_inv: "table_inv (tp_table turn_progress_default)"
  by (simp add: turn_progress_default_def turn_table_default_def table_inv_def turn_keys_def)

lemma change_tables:
  assumes "turns_change X ev ev'" and "tables_ok X ev"
  shows "tables_ok X ev'"
  unfolding tables_ok_def
proof (intro allI impI)
  fix sid p assume sid: "sid \<notin> X" and p: "jn_progress (ev_journal ev') sid = Some p"
  let ?q = "unwrap_or (jn_progress (ev_journal ev) sid) turn_progress_default"
  have q: "table_inv (tp_table ?q)"
    using assms(2) sid default_table_inv by (cases "jn_progress (ev_journal ev) sid") (auto simp: tables_ok_def)
  consider "jn_progress (ev_journal ev) sid = Some p" | now opn a where "turn_step now opn ?q = (p, a)"
    using assms(1) sid p unfolding turns_change_def by (metis option.inject)
  then show "table_inv (tp_table p)"
  proof cases
    case 1
    then show ?thesis using assms(2) sid by (simp add: tables_ok_def)
  qed (use step_grows q in blast)
qed

lemma change_told:
  assumes "turns_change X ev ev'" and "tables_ok X ev" and "sid \<notin> X" and "told ev sid i flag" and "report_flag flag"
  shows "told ev' sid i flag"
proof -
  obtain p where p: "jn_progress (ev_journal ev) sid = Some p" "i \<le> tt_next_id (tp_table p)"
    "\<And>r. recs (tp_table p) i = Some r \<Longrightarrow> flag r" using assms(4) unfolding told_def by blast
  have inv: "table_inv (tp_table p)" using assms(2,3) p(1) unfolding tables_ok_def by blast
  consider "jn_progress (ev_journal ev') sid = Some p"
    | now opn p' a where "turn_step now opn p = (p', a)" "jn_progress (ev_journal ev') sid = Some p'"
    using assms(1,3) p(1) unfolding turns_change_def by (metis unwrap_or_simps(2))
  then show ?thesis
  proof cases
    case 1
    then show ?thesis using p unfolding told_def by blast
  next
    case 2
    note keep = step_reported [OF 2(1) inv] and grow = step_grows [OF 2(1) inv]
    have "i \<le> tt_next_id (tp_table p')" using grow p(2) by (auto simp: grows_def)
    moreover have "flag r'" if rec: "recs (tp_table p') i = Some r'" for r'
    proof -
      obtain r where "recs (tp_table p) i = Some r" "tr_inbox_reported r \<longrightarrow> tr_inbox_reported r'"
        "tr_signal_reported r \<longrightarrow> tr_signal_reported r'" using keep p(2) rec unfolding reported_kept_def by blast
      then show ?thesis using p(3) [of r] assms(5) by auto
    qed
    ultimately show ?thesis using 2(2) unfolding told_def by blast
  qed
qed

lemma settle_surface:
  assumes "events_settle ev sid turn owner now = (ev', Surface snap)"
  shows "\<exists>p r. jn_progress (ev_journal ev') sid = Some p \<and> recs (tp_table p) turn = Some r \<and> snap = record_snapshot r"
proof -
  obtain p p' where "progress_settle p turn owner now = (p', Surface snap)" "ev' = put_progress ev sid p'"
    using assms by (auto simp: events_settle_def split: option.splits prod.splits)
  then show ?thesis using surface_closed [of p turn owner now p' snap] by (auto simp: put_progress_def)
qed

lemma settle_told:
  assumes "events_settle ev sid turn owner now = (ev', Surface snap)" and "tables_ok X ev" and "sid \<notin> X"
  shows "told ev' sid turn (\<lambda>_. True)"
    and "told ev' sid turn tr_signal_reported \<Longrightarrow> tn_signal_reported snap"
    and "told ev' sid turn tr_inbox_reported \<Longrightarrow> tn_inbox_reported snap"
proof -
  obtain p r where p: "jn_progress (ev_journal ev') sid = Some p" "recs (tp_table p) turn = Some r" "snap = record_snapshot r"
    using settle_surface [OF assms(1)] by blast
  have "table_inv (tp_table p)" using change_tables [OF settle_change [OF assms(1)] assms(2)] p(1) assms(3) by (auto simp: tables_ok_def)
  moreover have "turn \<in> set (turn_keys (tp_table p))" using p(2) by (force simp: turn_keys_def dest: map_of_SomeD)
  ultimately show "told ev' sid turn (\<lambda>_. True)" using p(1) unfolding told_def table_inv_def by blast
  show "told ev' sid turn tr_signal_reported \<Longrightarrow> tn_signal_reported snap" "told ev' sid turn tr_inbox_reported \<Longrightarrow> tn_inbox_reported snap"
    using p by (auto simp: told_def record_snapshot_def)
qed

lemma mark_told:
  assumes "told ev sid turn (\<lambda>_. True)"
  shows "a \<Longrightarrow> told (events_mark_reported ev sid turn a b now) sid turn tr_inbox_reported"
    and "b \<Longrightarrow> told (events_mark_reported ev sid turn a b now) sid turn tr_signal_reported"
  using assms
  by (auto simp: told_def events_mark_reported_def on_existing_def existing_progress_def put_progress_def
      progress_mark_reported_def)

section \<open>Each turn is reported once\<close>

fun is_signal :: "session_id \<Rightarrow> nat \<Rightarrow> effect \<Rightarrow> bool" where
  "is_signal sid i (Signalled (_, Some j) s _ _) \<longleftrightarrow> s = sid \<and> j = i"
| "is_signal sid i _ \<longleftrightarrow> False"

fun is_commit :: "session_id \<Rightarrow> nat \<Rightarrow> effect \<Rightarrow> bool" where
  "is_commit sid i (Committed (Some (_, Some j)) (Some s) _ _ (Some _)) \<longleftrightarrow> s = sid \<and> j = i"
| "is_commit sid i _ \<longleftrightarrow> False"

definition turn_signals :: "session_id \<Rightarrow> nat \<Rightarrow> (nat \<times> effect) list \<Rightarrow> (nat \<times> effect) list" where
  "turn_signals sid i log = filter (\<lambda>x. is_signal sid i (snd x)) log"

definition turn_commits :: "session_id \<Rightarrow> nat \<Rightarrow> (nat \<times> effect) list \<Rightarrow> (nat \<times> effect) list" where
  "turn_commits sid i log = filter (\<lambda>x. is_commit sid i (snd x)) log"

definition unnamed_effects :: "effect list \<Rightarrow> bool" where
  "unnamed_effects es \<longleftrightarrow> (\<forall>e \<in> set es. \<forall>sid i. \<not> is_signal sid i e \<and> \<not> is_commit sid i e)"

lemma unnamed_counts:
  assumes "unnamed_effects es"
  shows "turn_signals sid i (note_effects s es) = turn_signals sid i (an_log s)"
    and "turn_commits sid i (note_effects s es) = turn_commits sid i (an_log s)"
  using assms by (auto simp: turn_signals_def turn_commits_def note_effects_def unnamed_effects_def filter_empty_conv)

lemma defer_unnamed: "attention_defer co ev secs now answer d = (co', es) \<Longrightarrow> unnamed_effects es"
  by (auto simp: attention_defer_def hold_pending_def unnamed_effects_def Let_def split: option.splits prod.splits if_splits)

lemma resolve_unnamed_effects: "resolve_unnamed co secs now key as_of = (co', es) \<Longrightarrow> unnamed_effects es"
  by (auto simp: resolve_unnamed_def unnamed_effects_def Let_def split: if_splits)

lemma flush_unnamed_effects:
  assumes "flush_unnamed co ev now m answer working at key entry = (co', ev', es)" and "snd key = None"
  shows "unnamed_effects es"
  using assms by (cases key)
    (auto simp: flush_unnamed_def record_turn_def unnamed_effects_def Let_def split: option.splits prod.splits if_splits)

definition surfacing_ok :: "session_id set \<Rightarrow> attn \<Rightarrow> bool" where
  "surfacing_ok X s \<longleftrightarrow>
     (\<forall>token sid snap back. an_task s = Surfacing token sid snap back \<longrightarrow>
        (\<exists>turn e. snd (ft_key token) = Some turn \<and> co_pending (an_co s) (ft_key token) = Some e \<and> entry_session e = Some sid \<and>
           (sid \<notin> X \<longrightarrow> told (an_turns s) sid turn (\<lambda>_. True) \<and>
              (\<not> tn_signal_reported snap \<longrightarrow> turn_signals sid turn (an_log s) = []) \<and>
              (\<not> tn_inbox_reported snap \<longrightarrow> turn_commits sid turn (an_log s) = []))))"

definition once_ok :: "session_id set \<Rightarrow> attn \<Rightarrow> bool" where
  "once_ok X s \<longleftrightarrow>
     (\<forall>sid i. sid \<notin> X \<longrightarrow>
        length (turn_signals sid i (an_log s)) \<le> 1 \<and> length (turn_commits sid i (an_log s)) \<le> 1 \<and>
        (turn_signals sid i (an_log s) \<noteq> [] \<longrightarrow> told (an_turns s) sid i tr_signal_reported) \<and>
        (turn_commits sid i (an_log s) \<noteq> [] \<longrightarrow> told (an_turns s) sid i tr_inbox_reported))"

definition attn_ok :: "session_id set \<Rightarrow> attn \<Rightarrow> bool" where
  "attn_ok X s \<longleftrightarrow> tables_ok X (an_turns s) \<and> once_ok X s \<and> surfacing_ok X s"

lemma attn_ok_quiet:
  assumes "attn_ok X s" and "turns_change X (an_turns s) (an_turns s')"
    and "\<And>sid i. turn_signals sid i (an_log s') = turn_signals sid i (an_log s)"
    and "\<And>sid i. turn_commits sid i (an_log s') = turn_commits sid i (an_log s)"
    and "\<And>token sid snap back. an_task s' = Surfacing token sid snap back \<Longrightarrow>
      an_task s = Surfacing token sid snap back \<and> co_pending (an_co s') = co_pending (an_co s)"
  shows "attn_ok X s'"
proof -
  have t: "tables_ok X (an_turns s)" and o: "once_ok X s" and sf: "surfacing_ok X s" using assms(1) by (simp_all add: attn_ok_def)
  note told = change_told [OF assms(2) t]
  have "once_ok X s'" using o told unfolding once_ok_def assms(3,4) by blast
  moreover have "surfacing_ok X s'"
    unfolding surfacing_ok_def assms(3,4)
  proof (intro allI impI)
    fix token sid snap bk assume a: "an_task s' = Surfacing token sid snap bk"
    note b = assms(5) [OF a]
    then show "\<exists>turn e. snd (ft_key token) = Some turn \<and> co_pending (an_co s') (ft_key token) = Some e \<and> entry_session e = Some sid \<and>
        (sid \<notin> X \<longrightarrow> told (an_turns s') sid turn (\<lambda>_. True) \<and>
          (\<not> tn_signal_reported snap \<longrightarrow> turn_signals sid turn (an_log s) = []) \<and>
          (\<not> tn_inbox_reported snap \<longrightarrow> turn_commits sid turn (an_log s) = []))"
      using sf told [of sid _ "\<lambda>_. True"] unfolding surfacing_ok_def by (metis (no_types, lifting))
  qed
  ultimately show ?thesis using change_tables [OF assms(2) t] by (simp add: attn_ok_def)
qed

lemma turns_change_cong:
  "turns_change X ev ev' \<Longrightarrow> jn_progress (ev_journal ev'') = jn_progress (ev_journal ev') \<Longrightarrow> turns_change X ev ev''"
  by (simp add: turns_change_def)

lemma flush_verdict_change:
  assumes "flush_verdict co ev secs now owner token turn entry = (co', ev', v)"
  shows "turns_change X ev ev'"
proof (cases "entry_session entry")
  case (Some sid)
  obtain ev1 x where st: "events_settle ev sid turn owner now = (ev1, x)" by fastforce
  have "jn_progress (ev_journal ev') = jn_progress (ev_journal ev1)"
    using assms Some st by (auto simp: flush_verdict_def Let_def split: turn_verdict.splits)
  then show ?thesis by (rule turns_change_cong [OF settle_change [OF st]])
qed (use assms in \<open>simp add: flush_verdict_def Let_def\<close>)

lemma flush_verdict_surface:
  assumes "flush_verdict co ev secs now owner token turn entry = (co', ev', Some (sid, snap))"
  shows "entry_session entry = Some sid" and "events_settle ev sid turn owner now = (ev', Surface snap)" and "co' = co"
  using assms by (auto simp: flush_verdict_def Let_def split: option.splits prod.splits turn_verdict.splits)

lemma resolve_settles_change: "resolve_settles co ev now owner token = (ev', b) \<Longrightarrow> turns_change X ev ev'"
  by (auto simp: resolve_settles_def split: option.splits prod.splits turn_verdict.splits intro: settle_change)

text \<open>The effects of surfacing: at most one commit and one signal, and only what the snapshot lacks.\<close>

lemma flush_surface_effects:
  assumes "flush_surface rfc co ev now m answer at (k, Some turn) turn sid snap = (co', ev', es)"
    and "co_pending co (k, Some turn) = Some e" and "entry_session e = Some sid"
  obtains a b ev1 where "ev' = events_mark_reported ev1 sid turn a b now" and "jn_progress (ev_journal ev1) = jn_progress (ev_journal ev)"
    and "a \<Longrightarrow> \<not> tn_inbox_reported snap" and "b \<Longrightarrow> \<not> tn_signal_reported snap"
    and "\<And>s i. length (filter (is_commit s i) es) = of_bool (a \<and> s = sid \<and> i = turn)"
    and "\<And>s i. length (filter (is_signal s i) es) = of_bool (b \<and> s = sid \<and> i = turn)"
proof -
  let ?inbox = "if tn_inbox_reported snap then None else pe_inbox e"
  let ?committed = "Option.bind ?inbox (\<lambda>_. answer)"
  let ?commits = "case ?inbox of None \<Rightarrow> []
    | Some r \<Rightarrow> [Committed (Some (k, Some turn)) (Some sid) (unwrap_or (pe_newest_foreign e) m) (stamp rfc r snap) answer]"
  have c: "length (filter (is_commit s i) ?commits) = of_bool (?committed \<noteq> None \<and> s = sid \<and> i = turn)"
    "filter (is_signal s i) ?commits = []" for s i
    by (cases ?inbox; cases answer; auto)+
  have a: "?committed \<noteq> None \<Longrightarrow> \<not> tn_inbox_reported snap" by (auto split: if_splits)
  note run = assms(1) [unfolded flush_surface_def assms(2) option.case Let_def]
  show thesis
  proof (cases "if tn_signal_reported snap then None else pe_signal e")
    case None
    then have "ev' = events_mark_reported ev sid turn (?committed \<noteq> None) False now" "es = ?commits" using run by simp_all
    then show thesis using c a by (intro that [of ev "?committed \<noteq> None" False]) simp_all
  next
    case (Some signal)
    obtain ev1 b signals where rt: "record_turn ev (k, Some turn) signal ?committed True False at = (ev1, b, signals)"
      by (metis surj_pair)
    then have es: "ev' = events_mark_reported ev1 sid turn (?committed \<noteq> None) b now" "es = ?commits @ signals"
      using run Some by simp_all
    have "pe_signal e = Some signal" "\<not> tn_signal_reported snap" using Some by (auto split: if_splits)
    then have sid: "nr_session_id signal = Some sid" using assms(3) by (simp add: entry_session_def)
    have "length (filter (is_signal s i) signals) = of_bool (b \<and> s = sid \<and> i = turn)" "filter (is_commit s i) signals = []" for s i
      using rt sid by (auto simp: record_turn_def Let_def split: option.splits if_splits)
    then show thesis
      using c a es record_turn_progress [OF rt] \<open>\<not> tn_signal_reported snap\<close>
      by (intro that [of ev1 "?committed \<noteq> None" b]) simp_all
  qed
qed

lemma surface_ok:
  assumes ok: "attn_ok X s" and task: "an_task s = Surfacing token sid snap bk" and turn: "snd (ft_key token) = Some turn"
    and fl: "flush_surface rfc (an_co s) (an_turns s) (an_now s) m answer at (ft_key token) turn sid snap = (co, ev, es)"
  shows "attn_ok X (s\<lparr>an_co := co, an_turns := ev, an_task := resume_task bk, an_log := note_effects s es\<rparr>)" (is "attn_ok X ?s")
proof -
  obtain k where key: "ft_key token = (k, Some turn)" using turn by (cases "ft_key token") auto
  obtain e where e: "co_pending (an_co s) (k, Some turn) = Some e" "entry_session e = Some sid"
    and known: "sid \<notin> X \<Longrightarrow> told (an_turns s) sid turn (\<lambda>_. True)"
      "sid \<notin> X \<Longrightarrow> \<not> tn_signal_reported snap \<Longrightarrow> turn_signals sid turn (an_log s) = []"
      "sid \<notin> X \<Longrightarrow> \<not> tn_inbox_reported snap \<Longrightarrow> turn_commits sid turn (an_log s) = []"
    using ok task key unfolding attn_ok_def surfacing_ok_def by (metis option.inject snd_conv)
  obtain a b ev1 where ev: "ev = events_mark_reported ev1 sid turn a b (an_now s)"
    and same: "jn_progress (ev_journal ev1) = jn_progress (ev_journal (an_turns s))"
    and ab: "a \<Longrightarrow> \<not> tn_inbox_reported snap" "b \<Longrightarrow> \<not> tn_signal_reported snap"
    and c: "\<And>r i. length (filter (is_commit r i) es) = of_bool (a \<and> r = sid \<and> i = turn)"
    and g: "\<And>r i. length (filter (is_signal r i) es) = of_bool (b \<and> r = sid \<and> i = turn)"
    by (rule flush_surface_effects [OF fl [unfolded key] e]) (rule that, assumption, assumption, blast+)
  have ch: "turns_change X (an_turns s) ev1" using same by (rule turns_change_progress)
  have t1: "tables_ok X ev1" and t: "tables_ok X ev"
    using ok change_tables [OF ch] change_tables [OF mark_change [of X ev1 sid turn a b "an_now s"]] ev by (auto simp: attn_ok_def)
  have keep: "told ev r i flag" if "told (an_turns s) r i flag" "r \<notin> X" "report_flag flag" for r i flag
    using change_told [OF mark_change t1 that(2) change_told [OF ch _ that(2,1,3)] that(3)] ok ev by (simp add: attn_ok_def)
  have now: "told ev sid turn tr_inbox_reported" if "a" "sid \<notin> X"
    using mark_told(1) [of ev1 sid turn a b "an_now s"] change_told [OF ch _ that(2) known(1) [OF that(2)]] ok that ev
    by (simp add: attn_ok_def)
  have now': "told ev sid turn tr_signal_reported" if "b" "sid \<notin> X"
    using mark_told(2) [of ev1 sid turn b a "an_now s"] change_told [OF ch _ that(2) known(1) [OF that(2)]] ok that ev
    by (simp add: attn_ok_def)
  have len: "length (turn_commits r i (note_effects s es)) = length (turn_commits r i (an_log s)) + of_bool (a \<and> r = sid \<and> i = turn)"
    "length (turn_signals r i (note_effects s es)) = length (turn_signals r i (an_log s)) + of_bool (b \<and> r = sid \<and> i = turn)" for r i
    using c g by (simp_all add: turn_commits_def turn_signals_def note_effects_def filter_map comp_def)
  have o: "once_ok X s" using ok by (simp add: attn_ok_def)
  have cnt: "length (turn_commits r i (note_effects s es)) \<le> 1 \<and> length (turn_signals r i (note_effects s es)) \<le> 1" if "r \<notin> X" for r i
    unfolding len using o that known(2,3) ab unfolding once_ok_def by (cases "r = sid \<and> i = turn") auto
  have flag: "turn_commits r i (note_effects s es) \<noteq> [] \<Longrightarrow> told ev r i tr_inbox_reported"
    "turn_signals r i (note_effects s es) \<noteq> [] \<Longrightarrow> told ev r i tr_signal_reported" if "r \<notin> X" for r i
  proof -
    have "turn_commits r i (an_log s) \<noteq> [] \<or> (a \<and> r = sid \<and> i = turn)" if "turn_commits r i (note_effects s es) \<noteq> []"
      using len(1) [of r i] that by (metis add.right_neutral length_0_conv of_bool_eq(1))
    then show "turn_commits r i (note_effects s es) \<noteq> [] \<Longrightarrow> told ev r i tr_inbox_reported"
      using o now keep that unfolding once_ok_def by blast
    have "turn_signals r i (an_log s) \<noteq> [] \<or> (b \<and> r = sid \<and> i = turn)" if "turn_signals r i (note_effects s es) \<noteq> []"
      using len(2) [of r i] that by (metis add.right_neutral length_0_conv of_bool_eq(1))
    then show "turn_signals r i (note_effects s es) \<noteq> [] \<Longrightarrow> told ev r i tr_signal_reported"
      using o now' keep that unfolding once_ok_def by blast
  qed
  have "once_ok X ?s" using cnt flag by (simp add: once_ok_def)
  moreover have "surfacing_ok X ?s" by (auto simp: surfacing_ok_def resume_task_def split: option.splits)
  ultimately show ?thesis using t by (simp add: attn_ok_def)
qed

lemma turn_settled_ok:
  assumes ok: "attn_ok X s" and entry: "current_entry (an_co s) token = Some e" and turn: "snd (ft_key token) = Some turn"
    and verdict: "flush_verdict (an_co s) (an_turns s) secs (an_now s) owner token turn e = (co, ev, Some (sid, snap))"
  shows "attn_ok X (s\<lparr>an_co := co, an_turns := ev, an_task := Surfacing token sid snap bk\<rparr>)" (is "attn_ok X ?s")
proof -
  note v = flush_verdict_surface [OF verdict]
  have ch: "turns_change X (an_turns s) ev" by (rule flush_verdict_change [OF verdict])
  have "attn_ok X (s\<lparr>an_co := co, an_turns := ev, an_task := NoTask, an_log := note_effects s []\<rparr>)"
    by (rule attn_ok_quiet [OF ok]) (use ch in \<open>simp_all add: note_effects_def\<close>)
  then have o: "tables_ok X ev" "once_ok X ?s" by (simp_all add: attn_ok_def once_ok_def note_effects_def)
  have "told ev sid turn (\<lambda>_. True)" "told ev sid turn tr_inbox_reported \<Longrightarrow> tn_inbox_reported snap"
    "told ev sid turn tr_signal_reported \<Longrightarrow> tn_signal_reported snap" if "sid \<notin> X"
    using settle_told [OF v(2) _ that] ok by (simp_all add: attn_ok_def)
  then have "surfacing_ok X ?s"
    using entry turn v(1,3) o(2) unfolding surfacing_ok_def once_ok_def
    by (auto simp: current_entry_def split: option.splits if_splits)
  then show ?thesis using o by (simp add: attn_ok_def)
qed

lemma attn_step_ok:
  assumes "attn_step rfc X s s'" and ok: "attn_ok X s"
  shows "attn_ok X s'"
  using assms(1)
proof cases
  case (command_defer secs answer d co es)
  show ?thesis unfolding command_defer(1)
    by (rule attn_ok_quiet [OF ok]) (simp_all add: unnamed_counts [OF defer_unnamed [OF command_defer(3)]] command_defer(2))
next
  case (resolve_token token ts key as_of owner ev b)
  show ?thesis unfolding resolve_token(1)
    by (rule attn_ok_quiet [OF ok]) (simp_all add: resolve_settles_change [OF resolve_token(3)] split: if_splits)
next
  case (resolve_end key as_of secs co es)
  show ?thesis unfolding resolve_end(1)
    by (rule attn_ok_quiet [OF ok]) (simp_all add: unnamed_counts [OF resolve_unnamed_effects [OF resolve_end(3)]])
next
  case (flush_stale token bk)
  show ?thesis unfolding flush_stale(1)
    by (rule attn_ok_quiet [OF ok]) (auto simp: resume_task_def split: option.splits)
next
  case (flush_plain token bk entry minted_now answer working at co ev es)
  show ?thesis unfolding flush_plain(1)
    by (rule attn_ok_quiet [OF ok])
      (auto simp: unnamed_counts [OF flush_unnamed_effects [OF flush_plain(5,4)]] resume_task_def
        intro: turns_change_progress [OF flush_unnamed_progress [OF flush_plain(5)]] split: option.splits)
next
  case (flush_turn token bk entry turn secs owner co ev v)
  show ?thesis
  proof (cases v)
    case None
    show ?thesis unfolding flush_turn(1)
      by (rule attn_ok_quiet [OF ok])
        (use None in \<open>auto simp: resume_task_def flush_verdict_change [OF flush_turn(5)] split: option.splits\<close>)
  next
    case (Some a)
    then show ?thesis
      using turn_settled_ok [OF ok flush_turn(3,4)] flush_turn(5) unfolding flush_turn(1) by (cases a) simp
  qed
next
  case (surface token sid snap bk turn minted_now answer at co ev es)
  show ?thesis unfolding surface(1) by (rule surface_ok [OF ok surface(2,3,4)])
qed (rule attn_ok_quiet [OF ok]; simp)+

lemma attn_run_ok: "attn_run rfc X s \<Longrightarrow> attn_ok X s"
proof (induction rule: attn_run.induct)
  case (start ev now)
  then show ?case
    by (simp add: attn_ok_def attn_start_def tables_ok_def once_ok_def surfacing_ok_def turn_signals_def turn_commits_def)
qed (rule attn_step_ok)

section \<open>A pending report is never without a timer\<close>

fun task_token :: "attn_task \<Rightarrow> flush_token option" where
  "task_token (Flushing token _) = Some token"
| "task_token (Surfacing token _ _ _) = Some token"
| "task_token _ = None"

definition entry_token :: "pending_key \<Rightarrow> pending_entry \<Rightarrow> flush_token" where
  "entry_token key e = \<lparr>ft_key = key, ft_generation = pe_generation e\<rparr>"

definition timer_held :: "attn \<Rightarrow> flush_token \<Rightarrow> bool" where
  "timer_held s token \<longleftrightarrow> token \<in> snd ` set (co_queue (an_co s)) \<or> task_token (an_task s) = Some token"

definition timers_held :: "attn \<Rightarrow> bool" where
  "timers_held s \<longleftrightarrow> (\<forall>key e. co_pending (an_co s) key = Some e \<longrightarrow> timer_held s (entry_token key e))"

lemma suppressed_keeps:
  assumes "suppressed_inbox co ev debounce now d key = (co', b)"
  shows "co_pending co' = co_pending co" and "co_queue co' = co_queue co" and "co_generation co' = co_generation co"
  using assms by (auto simp: suppressed_inbox_def Let_def split: if_splits option.splits)

text \<open>What a create does to the coordinator's table and timers.\<close>

lemma defer_cases:
  assumes "attention_defer co ev secs now answer d = (co', es)"
  obtains (same) "co_pending co' = co_pending co" "co_queue co' = co_queue co" "co_generation co' = co_generation co"
      "\<forall>e \<in> set es. \<exists>m r a. e = Committed None None m r a"
  | (kept) key e e' where "co_pending co key = Some e" "pe_generation e' = pe_generation e" "co_pending co' = (co_pending co)(key \<mapsto> e')"
      "co_queue co' = co_queue co" "co_generation co' = co_generation co" "es = []"
  | (armed) key e' where "pe_generation e' = co_generation co + 1" "co_pending co' = (co_pending co)(key \<mapsto> e')"
      "co_queue co' = co_queue co @ [(now + seconds secs, entry_token key e')]" "co_generation co' = co_generation co + 1"
      "es = [Armed key (co_generation co + 1) (seconds secs)]"
proof (cases "nr_dedupe_key (df_record d)")
  case None
  then show thesis using assms same by (auto simp: attention_defer_def)
next
  case (Some key)
  obtain co2 suppressed where sup: "suppressed_inbox (co\<lparr>co_resolved_turns :=
      prune_recently_resolved_turns (co_resolved_turns co) (seconds secs) now\<rparr>) ev (seconds secs) now d key = (co2, suppressed)"
    by fastforce
  note k = suppressed_keeps [OF sup]
  let ?inbox = "df_inbox d \<and> \<not> suppressed"
  show thesis
  proof (cases "\<not> ?inbox \<and> \<not> df_signal d")
    case True
    then have "co' = co2" "es = []" using assms Some sup by (auto simp: attention_defer_def Let_def)
    then show thesis using same k by simp
  next
    case False
    then have hold: "hold_pending co2 (seconds secs) now d ?inbox key = (co', es)"
      using assms Some sup by (auto simp: attention_defer_def Let_def)
    let ?e = "the (co_pending co' (key, df_turn d))"
    show thesis
    proof (cases "\<not> ?inbox \<and> Option.bind (co_pending co2 (key, df_turn d)) pe_inbox \<noteq> None")
      case True
      then obtain e where e: "co_pending co2 (key, df_turn d) = Some e" "pe_inbox e \<noteq> None"
        by (cases "co_pending co2 (key, df_turn d)") auto
      then have "pe_generation ?e = pe_generation e \<and> co_pending co' = (co_pending co2)((key, df_turn d) \<mapsto> ?e) \<and>
          co_queue co' = co_queue co2 \<and> co_generation co' = co_generation co2 \<and> es = []"
        using hold True by (auto simp: hold_pending_def Let_def)
      then show thesis using e(1) k by - (rule kept [of "(key, df_turn d)" e ?e]; simp)
    next
      case False
      then have "pe_generation ?e = co_generation co2 + 1 \<and> co_pending co' = (co_pending co2)((key, df_turn d) \<mapsto> ?e) \<and>
          co_queue co' = co_queue co2 @ [(now + seconds secs, entry_token (key, df_turn d) ?e)] \<and>
          co_generation co' = co_generation co2 + 1 \<and> es = [Armed (key, df_turn d) (co_generation co2 + 1) (seconds secs)]"
        using hold by (auto simp: hold_pending_def entry_token_def Let_def split: if_splits)
      then show thesis using k by - (rule armed [of ?e "(key, df_turn d)"]; simp)
    qed
  qed
qed

lemma closed_entry_gone:
  assumes "timers_held s" and "task_token (an_task s) = Some token"
    and "co_pending co = (co_pending (an_co s))(ft_key token := None)" and "co_queue co = co_queue (an_co s)"
  shows "timers_held (s\<lparr>an_co := co, an_turns := ev, an_task := task, an_log := log\<rparr>)"
proof -
  have "entry_token key e \<noteq> token" if "key \<noteq> ft_key token" for key e using that by (auto simp: entry_token_def)
  then show ?thesis
    using assms unfolding timers_held_def timer_held_def by (simp del: split_paired_All) (metis option.inject)
qed

lemma flush_unnamed_co:
  "flush_unnamed co ev now m answer working at key entry = (co', ev', es) \<Longrightarrow> co' = co\<lparr>co_pending := (co_pending co)(key := None)\<rparr>"
  by (auto simp: flush_unnamed_def Let_def split: option.splits prod.splits)

lemma flush_surface_co:
  "flush_surface rfc co ev now m answer at key turn sid snap = (co', ev', es) \<Longrightarrow> co' = co\<lparr>co_pending := (co_pending co)(key := None)\<rparr>"
  by (auto simp: flush_surface_def Let_def fun_upd_idem split: option.splits prod.splits)

text \<open>A verdict drops the entry, rearms its own token, or leaves everything for surfacing.\<close>

lemma flush_verdict_co:
  assumes "flush_verdict co ev secs now owner token turn entry = (co', ev', v)"
  obtains (drop) "co' = co\<lparr>co_pending := (co_pending co)(ft_key token := None)\<rparr>" "v = None"
  | (hold) t where "co' = co\<lparr>co_queue := co_queue co @ [(t, token)]\<rparr>" "v = None"
  | (surface) sid snap where "co' = co" "v = Some (sid, snap)"
  using assms by (auto simp: flush_verdict_def Let_def split: option.splits prod.splits turn_verdict.splits)

lemma resolve_unnamed_co:
  assumes "resolve_unnamed co secs now key as_of = (co', es)"
  shows "co_queue co' = co_queue co" and "co_generation co' = co_generation co"
    and "co_pending co' = (if refreshed_since co key as_of then co_pending co else (co_pending co)((key, None) := None))"
    and "es = (if refreshed_since co key as_of then [] else [Cancelled key]) @ [Acknowledged key as_of]"
  using assms by (auto simp: resolve_unnamed_def Let_def)

lemma attn_step_timers:
  assumes "attn_step rfc X s s'" and held: "timers_held s"
  shows "timers_held s'"
  using assms(1)
proof cases
  case (command_defer secs answer d co es)
  show ?thesis using defer_cases [OF command_defer(3)]
    by cases (use held in \<open>auto simp: command_defer(1,2) timers_held_def timer_held_def entry_token_def split: if_splits\<close>)
next
  case (expire deadline token)
  have "tk \<in> snd ` set (remove1 (deadline, token) q) \<or> tk = token" if "tk \<in> snd ` set q" for tk q
    using that by (metis (no_types, lifting) image_iff in_set_remove1 snd_conv)
  then show ?thesis using held unfolding expire(1) timers_held_def timer_held_def expire(2) by simp metis
next
  case (resolve_end key as_of secs co es)
  show ?thesis using held resolve_unnamed_co [OF resolve_end(3)]
    by (auto simp: resolve_end(1,2) timers_held_def timer_held_def split: if_splits)
next
  case (flush_stale token bk)
  have "entry_token key e \<noteq> token" if "co_pending (an_co s) key = Some e" for key e
    using flush_stale(3) that by (auto simp: current_entry_def entry_token_def)
  then show ?thesis using held unfolding flush_stale(1) timers_held_def timer_held_def flush_stale(2) by fastforce
next
  case (flush_plain token bk entry minted_now answer working at co ev es)
  show ?thesis unfolding flush_plain(1)
    by (rule closed_entry_gone [OF held]) (simp_all add: flush_plain(2) flush_unnamed_co [OF flush_plain(5)])
next
  case (flush_turn token bk entry turn secs owner co ev v)
  show ?thesis
  proof (cases rule: flush_verdict_co [OF flush_turn(5)])
    case 1
    have "timers_held (s\<lparr>an_co := co, an_turns := ev, an_task := resume_task bk, an_log := an_log s\<rparr>)"
      by (rule closed_entry_gone [OF held]) (simp_all add: flush_turn(2) 1(1))
    then show ?thesis by (simp add: flush_turn(1) 1)
  qed (use held in \<open>auto simp: flush_turn(1,2) timers_held_def timer_held_def\<close>)
next
  case (surface token sid snap bk turn minted_now answer at co ev es)
  show ?thesis unfolding surface(1)
    by (rule closed_entry_gone [OF held]) (simp_all add: surface(2) flush_surface_co [OF surface(4)])
qed (use held in \<open>auto simp: timers_held_def timer_held_def split: if_splits\<close>)

lemma attn_run_timers: "attn_run rfc X s \<Longrightarrow> timers_held s"
proof (induction rule: attn_run.induct)
  case (start ev now)
  then show ?case by (simp add: timers_held_def attn_start_def attention_new_def)
qed (rule attn_step_timers)

end
