(* ===== verification/Attention_Guarantees.thy ===== *)
theory Attention_Guarantees
  imports Attention_Run Turn_Guarantees
begin

text \<open>
  What the notification coordinator guarantees over every run: each turn is reported at most once, a
  report that names no turn waits out its quiet window, no pending report is left without a timer, and
  how a create that only signals still shields the inbox record it joined from a resolve.
\<close>

section \<open>Armed timers\<close>

fun armed_step :: "bytes \<Rightarrow> (nat \<times> nat \<times> nat) option \<Rightarrow> nat \<times> effect \<Rightarrow> (nat \<times> nat \<times> nat) option" where
  "armed_step K a (t, Armed key g d) = (if key = (K, None) then Some (t, g, d) else a)"
| "armed_step K a (t, Cancelled key) = (if key = K then None else a)"
| "armed_step K a _ = a"

text \<open>The last arming of a key that names no turn, unless a resolve cancelled it since: when, generation and delay.\<close>

definition armed_at :: "bytes \<Rightarrow> (nat \<times> effect) list \<Rightarrow> (nat \<times> nat \<times> nat) option" where
  "armed_at K log = foldl (armed_step K) None log"

fun unnamed_report :: "bytes \<Rightarrow> effect \<Rightarrow> bool" where
  "unnamed_report K (Committed (Some (key, None)) _ _ _ _) \<longleftrightarrow> key = K"
| "unnamed_report K (Signalled (key, None) _ _ _) \<longleftrightarrow> key = K"
| "unnamed_report K _ \<longleftrightarrow> False"

fun calm :: "effect \<Rightarrow> bool" where
  "calm (Armed _ _ _) \<longleftrightarrow> False"
| "calm (Cancelled _) \<longleftrightarrow> False"
| "calm _ \<longleftrightarrow> True"

lemma armed_at_append [simp]: "armed_at K (log @ [x]) = armed_step K (armed_at K log) x"
  by (simp add: armed_at_def)

lemma armed_at_calm: "(\<And>x. x \<in> set xs \<Longrightarrow> calm (snd x)) \<Longrightarrow> armed_at K (log @ xs) = armed_at K log"
proof (induction xs arbitrary: log)
  case (Cons x xs)
  have "armed_step K a x = a" for a using Cons.prems [of x] by (cases "(K, a, x)" rule: armed_step.cases) auto
  then show ?case using Cons.IH [of "log @ [x]"] Cons.prems by simp
qed simp

lemma armed_at_logged: "armed_at K log = Some (t, g, d) \<Longrightarrow> (t, Armed (K, None) g d) \<in> set log"
proof (induction log rule: rev_induct)
  case (snoc x log)
  then show ?case by (cases "(K, armed_at K log, x)" rule: armed_step.cases) (auto split: if_splits)
qed (simp add: armed_at_def)

definition waited :: "bytes \<Rightarrow> (nat \<times> effect) list \<Rightarrow> nat \<Rightarrow> bool" where
  "waited K log t \<longleftrightarrow> (\<exists>t0 g d. armed_at K log = Some (t0, g, d) \<and> t0 + d \<le> t)"

definition reports_waited :: "(nat \<times> effect) list \<Rightarrow> bool" where
  "reports_waited log \<longleftrightarrow> (\<forall>l t e r K. log = l @ (t, e) # r \<longrightarrow> unnamed_report K e \<longrightarrow> waited K l t)"

lemma reports_append:
  assumes "reports_waited log"
    and "\<And>K e. e \<in> set es \<Longrightarrow> unnamed_report K e \<Longrightarrow> (\<forall>e' \<in> set es. calm e') \<and> waited K log now"
  shows "reports_waited (log @ map (Pair now) es)"
  unfolding reports_waited_def
proof (intro allI impI)
  fix l t e r K assume eq: "log @ map (Pair now) es = l @ (t, e) # r" and rep: "unnamed_report K e"
  consider m where "log = l @ (t, e) # m" | m where "l = log @ m" "map (Pair now) es = m @ (t, e) # r"
    using eq by (auto simp: append_eq_append_conv2 append_eq_Cons_conv Cons_eq_append_conv)
  then show "waited K l t"
  proof cases
    case 1
    then show ?thesis using assms(1) rep unfolding reports_waited_def by blast
  next
    case 2
    then have "(t, e) \<in> set (map (Pair now) es)" and sub: "set m \<subseteq> set (map (Pair now) es)" by auto
    then have "e \<in> set es" "t = now" by auto
    note w = assms(2) [OF this(1) rep]
    have "armed_at K l = armed_at K log" unfolding 2(1) by (rule armed_at_calm) (use sub w in auto)
    then show ?thesis using w \<open>t = now\<close> by (simp add: waited_def)
  qed
qed

lemma reports_quiet:
  assumes "reports_waited log" and "\<And>K e. e \<in> set es \<Longrightarrow> \<not> unnamed_report K e"
  shows "reports_waited (log @ map (Pair now) es)"
  by (rule reports_append [OF assms(1)]) (use assms(2) in blast)

section \<open>The quiet window\<close>

text \<open>A timer that names no turn is not due before the delay it was armed with, and its generation was given out.\<close>

definition timer_due :: "attn \<Rightarrow> nat \<Rightarrow> flush_token \<Rightarrow> bool" where
  "timer_due s limit token \<longleftrightarrow>
     (snd (ft_key token) = None \<longrightarrow>
        ft_generation token \<le> co_generation (an_co s) \<and>
        (\<forall>t d. (t, Armed (ft_key token) (ft_generation token) d) \<in> set (an_log s) \<longrightarrow> t + d \<le> limit))"

definition timers_due :: "attn \<Rightarrow> bool" where
  "timers_due s \<longleftrightarrow>
     (\<forall>t key g d. (t, Armed key g d) \<in> set (an_log s) \<longrightarrow> g \<le> co_generation (an_co s)) \<and>
     (\<forall>limit token. (limit, token) \<in> set (co_queue (an_co s)) \<longrightarrow> timer_due s limit token) \<and>
     (\<forall>token back. an_task s = Flushing token back \<longrightarrow> timer_due s (an_now s) token)"

definition entries_armed :: "attn \<Rightarrow> bool" where
  "entries_armed s \<longleftrightarrow>
     (\<forall>K e. co_pending (an_co s) (K, None) = Some e \<longrightarrow> (\<exists>t d. armed_at K (an_log s) = Some (t, pe_generation e, d)))"

definition window_ok :: "attn \<Rightarrow> bool" where
  "window_ok s \<longleftrightarrow> timers_due s \<and> entries_armed s \<and> reports_waited (an_log s)"

text \<open>Steps that arm and cancel nothing.\<close>

lemma window_calm:
  assumes ok: "window_ok s" and log: "an_log s' = note_effects s es" and es: "\<And>e. e \<in> set es \<Longrightarrow> calm e"
    and rep: "\<And>e K. e \<in> set es \<Longrightarrow> unnamed_report K e \<Longrightarrow> waited K (an_log s) (an_now s)"
    and gen: "co_generation (an_co s') = co_generation (an_co s)"
    and pend: "\<And>K e'. co_pending (an_co s') (K, None) = Some e' \<Longrightarrow>
      \<exists>e. co_pending (an_co s) (K, None) = Some e \<and> pe_generation e = pe_generation e'"
    and queue: "\<And>limit token. (limit, token) \<in> set (co_queue (an_co s')) \<Longrightarrow> snd (ft_key token) = None \<Longrightarrow>
      (limit, token) \<in> set (co_queue (an_co s))"
    and task: "\<And>token bk. an_task s' = Flushing token bk \<Longrightarrow> snd (ft_key token) = None \<Longrightarrow> timer_due s (an_now s') token"
  shows "window_ok s'"
proof -
  have armed: "(t, Armed key g d) \<in> set (an_log s') \<longleftrightarrow> (t, Armed key g d) \<in> set (an_log s)" for t key g d
    using es [of "Armed key g d"] by (auto simp: log note_effects_def)
  have due: "timer_due s' limit token = timer_due s limit token" for limit token by (simp add: timer_due_def armed gen)
  have un: "timer_due s limit token" if "snd (ft_key token) \<noteq> None" for limit token using that by (auto simp: timer_due_def)
  have t: "timers_due s" and e: "entries_armed s" and r: "reports_waited (an_log s)" using ok by (simp_all add: window_ok_def)
  have "timers_due s'" unfolding timers_due_def due armed gen using t queue task un unfolding timers_due_def by metis
  moreover have "armed_at K (an_log s') = armed_at K (an_log s)" for K
    unfolding log note_effects_def by (rule armed_at_calm) (use es in auto)
  then have "entries_armed s'" using e pend unfolding entries_armed_def by metis
  moreover have "reports_waited (an_log s')" unfolding log note_effects_def by (rule reports_append [OF r]) (use es rep in auto)
  ultimately show ?thesis by (simp add: window_ok_def)
qed

lemma window_armed:
  assumes ok: "window_ok s" and pend: "co_pending co = (co_pending (an_co s))(key \<mapsto> e)"
    and e: "pe_generation e = co_generation (an_co s) + 1" and gen: "co_generation co = co_generation (an_co s) + 1"
    and queue: "co_queue co = co_queue (an_co s) @ [(an_now s + d, entry_token key e)]" and task: "an_task s = NoTask"
  shows "window_ok (s\<lparr>an_co := co, an_log := note_effects s [Armed key (co_generation (an_co s) + 1) d]\<rparr>)" (is "window_ok ?s")
proof -
  have t: "timers_due s" and a: "entries_armed s" and r: "reports_waited (an_log s)" using ok by (simp_all add: window_ok_def)
  have old: "timer_due ?s limit token" if "timer_due s limit token" "ft_generation token \<le> co_generation (an_co s)" for limit token
    using that by (auto simp: timer_due_def gen note_effects_def)
  have named: "timer_due ?s limit token" if "snd (ft_key token) \<noteq> None" for limit token using that by (auto simp: timer_due_def)
  have given: "g \<le> co_generation (an_co s)" if "(tm, Armed k g dd) \<in> set (an_log s)" for tm k g dd
    using t that unfolding timers_due_def by blast
  then have "(tm, Armed k (Suc (co_generation (an_co s))) dd) \<notin> set (an_log s)" for tm k dd using not_less_eq_eq by blast
  then have new: "timer_due ?s (an_now s + d) (entry_token key e)"
    by (simp add: timer_due_def entry_token_def e gen note_effects_def)
  have "timer_due ?s limit token" if "(limit, token) \<in> set (co_queue co)" for limit token
  proof (cases "snd (ft_key token) = None \<and> (limit, token) \<in> set (co_queue (an_co s))")
    case True
    then have "timer_due s limit token" using t by (auto simp: timers_due_def)
    then show ?thesis using True by (intro old) (auto simp: timer_due_def)
  next
    case False
    then show ?thesis using named new that by (auto simp: queue)
  qed
  moreover have "g \<le> co_generation co" if "(tm, Armed k g dd) \<in> set (note_effects s [Armed key (co_generation (an_co s) + 1) d])" for tm k g dd
    using that given [of tm k g dd] by (auto simp: gen note_effects_def)
  ultimately have "timers_due ?s" using task by (auto simp: timers_due_def)
  moreover have "entries_armed ?s" using a by (auto simp: entries_armed_def pend e note_effects_def)
  moreover have "reports_waited (note_effects s [Armed key (co_generation (an_co s) + 1) d])"
    unfolding note_effects_def by (rule reports_quiet [OF r]) simp
  ultimately show ?thesis by (simp add: window_ok_def)
qed

lemma window_cancelled:
  assumes ok: "window_ok s" and task: "\<And>token bk. an_task s \<noteq> Flushing token bk"
    and co: "co_queue co = co_queue (an_co s)" "co_generation co = co_generation (an_co s)"
      "co_pending co = (co_pending (an_co s))((key, None) := None)"
  shows "window_ok (s\<lparr>an_co := co, an_task := NoTask, an_log := note_effects s [Cancelled key, Acknowledged key as_of]\<rparr>)"
    (is "window_ok ?s")
proof -
  have t: "timers_due s" and a: "entries_armed s" and r: "reports_waited (an_log s)" using ok by (simp_all add: window_ok_def)
  have "timers_due ?s" using t by (auto simp: timers_due_def timer_due_def co note_effects_def)
  moreover have "armed_at K (note_effects s [Cancelled key, Acknowledged key as_of]) = (if K = key then None else armed_at K (an_log s))" for K
    using armed_at_append [of K "an_log s @ [(an_now s, Cancelled key)]"] by (simp add: note_effects_def)
  then have "entries_armed ?s" using a by (auto simp: entries_armed_def co)
  moreover have "reports_waited (note_effects s [Cancelled key, Acknowledged key as_of])"
    unfolding note_effects_def by (rule reports_quiet [OF r]) auto
  ultimately show ?thesis by (simp add: window_ok_def)
qed

fun effect_of :: "pending_key \<Rightarrow> effect \<Rightarrow> bool" where
  "effect_of key (Committed (Some k) _ _ _ _) \<longleftrightarrow> k = key"
| "effect_of key (Signalled k _ _ _) \<longleftrightarrow> k = key"
| "effect_of key _ \<longleftrightarrow> False"

lemma effect_of_calm: "effect_of key e \<Longrightarrow> calm e"
  by (cases "(key, e)" rule: effect_of.cases) auto

lemma effect_of_unnamed: "effect_of key e \<Longrightarrow> unnamed_report K e \<Longrightarrow> key = (K, None)"
  by (cases "(key, e)" rule: effect_of.cases) (auto elim: unnamed_report.elims)

lemma record_turn_of: "record_turn ev key signal c names working at = (ev', b, es) \<Longrightarrow> e \<in> set es \<Longrightarrow> effect_of key e"
  by (auto simp: record_turn_def Let_def split: option.splits if_splits)

lemma flush_unnamed_of:
  assumes "flush_unnamed co ev now m answer working at key entry = (co', ev', es)" and "e \<in> set es"
  shows "effect_of key e"
proof (cases "pe_signal entry")
  case None
  then show ?thesis using assms by (auto simp: flush_unnamed_def Let_def split: option.splits)
next
  case (Some signal)
  then obtain c ev1 b signals where "record_turn ev key signal c False working at = (ev1, b, signals)"
    "e \<in> set signals \<or> (\<exists>mt r. e = Committed (Some key) None mt r answer)"
    using assms by (auto simp: flush_unnamed_def Let_def split: prod.splits option.splits)
  then show ?thesis by (auto dest: record_turn_of)
qed

lemma flush_surface_of:
  assumes "flush_surface rfc co ev now m answer at key turn sid snap = (co', ev', es)" and "e \<in> set es"
  shows "effect_of key e"
proof (cases "co_pending co key")
  case None
  then show ?thesis using assms by (simp add: flush_surface_def)
next
  case (Some entry)
  note run = assms(1) [unfolded flush_surface_def Some option.case Let_def]
  show ?thesis
  proof (cases "if tn_signal_reported snap then None else pe_signal entry")
    case None
    then show ?thesis using run assms(2) by (auto split: option.splits)
  next
    case (Some signal)
    then obtain c ev1 b signals where "record_turn ev key signal c True False at = (ev1, b, signals)"
      "e \<in> set signals \<or> (\<exists>mt r. e = Committed (Some key) (Some sid) mt r answer)"
      using run assms(2) by (simp split: prod.splits) (auto split: option.splits)
    then show ?thesis by (auto dest: record_turn_of)
  qed
qed

lemma resume_not_flushing [simp]: "resume_task bk \<noteq> Flushing token bk'"
  by (simp add: resume_task_def split: option.splits prod.splits)

lemma flush_waited:
  assumes "window_ok s" and "an_task s = Flushing token bk" and "current_entry (an_co s) token = Some e" and "ft_key token = (K, None)"
  shows "waited K (an_log s) (an_now s)"
proof -
  have e: "co_pending (an_co s) (K, None) = Some e" "pe_generation e = ft_generation token"
    using assms(3,4) by (auto simp: current_entry_def split: option.splits if_splits)
  then obtain t d where a: "armed_at K (an_log s) = Some (t, ft_generation token, d)"
    using assms(1) unfolding window_ok_def entries_armed_def by metis
  moreover have "t + d \<le> an_now s"
    using assms(1,2,4) armed_at_logged [OF a] unfolding window_ok_def timers_due_def timer_due_def by auto
  ultimately show ?thesis unfolding waited_def by blast
qed

lemma attn_step_window:
  assumes "attn_step rfc X s s'" and ok: "window_ok s"
  shows "window_ok s'"
proof -
  have t: "timers_due s" using ok by (simp add: window_ok_def)
  note quiet = window_calm [OF ok, where es = "[]"]
  show ?thesis using assms(1)
  proof cases
    case (tick now)
    have "timer_due s now token" if "timer_due s (an_now s) token" for token
      using that tick(2) by (auto simp: timer_due_def intro: order_trans)
    then show ?thesis unfolding tick(1)
      by - (rule quiet; use t in \<open>auto simp: timers_due_def note_effects_def\<close>)
  next
    case (command_defer secs answer d co es)
    show ?thesis
    proof (cases rule: defer_cases [OF command_defer(3)])
      case 1
      show ?thesis unfolding command_defer(1)
        by (rule window_calm [OF ok, where es = es]) (use 1 command_defer(2) in auto)
    next
      case (2 key e e')
      show ?thesis unfolding command_defer(1)
        by (rule quiet) (use 2 command_defer(2) in \<open>auto split: if_splits\<close>)
    next
      case (3 key e')
      show ?thesis unfolding command_defer(1) 3(5) by (rule window_armed [OF ok 3(2,1,4,3) command_defer(2)])
    qed
  next
    case (expire deadline token)
    have "timer_due s (an_now s) token" using t expire(3,4) unfolding timers_due_def timer_due_def by (meson le_trans)
    then show ?thesis unfolding expire(1)
      by - (rule quiet; auto simp: note_effects_def dest: notin_set_remove1 set_remove1_subset [THEN subsetD])
  next
    case (resolve_token token ts key as_of owner ev b)
    have "\<not> b" if "snd (ft_key token) = None" using resolve_token(3) that by (auto simp: resolve_settles_def)
    then show ?thesis unfolding resolve_token(1) by - (rule quiet; auto simp: note_effects_def split: if_splits)
  next
    case (resolve_end key as_of secs co es)
    note co = resolve_unnamed_co [OF resolve_end(3)]
    show ?thesis
    proof (cases "refreshed_since (an_co s) key as_of")
      case True
      show ?thesis unfolding resolve_end(1) by (rule window_calm [OF ok, where es = es]) (use True co in auto)
    next
      case False
      then have "es = [Cancelled key, Acknowledged key as_of]" using co(4) by simp
      then show ?thesis unfolding resolve_end(1)
        using window_cancelled [OF ok _ co(1,2), of key as_of] co(3) False resolve_end(2) by simp
    qed
  next
    case (flush_plain token bk entry minted_now answer working at co ev es)
    note of = flush_unnamed_of [OF flush_plain(5)]
    show ?thesis unfolding flush_plain(1)
      by (rule window_calm [OF ok, where es = es])
        (use effect_of_calm [OF of] effect_of_unnamed [OF of] flush_waited [OF ok flush_plain(2,3)] flush_unnamed_co [OF flush_plain(5)]
         in \<open>auto split: if_splits\<close>)
  next
    case (flush_turn token bk entry turn secs owner co ev v)
    show ?thesis unfolding flush_turn(1)
      by (rule quiet; cases rule: flush_verdict_co [OF flush_turn(5)])
        (use flush_turn(4) in \<open>auto simp: note_effects_def split: if_splits\<close>)
  next
    case (surface token sid snap bk turn minted_now answer at co ev es)
    note of = flush_surface_of [OF surface(4)]
    show ?thesis unfolding surface(1)
      by (rule window_calm [OF ok, where es = es])
        (use effect_of_calm [OF of] effect_of_unnamed [OF of] surface(3) flush_surface_co [OF surface(4)]
         in \<open>auto split: if_splits\<close>)
  qed (rule quiet; use t in \<open>auto simp: timers_due_def note_effects_def\<close>)+
qed

lemma attn_run_window: "attn_run rfc X s \<Longrightarrow> window_ok s"
proof (induction rule: attn_run.induct)
  case (start ev now)
  then show ?case
    by (simp add: window_ok_def timers_due_def entries_armed_def reports_waited_def attn_start_def attention_new_def)
qed (rule attn_step_window)

section \<open>Guarantees\<close>

text \<open>The timer of an entry that names no turn: it fires, and the entry leaves for the inbox.\<close>

lemma unnamed_surfaces:
  assumes run: "attn_run rfc X s" and idle: "an_task s = NoTask" and e: "co_pending (an_co s) (K, None) = Some e"
  shows "\<exists>deadline s'. (deadline, entry_token (K, None) e) \<in> set (co_queue (an_co s)) \<and> rtranclp (attn_step rfc X) s s' \<and>
    attn_run rfc X s' \<and> an_now s' = max (an_now s) deadline \<and> co_pending (an_co s') (K, None) = None \<and>
    (\<forall>r. pe_inbox e = Some r \<and> nr_kind r \<noteq> KindTurnCompleted \<longrightarrow>
       (\<exists>m. (an_now s', Committed (Some (K, None)) None m r answer) \<in> set (an_log s')))"
proof -
  let ?tk = "entry_token (K, None) e"
  obtain deadline where q: "(deadline, ?tk) \<in> set (co_queue (an_co s))"
    using attn_run_timers [OF run] e idle unfolding timers_held_def timer_held_def by fastforce
  let ?s1 = "s\<lparr>an_now := max (an_now s) deadline\<rparr>"
  let ?s2 = "?s1\<lparr>an_co := (an_co s)\<lparr>co_queue := remove1 (deadline, ?tk) (co_queue (an_co s))\<rparr>, an_task := Flushing ?tk None\<rparr>"
  obtain co ev es where fl: "flush_unnamed (an_co ?s2) (an_turns ?s2) (an_now ?s2) 0 answer False [] (K, None) e = (co, ev, es)"
    by (metis surj_pair)
  let ?s3 = "?s2\<lparr>an_co := co, an_turns := ev, an_task := resume_task None, an_log := note_effects ?s2 es\<rparr>"
  have 1: "attn_step rfc X s ?s1" by (rule attn_step.tick) simp
  have 2: "attn_step rfc X ?s1 ?s2" using attn_step.expire [of ?s1 deadline ?tk rfc X] idle q by simp
  have 3: "attn_step rfc X ?s2 ?s3"
    using attn_step.flush_plain [of ?s2 ?tk None e 0 answer False "[]" co ev es rfc X] fl e
    by (simp add: current_entry_def entry_token_def)
  have "\<exists>m. Committed (Some (K, None)) None m r answer \<in> set es" if "pe_inbox e = Some r" "nr_kind r \<noteq> KindTurnCompleted" for r
    using fl that by (cases "pe_signal e") (auto simp: flush_unnamed_def Let_def split: prod.splits)
  then have "\<forall>r. pe_inbox e = Some r \<and> nr_kind r \<noteq> KindTurnCompleted \<longrightarrow>
      (\<exists>m. (an_now ?s3, Committed (Some (K, None)) None m r answer) \<in> set (an_log ?s3))"
    by (fastforce simp: note_effects_def)
  moreover have "rtranclp (attn_step rfc X) s ?s3" using 1 2 3
    by (meson rtranclp.rtrancl_into_rtrancl rtranclp.rtrancl_refl)
  moreover have "attn_run rfc X ?s3" by (rule attn_run.step [OF attn_run.step [OF attn_run.step [OF run 1] 2] 3])
  moreover have "co_pending (an_co ?s3) (K, None) = None" by (simp add: flush_unnamed_co [OF fl])
  moreover have "an_now ?s3 = max (an_now s) deadline" by simp
  ultimately show ?thesis using q by blast
qed

section \<open>A run\<close>

definition a_sid :: session_id where "a_sid = ''s1''"

definition a_record :: "notification_kind \<Rightarrow> bytes \<Rightarrow> notification_record" where
  "a_record kind key =
     \<lparr>nr_id = ''n1'', nr_source = \<lparr>src_provider = ''claude'', src_provider_event = ''Stop'', src_host_local_source_id = ''h1''\<rparr>,
      nr_kind = kind, nr_severity = SeverityInfo, nr_status = StatusUnread, nr_title = [], nr_body = [], nr_metadata = Map.empty,
      nr_created_at = ''2026-07-03T10:00:00Z'', nr_session_id = Some a_sid, nr_agent_kind = None, nr_source_id = None,
      nr_dedupe_key = Some key, nr_project_id = None, nr_read_at = None, nr_acked_at = None, nr_archived_at = None,
      nr_deleted_at = None, nr_superseded_by = None, nr_turn_started_at = None, nr_turn_duration_ms = None,
      nr_session_metadata = Map.empty, nr_hook_admitted = True\<rparr>"

definition a_create :: "notification_kind \<Rightarrow> bytes \<Rightarrow> nat option \<Rightarrow> deferred_notification" where
  "a_create kind key turn =
     \<lparr>df_record = a_record kind key, df_inbox = True, df_unavailable = None, df_signal = True, df_turn = turn, df_minted = 1\<rparr>"

definition an_entry :: "notification_kind \<Rightarrow> bytes \<Rightarrow> nat \<Rightarrow> pending_entry" where
  "an_entry kind key debounce =
     \<lparr>pe_inbox = Some (a_record kind key), pe_signal = Some (a_record kind key),
      pe_repeat_window = max (debounce * 2) REPEAT_REPORT_FLOOR, pe_newest_foreign = Some 1, pe_generation = 1\<rparr>"

lemma a_create_holds:
  assumes "kind = KindApprovalRequired \<or> turn \<noteq> None"
  shows "attention_defer attention_new ev secs now None (a_create kind key turn) =
    (\<lparr>co_pending = [(key, turn) \<mapsto> an_entry kind key (seconds secs)],
      co_queue = [(now + seconds secs, \<lparr>ft_key = (key, turn), ft_generation = 1\<rparr>)],
      co_resolved_turns = Map.empty, co_generation = 1\<rparr>, [Armed (key, turn) 1 (seconds secs)])"
  using assms
  by (auto simp: attention_defer_def attention_new_def suppressed_inbox_def hold_pending_def a_create_def a_record_def
      an_entry_def source_priority_def prefer_record_def latest_foreign_def prune_recently_resolved_turns_def Let_def fun_eq_iff)

definition an_events :: turn_events where "an_events = turn_events_new ''d-1'' 4"

definition a_waiting :: attn where
  "a_waiting =
     \<lparr>an_co = fst (attention_defer attention_new an_events 5 0 None (a_create KindApprovalRequired ''attention:s1'' None)),
      an_turns = an_events, an_task = NoTask, an_now = 0, an_log = [(0, Armed (''attention:s1'', None) 1 (seconds 5))]\<rparr>"

lemma a_waiting_entry:
  "co_pending (an_co a_waiting) (''attention:s1'', None) = Some (an_entry KindApprovalRequired ''attention:s1'' (seconds 5))"
  by (simp add: a_waiting_def a_create_holds)

lemma a_start_run: "attn_run rfc X (attn_start an_events now)"
  by (rule attn_run.start) (simp add: an_events_def turn_events_new_def journal_default_def)

lemma a_waiting_run: "attn_run rfc X a_waiting"
proof -
  have "attn_step rfc X (attn_start an_events 0) a_waiting"
    using attn_step.command_defer [of "attn_start an_events 0" 5 None "a_create KindApprovalRequired ''attention:s1'' None" _ _ rfc X]
    by (simp add: attn_start_def a_waiting_def a_create_holds note_effects_def)
  then show ?thesis by (rule attn_run.step [OF a_start_run])
qed

text \<open>The turns of a session take part in a run as they moved on their own.\<close>

lemma turn_run_attn:
  "turn_run p t tr \<Longrightarrow> attn_run rfc X ((attn_start an_events now)\<lparr>an_turns := put_progress an_events a_sid p\<rparr>)"
proof (induction rule: turn_run.induct)
  case (start t)
  have "turns_change X an_events (put_progress an_events a_sid turn_progress_default)"
    unfolding turns_change_def
    by (auto simp: put_progress_def an_events_def turn_events_new_def journal_default_def forget_input_def discard_input_def
        turn_progress_default_def turn_table_default_def intro!: exI [of _ 0] exI [of _ OpForgetInput])
  then show ?case using attn_run.step [OF a_start_run attn_step.turns] by (simp add: attn_start_def)
next
  case (step p t tr now' opn p' a)
  have "turns_change X (put_progress an_events a_sid p) (put_progress (put_progress an_events a_sid p) a_sid p')"
    by (rule put_turn_step [OF _ step(3)]) (simp add: put_progress_def)
  then have "turns_change X (put_progress an_events a_sid p) (put_progress an_events a_sid p')" by (simp add: put_progress_def)
  then show ?case using attn_run.step [OF step(4) attn_step.turns] by simp
qed

definition a_turn_key :: pending_key where "a_turn_key = (''turn:s1'', Some 1)"

definition a_snapshot :: turn_snapshot where
  "a_snapshot = \<lparr>tn_started_nanos = Some 100, tn_length = Some 2, tn_metadata = Map.empty,
     tn_inbox_reported = False, tn_signal_reported = False\<rparr>"

lemma a_turn_reported:
  "\<exists>s. attn_run rfc X s \<and> turn_signals a_sid 1 (an_log s) \<noteq> [] \<and> turn_commits a_sid 1 (an_log s) \<noteq> []"
proof -
  let ?ev = "put_progress an_events a_sid a_progress"
  let ?s0 = "(attn_start an_events 8)\<lparr>an_turns := ?ev\<rparr>"
  let ?tk = "\<lparr>ft_key = a_turn_key, ft_generation = 1\<rparr>"
  let ?e = "an_entry KindTurnCompleted ''turn:s1'' 0"
  obtain co where co: "attention_defer attention_new ?ev 0 8 None (a_create KindTurnCompleted ''turn:s1'' (Some 1)) = (co, [Armed a_turn_key 1 0])"
    "co_pending co = [a_turn_key \<mapsto> ?e]" "co_queue co = [(8, ?tk)]"
    by (simp add: a_create_holds a_turn_key_def seconds_def)
  let ?s1 = "?s0\<lparr>an_co := co, an_log := [(8, Armed a_turn_key 1 0)]\<rparr>"
  let ?s2 = "?s1\<lparr>an_co := co\<lparr>co_queue := []\<rparr>, an_task := Flushing ?tk None\<rparr>"
  obtain ev1 where ev1: "events_settle ?ev a_sid 1 (Some an_owner) 8 = (ev1, Surface a_snapshot)"
    using a_session_surfaces
    by (auto simp: events_settle_def existing_progress_def put_progress_def a_snapshot_def apsnd_def map_prod_def split: prod.splits)
  let ?s3 = "?s2\<lparr>an_turns := ev1, an_task := Surfacing ?tk a_sid a_snapshot None\<rparr>"
  let ?answer = "Some (a_record KindTurnCompleted ''turn:s1'')"
  obtain co4 ev4 es where fl: "flush_surface rfc (co\<lparr>co_queue := []\<rparr>) ev1 8 0 ?answer [] a_turn_key 1 a_sid a_snapshot = (co4, ev4, es)"
    by (metis surj_pair)
  let ?s4 = "?s3\<lparr>an_co := co4, an_turns := ev4, an_task := NoTask, an_log := note_effects ?s3 es\<rparr>"
  have entry: "current_entry (co\<lparr>co_queue := []\<rparr>) ?tk = Some ?e" by (simp add: current_entry_def co(2) an_entry_def)
  have sid: "entry_session ?e = Some a_sid" by (simp add: entry_session_def an_entry_def a_record_def)
  have 1: "attn_step rfc X ?s0 ?s1"
    using attn_step.command_defer [of ?s0 0 None "a_create KindTurnCompleted ''turn:s1'' (Some 1)" co "[Armed a_turn_key 1 0]" rfc X] co(1) by (simp add: attn_start_def note_effects_def)
  have 2: "attn_step rfc X ?s1 ?s2"
    using attn_step.expire [of ?s1 8 ?tk rfc X] co(3) by (simp add: attn_start_def)
  have "flush_verdict (co\<lparr>co_queue := []\<rparr>) ?ev 0 8 (Some an_owner) ?tk 1 ?e = (co\<lparr>co_queue := []\<rparr>, ev1, Some (a_sid, a_snapshot))"
    by (simp add: flush_verdict_def sid ev1 [simplified] Let_def)
  then have 3: "attn_step rfc X ?s2 ?s3"
    using attn_step.flush_turn [of ?s2 ?tk None ?e 1 0 "Some an_owner" _ _ _ rfc X] entry
    by (simp add: attn_start_def a_turn_key_def)
  have 4: "attn_step rfc X ?s3 ?s4"
    using attn_step.surface [of ?s3 ?tk a_sid a_snapshot None 1 rfc 0 ?answer "[]" co4 ev4 es X] fl
    by (simp add: attn_start_def resume_task_def a_turn_key_def)
  have "\<exists>x \<in> set es. is_commit a_sid 1 x" "\<exists>x \<in> set es. is_signal a_sid 1 x"
    using fl by (auto simp: flush_surface_def co(2) an_entry_def a_snapshot_def record_turn_def a_record_def turn_kind_def a_turn_key_def Let_def)
  then have "turn_signals a_sid 1 (an_log ?s4) \<noteq> []" "turn_commits a_sid 1 (an_log ?s4) \<noteq> []"
    by (auto simp: turn_signals_def turn_commits_def note_effects_def filter_empty_conv)
  moreover have "attn_run rfc X ?s4"
    by (rule attn_run.step [OF attn_run.step [OF attn_run.step [OF attn_run.step [OF turn_run_attn [OF a_session_run] 1] 2] 3] 4])
  ultimately show ?thesis by blast
qed

text \<open>
  C22. Every turn is reported once.  Over every run of the coordinator, whatever creates, resolves and
  timers arrive and however the turns move in between, a turn of a session that stays is signalled to
  the waiters at most once and committed to the inbox at most once, also when several entries, a
  recheck and a resolve are all about to surface it.
\<close>

theorem turn_reported_once:
  assumes "attn_run rfc3339 X s" and "sid \<notin> X"
  shows "length (turn_signals sid i (an_log s)) \<le> 1 \<and> length (turn_commits sid i (an_log s)) \<le> 1"
  using attn_run_ok [OF assms(1)] assms(2) unfolding attn_ok_def once_ok_def by blast

theorem turn_reported_once_witness:
  "\<exists>s. attn_run (\<lambda>_. None) {} s \<and> length (turn_signals a_sid 1 (an_log s)) = 1 \<and> length (turn_commits a_sid 1 (an_log s)) = 1"
proof -
  obtain s where s: "attn_run (\<lambda>_. None) {} s" "turn_signals a_sid 1 (an_log s) \<noteq> []" "turn_commits a_sid 1 (an_log s) \<noteq> []"
    using a_turn_reported by blast
  then have "0 < length (turn_signals a_sid 1 (an_log s))" "0 < length (turn_commits a_sid 1 (an_log s))" by simp_all
  moreover have "a_sid \<notin> {}" by simp
  note once = turn_reported_once [OF s(1) this, of 1]
  ultimately show ?thesis by (intro exI [of _ s] conjI, intro s(1)) (use once in linarith)+
qed





text \<open>
  C25. A create that only signals still shields the inbox record.  The coordinator keeps the inbox
  candidate and its timer when a provider's report adds no inbox record, yet the report counts as a
  refresh of the entry: a resolve as of an earlier moment, which would have cancelled the pending inbox
  record, then leaves it pending.
\<close>

theorem signal_only_create_shields_inbox:
  assumes "co_pending co (K, None) = Some e" and "pe_inbox e = Some r"
    and "\<And>m. pe_newest_foreign e = Some m \<Longrightarrow> m \<le> ra_minted_before a"
    and "nr_dedupe_key (df_record d) = Some K" and "\<not> df_inbox d" and "df_signal d" and "df_turn d = None"
    and "source_priority (df_record d) \<noteq> Projector" and "ra_minted_before a < df_minted d"
    and "attention_defer co ev secs now answer d = (co', es)"
  shows "es = [] \<and> co_queue co' = co_queue co \<and> co_pending (fst (resolve_unnamed co secs later K (Some a))) (K, None) = None \<and>
    (\<exists>e'. co_pending (fst (resolve_unnamed co' secs later K (Some a))) (K, None) = Some e' \<and>
       pe_inbox e' = Some r \<and> pe_generation e' = pe_generation e)"
proof -
  obtain co2 b where sup: "suppressed_inbox (co\<lparr>co_resolved_turns :=
      prune_recently_resolved_turns (co_resolved_turns co) (seconds secs) now\<rparr>) ev (seconds secs) now d K = (co2, b)"
    by fastforce
  note k = suppressed_keeps [OF sup]
  have hold: "hold_pending co2 (seconds secs) now d False K = (co', es)"
    using assms(4-6,10) sup by (simp add: attention_defer_def Let_def)
  have "es = []" "co_queue co' = co_queue co"
    using hold assms(1,2,7) k by (auto simp: hold_pending_def Let_def)
  moreover have "\<exists>e'. co_pending co' (K, None) = Some e' \<and> pe_inbox e' = Some r \<and> pe_generation e' = pe_generation e \<and>
      (\<exists>m. pe_newest_foreign e' = Some m \<and> ra_minted_before a < m)"
    using hold assms(1,2,7,8,9) k by (auto simp: hold_pending_def latest_foreign_def Let_def split: option.splits)
  then have "\<exists>e'. co_pending (fst (resolve_unnamed co' secs later K (Some a))) (K, None) = Some e' \<and>
      pe_inbox e' = Some r \<and> pe_generation e' = pe_generation e"
    by (auto simp: resolve_unnamed_def refreshed_since_def Let_def)
  moreover have "\<not> refreshed_since co K (Some a)"
    using assms(1,3) by (auto simp: refreshed_since_def not_less split: option.splits)
  then have "co_pending (fst (resolve_unnamed co secs later K (Some a))) (K, None) = None"
    by (simp add: resolve_unnamed_def Let_def)
  ultimately show ?thesis by blast
qed

definition a_signal_only :: deferred_notification where
  "a_signal_only = (a_create KindApprovalRequired ''attention:s1'' None)\<lparr>df_inbox := False, df_minted := 5\<rparr>"

theorem signal_only_create_shields_inbox_witness:
  "co_pending (fst (resolve_unnamed (an_co a_waiting) 5 7 ''attention:s1'' (Some \<lparr>ra_minted_before = 3, ra_monotonic = 6\<rparr>)))
     (''attention:s1'', None) = None \<and>
   co_pending (fst (resolve_unnamed (fst (attention_defer (an_co a_waiting) an_events 5 6 None a_signal_only)) 5 7 ''attention:s1''
     (Some \<lparr>ra_minted_before = 3, ra_monotonic = 6\<rparr>))) (''attention:s1'', None) \<noteq> None"
proof -
  obtain co' es where d: "attention_defer (an_co a_waiting) an_events 5 6 None a_signal_only = (co', es)" by fastforce
  have "co_pending (fst (resolve_unnamed (an_co a_waiting) 5 7 ''attention:s1'' (Some \<lparr>ra_minted_before = 3, ra_monotonic = 6\<rparr>)))
      (''attention:s1'', None) = None \<and>
    (\<exists>e'. co_pending (fst (resolve_unnamed co' 5 7 ''attention:s1'' (Some \<lparr>ra_minted_before = 3, ra_monotonic = 6\<rparr>)))
       (''attention:s1'', None) = Some e')"
    using signal_only_create_shields_inbox [OF a_waiting_entry _ _ _ _ _ _ _ _ d,
        of "a_record KindApprovalRequired ''attention:s1''" "\<lparr>ra_minted_before = 3, ra_monotonic = 6\<rparr>" 7]
    by (auto simp: an_entry_def a_signal_only_def a_create_def a_record_def source_priority_def)
  then show ?thesis by (auto simp: d)
qed

end
