(* ===== verification/Notify_Store.thy ===== *)
theory Notify_Store
  imports Attention "HOL-Library.List_Lexorder" "HOL-Library.Char_ord" "HOL-Library.Product_Lexorder"
begin

text \<open>
  The append-only notification store (\<open>crates/daemon/src/notifications/store.rs\<close>) and the commit path of the
  service above it (\<open>notifications/mod.rs\<close>).  The log is its bytes; what serde and the \<open>time\<close> crate
  answer, and how far a write got, are arguments.
\<close>

section \<open>Actions and the log\<close>

datatype store_action =
    ActionCreated notification_record
  | ActionCreatedWithUpdates notification_record "notification_record list"
  | ActionUpdated notification_record
  | ActionDeleted notification_record

datatype json_category = JsonIo | JsonSyntax | JsonData | JsonEof

datatype notification_error =
    ErrStoreIo
  | ErrSerialize
  | ErrStoreParse nat json_category
  | ErrUnavailable bytes
  | ErrNotFound bytes
  | ErrInvalidTransition bytes notification_status notification_status
  | ErrInvalidTimestamp bytes
  | ErrInvalidCursor bytes

text \<open>serde's encoding and decoding of an action, the text of an error, and a timestamp in nanoseconds.\<close>

record store_env =
  se_encode :: "store_action \<Rightarrow> bytes option"
  se_decode :: "bytes \<Rightarrow> (json_category, store_action) result"
  se_show :: "notification_error \<Rightarrow> bytes"
  se_timestamp :: "bytes \<Rightarrow> int option"

text \<open>A \<open>BTreeMap\<close> from identifiers to records, in the order of its keys.\<close>

type_synonym notification_records = "(bytes \<times> notification_record) list"

record store_state =
  ss_log :: bytes
  ss_file :: bool
  ss_records :: notification_records
  ss_action_count :: nat
  ss_source_warning_logged :: bool
  ss_contributions :: "bytes \<rightharpoonup> nat"
  ss_unavailable :: "bytes option"

definition insert_record :: "notification_records \<Rightarrow> notification_record \<Rightarrow> notification_records" where
  "insert_record records r = btree_insert (nr_id r) r records"

fun apply_action :: "notification_records \<Rightarrow> store_action \<Rightarrow> notification_records" where
  "apply_action records (ActionCreated r) = insert_record records r"
| "apply_action records (ActionUpdated r) = insert_record records r"
| "apply_action records (ActionDeleted r) = insert_record records r"
| "apply_action records (ActionCreatedWithUpdates r updated) = foldl insert_record (insert_record records r) updated"

text \<open>How far a write got: all of it, or a number of bytes before an error.\<close>

datatype log_write = Written | WriteFailed nat

definition newline :: byte where "newline = CHR 0x0A"

definition append_action_locked ::
  "store_env \<Rightarrow> log_write \<Rightarrow> store_state \<Rightarrow> store_action \<Rightarrow> store_state \<times> (notification_error, unit) result" where
  "append_action_locked env w s action =
     (case se_encode env action of
        None \<Rightarrow> (s, Err ErrSerialize)
      | Some text \<Rightarrow>
          (let line = text @ [newline] in
           if \<not> ss_file s then (s, Err (ErrUnavailable ''the notification store is not open''))
           else
             (case w of
                WriteFailed n \<Rightarrow> (s\<lparr>ss_log := ss_log s @ take n line\<rparr>, Err ErrStoreIo)
              | Written \<Rightarrow>
                  (s\<lparr>ss_log := ss_log s @ line, ss_records := apply_action (ss_records s) action,
                     ss_action_count := ss_action_count s + 1\<rparr>, Ok ()))))"

text \<open>The updates of a loop, one append after the other, until one fails.\<close>

fun append_updates ::
  "store_env \<Rightarrow> (nat \<Rightarrow> log_write) \<Rightarrow> store_state \<Rightarrow> notification_record list \<Rightarrow>
   store_state \<times> (notification_error, unit) result" where
  "append_updates env w s [] = (s, Ok ())"
| "append_updates env w s (r # rest) =
     (case append_action_locked env (w 0) s (ActionUpdated r) of
        (s', Err e) \<Rightarrow> (s', Err e)
      | (s', Ok _) \<Rightarrow> append_updates env (\<lambda>n. w (n + 1)) s' rest)"

section \<open>Replay\<close>

text \<open>\<open>split_inclusive\<close> at line feeds: the pieces with their line feed, the last one perhaps without.\<close>

fun split_inclusive :: "bytes \<Rightarrow> bytes list" where
  "split_inclusive [] = []"
| "split_inclusive (b # rest) =
     (if b = newline then [b] # split_inclusive rest
      else (case split_inclusive rest of [] \<Rightarrow> [[b]] | p # ps \<Rightarrow> (b # p) # ps))"

definition TOLERATE_TRAILING_EOF_ACTION :: bool where "TOLERATE_TRAILING_EOF_ACTION = True"

definition is_tolerated_trailing_partial :: "bool \<Rightarrow> json_category \<Rightarrow> bool" where
  "is_tolerated_trailing_partial terminated err \<longleftrightarrow> TOLERATE_TRAILING_EOF_ACTION \<and> \<not> terminated \<and> err = JsonEof"

text \<open>
  \<open>replay\<close>: the lines of the log in order, a terminator of LF or CR LF taken off each.  The errors keep
  the line number and the category of the parse error; the path of the log in their messages is left
  out.
\<close>

definition strip_line_end :: "bytes \<Rightarrow> bytes" where
  "strip_line_end raw =
     (let line = unwrap_or (strip_suffix [newline] raw) raw
      in unwrap_or (strip_suffix [CHR 0x0D] line) line)"

fun replay_lines ::
  "store_env \<Rightarrow> nat \<Rightarrow> bytes list \<Rightarrow> notification_records \<times> nat \<Rightarrow> (notification_error, notification_records \<times> nat) result" where
  "replay_lines env index [] (records, action_count) = Ok (records, action_count)"
| "replay_lines env index (raw_line # rest) (records, action_count) =
     (let terminated = suffix [newline] raw_line;
          line = strip_line_end raw_line
      in if trim_chars (utf8_chars line) = [] then replay_lines env (index + 1) rest (records, action_count)
         else
           (case se_decode env line of
              Ok action \<Rightarrow> replay_lines env (index + 1) rest (apply_action records action, action_count + 1)
            | Err err \<Rightarrow>
                if is_tolerated_trailing_partial terminated err
                then replay_lines env (index + 1) rest (records, action_count)
                else Err (ErrStoreParse (index + 1) err)))"

definition replay :: "store_env \<Rightarrow> bytes \<Rightarrow> (notification_error, notification_records \<times> nat) result" where
  "replay env content =
     (if is_utf8 content then replay_lines env 0 (split_inclusive content) ([], 0)
      else Err (ErrUnavailable ''the notification log is not text''))"

text \<open>
  \<open>open\<close>: \<open>reason\<close> is what the format marker and the policy file say against using the store.  Errors of
  the file system end the start of the daemon and are left out.
\<close>

definition unavailable_store :: "bytes \<Rightarrow> bytes \<Rightarrow> store_state" where
  "unavailable_store content reason =
     \<lparr>ss_log = content, ss_file = False, ss_records = [], ss_action_count = 0, ss_source_warning_logged = False,
      ss_contributions = Map.empty, ss_unavailable = Some reason\<rparr>"

definition store_open :: "store_env \<Rightarrow> bytes option \<Rightarrow> bytes \<Rightarrow> store_state" where
  "store_open env reason content =
     (case reason of
        Some r \<Rightarrow> unavailable_store content r
      | None \<Rightarrow>
          (case replay env content of
             Err e \<Rightarrow> unavailable_store content (se_show env e)
           | Ok (records, action_count) \<Rightarrow>
               \<lparr>ss_log = content, ss_file = True, ss_records = records, ss_action_count = action_count,
                ss_source_warning_logged = False, ss_contributions = Map.empty, ss_unavailable = None\<rparr>))"

definition ensure_available :: "store_state \<Rightarrow> (notification_error, unit) result" where
  "ensure_available s = (case ss_unavailable s of Some reason \<Rightarrow> Err (ErrUnavailable reason) | None \<Rightarrow> Ok ())"

section \<open>Status and sources\<close>

definition apply_status :: "notification_record \<Rightarrow> notification_status \<Rightarrow> bytes \<Rightarrow> notification_record" where
  "apply_status r status now =
     (let r' = r\<lparr>nr_status := status\<rparr> in
      case status of
        StatusUnread \<Rightarrow> r'
      | StatusUnknown \<Rightarrow> r'
      | StatusRead \<Rightarrow> r'\<lparr>nr_read_at := Some now\<rparr>
      | StatusAcknowledged \<Rightarrow> r'\<lparr>nr_acked_at := Some now\<rparr>
      | StatusArchived \<Rightarrow> r'\<lparr>nr_archived_at := Some now\<rparr>
      | StatusDeleted \<Rightarrow> r'\<lparr>nr_deleted_at := Some now\<rparr>)"

definition is_valid_status_transition :: "notification_status \<Rightarrow> notification_status \<Rightarrow> bool" where
  "is_valid_status_transition src dst =
     (if dst = StatusDeleted then src \<noteq> StatusDeleted
      else if dst = StatusArchived then src \<in> {StatusUnread, StatusRead, StatusAcknowledged}
      else (src = StatusUnread \<and> dst = StatusRead) \<or> (src = StatusRead \<and> dst = StatusAcknowledged) \<or>
        (src = StatusUnread \<and> dst = StatusAcknowledged))"

definition same_source_namespace :: "notification_source \<Rightarrow> notification_source \<Rightarrow> bool" where
  "same_source_namespace left right \<longleftrightarrow>
     src_provider left = src_provider right \<and> src_provider_event left = src_provider_event right"

definition is_attention_kind :: "notification_kind \<Rightarrow> bool" where
  "is_attention_kind kind \<longleftrightarrow> kind = KindAgentBlocked \<or> kind = KindApprovalRequired"

definition is_attention_dedupe_key :: "bytes \<Rightarrow> bool" where
  "is_attention_dedupe_key dedupe_key =
     (case reserved_dedupe_session_suffix dedupe_key of
        None \<Rightarrow> False
      | Some (pre, sfx) \<Rightarrow> pre = ATTENTION_DEDUPE_KEY_PREFIX \<and> sfx \<noteq> [])"

abbreviation active_record :: "notification_record \<Rightarrow> bool" where
  "active_record r \<equiv> nr_status r = StatusUnread \<or> nr_status r = StatusRead"

definition inside_attention_window ::
  "store_env \<Rightarrow> notification_record \<Rightarrow> int \<Rightarrow> nat \<Rightarrow> (notification_error, bool) result" where
  "inside_attention_window env existing incoming_created_at window_secs =
     (case se_timestamp env (nr_created_at existing) of
        None \<Rightarrow> Err (ErrInvalidTimestamp (nr_created_at existing))
      | Some created_at \<Rightarrow> Ok (nat \<bar>incoming_created_at - created_at\<bar> div 1000000000 \<le> window_secs))"

section \<open>Creating\<close>

definition record_values :: "store_state \<Rightarrow> notification_record list" where
  "record_values s = map snd (ss_records s)"

definition note_contribution :: "store_state \<Rightarrow> notification_record \<Rightarrow> bytes \<Rightarrow> nat \<Rightarrow> store_state" where
  "note_contribution s candidate rid minted =
     (if source_priority candidate \<noteq> Projector
      then s\<lparr>ss_contributions := (ss_contributions s)(rid \<mapsto> max (unwrap_or (ss_contributions s rid) minted) minted)\<rparr>
      else s)"

definition find_existing_source :: "notification_record list \<Rightarrow> notification_record \<Rightarrow> notification_record option" where
  "find_existing_source records candidate =
     (case nr_source_id candidate of
        None \<Rightarrow> None
      | Some source_id \<Rightarrow>
          List.find (\<lambda>r. nr_status r \<noteq> StatusDeleted \<and> nr_source_id r = Some source_id \<and>
            same_source_namespace (nr_source r) (nr_source candidate)) records)"

definition supersede_unread_records ::
  "notification_record list \<Rightarrow> bytes \<Rightarrow> notification_kind \<Rightarrow> bytes \<Rightarrow> bytes \<Rightarrow> notification_record list" where
  "supersede_unread_records records dedupe_key kind superseded_by now =
     map (\<lambda>r. (apply_status r StatusAcknowledged now)\<lparr>nr_superseded_by := Some superseded_by\<rparr>)
       (filter (\<lambda>r. nr_kind r = kind \<and> nr_status r = StatusUnread \<and> nr_dedupe_key r = Some dedupe_key) records)"

definition upgrade_projector :: "notification_record \<Rightarrow> notification_record \<Rightarrow> notification_record" where
  "upgrade_projector existing replacement =
     existing\<lparr>nr_source := nr_source replacement, nr_kind := nr_kind replacement, nr_severity := nr_severity replacement,
       nr_title := nr_title replacement, nr_body := nr_body replacement, nr_metadata := nr_metadata replacement,
       nr_session_id := nr_session_id replacement, nr_agent_kind := nr_agent_kind replacement,
       nr_source_id := nr_source_id replacement, nr_dedupe_key := nr_dedupe_key replacement,
       nr_project_id := nr_project_id replacement, nr_hook_admitted := nr_hook_admitted replacement,
       nr_superseded_by := None\<rparr>"

datatype create_outcome =
    OutcomeCreated notification_record
  | OutcomeCreatedWithUpdates notification_record "notification_record list"
  | OutcomeExisting notification_record
  | OutcomeUpdated notification_record

text \<open>The scan of the active records of a key: the first one that absorbs the candidate.\<close>

datatype dedupe_match = NoMatch | MatchUpgrade notification_record | MatchExisting notification_record

fun dedupe_scan ::
  "store_env \<Rightarrow> bytes \<Rightarrow> int \<Rightarrow> source_priority_rank \<Rightarrow> nat \<Rightarrow> notification_record list \<Rightarrow> (notification_error, dedupe_match) result" where
  "dedupe_scan env dedupe_key created_at priority window [] = Ok NoMatch"
| "dedupe_scan env dedupe_key created_at priority window (existing # rest) =
     (if \<not> active_record existing then dedupe_scan env dedupe_key created_at priority window rest
      else if nr_dedupe_key existing \<noteq> Some dedupe_key then dedupe_scan env dedupe_key created_at priority window rest
      else
        and_then (inside_attention_window env existing created_at window) (\<lambda>inside.
          if \<not> inside then dedupe_scan env dedupe_key created_at priority window rest
          else
            (case (priority, source_priority existing) of
               (Provider, Projector) \<Rightarrow> Ok (MatchUpgrade existing)
             | (Projector, Provider) \<Rightarrow> Ok (MatchExisting existing)
             | (Provider, Provider) \<Rightarrow> Ok (MatchExisting existing)
             | (Projector, Projector) \<Rightarrow> Ok (MatchExisting existing)
             | _ \<Rightarrow> dedupe_scan env dedupe_key created_at priority window rest)))"

text \<open>An append, and what the operation does when it succeeded.\<close>

definition after_append ::
  "store_state \<times> (notification_error, unit) result \<Rightarrow> (store_state \<Rightarrow> store_state \<times> (notification_error, 'a) result) \<Rightarrow>
   store_state \<times> (notification_error, 'a) result" where
  "after_append x k = (case x of (s, Err e) \<Rightarrow> (s, Err e) | (s, Ok _) \<Rightarrow> k s)"

definition append_created ::
  "store_env \<Rightarrow> log_write \<Rightarrow> store_state \<Rightarrow> notification_record \<Rightarrow> nat \<Rightarrow> store_state \<times> (notification_error, create_outcome) result" where
  "append_created env w s candidate minted =
     after_append (append_action_locked env w s (ActionCreated candidate))
       (\<lambda>s'. (note_contribution s' candidate (nr_id candidate) minted, Ok (OutcomeCreated candidate)))"

definition create_superseding_turns ::
  "store_env \<Rightarrow> log_write \<Rightarrow> store_state \<Rightarrow> notification_record \<Rightarrow> bytes \<Rightarrow> nat \<Rightarrow>
   store_state \<times> (notification_error, create_outcome) result" where
  "create_superseding_turns env w s candidate dedupe_key minted =
     (let updated = supersede_unread_records (record_values s) dedupe_key (nr_kind candidate) (nr_id candidate) (nr_created_at candidate)
      in if updated = []
         then append_created env w s candidate minted
         else after_append (append_action_locked env w s (ActionCreatedWithUpdates candidate updated))
           (\<lambda>s'. (note_contribution s' candidate (nr_id candidate) minted, Ok (OutcomeCreatedWithUpdates candidate updated))))"

definition create_deduped ::
  "store_env \<Rightarrow> log_write \<Rightarrow> store_state \<Rightarrow> notification_record \<Rightarrow> bytes \<Rightarrow> nat \<Rightarrow> nat \<Rightarrow>
   store_state \<times> (notification_error, create_outcome) result" where
  "create_deduped env w s candidate dedupe_key window minted =
     (case se_timestamp env (nr_created_at candidate) of
        None \<Rightarrow> (s, Err (ErrInvalidTimestamp (nr_created_at candidate)))
      | Some created_at \<Rightarrow>
          (case dedupe_scan env dedupe_key created_at (source_priority candidate) window (record_values s) of
             Err e \<Rightarrow> (s, Err e)
           | Ok NoMatch \<Rightarrow> append_created env w s candidate minted
           | Ok (MatchExisting existing) \<Rightarrow>
               (note_contribution s candidate (nr_id existing) minted, Ok (OutcomeExisting existing))
           | Ok (MatchUpgrade existing) \<Rightarrow>
               (let updated = upgrade_projector existing candidate
                in after_append (append_action_locked env w s (ActionUpdated updated))
                     (\<lambda>s'. (note_contribution s' candidate (nr_id updated) minted, Ok (OutcomeUpdated updated))))))"

definition create_or_dedupe ::
  "store_env \<Rightarrow> log_write \<Rightarrow> store_state \<Rightarrow> notification_record \<Rightarrow> nat \<Rightarrow> nat \<Rightarrow>
   store_state \<times> (notification_error, create_outcome) result" where
  "create_or_dedupe env w s candidate window minted =
     (case ensure_available s of
        Err e \<Rightarrow> (s, Err e)
      | Ok _ \<Rightarrow>
          (case find_existing_source (record_values s) candidate of
             Some existing \<Rightarrow> (s, Ok (OutcomeExisting existing))
           | None \<Rightarrow>
               (case nr_dedupe_key candidate of
                  None \<Rightarrow> append_created env w s candidate minted
                | Some dedupe_key \<Rightarrow>
                    if is_turn_dedupe_key dedupe_key \<and> nr_kind candidate = KindTurnCompleted
                    then create_superseding_turns env w s candidate dedupe_key minted
                    else create_deduped env w s candidate dedupe_key window minted)))"

definition supersede_turns_for_attention ::
  "store_env \<Rightarrow> (nat \<Rightarrow> log_write) \<Rightarrow> store_state \<Rightarrow> notification_record \<Rightarrow> bytes \<Rightarrow>
   store_state \<times> (notification_error, notification_record list) result" where
  "supersede_turns_for_attention env w s attention now =
     (if \<not> is_attention_kind (nr_kind attention) \<or> \<not> active_record attention then (s, Ok [])
      else
        (case nr_session_id attention of
           None \<Rightarrow> (s, Ok [])
         | Some sid \<Rightarrow>
             (let updated = supersede_unread_records (record_values s) (TURN_DEDUPE_KEY_PREFIX @ '':'' @ sid) KindTurnCompleted
                    (nr_id attention) now
              in after_append (append_updates env w s updated) (\<lambda>s'. (s', Ok updated)))))"

section \<open>Transitions\<close>

datatype update_outcome = RecordUpdated notification_record | RecordDeleted notification_record

definition update_transition ::
  "store_env \<Rightarrow> log_write \<Rightarrow> store_state \<Rightarrow> bytes \<Rightarrow> notification_status \<Rightarrow> bytes \<Rightarrow>
   store_state \<times> (notification_error, update_outcome) result" where
  "update_transition env w s rid status now =
     (case ensure_available s of
        Err e \<Rightarrow> (s, Err e)
      | Ok _ \<Rightarrow>
          (case map_of (ss_records s) rid of
             None \<Rightarrow> (s, Err (ErrNotFound rid))
           | Some r \<Rightarrow>
               if \<not> is_valid_status_transition (nr_status r) status
               then (s, Err (ErrInvalidTransition rid (nr_status r) status))
               else
                 (let r' = apply_status r status now in
                  if nr_status r' = StatusDeleted
                  then after_append (append_action_locked env w s (ActionDeleted r')) (\<lambda>s'. (s', Ok (RecordDeleted r')))
                  else after_append (append_action_locked env w s (ActionUpdated r')) (\<lambda>s'. (s', Ok (RecordUpdated r'))))))"

definition delete_transition ::
  "store_env \<Rightarrow> log_write \<Rightarrow> store_state \<Rightarrow> bytes \<Rightarrow> bytes \<Rightarrow>
   store_state \<times> (notification_error, notification_record option) result" where
  "delete_transition env w s rid now =
     (case ensure_available s of
        Err e \<Rightarrow> (s, Err e)
      | Ok _ \<Rightarrow>
          (case map_of (ss_records s) rid of
             None \<Rightarrow> (s, Ok None)
           | Some r \<Rightarrow>
               if nr_status r = StatusDeleted then (s, Ok None)
               else
                 (let r' = apply_status r StatusDeleted now
                  in after_append (append_action_locked env w s (ActionDeleted r')) (\<lambda>s'. (s', Ok (Some r'))))))"

section \<open>Resolving\<close>

definition existed_at :: "store_state \<Rightarrow> notification_record \<Rightarrow> resolve_as_of option \<Rightarrow> bool" where
  "existed_at s r as_of =
     (case as_of of
        None \<Rightarrow> True
      | Some a \<Rightarrow> (case ss_contributions s (nr_id r) of None \<Rightarrow> True | Some contributed \<Rightarrow> contributed \<le> ra_minted_before a))"

definition resolve_key_matches_kind :: "bytes \<Rightarrow> notification_kind \<Rightarrow> bool" where
  "resolve_key_matches_kind dedupe_key kind =
     (if is_attention_dedupe_key dedupe_key then is_attention_kind kind
      else is_turn_dedupe_key dedupe_key \<and> kind = KindTurnCompleted)"

fun resolve_ids ::
  "store_env \<Rightarrow> (nat \<Rightarrow> log_write) \<Rightarrow> bytes \<Rightarrow> store_state \<Rightarrow> bytes list \<Rightarrow>
   store_state \<times> (notification_error, notification_record list) result" where
  "resolve_ids env w now s [] = (s, Ok [])"
| "resolve_ids env w now s (rid # rest) =
     (case map_of (ss_records s) rid of
        None \<Rightarrow> resolve_ids env w now s rest
      | Some r \<Rightarrow>
          (let r' = apply_status r StatusAcknowledged now in
           after_append (append_action_locked env (w 0) s (ActionUpdated r'))
             (\<lambda>s'. case resolve_ids env (\<lambda>n. w (n + 1)) now s' rest of
                      (s'', Err e) \<Rightarrow> (s'', Err e)
                    | (s'', Ok resolved) \<Rightarrow> (s'', Ok (r' # resolved)))))"

definition resolve_session_notifications ::
  "store_env \<Rightarrow> (nat \<Rightarrow> log_write) \<Rightarrow> store_state \<Rightarrow> bytes \<Rightarrow> bytes \<Rightarrow> resolve_as_of option \<Rightarrow>
   store_state \<times> (notification_error, notification_record list) result" where
  "resolve_session_notifications env w s dedupe_key now as_of =
     (let matching_ids = map nr_id (filter (\<lambda>r. nr_dedupe_key r = Some dedupe_key \<and> resolve_key_matches_kind dedupe_key (nr_kind r) \<and>
            active_record r \<and> existed_at s r as_of) (record_values s))
      in case resolve_ids env w now s matching_ids of
           (s', Err e) \<Rightarrow> (s', Err e)
         | (s', Ok resolved) \<Rightarrow>
             (s'\<lparr>ss_contributions := (\<lambda>rid. case map_of (ss_records s') rid of
                   None \<Rightarrow> None
                 | Some r \<Rightarrow> if active_record r then ss_contributions s' rid else None)\<rparr>, Ok resolved))"

section \<open>Committing\<close>

datatype service_event = EmitCreated notification_record | EmitUpdated notification_record

text \<open>\<open>commit_record\<close> of the service: the record it answers, whether it was created, and the events it broadcast.\<close>

definition created_record :: "create_outcome \<Rightarrow> bool \<times> notification_record" where
  "created_record out =
     (case out of
        OutcomeCreated r \<Rightarrow> (True, r)
      | OutcomeCreatedWithUpdates r _ \<Rightarrow> (True, r)
      | OutcomeExisting r \<Rightarrow> (False, r)
      | OutcomeUpdated r \<Rightarrow> (False, r))"

definition commit_record ::
  "store_env \<Rightarrow> log_write \<Rightarrow> (nat \<Rightarrow> log_write) \<Rightarrow> store_state \<Rightarrow> notification_record \<Rightarrow> nat \<Rightarrow> nat \<Rightarrow> bytes \<Rightarrow>
   store_state \<times> (notification_error, bool \<times> notification_record) result \<times> service_event list" where
  "commit_record env w ws s record window minted now =
     (case create_or_dedupe env w s record window minted of
        (s1, Err e) \<Rightarrow> (s1, Err e, [])
      | (s1, Ok out) \<Rightarrow>
          (let (created, r) = created_record out;
               before = (case out of
                           OutcomeCreated r \<Rightarrow> [EmitCreated r]
                         | OutcomeCreatedWithUpdates _ updated \<Rightarrow> map EmitUpdated updated
                         | OutcomeExisting _ \<Rightarrow> []
                         | OutcomeUpdated r \<Rightarrow> [EmitUpdated r])
           in case supersede_turns_for_attention env ws s1 r now of
                (s2, Err e) \<Rightarrow> (s2, Err e, before)
              | (s2, Ok updated) \<Rightarrow>
                  (s2, Ok (created, r),
                   before @ map EmitUpdated updated @
                   (case out of OutcomeCreatedWithUpdates r _ \<Rightarrow> [EmitCreated r] | _ \<Rightarrow> []))))"

section \<open>Queries\<close>

definition source_id_suffixes :: "store_state \<Rightarrow> bytes \<Rightarrow> bytes \<Rightarrow> (bytes \<times> bytes) list" where
  "source_id_suffixes s provider pre =
     List.map_filter (\<lambda>r. map_option (\<lambda>sfx. (sfx, nr_created_at r)) (Option.bind (nr_source_id r) (strip_prefix pre)))
       (filter (\<lambda>r. src_provider (nr_source r) = provider) (record_values s))"

definition has_unread_attention :: "store_state \<Rightarrow> bytes \<Rightarrow> bool" where
  "has_unread_attention s dedupe_key =
     list_ex (\<lambda>r. nr_status r = StatusUnread \<and> is_attention_kind (nr_kind r) \<and> nr_dedupe_key r = Some dedupe_key) (record_values s)"

definition has_active_attention :: "store_state \<Rightarrow> session_id \<Rightarrow> bool" where
  "has_active_attention s sid =
     list_ex (\<lambda>r. nr_session_id r = Some sid \<and> (nr_kind r = KindAgentBlocked \<or> nr_kind r = KindApprovalRequired) \<and> active_record r)
       (record_values s)"

record list_params =
  lp_status :: "notification_status option"
  lp_kind :: "notification_kind option"
  lp_severity :: "notification_severity option"
  lp_provider :: "bytes option"
  lp_session_id :: "session_id option"
  lp_created_after :: "bytes option"
  lp_created_before :: "bytes option"
  lp_limit :: "nat option"
  lp_cursor :: "bytes option"

record list_cursor =
  lc_created_at :: bytes
  lc_id :: bytes

definition parse_timestamp :: "store_env \<Rightarrow> bytes \<Rightarrow> (notification_error, int) result" where
  "parse_timestamp env value =
     (case se_timestamp env value of None \<Rightarrow> Err (ErrInvalidTimestamp value) | Some t \<Rightarrow> Ok t)"

definition parse_optional_timestamp :: "store_env \<Rightarrow> bytes option \<Rightarrow> (notification_error, int option) result" where
  "parse_optional_timestamp env value =
     (case value of None \<Rightarrow> Ok None | Some v \<Rightarrow> and_then (parse_timestamp env v) (\<lambda>t. Ok (Some t)))"

definition record_in_time_range :: "store_env \<Rightarrow> notification_record \<Rightarrow> int option \<Rightarrow> int option \<Rightarrow> (notification_error, bool) result" where
  "record_in_time_range env r created_after created_before =
     and_then (parse_timestamp env (nr_created_at r)) (\<lambda>created_at.
       Ok ((case created_after of None \<Rightarrow> True | Some a \<Rightarrow> a \<le> created_at) \<and>
           (case created_before of None \<Rightarrow> True | Some b \<Rightarrow> created_at < b)))"

definition LIST_CURSOR_SEPARATOR :: byte where "LIST_CURSOR_SEPARATOR = CHR ''|''"

definition encode_cursor :: "notification_record \<Rightarrow> bytes" where
  "encode_cursor r = nr_created_at r @ [LIST_CURSOR_SEPARATOR] @ nr_id r"

definition parse_cursor :: "store_env \<Rightarrow> bytes \<Rightarrow> (notification_error, list_cursor) result" where
  "parse_cursor env cursor =
     (case split_once LIST_CURSOR_SEPARATOR cursor of
        None \<Rightarrow> Err (ErrInvalidCursor cursor)
      | Some (created_at, rid) \<Rightarrow>
          and_then (parse_timestamp env created_at) (\<lambda>_.
            if rid = [] then Err (ErrInvalidCursor cursor) else Ok \<lparr>lc_created_at = created_at, lc_id = rid\<rparr>))"

definition record_after_cursor :: "notification_record \<Rightarrow> list_cursor \<Rightarrow> bool" where
  "record_after_cursor r cursor \<longleftrightarrow>
     nr_created_at r < lc_created_at cursor \<or> (nr_created_at r = lc_created_at cursor \<and> lc_id cursor < nr_id r)"

text \<open>\<open>sort_by\<close> with the comparison of the list: newest text first, then the smaller identifier.\<close>

definition listed_before :: "notification_record \<Rightarrow> notification_record \<Rightarrow> bool" where
  "listed_before left right \<longleftrightarrow>
     nr_created_at right < nr_created_at left \<or> (nr_created_at right = nr_created_at left \<and> nr_id left \<le> nr_id right)"

fun insert_listed :: "notification_record \<Rightarrow> notification_record list \<Rightarrow> notification_record list" where
  "insert_listed r [] = [r]"
| "insert_listed r (x # xs) = (if listed_before r x then r # x # xs else x # insert_listed r xs)"

definition sort_records_for_list :: "notification_record list \<Rightarrow> notification_record list" where
  "sort_records_for_list records = foldr insert_listed records []"

definition list_matches :: "list_params \<Rightarrow> notification_record \<Rightarrow> bool" where
  "list_matches p r \<longleftrightarrow>
     (case lp_status p of None \<Rightarrow> nr_status r \<noteq> StatusDeleted | Some st \<Rightarrow> nr_status r = st) \<and>
     (case lp_kind p of None \<Rightarrow> True | Some k \<Rightarrow> nr_kind r = k) \<and>
     (case lp_severity p of None \<Rightarrow> True | Some v \<Rightarrow> nr_severity r = v) \<and>
     (case lp_provider p of None \<Rightarrow> True | Some pr \<Rightarrow> src_provider (nr_source r) = pr) \<and>
     (case lp_session_id p of None \<Rightarrow> True | Some sid \<Rightarrow> nr_session_id r = Some sid)"

record list_result =
  lr_notifications :: "notification_record list"
  lr_next_cursor :: "bytes option"

definition store_list :: "store_env \<Rightarrow> store_state \<Rightarrow> list_params \<Rightarrow> (notification_error, list_result) result" where
  "store_list env s p =
     and_then (ensure_available s) (\<lambda>_.
     and_then (parse_optional_timestamp env (lp_created_after p)) (\<lambda>created_after.
     and_then (parse_optional_timestamp env (lp_created_before p)) (\<lambda>created_before.
     and_then (case lp_cursor p of None \<Rightarrow> Ok None | Some c \<Rightarrow> and_then (parse_cursor env c) (\<lambda>x. Ok (Some x))) (\<lambda>cursor.
       (let matching = filter (\<lambda>r. record_in_time_range env r created_after created_before = Ok True)
              (filter (list_matches p) (record_values s));
            sorted = sort_records_for_list matching;
            records = (case cursor of None \<Rightarrow> sorted | Some c \<Rightarrow> filter (\<lambda>r. record_after_cursor r c) sorted);
            next_cursor = (case lp_limit p of
                             None \<Rightarrow> None
                           | Some limit \<Rightarrow>
                               if limit < length records \<and> 0 < limit then Some (encode_cursor (records ! (limit - 1))) else None)
        in Ok \<lparr>lr_notifications = (case lp_limit p of None \<Rightarrow> records | Some limit \<Rightarrow> take limit records),
               lr_next_cursor = next_cursor\<rparr>)))))"

section \<open>Compaction\<close>

definition PROJECTOR_PROVIDER :: bytes where "PROJECTOR_PROVIDER = ''pohunek''"

definition is_terminal_kind :: "notification_kind \<Rightarrow> bool" where
  "is_terminal_kind kind \<longleftrightarrow> kind = KindError \<or> kind = KindSessionFinished"

definition is_terminal_tombstone :: "notification_record \<Rightarrow> bool" where
  "is_terminal_tombstone r \<longleftrightarrow>
     nr_status r = StatusDeleted \<and> src_provider (nr_source r) = PROJECTOR_PROVIDER \<and> is_terminal_kind (nr_kind r) \<and>
     nr_session_id r \<noteq> None \<and> nr_source_id r \<noteq> None"

definition notification_kind_str :: "notification_kind \<Rightarrow> bytes" where
  "notification_kind_str kind =
     (case kind of
        KindAgentBlocked \<Rightarrow> ''agent_blocked''
      | KindApprovalRequired \<Rightarrow> ''approval_required''
      | KindTurnCompleted \<Rightarrow> ''turn_completed''
      | KindSessionFinished \<Rightarrow> ''session_finished''
      | KindError \<Rightarrow> ''error''
      | KindSystem \<Rightarrow> ''system''
      | KindUnknown \<Rightarrow> ''unknown'')"

text \<open>
  A session of the metadata store: its record, whether it is to be removed, and which tombstones the
  projector says still report its runtime.
\<close>

record source_session =
  so_session_id :: session_id
  so_removed :: bool
  so_info_id :: session_id
  so_matches :: "notification_record \<Rightarrow> bool"

definition live_sources :: "source_session list \<Rightarrow> (session_id \<times> source_session) list" where
  "live_sources sources = foldl (\<lambda>m so. btree_insert (so_session_id so) so m) [] (filter (\<lambda>so. \<not> so_removed so) sources)"

definition keep_terminal ::
  "(session_id \<times> source_session) list \<Rightarrow> ((bytes \<times> bytes) \<times> notification_record) list \<Rightarrow> notification_record \<Rightarrow>
   ((bytes \<times> bytes) \<times> notification_record) list" where
  "keep_terminal sources terminal r =
     (case Option.bind (nr_session_id r) (map_of sources) of
        None \<Rightarrow> terminal
      | Some so \<Rightarrow>
          if \<not> so_matches so r then terminal
          else
            (let key = (so_info_id so, notification_kind_str (nr_kind r));
                 newer = (case map_of terminal key of
                            None \<Rightarrow> True
                          | Some existing \<Rightarrow> (nr_created_at existing, nr_id existing) < (nr_created_at r, nr_id r))
             in if newer then btree_insert key r terminal else terminal))"

text \<open>\<open>sources\<close> is None when the metadata could not be read in full.\<close>

definition terminal_tombstones :: "source_session list option \<Rightarrow> store_state \<Rightarrow> store_state \<times> notification_record list" where
  "terminal_tombstones sources s =
     (let deleted = filter is_terminal_tombstone (record_values s) in
      if deleted = [] then (s, [])
      else
        (case sources of
           None \<Rightarrow> (s\<lparr>ss_source_warning_logged := True\<rparr>, deleted)
         | Some sources \<Rightarrow> (s, map snd (foldl (keep_terminal (live_sources sources)) [] deleted))))"

text \<open>How the replacement of the log went: not renamed, renamed but the directory not synced, or done.\<close>

datatype compact_io = CompactFailed | CompactUnsynced | CompactDone

definition log_lines :: "store_env \<Rightarrow> notification_record list \<Rightarrow> bytes option" where
  "log_lines env records =
     (let texts = map (\<lambda>r. se_encode env (ActionCreated r)) records
      in if None \<in> set texts then None else Some (concat (map (\<lambda>t. the t @ [newline]) texts)))"

definition compact_if_needed ::
  "store_env \<Rightarrow> compact_io \<Rightarrow> source_session list option \<Rightarrow> nat \<Rightarrow> store_state \<Rightarrow> store_state \<times> (notification_error, bool) result" where
  "compact_if_needed env io sources minimum_actions s =
     (let current = filter (\<lambda>r. nr_status r \<noteq> StatusDeleted) (record_values s) in
      if ss_action_count s < minimum_actions \<or> ss_action_count s \<le> length current then (s, Ok False)
      else
        (case terminal_tombstones sources s of
           (s1, tombstones) \<Rightarrow>
             (let retained = current @ tombstones in
              if ss_action_count s1 \<le> length retained then (s1, Ok False)
              else
                (case log_lines env retained of
                   None \<Rightarrow> (s1, Err ErrSerialize)
                 | Some content \<Rightarrow>
                     if io = CompactFailed then (s1, Err ErrStoreIo)
                     else
                       (s1\<lparr>ss_log := content, ss_file := True, ss_action_count := length retained,
                           ss_records := foldl insert_record [] retained\<rparr>,
                        if io = CompactUnsynced then Err ErrStoreIo else Ok True)))))"

end
