(* ===== verification/Notify_Run.thy ===== *)
theory Notify_Run
  imports Notify_Store
begin

text \<open>
  Runs of the notification store: every operation is a chain of small edits of its records and its
  log, and what such edits keep.
\<close>

section \<open>The records in their map\<close>

lemma map_of_btree_insert [simp]: "map_of (btree_insert k v xs) = (map_of xs)(k \<mapsto> v)"
  by (induction k v xs rule: btree_insert.induct) (auto simp: fun_eq_iff)

lemma keys_btree_insert: "set (map fst (btree_insert k v xs)) = insert k (set (map fst xs))"
  by (induction k v xs rule: btree_insert.induct) auto

lemma sorted_btree_insert:
  "sorted_wrt (<) (map fst xs) \<Longrightarrow> sorted_wrt (<) (map fst (btree_insert k v xs))"
  by (induction k v xs rule: btree_insert.induct)
    (auto simp: keys_btree_insert simp del: set_map list.set_map intro: less_trans)

lemma set_btree_insert: "set (btree_insert k v xs) \<subseteq> insert (k, v) (set xs)"
  by (induction k v xs rule: btree_insert.induct) auto

definition records_ok :: "notification_records \<Rightarrow> bool" where
  "records_ok records \<longleftrightarrow> sorted_wrt (<) (map fst records) \<and> (\<forall>x \<in> set records. nr_id (snd x) = fst x)"

lemma records_ok_Nil [simp]: "records_ok []"
  by (simp add: records_ok_def)

lemma records_ok_insert: "records_ok records \<Longrightarrow> records_ok (insert_record records r)"
  using set_btree_insert [of "nr_id r" r records] unfolding records_ok_def insert_record_def
  by (auto intro: sorted_btree_insert)

lemma records_ok_inserts: "records_ok records \<Longrightarrow> records_ok (foldl insert_record records rs)"
  by (induction rs arbitrary: records) (auto intro: records_ok_insert)

lemma records_ok_apply: "records_ok records \<Longrightarrow> records_ok (apply_action records a)"
  by (cases a) (auto intro: records_ok_insert records_ok_inserts)

lemma records_distinct: "records_ok records \<Longrightarrow> distinct (map fst records)"
  unfolding records_ok_def using strict_sorted_iff by blast

lemma map_of_insert_record [simp]: "map_of (insert_record records r) = (map_of records)(nr_id r \<mapsto> r)"
  by (simp add: insert_record_def)

lemma map_of_inserts:
  "map_of (foldl insert_record records rs) k =
     (case map_of (rev (map (\<lambda>r. (nr_id r, r)) rs)) k of Some r \<Rightarrow> Some r | None \<Rightarrow> map_of records k)"
  by (induction rs rule: rev_induct) auto

text \<open>A record of the map is the value of its own identifier.\<close>

lemma values_lookup:
  assumes "records_ok (ss_records s)"
  shows "r \<in> set (record_values s) \<longleftrightarrow> map_of (ss_records s) (nr_id r) = Some r"
proof
  assume "r \<in> set (record_values s)"
  then obtain k where "(k, r) \<in> set (ss_records s)" by (auto simp: record_values_def)
  moreover from this have "k = nr_id r" using assms unfolding records_ok_def by force
  ultimately show "map_of (ss_records s) (nr_id r) = Some r" using records_distinct [OF assms] by simp
qed (auto simp: record_values_def dest!: map_of_SomeD intro: rev_image_eqI)

lemma lookup_id: "records_ok records \<Longrightarrow> map_of records k = Some r \<Longrightarrow> nr_id r = k"
  unfolding records_ok_def by (auto dest!: map_of_SomeD)

section \<open>Edits\<close>

definition unread_turn :: "bytes \<Rightarrow> notification_record \<Rightarrow> bool" where
  "unread_turn K r \<longleftrightarrow>
     nr_status r = StatusUnread \<and> nr_kind r = KindTurnCompleted \<and> nr_dedupe_key r = Some K \<and> is_turn_dedupe_key K"

fun status_rank :: "notification_status \<Rightarrow> nat" where
  "status_rank StatusUnread = 0"
| "status_rank StatusRead = 1"
| "status_rank StatusAcknowledged = 2"
| "status_rank StatusArchived = 3"
| "status_rank StatusDeleted = 4"
| "status_rank StatusUnknown = 0"

text \<open>What a later version of a record keeps of the earlier one.\<close>

definition later_version :: "notification_record \<Rightarrow> notification_record \<Rightarrow> bool" where
  "later_version x r \<longleftrightarrow>
     nr_id r = nr_id x \<and> nr_created_at r = nr_created_at x \<and> status_rank (nr_status x) \<le> status_rank (nr_status r)"

definition moved_on :: "notification_records \<Rightarrow> notification_record \<Rightarrow> bool" where
  "moved_on records r \<longleftrightarrow>
     (\<exists>x. map_of records (nr_id r) = Some x \<and> later_version x r) \<and> (\<forall>K. \<not> unread_turn K r)"

fun good_action :: "notification_records \<Rightarrow> store_action \<Rightarrow> bool" where
  "good_action records (ActionCreated r) \<longleftrightarrow>
     map_of records (nr_id r) = None \<and> (\<forall>K. unread_turn K r \<longrightarrow> (\<forall>k x. map_of records k = Some x \<longrightarrow> \<not> unread_turn K x))"
| "good_action records (ActionCreatedWithUpdates r updated) \<longleftrightarrow>
     map_of records (nr_id r) = None \<and> (\<forall>u \<in> set updated. moved_on records u) \<and>
     (\<forall>K. unread_turn K r \<longrightarrow> (\<forall>k x. map_of records k = Some x \<longrightarrow> unread_turn K x \<longrightarrow> (\<exists>u \<in> set updated. nr_id u = k)))"
| "good_action records (ActionUpdated r) \<longleftrightarrow> moved_on records r"
| "good_action records (ActionDeleted r) \<longleftrightarrow> moved_on records r"

definition sound_write :: "log_write \<Rightarrow> bool" where
  "sound_write w \<longleftrightarrow> w = Written \<or> w = WriteFailed 0"

definition with_action :: "store_env \<Rightarrow> store_state \<Rightarrow> store_action \<Rightarrow> store_state" where
  "with_action env s a =
     s\<lparr>ss_log := ss_log s @ the (se_encode env a) @ [newline], ss_records := apply_action (ss_records s) a,
       ss_action_count := ss_action_count s + 1\<rparr>"

inductive store_edit :: "store_env \<Rightarrow> store_state \<Rightarrow> store_state \<Rightarrow> bool" for env where
  act: "good_action (ss_records s) a \<Longrightarrow> se_encode env a \<noteq> None \<Longrightarrow> store_edit env s (with_action env s a)"
| side: "store_edit env s (s\<lparr>ss_contributions := c, ss_source_warning_logged := b\<rparr>)"

lemma contributions_edit: "(store_edit env)\<^sup>*\<^sup>* s (s\<lparr>ss_contributions := c\<rparr>)"
  using store_edit.side [where env = env and s = s and c = c and b = "ss_source_warning_logged s"] by auto

lemma note_edit: "(store_edit env)\<^sup>*\<^sup>* s (note_contribution s candidate rid minted)"
  by (auto simp: note_contribution_def contributions_edit)

text \<open>An append with a sound write is one edit, or nothing happened and there is an error.\<close>

lemma append_cases:
  assumes "append_action_locked env w s a = (s', res)" and "sound_write w"
  obtains "s' = s" "\<exists>e. res = Err e" | "s' = with_action env s a" "res = Ok ()" "se_encode env a \<noteq> None"
  using assms
  by (auto simp: append_action_locked_def sound_write_def with_action_def Let_def split: option.splits if_splits log_write.splits)

lemma append_edit:
  assumes "append_action_locked env w s a = (s', res)" and "sound_write w" and "good_action (ss_records s) a"
  shows "(store_edit env)\<^sup>*\<^sup>* s s'"
  by (rule append_cases [OF assms(1,2)]) (use store_edit.act [OF assms(3)] in auto)

lemma after_append_edit:
  assumes "after_append x k = (s', res)" and "(store_edit env)\<^sup>*\<^sup>* s (fst x)"
    and "\<And>t. fst x = t \<Longrightarrow> (store_edit env)\<^sup>*\<^sup>* t (fst (k t))"
  shows "(store_edit env)\<^sup>*\<^sup>* s s'"
proof (cases x)
  case (Pair t res')
  then show ?thesis
  proof (cases res')
    case (Inl e)
    then show ?thesis using assms Pair by (simp add: after_append_def)
  next
    case (Inr u)
    then have "s' = fst (k t)" using assms(1) Pair by (simp add: after_append_def)
    then show ?thesis using assms(2) assms(3) [of t] Pair by (simp add: rtranclp_trans)
  qed
qed

lemma value_ids: "records_ok (ss_records s) \<Longrightarrow> map nr_id (record_values s) = map fst (ss_records s)"
  unfolding records_ok_def record_values_def by simp

lemma distinct_value_ids: "records_ok (ss_records s) \<Longrightarrow> distinct (map nr_id (record_values s))"
  using records_distinct value_ids by metis

lemma distinct_filtered_ids: "distinct (map nr_id xs) \<Longrightarrow> distinct (map nr_id (filter P xs))"
  by (induction xs) auto

lemma apply_status_fields [simp]:
  "nr_id (apply_status r st now) = nr_id r" "nr_created_at (apply_status r st now) = nr_created_at r"
  "nr_status (apply_status r st now) = st" "nr_kind (apply_status r st now) = nr_kind r"
  "nr_dedupe_key (apply_status r st now) = nr_dedupe_key r"
  by (cases st; simp add: apply_status_def)+

lemma acknowledged_moved:
  assumes "map_of records (nr_id x) = Some x" and "status_rank (nr_status x) \<le> 2"
  shows "moved_on records (apply_status x StatusAcknowledged now)"
    and "moved_on records ((apply_status x StatusAcknowledged now)\<lparr>nr_superseded_by := b\<rparr>)"
  using assms by (auto simp: moved_on_def later_version_def unread_turn_def)

lemma superseded_moved:
  assumes "records_ok (ss_records s)" and "u \<in> set (supersede_unread_records (record_values s) K kind by_id now)"
  shows "moved_on (ss_records s) u"
  using assms(2) values_lookup [OF assms(1)]
  by (auto simp: supersede_unread_records_def intro!: acknowledged_moved)

lemma superseded_distinct:
  "records_ok (ss_records s) \<Longrightarrow> distinct (map nr_id (supersede_unread_records (record_values s) K kind by_id now))"
  using distinct_filtered_ids [OF distinct_value_ids] by (simp add: supersede_unread_records_def comp_def)

lemma moved_other: "moved_on records u \<Longrightarrow> nr_id u \<noteq> nr_id r \<Longrightarrow> moved_on (insert_record records r) u"
  by (simp add: moved_on_def)

lemma append_updates_edit:
  assumes "append_updates env w s rs = (s', res)" and "\<And>n. sound_write (w n)" and "distinct (map nr_id rs)"
    and "\<And>u. u \<in> set rs \<Longrightarrow> moved_on (ss_records s) u"
  shows "(store_edit env)\<^sup>*\<^sup>* s s'"
  using assms
proof (induction rs arbitrary: s w)
  case (Cons r rs)
  obtain t res' where a: "append_action_locked env (w 0) s (ActionUpdated r) = (t, res')" by fastforce
  have good: "good_action (ss_records s) (ActionUpdated r)" using Cons.prems(4) by simp
  have e: "(store_edit env)\<^sup>*\<^sup>* s t" by (rule append_edit [OF a Cons.prems(2) good])
  show ?case
  proof (rule append_cases [OF a Cons.prems(2)])
    assume "t = s" "\<exists>e. res' = Err e"
    then show ?case using Cons.prems(1) a by auto
  next
    assume t: "t = with_action env s (ActionUpdated r)" "res' = Ok ()"
    then have rest: "append_updates env (\<lambda>n. w (n + 1)) t rs = (s', res)" using Cons.prems(1) a by simp
    have "(store_edit env)\<^sup>*\<^sup>* t s'"
    proof (rule Cons.IH [OF rest])
      fix u assume u: "u \<in> set rs"
      then have "nr_id u \<noteq> nr_id r" using Cons.prems(3) by (auto simp: image_iff)
      then show "moved_on (ss_records t) u" using Cons.prems(4) [of u] u t(1) moved_other by (simp add: with_action_def)
    qed (use Cons.prems in auto)
    then show ?case using e by simp
  qed
qed simp

lemma resolve_ids_edit:
  assumes "resolve_ids env w now s ids = (s', res)" and "\<And>n. sound_write (w n)" and "records_ok (ss_records s)"
    and "\<And>rid r. rid \<in> set ids \<Longrightarrow> map_of (ss_records s) rid = Some r \<Longrightarrow> status_rank (nr_status r) \<le> 2"
  shows "(store_edit env)\<^sup>*\<^sup>* s s'"
  using assms
proof (induction ids arbitrary: s w res s')
  case (Cons rid ids)
  show ?case
  proof (cases "map_of (ss_records s) rid")
    case None
    then have "resolve_ids env w now s ids = (s', res)" using Cons.prems(1) by simp
    then show ?thesis by (rule Cons.IH) (use Cons.prems in auto)
  next
    case (Some r)
    let ?r = "apply_status r StatusAcknowledged now"
    obtain t res' where a: "append_action_locked env (w 0) s (ActionUpdated ?r) = (t, res')" by fastforce
    have id: "nr_id r = rid" by (rule lookup_id [OF Cons.prems(3) Some])
    have good: "good_action (ss_records s) (ActionUpdated ?r)"
      using acknowledged_moved(1) [of "ss_records s" r now] Some id Cons.prems(4) [of rid r] by simp
    have e: "(store_edit env)\<^sup>*\<^sup>* s t" by (rule append_edit [OF a Cons.prems(2) good])
    show ?thesis
    proof (rule append_cases [OF a Cons.prems(2)])
      assume "t = s" "\<exists>e. res' = Err e"
      then show ?thesis using Cons.prems(1) Some a by (auto simp: Let_def after_append_def)
    next
      assume t: "t = with_action env s (ActionUpdated ?r)" "res' = Ok ()"
      obtain t' res2 where rest: "resolve_ids env (\<lambda>n. w (n + 1)) now t ids = (t', res2)" by fastforce
      have "s' = t'" using Cons.prems(1) Some a t(2) rest by (auto simp: Let_def after_append_def split: sum.splits)
      moreover have "(store_edit env)\<^sup>*\<^sup>* t t'"
        by (rule Cons.IH [OF rest]) (use Cons.prems t(1) records_ok_insert in \<open>auto simp: with_action_def split: if_splits\<close>)
      ultimately show ?thesis using e by simp
    qed
  qed
qed simp

section \<open>Every operation is a chain of edits\<close>

lemma append_created_edit:
  assumes "append_created env w s candidate minted = (s', res)" and "sound_write w" and "good_action (ss_records s) (ActionCreated candidate)"
  shows "(store_edit env)\<^sup>*\<^sup>* s s'"
  by (rule after_append_edit [OF assms(1) [unfolded append_created_def] append_edit [OF prod.collapse [symmetric] assms(2,3)]])
    (simp add: note_edit)

lemma create_superseding_edit:
  assumes "create_superseding_turns env w s candidate K minted = (s', res)" and "sound_write w" and ok: "records_ok (ss_records s)"
    and fresh: "map_of (ss_records s) (nr_id candidate) = None" and key: "nr_dedupe_key candidate = Some K" "nr_kind candidate = KindTurnCompleted"
  shows "(store_edit env)\<^sup>*\<^sup>* s s'"
proof -
  let ?updated = "supersede_unread_records (record_values s) K (nr_kind candidate) (nr_id candidate) (nr_created_at candidate)"
  have sup: "\<exists>u \<in> set ?updated. nr_id u = k" if "map_of (ss_records s) k = Some x" "unread_turn K x" for k x
    using that values_lookup [OF ok, of x] lookup_id [OF ok that(1)] key(2)
    by (auto simp: supersede_unread_records_def unread_turn_def intro!: image_eqI)
  have K: "K' = K" if "unread_turn K' candidate" for K' using that key by (simp add: unread_turn_def)
  show ?thesis
  proof (cases "?updated = []")
    case True
    then have "append_created env w s candidate minted = (s', res)" using assms(1) by (simp add: create_superseding_turns_def Let_def)
    moreover have "good_action (ss_records s) (ActionCreated candidate)" using fresh sup K True by fastforce
    ultimately show ?thesis using append_created_edit assms(2) by blast
  next
    case False
    have good: "good_action (ss_records s) (ActionCreatedWithUpdates candidate ?updated)"
      using fresh sup K superseded_moved [OF ok] by auto
    have run: "after_append (append_action_locked env w s (ActionCreatedWithUpdates candidate ?updated))
        (\<lambda>s'. (note_contribution s' candidate (nr_id candidate) minted, Ok (OutcomeCreatedWithUpdates candidate ?updated))) = (s', res)"
      using assms(1) False by (simp add: create_superseding_turns_def Let_def)
    show ?thesis
      by (rule after_append_edit [OF run append_edit [OF prod.collapse [symmetric] assms(2) good]]) (simp add: note_edit)
  qed
qed

lemma dedupe_scan_upgrade:
  "dedupe_scan env K at prio window xs = Ok (MatchUpgrade x) \<Longrightarrow> x \<in> set xs"
  by (induction xs) (auto simp: and_then_def split: if_splits sum.splits source_priority_rank.splits)

lemma create_deduped_edit:
  assumes "create_deduped env w s candidate K window minted = (s', res)" and "sound_write w" and ok: "records_ok (ss_records s)"
    and fresh: "map_of (ss_records s) (nr_id candidate) = None" and key: "nr_dedupe_key candidate = Some K"
    and no_turn: "\<not> (is_turn_dedupe_key K \<and> nr_kind candidate = KindTurnCompleted)"
  shows "(store_edit env)\<^sup>*\<^sup>* s s'"
proof (cases "se_timestamp env (nr_created_at candidate)")
  case None
  then show ?thesis using assms(1) by (simp add: create_deduped_def)
next
  case (Some at)
  have un: "\<not> unread_turn K' candidate" for K' using key no_turn by (auto simp: unread_turn_def)
  show ?thesis
  proof (cases "dedupe_scan env K at (source_priority candidate) window (record_values s)")
    case (Inl e)
    then show ?thesis using assms(1) Some by (simp add: create_deduped_def)
  next
    case (Inr m)
    show ?thesis
    proof (cases m)
      case NoMatch
      then have "append_created env w s candidate minted = (s', res)" using assms(1) Some Inr by (simp add: create_deduped_def)
      then show ?thesis by (rule append_created_edit [OF _ assms(2)]) (use fresh un in simp)
    next
      case (MatchExisting x)
      then show ?thesis using assms(1) Some Inr note_edit by (auto simp: create_deduped_def)
    next
      case (MatchUpgrade x)
      let ?x = "upgrade_projector x candidate"
      have "x \<in> set (record_values s)" using dedupe_scan_upgrade Inr MatchUpgrade by blast
      then have "good_action (ss_records s) (ActionUpdated ?x)"
        using values_lookup [OF ok, of x] key no_turn
        by (auto simp: moved_on_def later_version_def upgrade_projector_def unread_turn_def)
      note e = append_edit [OF prod.collapse [symmetric] assms(2) this]
      have run: "after_append (append_action_locked env w s (ActionUpdated ?x))
          (\<lambda>s'. (note_contribution s' candidate (nr_id ?x) minted, Ok (OutcomeUpdated ?x))) = (s', res)"
        using assms(1) Some Inr MatchUpgrade by (simp add: create_deduped_def Let_def)
      show ?thesis by (rule after_append_edit [OF run e]) (simp add: note_edit)
    qed
  qed
qed

lemma create_edit:
  assumes "create_or_dedupe env w s candidate window minted = (s', res)" and "sound_write w" and "records_ok (ss_records s)"
    and "map_of (ss_records s) (nr_id candidate) = None"
  shows "(store_edit env)\<^sup>*\<^sup>* s s'"
proof -
  have "(store_edit env)\<^sup>*\<^sup>* s s'" if "append_created env w s candidate minted = (s', res)" "nr_dedupe_key candidate = None"
    by (rule append_created_edit [OF that(1) assms(2)]) (use assms(4) that(2) in \<open>simp add: unread_turn_def\<close>)
  then show ?thesis
    using assms create_superseding_edit [of env w s candidate _ minted s' res] create_deduped_edit [of env w s candidate _ window minted s' res]
    by (auto simp: create_or_dedupe_def split: option.splits sum.splits if_splits)
qed

lemma supersede_attention_edit:
  assumes "supersede_turns_for_attention env w s attention now = (s', res)" and "\<And>n. sound_write (w n)" and "records_ok (ss_records s)"
  shows "(store_edit env)\<^sup>*\<^sup>* s s'"
proof (cases "\<not> is_attention_kind (nr_kind attention) \<or> \<not> active_record attention \<or> nr_session_id attention = None")
  case True
  then show ?thesis using assms(1) by (auto simp: supersede_turns_for_attention_def split: if_splits option.splits)
next
  case False
  then obtain sid where sid: "nr_session_id attention = Some sid" by auto
  let ?updated = "supersede_unread_records (record_values s) (TURN_DEDUPE_KEY_PREFIX @ '':'' @ sid) KindTurnCompleted (nr_id attention) now"
  have run: "after_append (append_updates env w s ?updated) (\<lambda>s'. (s', Ok ?updated)) = (s', res)"
    using assms(1) False sid by (auto simp: supersede_turns_for_attention_def Let_def)
  show ?thesis
    by (rule after_append_edit [OF run append_updates_edit [OF prod.collapse [symmetric] assms(2) superseded_distinct [OF assms(3)]
            superseded_moved [OF assms(3)]]]) simp_all
qed

lemma edit_records_ok: "store_edit env s s' \<Longrightarrow> records_ok (ss_records s) \<Longrightarrow> records_ok (ss_records s')"
  by (induction rule: store_edit.induct) (auto simp: with_action_def intro: records_ok_apply)

interpretation record_edits: step_relation "store_edit env" "\<lambda>s. records_ok (ss_records s)" "\<lambda>_ _. True" for env
  by unfold_locales (auto intro: edit_records_ok)

lemmas edits_records_ok = record_edits.steps_good

lemma transition_edit:
  assumes "map_of (ss_records s) rid = Some r" and "is_valid_status_transition (nr_status r) st" and "records_ok (ss_records s)"
    and "sound_write w" and "a = ActionUpdated (apply_status r st now) \<or> a = ActionDeleted (apply_status r st now)"
    and "after_append (append_action_locked env w s a) (\<lambda>s'. (s', c)) = (s', res)"
  shows "(store_edit env)\<^sup>*\<^sup>* s s'"
proof -
  have "moved_on (ss_records s) (apply_status r st now)"
    using assms(1,2) lookup_id [OF assms(3,1)]
    by (cases st; cases "nr_status r")
      (auto simp: is_valid_status_transition_def moved_on_def later_version_def unread_turn_def split: if_splits)
  then have "good_action (ss_records s) a" using assms(5) by auto
  from after_append_edit [OF assms(6) append_edit [OF prod.collapse [symmetric] assms(4) this]] show ?thesis by simp
qed

lemma update_edit:
  assumes "update_transition env w s rid st now = (s', res)" and "sound_write w" and "records_ok (ss_records s)"
  shows "(store_edit env)\<^sup>*\<^sup>* s s'"
  using assms unfolding update_transition_def Let_def
  by (auto split: sum.splits option.splits if_splits elim!: transition_edit [OF _ _ assms(3,2), rotated 3])

lemma delete_edit:
  assumes "delete_transition env w s rid now = (s', res)" and "sound_write w" and "records_ok (ss_records s)"
  shows "(store_edit env)\<^sup>*\<^sup>* s s'"
proof -
  have "is_valid_status_transition st StatusDeleted" if "st \<noteq> StatusDeleted" for st using that by (simp add: is_valid_status_transition_def)
  then show ?thesis
    using assms unfolding delete_transition_def Let_def
    by (auto split: sum.splits option.splits if_splits elim!: transition_edit [OF _ _ assms(3,2), rotated 3])
qed

lemma resolve_edit:
  assumes "resolve_session_notifications env w s K now as_of = (s', res)" and "\<And>n. sound_write (w n)" and ok: "records_ok (ss_records s)"
  shows "(store_edit env)\<^sup>*\<^sup>* s s'"
proof -
  let ?ids = "map nr_id (filter (\<lambda>r. nr_dedupe_key r = Some K \<and> resolve_key_matches_kind K (nr_kind r) \<and> active_record r \<and>
    existed_at s r as_of) (record_values s))"
  obtain t res' where run: "resolve_ids env w now s ?ids = (t, res')" by fastforce
  have "status_rank (nr_status r) \<le> 2" if "rid \<in> set ?ids" "map_of (ss_records s) rid = Some r" for rid r
    using that values_lookup [OF ok] by auto
  note e = resolve_ids_edit [OF run assms(2) ok this]
  show ?thesis
    using assms(1) run e rtranclp_trans [OF e contributions_edit]
    by (auto simp: resolve_session_notifications_def Let_def split: sum.splits)
qed

lemma commit_edit:
  assumes "commit_record env w ws s r window minted now = (s', res, es)" and "sound_write w" and "\<And>n. sound_write (ws n)"
    and "records_ok (ss_records s)" and "map_of (ss_records s) (nr_id r) = None"
  shows "(store_edit env)\<^sup>*\<^sup>* s s'"
proof -
  obtain s1 out where c: "create_or_dedupe env w s r window minted = (s1, out)" by fastforce
  note e = create_edit [OF c assms(2,4,5)]
  show ?thesis
  proof (cases out)
    case (Inl err)
    then show ?thesis using assms(1) c e by (simp add: commit_record_def)
  next
    case (Inr o1)
    obtain t res2 where sp: "supersede_turns_for_attention env ws s1 (snd (created_record o1)) now = (t, res2)" by fastforce
    then have "s' = t" using assms(1) c Inr by (auto simp: commit_record_def Let_def split: prod.splits sum.splits)
    then show ?thesis using rtranclp_trans [OF e supersede_attention_edit [OF sp assms(3) edits_records_ok [OF e assms(4)]]] by simp
  qed
qed

section \<open>Runs\<close>

text \<open>
  The steps of a daemon and its restarts.  Writes end completely or not at all, and a new record has a
  new identifier.
\<close>

inductive store_step :: "store_env \<Rightarrow> store_state \<Rightarrow> store_state \<Rightarrow> bool" for env where
  commit: "commit_record env w ws s r window minted now = (s', res, es) \<Longrightarrow> sound_write w \<Longrightarrow> (\<And>n. sound_write (ws n)) \<Longrightarrow>
    map_of (ss_records s) (nr_id r) = None \<Longrightarrow> store_step env s s'"
| update: "update_transition env w s rid st now = (s', ures) \<Longrightarrow> sound_write w \<Longrightarrow> store_step env s s'"
| delete: "delete_transition env w s rid now = (s', dres) \<Longrightarrow> sound_write w \<Longrightarrow> store_step env s s'"
| resolve: "resolve_session_notifications env ws s K now as_of = (s', rres) \<Longrightarrow> (\<And>n. sound_write (ws n)) \<Longrightarrow> store_step env s s'"
| compact: "compact_if_needed env io sources minimum s = (s', cres) \<Longrightarrow> store_step env s s'"
| restart: "store_step env s (store_open env None (ss_log s))"

inductive store_run :: "store_env \<Rightarrow> store_state \<Rightarrow> bool" for env where
  start: "store_run env (store_open env None [])"
| step: "store_run env s \<Longrightarrow> store_step env s s' \<Longrightarrow> store_run env s'"

end
