(* ===== verification/Notify_Recovery.thy ===== *)
theory Notify_Recovery
  imports Notify_Run
begin

text \<open>
  The log of the notification store determines its records: what replay reads from the log of a run,
  and what compaction keeps.
\<close>

section \<open>Texts\<close>

lemma utf8_front_append:
  assumes "xs \<noteq> []" and "fst (utf8_front xs)"
  shows "utf8_front (xs @ ys) = utf8_front xs" and "snd (utf8_front xs) \<le> length xs"
  using assms by (cases xs; auto simp: Let_def split: list.splits if_splits)+

lemma is_utf8_append: "is_utf8 xs \<Longrightarrow> is_utf8 (xs @ ys) = is_utf8 ys"
proof (induction xs rule: is_utf8.induct)
  case (1 xs)
  show ?case
  proof (cases "xs = []")
    case False
    then have f: "fst (utf8_front xs)" "is_utf8 (drop (snd (utf8_front xs)) xs)" using 1(2) by (simp_all add: is_utf8.simps [of xs])
    show ?thesis
      using 1(1) [OF False f(2)] f(1) False
      by (simp add: is_utf8.simps [of "xs @ ys"] utf8_front_append [OF False f(1)])
  qed simp
qed

lemma split_inclusive_line: "newline \<notin> set line \<Longrightarrow> split_inclusive (line @ newline # rest) = (line @ [newline]) # split_inclusive rest"
  by (induction line) auto

lemma split_inclusive_tail: "newline \<notin> set line \<Longrightarrow> line \<noteq> [] \<Longrightarrow> split_inclusive line = [line]"
proof (induction line)
  case (Cons b line)
  then show ?case by (cases "line = []") (auto split: list.splits)
qed simp

lemma strip_line_end_line:
  assumes "\<forall>b \<in> set line. 32 \<le> byte_val b"
  shows "strip_line_end (line @ [newline]) = line" and "strip_line_end line = line"
proof -
  have "strip_suffix [c] line = None" if "byte_val c < 32" for c
    using assms that by (auto simp: strip_suffix_def suffix_def)
  then show "strip_line_end (line @ [newline]) = line" "strip_line_end line = line"
    by (simp_all add: strip_line_end_def Let_def newline_def)
qed

lemma brace_not_blank: "trim_chars (utf8_chars (CHR ''{'' # rest)) \<noteq> []"
proof -
  have "utf8_chars (CHR ''{'' # rest) = [CHR ''{''] # utf8_chars rest"
    by (subst utf8_chars.simps) (simp add:)
  moreover have "\<not> is_whitespace [CHR ''{'']" by (simp add: is_whitespace_def)
  ultimately show ?thesis by (simp add: trim_chars_def dropWhile_eq_Nil_conv)
qed

section \<open>The encoding of actions\<close>

text \<open>
  What serde's JSON promises for an action it encodes: the text is an object without control
  characters that decodes to the action, and the end of input is what is wrong with a part of it.
\<close>

definition json_faithful :: "store_env \<Rightarrow> bool" where
  "json_faithful env \<longleftrightarrow>
     (\<forall>a line. se_encode env a = Some line \<longrightarrow>
        (\<exists>rest. line = CHR ''{'' # rest) \<and> (\<forall>b \<in> set line. 32 \<le> byte_val b) \<and> is_utf8 line \<and> se_decode env line = Ok a \<and>
        (\<forall>n. 0 < n \<and> n < length line \<longrightarrow> se_decode env (take n line) = Err JsonEof))"

definition log_of :: "store_env \<Rightarrow> store_action list \<Rightarrow> bytes" where
  "log_of env as = concat (map (\<lambda>a. the (se_encode env a) @ [newline]) as)"

definition encodable :: "store_env \<Rightarrow> store_action list \<Rightarrow> bool" where
  "encodable env as \<longleftrightarrow> (\<forall>a \<in> set as. se_encode env a \<noteq> None)"

lemma log_of_simps [simp]:
  "log_of env [] = []" "log_of env (a # as) = the (se_encode env a) @ newline # log_of env as"
  "log_of env (as @ bs) = log_of env as @ log_of env bs"
  by (simp_all add: log_of_def)

lemma encodable_simps [simp]:
  "encodable env []" "encodable env (a # as) \<longleftrightarrow> se_encode env a \<noteq> None \<and> encodable env as"
  "encodable env (as @ bs) \<longleftrightarrow> encodable env as \<and> encodable env bs"
  by (auto simp: encodable_def)

lemma faithful_text:
  assumes "json_faithful env" and "se_encode env a = Some line"
  shows "is_utf8 line" and "newline \<notin> set line" and "se_decode env line = Ok a" and "\<forall>b \<in> set line. 32 \<le> byte_val b"
    and "line \<noteq> []" and "0 < n \<Longrightarrow> n \<le> length line \<Longrightarrow> trim_chars (utf8_chars (take n line)) \<noteq> []"
    and "0 < n \<Longrightarrow> n < length line \<Longrightarrow> se_decode env (take n line) = Err JsonEof"
proof -
  obtain rest where f: "line = CHR ''{'' # rest" "\<forall>b \<in> set line. 32 \<le> byte_val b" "is_utf8 line" "se_decode env line = Ok a"
    "\<forall>n. 0 < n \<and> n < length line \<longrightarrow> se_decode env (take n line) = Err JsonEof"
    using assms unfolding json_faithful_def by blast
  then show "is_utf8 line" "line \<noteq> []" "se_decode env line = Ok a" "\<forall>b \<in> set line. 32 \<le> byte_val b"
    "0 < n \<Longrightarrow> n < length line \<Longrightarrow> se_decode env (take n line) = Err JsonEof" by auto
  show "newline \<notin> set line" using f(2) by (force simp: newline_def)
  show "0 < n \<Longrightarrow> n \<le> length line \<Longrightarrow> trim_chars (utf8_chars (take n line)) \<noteq> []"
    using brace_not_blank f(1) by (cases n) auto
qed

lemma log_utf8: "json_faithful env \<Longrightarrow> encodable env as \<Longrightarrow> is_utf8 (log_of env as @ tail) = is_utf8 tail"
proof (induction as)
  case (Cons a as)
  then obtain line where t: "se_encode env a = Some line" by auto
  have "is_ascii newline" by (simp add: newline_def is_ascii_def)
  then show ?case using Cons faithful_text(1) [OF Cons.prems(1) t] t by (simp add: is_utf8_append)
qed simp

text \<open>Replay of a complete log, followed by what it makes of the tail.\<close>

lemma replay_log:
  assumes "json_faithful env" and "encodable env as"
  shows "replay_lines env index (split_inclusive (log_of env as @ tail)) (records, n) =
    replay_lines env (index + length as) (split_inclusive tail) (foldl apply_action records as, n + length as)"
  using assms(2)
proof (induction as arbitrary: index records n)
  case (Cons a as)
  then obtain line where t: "se_encode env a = Some line" by auto
  note f = faithful_text [OF assms(1) t]
  have "trim_chars (utf8_chars line) \<noteq> []" using f(5) f(6) [of "length line"] by simp
  then show ?case using Cons t f(3) by (simp add: split_inclusive_line f(2) strip_line_end_line(1) [OF f(4)] Let_def)
qed simp

text \<open>Opening the store on a log whose last line may be cut short.\<close>

definition opened :: "bytes \<Rightarrow> notification_records \<Rightarrow> nat \<Rightarrow> store_state" where
  "opened content records n =
     \<lparr>ss_log = content, ss_file = True, ss_records = records, ss_action_count = n, ss_source_warning_logged = False,
      ss_contributions = Map.empty, ss_unavailable = None\<rparr>"

lemma open_log:
  assumes env: "json_faithful env" and as: "encodable env as" and a: "se_encode env a = Some line"
    and k: "k \<le> length line" "is_utf8 (take k line)"
  shows "store_open env None (log_of env as @ take k line) =
    (if k = length line then opened (log_of env as @ line) (apply_action (foldl apply_action [] as) a) (length as + 1)
     else opened (log_of env as @ take k line) (foldl apply_action [] as) (length as))"
proof -
  note f = faithful_text [OF env a]
  have rep: "replay env (log_of env as @ take k line) =
      replay_lines env (length as) (split_inclusive (take k line)) (foldl apply_action [] as, length as)"
    using replay_log [OF env as, of 0 "take k line" "[]" 0] log_utf8 [OF env as] k(2) by (simp add: replay_def)
  show ?thesis
  proof (cases "k = 0")
    case True
    then show ?thesis using rep f(5) by (simp add: store_open_def opened_def)
  next
    case False
    let ?p = "take k line"
    have p: "?p \<noteq> []" "newline \<notin> set ?p" "strip_line_end ?p = ?p" "\<not> suffix [newline] ?p" "trim_chars (utf8_chars ?p) \<noteq> []"
      using False f(2,4,5) f(6) [of k] k(1) in_set_takeD [of _ k line] by (auto simp: suffix_def intro!: strip_line_end_line(2))
    have one: "replay env (log_of env as @ ?p) =
        (case se_decode env ?p of
           Ok action \<Rightarrow> Ok (apply_action (foldl apply_action [] as) action, length as + 1)
         | Err err \<Rightarrow> if err = JsonEof then Ok (foldl apply_action [] as, length as) else Err (ErrStoreParse (length as + 1) err))"
      unfolding rep split_inclusive_tail [OF p(2,1)]
      using p(3,4,5) by (simp add: Let_def is_tolerated_trailing_partial_def TOLERATE_TRAILING_EOF_ACTION_def split: sum.splits)
    show ?thesis
    proof (cases "k = length line")
      case True
      then show ?thesis using one f(3) by (simp add: store_open_def opened_def)
    next
      case False
      then have "se_decode env ?p = Err JsonEof" using f(7) [of k] \<open>k \<noteq> 0\<close> k(1) by simp
      then show ?thesis using one False by (simp add: store_open_def opened_def)
    qed
  qed
qed

lemma open_complete_log:
  assumes "json_faithful env" and "encodable env as"
  shows "store_open env None (log_of env as) = opened (log_of env as) (foldl apply_action [] as) (length as)"
proof -
  have "replay env (log_of env as) = Ok (foldl apply_action [] as, length as)"
    using replay_log [OF assms, of 0 "[]" "[]" 0] log_utf8 [OF assms, of "[]"] by (simp add: replay_def)
  then show ?thesis by (simp add: store_open_def opened_def)
qed

section \<open>The log of a run\<close>

definition recoverable :: "store_env \<Rightarrow> store_state \<Rightarrow> bool" where
  "recoverable env s \<longleftrightarrow>
     (\<exists>as. encodable env as \<and> ss_log s = log_of env as \<and> ss_records s = foldl apply_action [] as \<and> ss_action_count s = length as)"

definition store_ok :: "store_env \<Rightarrow> store_state \<Rightarrow> bool" where
  "store_ok env s \<longleftrightarrow> recoverable env s \<and> records_ok (ss_records s) \<and> ss_unavailable s = None \<and> ss_file s"

lemma edit_ok: "store_edit env s s' \<Longrightarrow> store_ok env s \<Longrightarrow> store_ok env s'"
proof (induction rule: store_edit.induct)
  case (act s a)
  obtain as where as: "encodable env as" "ss_log s = log_of env as" "ss_records s = foldl apply_action [] as" "ss_action_count s = length as"
    using act.prems unfolding store_ok_def recoverable_def by blast
  have "recoverable env (with_action env s a)"
    unfolding recoverable_def by (rule exI [of _ "as @ [a]"]) (use as act(2) in \<open>simp add: with_action_def\<close>)
  then show ?case using act.prems by (simp add: store_ok_def with_action_def records_ok_apply)
qed (simp add: store_ok_def recoverable_def)

interpretation log_edits: step_relation "store_edit env" "store_ok env" "\<lambda>_ _. True" for env
  by unfold_locales (auto intro: edit_ok)

text \<open>What compaction keeps.\<close>

lemma keep_terminal_values:
  "snd ` set (keep_terminal sources terminal r) \<subseteq> insert r (snd ` set terminal)"
proof -
  have "snd ` set (btree_insert key r terminal) \<subseteq> insert r (snd ` set terminal)" for key
    using set_btree_insert [of key r terminal] by fastforce
  then show ?thesis unfolding keep_terminal_def Let_def by (simp add: subset_insertI split: option.splits)
qed

lemma keep_terminals_values: "snd ` set (foldl (keep_terminal sources) terminal rs) \<subseteq> set rs \<union> snd ` set terminal"
proof (induction rs arbitrary: terminal)
  case (Cons r rs)
  show ?case using Cons [of "keep_terminal sources terminal r"] keep_terminal_values [of sources terminal r] by auto
qed simp

lemma tombstones_values:
  assumes "terminal_tombstones sources s = (s1, tombs)"
  shows "set tombs \<subseteq> set (filter is_terminal_tombstone (record_values s))"
    and "\<exists>b. s1 = s\<lparr>ss_source_warning_logged := b\<rparr>"
proof -
  let ?deleted = "filter is_terminal_tombstone (record_values s)"
  have "set (map snd (foldl (keep_terminal (live_sources x)) [] ?deleted)) \<subseteq> set ?deleted" for x
    using keep_terminals_values [of "live_sources x" "[]" ?deleted] by simp
  moreover have "tombs = [] \<or> tombs = ?deleted \<or> (\<exists>x. tombs = map snd (foldl (keep_terminal (live_sources x)) [] ?deleted))"
    using assms unfolding terminal_tombstones_def Let_def by (auto split: if_splits option.splits)
  ultimately show "set tombs \<subseteq> set ?deleted" by (metis empty_subsetI list.set(1) subset_refl)
  have noop: "s = s\<lparr>ss_source_warning_logged := ss_source_warning_logged s\<rparr>" by simp
  have "s1 = s \<or> s1 = s\<lparr>ss_source_warning_logged := True\<rparr>"
    using assms unfolding terminal_tombstones_def Let_def by (auto split: if_splits option.splits)
  then show "\<exists>b. s1 = s\<lparr>ss_source_warning_logged := b\<rparr>" using noop by blast
qed

lemma log_lines_created:
  "log_lines env rs = Some content \<Longrightarrow> content = log_of env (map ActionCreated rs) \<and> encodable env (map ActionCreated rs)"
proof -
  assume a: "log_lines env rs = Some content"
  then have "None \<notin> set (map (\<lambda>r. se_encode env (ActionCreated r)) rs)" by (simp add: log_lines_def Let_def split: if_splits)
  then have "encodable env (map ActionCreated rs)" by (simp add: encodable_def image_iff) (metis option.exhaust)
  with a show ?thesis by (simp add: log_lines_def log_of_def comp_def Let_def split: if_splits)
qed

lemma foldl_created: "foldl apply_action records (map ActionCreated rs) = foldl insert_record records rs"
  by (induction rs arbitrary: records) auto

definition retained_of :: "store_state \<Rightarrow> notification_record list \<Rightarrow> bool" where
  "retained_of s rs \<longleftrightarrow>
     set rs \<subseteq> set (record_values s) \<and> (\<forall>r \<in> set (record_values s). nr_status r \<noteq> StatusDeleted \<longrightarrow> r \<in> set rs)"

lemma compact_cases:
  assumes "compact_if_needed env io sources minimum s = (s', res)"
  obtains (same) b where "s' = s\<lparr>ss_source_warning_logged := b\<rparr>"
  | (compacted) rs b where "retained_of s rs" "encodable env (map ActionCreated rs)"
      "s' = s\<lparr>ss_source_warning_logged := b, ss_log := log_of env (map ActionCreated rs), ss_file := True,
        ss_action_count := length rs, ss_records := foldl insert_record [] rs\<rparr>"
proof -
  let ?current = "filter (\<lambda>r. nr_status r \<noteq> StatusDeleted) (record_values s)"
  obtain s1 tombs where t: "terminal_tombstones sources s = (s1, tombs)" by fastforce
  note v = tombstones_values [OF t]
  obtain b where b: "s1 = s\<lparr>ss_source_warning_logged := b\<rparr>" using v(2) by blast
  have ret: "retained_of s (?current @ tombs)" using v(1) by (auto simp: retained_of_def)
  have noop: "s = s\<lparr>ss_source_warning_logged := ss_source_warning_logged s\<rparr>" by simp
  show thesis
  proof (cases "s' = s \<or> s' = s1")
    case True
    then show thesis using same noop b by blast
  next
    case False
    then obtain content where c: "log_lines env (?current @ tombs) = Some content"
      "s' = s1\<lparr>ss_log := content, ss_file := True, ss_action_count := length (?current @ tombs),
        ss_records := foldl insert_record [] (?current @ tombs)\<rparr>"
      using assms unfolding compact_if_needed_def Let_def t prod.case
      by (simp split: if_splits option.splits)
    note l = log_lines_created [OF c(1)]
    have eq: "s' = s\<lparr>ss_source_warning_logged := b, ss_log := log_of env (map ActionCreated (?current @ tombs)), ss_file := True,
        ss_action_count := length (?current @ tombs), ss_records := foldl insert_record [] (?current @ tombs)\<rparr>"
      using c(2) l b by simp
    show thesis by (rule compacted [OF ret conjunct2 [OF l] eq])
  qed
qed

lemma retained_lookup:
  assumes "records_ok (ss_records s)" and "retained_of s rs"
  shows "map_of (foldl insert_record [] rs) k = (case map_of (ss_records s) k of None \<Rightarrow> None | Some r \<Rightarrow> if r \<in> set rs then Some r else None)"
proof -
  let ?m = "map_of (rev (map (\<lambda>r. (nr_id r, r)) rs)) k"
  have in_rs: "\<exists>r. r \<in> set rs \<and> nr_id r = k \<and> ?m = Some r" if some: "?m \<noteq> None"
  proof -
    obtain r where "?m = Some r" using some by auto
    then show ?thesis using map_of_SomeD [of "rev (map (\<lambda>r. (nr_id r, r)) rs)" k r] by auto
  qed
  have old: "map_of (ss_records s) k = Some r" if "r \<in> set rs" "nr_id r = k" for r
    using that assms(2) values_lookup [OF assms(1), of r] by (auto simp: retained_of_def)
  have some: "?m \<noteq> None" if "r \<in> set rs" "nr_id r = k" for r
    using that by (auto simp: map_of_eq_None_iff image_iff)
  show ?thesis
  proof (cases ?m)
    case None
    then have "r \<notin> set rs" if "map_of (ss_records s) k = Some r" for r
      using some lookup_id [OF assms(1) that] by blast
    then show ?thesis using None by (auto simp: map_of_inserts split: option.splits)
  next
    case (Some r)
    then obtain r' where "r' \<in> set rs" "nr_id r' = k" "?m = Some r'" using in_rs by blast
    then show ?thesis using old Some by (simp add: map_of_inserts)
  qed
qed

lemma compact_ok:
  assumes "compact_if_needed env io sources minimum s = (s', res)" and "store_ok env s"
  shows "store_ok env s'"
proof (cases rule: compact_cases [OF assms(1)])
  case (1 b)
  then show ?thesis using assms(2) by (simp add: store_ok_def recoverable_def)
next
  case (2 rs b)
  have "recoverable env s'" unfolding recoverable_def
    by (rule exI [of _ "map ActionCreated rs"]) (simp add: 2 foldl_created)
  moreover have "records_ok (ss_records s')" by (simp add: 2(3) records_ok_inserts)
  ultimately show ?thesis using assms(2) 2(3) by (simp add: store_ok_def)
qed

lemma restart_ok:
  assumes "json_faithful env" and "store_ok env s"
  shows "store_ok env (store_open env None (ss_log s))" and "ss_records (store_open env None (ss_log s)) = ss_records s"
proof -
  obtain as where as: "encodable env as" "ss_log s = log_of env as" "ss_records s = foldl apply_action [] as" "ss_action_count s = length as"
    using assms(2) unfolding store_ok_def recoverable_def by blast
  note o = open_complete_log [OF assms(1) as(1)]
  show "ss_records (store_open env None (ss_log s)) = ss_records s" by (simp add: o as(2,3) opened_def)
  show "store_ok env (store_open env None (ss_log s))"
    using assms(2) as unfolding store_ok_def recoverable_def by (auto simp: o opened_def)
qed

lemma store_step_edits:
  assumes "store_step env s s'" and "records_ok (ss_records s)"
  obtains "(store_edit env)\<^sup>*\<^sup>* s s'"
  | io sources minimum res where "compact_if_needed env io sources minimum s = (s', res)"
  | "s' = store_open env None (ss_log s)"
  using assms(1)
proof cases
  case (commit w ws r window minted now res es)
  then show thesis using commit_edit [OF commit(1,2) _ assms(2) commit(4)] that(1) by blast
next
  case (update w rid st now ures)
  then show thesis using update_edit [OF update(1,2) assms(2)] that(1) by blast
next
  case (delete w rid now dres)
  then show thesis using delete_edit [OF delete(1,2) assms(2)] that(1) by blast
next
  case (resolve ws K now as_of rres)
  then show thesis using resolve_edit [OF resolve(1) _ assms(2)] that(1) by blast
qed (use that in blast)+

lemma store_step_ok: "json_faithful env \<Longrightarrow> store_step env s s' \<Longrightarrow> store_ok env s \<Longrightarrow> store_ok env s'"
  using store_step_edits [of env s s'] log_edits.steps_good compact_ok restart_ok(1) unfolding store_ok_def by metis

lemma store_run_ok:
  assumes "json_faithful env"
  shows "store_run env s \<Longrightarrow> store_ok env s"
proof (induction rule: store_run.induct)
  case start
  show ?case unfolding store_ok_def recoverable_def
    using open_complete_log [OF assms, of "[]"] by (auto simp: opened_def intro!: exI [of _ "[]"])
qed (rule store_step_ok [OF assms])

section \<open>What the steps keep of the records\<close>

definition kept_versions :: "notification_records \<Rightarrow> notification_records \<Rightarrow> bool" where
  "kept_versions old new \<longleftrightarrow>
     (\<forall>k r. map_of old k = Some r \<longrightarrow>
        (case map_of new k of None \<Rightarrow> nr_status r = StatusDeleted | Some r' \<Rightarrow> later_version r r'))"

definition one_unread_turn :: "notification_records \<Rightarrow> bool" where
  "one_unread_turn records \<longleftrightarrow>
     (\<forall>K i j x y. map_of records i = Some x \<longrightarrow> map_of records j = Some y \<longrightarrow> unread_turn K x \<longrightarrow> unread_turn K y \<longrightarrow> i = j)"

lemma later_version_refl [simp]: "later_version r r"
  by (simp add: later_version_def)

lemma later_version_trans: "later_version a b \<Longrightarrow> later_version b c \<Longrightarrow> later_version a c"
  by (simp add: later_version_def)

definition versions_grow :: "notification_records \<Rightarrow> notification_records \<Rightarrow> bool" where
  "versions_grow old new \<longleftrightarrow> (\<forall>k r. map_of old k = Some r \<longrightarrow> (\<exists>r'. map_of new k = Some r' \<and> later_version r r'))"

text \<open>The map after an action, by the identifiers it writes.\<close>

fun written :: "store_action \<Rightarrow> notification_record list" where
  "written (ActionCreated r) = [r]"
| "written (ActionUpdated r) = [r]"
| "written (ActionDeleted r) = [r]"
| "written (ActionCreatedWithUpdates r updated) = r # updated"

lemma apply_written: "apply_action records a = foldl insert_record records (written a)"
  by (cases a) auto

lemma apply_lookup:
  assumes "map_of (apply_action records a) k = Some r"
  shows "r \<in> set (written a) \<and> nr_id r = k \<or> map_of records k = Some r \<and> (\<forall>w \<in> set (written a). nr_id w \<noteq> k)"
proof (cases "map_of (rev (map (\<lambda>r. (nr_id r, r)) (written a))) k")
  case None
  then have "\<forall>w \<in> set (written a). nr_id w \<noteq> k" by (auto simp: map_of_eq_None_iff image_iff)
  then show ?thesis using assms None by (simp add: apply_written map_of_inserts)
next
  case (Some x)
  then show ?thesis
    using assms map_of_SomeD [OF Some] by (auto simp: apply_written map_of_inserts)
qed

lemma apply_keeps: "map_of records k \<noteq> None \<Longrightarrow> map_of (apply_action records a) k \<noteq> None"
  by (simp add: apply_written map_of_inserts split: option.splits)

lemma good_written:
  assumes "good_action records a" and "w \<in> set (written a)"
  shows "map_of records (nr_id w) = None \<and> (a = ActionCreated w \<or> (\<exists>us. a = ActionCreatedWithUpdates w us)) \<or> moved_on records w"
  using assms by (cases a) auto

lemma action_grows:
  assumes "good_action records a"
  shows "versions_grow records (apply_action records a)"
  unfolding versions_grow_def
proof (intro allI impI)
  fix k r assume r: "map_of records k = Some r"
  then obtain r' where r': "map_of (apply_action records a) k = Some r'" using apply_keeps by fastforce
  from apply_lookup [OF this] show "\<exists>r'. map_of (apply_action records a) k = Some r' \<and> later_version r r'"
  proof
    assume "r' \<in> set (written a) \<and> nr_id r' = k"
    then show ?thesis using good_written [OF assms, of r'] r r' by (auto simp: moved_on_def)
  qed (use r r' in auto)
qed

lemma action_one_turn:
  assumes good: "good_action records a" and one: "one_unread_turn records"
  shows "one_unread_turn (apply_action records a)"
  unfolding one_unread_turn_def
proof (intro allI impI)
  fix K i j x y
  assume x: "map_of (apply_action records a) i = Some x" and y: "map_of (apply_action records a) j = Some y"
    and turns: "unread_turn K x" "unread_turn K y"
  have new: "(a = ActionCreated z \<or> (\<exists>us. a = ActionCreatedWithUpdates z us)) \<and> nr_id z = k"
    if "z \<in> set (written a)" "nr_id z = k" "unread_turn K z" for z k
    using good_written [OF good that(1)] that(2,3) by (auto simp: moved_on_def)
  have clash: False
    if "z \<in> set (written a)" "unread_turn K z" "map_of records k = Some u" "\<forall>w \<in> set (written a). nr_id w \<noteq> k" "unread_turn K u" for z k u
    using new [OF that(1) refl that(2)] good that(2-5) by (elim conjE disjE exE; simp; blast)
  show "i = j" using apply_lookup [OF x] apply_lookup [OF y]
  proof (elim disjE conjE)
    assume "x \<in> set (written a)" "nr_id x = i" "y \<in> set (written a)" "nr_id y = j"
    then show "i = j" using new [of x i] new [of y j] turns by auto
  qed (use clash turns one in \<open>auto simp: one_unread_turn_def\<close>)
qed

lemma edit_keeps:
  assumes "store_edit env s s'"
  shows "versions_grow (ss_records s) (ss_records s')" and "one_unread_turn (ss_records s) \<Longrightarrow> one_unread_turn (ss_records s')"
  using assms
  by (cases; auto simp: with_action_def versions_grow_def intro: action_one_turn action_grows [unfolded versions_grow_def, rule_format])+

interpretation version_edits: step_relation "store_edit env" "\<lambda>_. True" "\<lambda>s s'. versions_grow (ss_records s) (ss_records s')" for env
proof
  show "versions_grow (ss_records a) (ss_records b) \<Longrightarrow> versions_grow (ss_records b) (ss_records c) \<Longrightarrow>
      versions_grow (ss_records a) (ss_records c)" for a b c :: store_state
    unfolding versions_grow_def using later_version_trans by meson
qed (auto simp: versions_grow_def dest: edit_keeps(1) [unfolded versions_grow_def, rule_format])

interpretation turn_edits: step_relation "store_edit env" "\<lambda>s. one_unread_turn (ss_records s)" "\<lambda>_ _. True" for env
  by unfold_locales (auto intro: edit_keeps(2))

lemma compact_keeps:
  assumes "compact_if_needed env io sources minimum s = (s', res)" and "records_ok (ss_records s)"
  shows "kept_versions (ss_records s) (ss_records s')" and "one_unread_turn (ss_records s) \<Longrightarrow> one_unread_turn (ss_records s')"
proof -
  have "kept_versions (ss_records s) (ss_records s') \<and> (one_unread_turn (ss_records s) \<longrightarrow> one_unread_turn (ss_records s'))"
  proof (cases rule: compact_cases [OF assms(1)])
    case (1 b)
    then show ?thesis by (simp add: kept_versions_def split: option.splits)
  next
    case (2 rs b)
    note look = retained_lookup [OF assms(2) 2(1)]
    have "kept_versions (ss_records s) (foldl insert_record [] rs)"
      using 2(1) values_lookup [OF assms(2)] lookup_id [OF assms(2)]
      by (auto simp: kept_versions_def look retained_of_def)
    moreover have "map_of (ss_records s) k = Some r" if "map_of (foldl insert_record [] rs) k = Some r" for k r
      using that by (simp add: look split: option.splits if_splits)
    ultimately show ?thesis by (auto simp: 2(3) one_unread_turn_def)
  qed
  then show "kept_versions (ss_records s) (ss_records s')" "one_unread_turn (ss_records s) \<Longrightarrow> one_unread_turn (ss_records s')" by blast+
qed

lemma store_step_keeps:
  assumes "json_faithful env" and "store_step env s s'" and ok: "store_ok env s"
  shows "kept_versions (ss_records s) (ss_records s')" and "one_unread_turn (ss_records s) \<Longrightarrow> one_unread_turn (ss_records s')"
proof -
  have r: "records_ok (ss_records s)" using ok by (simp add: store_ok_def)
  have grown: "kept_versions a b" if "versions_grow a b" for a b
    using that by (fastforce simp: kept_versions_def versions_grow_def)
  have "kept_versions (ss_records s) (ss_records s') \<and> (one_unread_turn (ss_records s) \<longrightarrow> one_unread_turn (ss_records s'))"
  proof (rule store_step_edits [OF assms(2) r])
    assume e: "(store_edit env)\<^sup>*\<^sup>* s s'"
    show ?thesis using version_edits.steps_chain [OF e] turn_edits.steps_good [OF e] grown by blast
  next
    fix io sources minimum res assume c: "compact_if_needed env io sources minimum s = (s', res)"
    show ?thesis using compact_keeps [OF c r] by blast
  next
    assume "s' = store_open env None (ss_log s)"
    then have "ss_records s' = ss_records s" using restart_ok(2) [OF assms(1) ok] by simp
    then show ?thesis by (simp add: kept_versions_def split: option.splits)
  qed
  then show "kept_versions (ss_records s) (ss_records s')" "one_unread_turn (ss_records s) \<Longrightarrow> one_unread_turn (ss_records s')" by blast+
qed

lemma store_run_one_turn:
  assumes "json_faithful env"
  shows "store_run env s \<Longrightarrow> one_unread_turn (ss_records s)"
proof (induction rule: store_run.induct)
  case start
  show ?case using open_complete_log [OF assms, of "[]"] by (simp add: opened_def one_unread_turn_def)
next
  case (step s s')
  show ?case by (rule store_step_keeps(2) [OF assms step(2) store_run_ok [OF assms step(1)] step(3)])
qed

end
