(* ===== verification/Notify_Guarantees.thy ===== *)
theory Notify_Guarantees
  imports Notify_Recovery
begin

text \<open>
  What the notification store guarantees: the log recovers the records after a crash, records are
  never lost or moved back, a session has one unread turn notification, and the pages of a listing are
  the listing; and how an append after a line that a crash cut short makes the log unreadable.
\<close>

section \<open>Pages\<close>

definition strictly_before :: "notification_record \<Rightarrow> notification_record \<Rightarrow> bool" where
  "strictly_before left right \<longleftrightarrow>
     nr_created_at right < nr_created_at left \<or> (nr_created_at right = nr_created_at left \<and> nr_id left < nr_id right)"

lemma set_insert_listed [simp]: "set (insert_listed r xs) = insert r (set xs)"
  by (induction xs) auto

lemma sorted_insert_listed: "sorted_wrt listed_before xs \<Longrightarrow> sorted_wrt listed_before (insert_listed r xs)"
proof (induction xs)
  case (Cons x xs)
  have "listed_before x r" if "\<not> listed_before r x" using that by (auto simp: listed_before_def)
  moreover have "listed_before r y" if "listed_before r x" "listed_before x y" for y
    using that by (auto simp: listed_before_def)
  ultimately show ?case using Cons by auto
qed simp

lemma set_sort_list [simp]: "set (sort_records_for_list xs) = set xs"
  by (induction xs) (auto simp: sort_records_for_list_def)

lemma length_insert_listed [simp]: "length (insert_listed r xs) = Suc (length xs)"
  by (induction xs) auto

lemma sorted_sort_list: "sorted_wrt listed_before (sort_records_for_list xs)"
  by (induction xs) (auto simp: sort_records_for_list_def intro: sorted_insert_listed)

lemma distinct_insert_listed: "distinct (map nr_id (r # xs)) \<Longrightarrow> distinct (map nr_id (insert_listed r xs))"
  by (induction xs) auto

lemma ids_insert_listed: "set (map nr_id (insert_listed r xs)) = insert (nr_id r) (set (map nr_id xs))"
  by (simp add: image_Un)

lemma distinct_sort_list: "distinct (map nr_id xs) \<Longrightarrow> distinct (map nr_id (sort_records_for_list xs))"
proof (induction xs)
  case (Cons r xs)
  have "set (map nr_id (sort_records_for_list xs)) = set (map nr_id xs)" by simp
  then have "distinct (map nr_id (r # sort_records_for_list xs))" using Cons by auto
  then show ?case using distinct_insert_listed by (simp add: sort_records_for_list_def)
qed (simp add: sort_records_for_list_def)

lemma strictly_sorted:
  assumes "sorted_wrt listed_before xs" and "distinct (map nr_id xs)"
  shows "sorted_wrt strictly_before xs"
  using assms
proof (induction xs)
  case (Cons x xs)
  have "strictly_before x y" if "y \<in> set xs" for y
    using Cons.prems that by (auto simp: listed_before_def strictly_before_def image_iff less_le)
  then show ?case using Cons by auto
qed simp

lemma strictly_asym: "strictly_before a b \<Longrightarrow> \<not> strictly_before b a"
  unfolding strictly_before_def by (metis less_asym)

lemma strictly_irrefl: "\<not> strictly_before a a"
  by (simp add: strictly_before_def)

lemma after_cursor_drop:
  assumes "sorted_wrt strictly_before xs" and "i < length xs"
  shows "filter (strictly_before (xs ! i)) xs = drop (Suc i) xs"
proof -
  have "\<not> strictly_before (xs ! i) y" if mem: "y \<in> set (take (Suc i) xs)" for y
  proof -
    obtain j where j: "j \<le> i" "y = xs ! j" using mem assms(2) by (auto simp: in_set_conv_nth less_Suc_eq_le)
    show ?thesis
    proof (cases "j = i")
      case False
      then have "strictly_before y (xs ! i)" using sorted_wrt_nth_less [OF assms(1), of j i] j assms(2) by simp
      then show ?thesis by (rule strictly_asym)
    qed (simp add: j(2) strictly_irrefl)
  qed
  moreover have "strictly_before (xs ! i) y" if mem: "y \<in> set (drop (Suc i) xs)" for y
  proof -
    obtain j where "j < length xs - Suc i" "y = xs ! (Suc i + j)" using mem by (auto simp: in_set_conv_nth)
    then show ?thesis using sorted_wrt_nth_less [OF assms(1), of i "Suc i + j"] by simp
  qed
  ultimately have "filter (strictly_before (xs ! i)) (take (Suc i) xs @ drop (Suc i) xs) = drop (Suc i) xs"
    by (simp add: filter_empty_conv del: append_take_drop_id)
  then show ?thesis by simp
qed

text \<open>A client that follows the cursors until there is none.\<close>

fun follow_pages :: "store_env \<Rightarrow> store_state \<Rightarrow> list_params \<Rightarrow> nat \<Rightarrow> notification_record list list option" where
  "follow_pages env s p 0 = None"
| "follow_pages env s p (Suc n) =
     (case store_list env s p of
        Err _ \<Rightarrow> None
      | Ok res \<Rightarrow>
          (case lr_next_cursor res of
             None \<Rightarrow> Some [lr_notifications res]
           | Some c \<Rightarrow> map_option (Cons (lr_notifications res)) (follow_pages env s (p\<lparr>lp_cursor := Some c\<rparr>) n)))"

definition listing :: "store_env \<Rightarrow> store_state \<Rightarrow> list_params \<Rightarrow> int option \<Rightarrow> int option \<Rightarrow> notification_record list" where
  "listing env s p after before =
     sort_records_for_list (filter (\<lambda>r. record_in_time_range env r after before = Ok True) (filter (list_matches p) (record_values s)))"

lemma list_matches_page [simp]:
  "list_matches (p\<lparr>lp_limit := l\<rparr>) = list_matches p" "list_matches (p\<lparr>lp_cursor := c\<rparr>) = list_matches p"
  by (simp_all add: list_matches_def fun_eq_iff)

lemma store_list_page:
  assumes "ensure_available s = Ok ()" and "parse_optional_timestamp env (lp_created_after p) = Ok after"
    and "parse_optional_timestamp env (lp_created_before p) = Ok before"
  shows "store_list env s p =
    and_then (case lp_cursor p of None \<Rightarrow> Ok None | Some c \<Rightarrow> and_then (parse_cursor env c) (\<lambda>x. Ok (Some x))) (\<lambda>cursor.
      let records = (case cursor of None \<Rightarrow> listing env s p after before
                     | Some c \<Rightarrow> filter (\<lambda>r. record_after_cursor r c) (listing env s p after before))
      in Ok \<lparr>lr_notifications = (case lp_limit p of None \<Rightarrow> records | Some limit \<Rightarrow> take limit records),
             lr_next_cursor = (case lp_limit p of None \<Rightarrow> None
               | Some limit \<Rightarrow> if limit < length records \<and> 0 < limit then Some (encode_cursor (records ! (limit - 1))) else None)\<rparr>)"
  by (simp only: store_list_def listing_def assms and_then_simps Let_def)

text \<open>Timestamps have no cursor separator, as in RFC 3339, and identifiers are not empty.\<close>

definition cursors_ok :: "store_env \<Rightarrow> store_state \<Rightarrow> bool" where
  "cursors_ok env s \<longleftrightarrow>
     (\<forall>ts. se_timestamp env ts \<noteq> None \<longrightarrow> LIST_CURSOR_SEPARATOR \<notin> set ts) \<and> (\<forall>r \<in> set (record_values s). nr_id r \<noteq> [])"

lemma listed_cursor:
  assumes "cursors_ok env s" and "r \<in> set (listing env s p after before)"
  shows "parse_cursor env (encode_cursor r) = Ok \<lparr>lc_created_at = nr_created_at r, lc_id = nr_id r\<rparr>"
proof -
  have r: "r \<in> set (record_values s)" "record_in_time_range env r after before = Ok True"
    using assms(2) by (auto simp: listing_def)
  then obtain t where t: "se_timestamp env (nr_created_at r) = Some t"
    by (cases "se_timestamp env (nr_created_at r)") (auto simp: record_in_time_range_def parse_timestamp_def)
  have "split_once LIST_CURSOR_SEPARATOR (encode_cursor r) = Some (nr_created_at r, nr_id r)"
    using assms(1) t by (simp add: encode_cursor_def split_once_append cursors_ok_def)
  then show ?thesis using assms(1) r(1) t by (simp add: parse_cursor_def parse_timestamp_def cursors_ok_def)
qed

lemma after_cursor: "record_after_cursor x \<lparr>lc_created_at = nr_created_at r, lc_id = nr_id r\<rparr> = strictly_before r x"
  by (simp add: record_after_cursor_def strictly_before_def)

definition page_of :: "notification_record list \<Rightarrow> nat \<Rightarrow> nat \<Rightarrow> list_result" where
  "page_of xs limit start =
     \<lparr>lr_notifications = take limit (drop start xs),
      lr_next_cursor = (if limit < length xs - start then Some (encode_cursor (xs ! (start + limit - 1))) else None)\<rparr>"

lemma listing_sorted: "records_ok (ss_records s) \<Longrightarrow> sorted_wrt strictly_before (listing env s p after before)"
  unfolding listing_def
  by (intro strictly_sorted sorted_sort_list distinct_sort_list distinct_filtered_ids distinct_value_ids)

lemma store_list_pages:
  assumes avail: "ensure_available s = Ok ()" and cur: "cursors_ok env s" and ok: "records_ok (ss_records s)"
    and times: "parse_optional_timestamp env (lp_created_after p) = Ok after" "parse_optional_timestamp env (lp_created_before p) = Ok before"
    and limit: "lp_limit p = Some limit" "0 < limit"
  shows "lp_cursor p = None \<Longrightarrow> store_list env s p = Ok (page_of (listing env s p after before) limit 0)"
    and "i < length (listing env s p after before) \<Longrightarrow> lp_cursor p = Some (encode_cursor (listing env s p after before ! i)) \<Longrightarrow>
      store_list env s p = Ok (page_of (listing env s p after before) limit (Suc i))"
proof -
  let ?xs = "listing env s p after before"
  note page = store_list_page [OF avail times]
  show "lp_cursor p = None \<Longrightarrow> store_list env s p = Ok (page_of ?xs limit 0)"
    using limit by (simp add: page page_of_def Let_def)
  assume i: "i < length ?xs" and c: "lp_cursor p = Some (encode_cursor (?xs ! i))"
  have "parse_cursor env (encode_cursor (?xs ! i)) = Ok \<lparr>lc_created_at = nr_created_at (?xs ! i), lc_id = nr_id (?xs ! i)\<rparr>"
    by (rule listed_cursor [OF cur nth_mem [OF i]])
  moreover have "filter (strictly_before (?xs ! i)) ?xs = drop (Suc i) ?xs"
    by (rule after_cursor_drop [OF listing_sorted [OF ok] i])
  ultimately show "store_list env s p = Ok (page_of ?xs limit (Suc i))"
    using limit by (simp add: page c page_of_def after_cursor Let_def)
qed

lemma follow_pages_from:
  assumes "ensure_available s = Ok ()" and "cursors_ok env s" and "records_ok (ss_records s)"
    and "parse_optional_timestamp env (lp_created_after p) = Ok after" "parse_optional_timestamp env (lp_created_before p) = Ok before"
    and "lp_limit p = Some limit" "0 < limit" and "i < length (listing env s p after before)"
    and "length (listing env s p after before) \<le> i + fuel"
  shows "\<exists>pages. follow_pages env s (p\<lparr>lp_cursor := Some (encode_cursor (listing env s p after before ! i))\<rparr>) fuel = Some pages \<and>
    concat pages = drop (Suc i) (listing env s p after before) \<and> (\<forall>page \<in> set pages. length page \<le> limit)"
  using assms(8,9)
proof (induction fuel arbitrary: i)
  case (Suc fuel)
  let ?xs = "listing env s p after before"
  have same: "listing env s (p\<lparr>lp_cursor := c\<rparr>) after before = ?xs" for c by (simp add: listing_def)
  have page: "store_list env s (p\<lparr>lp_cursor := Some (encode_cursor (?xs ! i))\<rparr>) = Ok (page_of ?xs limit (Suc i))"
    using store_list_pages(2) [OF assms(1,2,3), of "p\<lparr>lp_cursor := Some (encode_cursor (?xs ! i))\<rparr>" after before limit i]
      assms(4-7) Suc.prems(1) by (simp add: same)
  show ?case
  proof (cases "limit < length ?xs - Suc i")
    case True
    then have "i + limit < length ?xs" "length ?xs \<le> (i + limit) + fuel" using Suc.prems assms(7) by simp_all
    from Suc.IH [OF this] obtain pages where more:
      "follow_pages env s (p\<lparr>lp_cursor := Some (encode_cursor (?xs ! (i + limit)))\<rparr>) fuel = Some pages"
      "concat pages = drop (Suc (i + limit)) ?xs" "\<forall>page \<in> set pages. length page \<le> limit" by blast
    have first: "store_list env s (p\<lparr>lp_cursor := Some (encode_cursor (?xs ! i))\<rparr>) =
        Ok \<lparr>lr_notifications = take limit (drop (Suc i) ?xs), lr_next_cursor = Some (encode_cursor (?xs ! (i + limit)))\<rparr>"
      unfolding page page_of_def using True by simp
    have join: "take limit (drop (Suc i) ?xs) @ drop (Suc (i + limit)) ?xs = drop (Suc i) ?xs"
      by (metis add.commute add_Suc_right append_take_drop_id drop_drop)
    show ?thesis
      by (rule exI [of _ "take limit (drop (Suc i) ?xs) # pages"]) (simp only: follow_pages.simps first sum.case list_result.simps
          option.case option.map more concat.simps join list.set, use more in simp)
  next
    case False
    then show ?thesis unfolding follow_pages.simps page page_of_def by simp
  qed
qed simp

section \<open>A store\<close>

definition a_time :: bytes where "a_time = ''2026-07-03T10:00:00Z''"

definition a_notice :: notification_record where
  "a_notice =
     \<lparr>nr_id = ''n1'', nr_source = \<lparr>src_provider = ''claude'', src_provider_event = ''Stop'', src_host_local_source_id = ''h1''\<rparr>,
      nr_kind = KindTurnCompleted, nr_severity = SeverityInfo, nr_status = StatusUnread, nr_title = [], nr_body = [],
      nr_metadata = Map.empty, nr_created_at = a_time, nr_session_id = Some ''s1'', nr_agent_kind = None, nr_source_id = None,
      nr_dedupe_key = Some ''turn:s1'', nr_project_id = None, nr_read_at = None, nr_acked_at = None, nr_archived_at = None,
      nr_deleted_at = None, nr_superseded_by = None, nr_turn_started_at = None, nr_turn_duration_ms = None,
      nr_session_metadata = Map.empty, nr_hook_admitted = True\<rparr>"

lemma a_notice_fields [simp]:
  "nr_id a_notice = ''n1''" "nr_kind a_notice = KindTurnCompleted" "nr_status a_notice = StatusUnread" "nr_source_id a_notice = None"
  "nr_dedupe_key a_notice = Some ''turn:s1''" "nr_created_at a_notice = a_time" "source_priority a_notice \<noteq> Projector"
  by (simp_all add: a_notice_def source_priority_def)

definition a_creation :: store_action where "a_creation = ActionCreated a_notice"

definition a_deletion :: store_action where "a_deletion = ActionDeleted (apply_status a_notice StatusDeleted a_time)"

definition an_env :: store_env where
  "an_env =
     \<lparr>se_encode = (\<lambda>a. if a = a_creation then Some ''{}'' else if a = a_deletion then Some ''{1}'' else None),
      se_decode = (\<lambda>line. if line = ''{}'' then Ok a_creation else if line = ''{1}'' then Ok a_deletion
        else if line = ''{'' \<or> line = ''{1'' then Err JsonEof else Err JsonSyntax),
      se_show = (\<lambda>_. []), se_timestamp = (\<lambda>ts. if ts = a_time then Some 0 else None)\<rparr>"

lemma an_env_texts [simp]:
  "se_encode an_env a_creation = Some ''{}''" "se_encode an_env a_deletion = Some ''{1}''" "a_deletion \<noteq> a_creation"
  by (simp_all add: an_env_def a_creation_def a_deletion_def)

lemma an_env_faithful: "json_faithful an_env"
proof -
  have utf8: "is_utf8 ''{}''" "is_utf8 ''{1}''" by (auto intro!: is_utf8_ascii simp: is_ascii_def)
  have parts: "se_decode an_env (take n ''{}'') = Err JsonEof" if "0 < n" "n < 2" for n :: nat
  proof -
    have "n = 1" using that by simp
    then show ?thesis by (simp add: an_env_def)
  qed
  have parts': "se_decode an_env (take n ''{1}'') = Err JsonEof" if "0 < n" "n < 3" for n :: nat
  proof -
    have "n = 1 \<or> n = 2" using that by auto
    then show ?thesis by (auto simp: an_env_def)
  qed
  have two: "a = a_creation \<and> line = ''{}'' \<or> a = a_deletion \<and> line = ''{1}''" if "se_encode an_env a = Some line" for a line
    using that by (auto simp: an_env_def split: if_splits)
  have dec: "se_decode an_env ''{}'' = Ok a_creation" "se_decode an_env ''{1}'' = Ok a_deletion" by (simp_all add: an_env_def)
  show ?thesis unfolding json_faithful_def
  proof (intro allI impI)
    fix a line assume enc: "se_encode an_env a = Some line"
    show "(\<exists>rest. line = CHR ''{'' # rest) \<and> (\<forall>b \<in> set line. 32 \<le> byte_val b) \<and> is_utf8 line \<and> se_decode an_env line = Ok a \<and>
        (\<forall>n. 0 < n \<and> n < length line \<longrightarrow> se_decode an_env (take n line) = Err JsonEof)"
      using two [OF enc] by (elim disjE conjE) (simp_all add: utf8 dec parts parts')
  qed
qed

definition a_stored :: store_state where
  "a_stored = note_contribution (with_action an_env (store_open an_env None []) a_creation) a_notice ''n1'' 1"

lemma an_empty_store: "store_open an_env None [] = opened [] [] 0"
  using open_complete_log [OF an_env_faithful, of "[]"] by simp

lemma a_stored_state:
  "ss_log a_stored = ''{}'' @ [newline]" "ss_records a_stored = [(''n1'', a_notice)]" "ss_unavailable a_stored = None" "ss_file a_stored"
  using an_env_texts(1)
  by (simp_all add: a_stored_def note_contribution_def with_action_def an_empty_store opened_def a_creation_def insert_record_def)

lemma a_stored_run: "store_run an_env a_stored"
proof -
  let ?s = "store_open an_env None []"
  have turn: "is_turn_dedupe_key ''turn:s1''"
    by (simp add: is_turn_dedupe_key_def reserved_dedupe_session_suffix_def ATTENTION_DEDUPE_KEY_PREFIX_def TURN_DEDUPE_KEY_PREFIX_def
        strip_prefix_def)
  have "create_or_dedupe an_env Written ?s a_notice 0 1 = (a_stored, Ok (OutcomeCreated a_notice))"
    using an_env_texts(1) [unfolded a_creation_def]
    by (simp add: create_or_dedupe_def ensure_available_def an_empty_store find_existing_source_def create_superseding_turns_def
        append_created_def after_append_def append_action_locked_def a_stored_def with_action_def a_creation_def record_values_def
        supersede_unread_records_def Let_def turn opened_def)
  then have "commit_record an_env Written (\<lambda>_. Written) ?s a_notice 0 1 [] = (a_stored, Ok (True, a_notice), [EmitCreated a_notice])"
    by (simp add: commit_record_def created_record_def supersede_turns_for_attention_def is_attention_kind_def)
  then have "store_step an_env ?s a_stored"
    by (rule store_step.commit) (simp_all add: sound_write_def an_empty_store opened_def)
  then show ?thesis by (rule store_run.step [OF store_run.start])
qed

section \<open>Guarantees\<close>

lemma run_available:
  assumes "json_faithful env" and "store_run env s"
  shows "ensure_available s = Ok ()" and "records_ok (ss_records s)"
  using store_run_ok [OF assms] by (simp_all add: store_ok_def ensure_available_def)

text \<open>
  C17. A crash loses at most the notification that was being written.  After any run, when the daemon
  stops in the middle of appending an action, at a character boundary, the next start finds exactly the
  records of that moment; when the whole action but its line end was written, it finds the action too.
\<close>

theorem restart_recovers_store:
  assumes "json_faithful env" and "store_run env s" and "se_encode env a = Some line" and "k \<le> length line" and "is_utf8 (take k line)"
  shows "store_open env None (ss_log s @ take k line) =
    (if k = length line then opened (ss_log s @ line) (apply_action (ss_records s) a) (ss_action_count s + 1)
     else opened (ss_log s @ take k line) (ss_records s) (ss_action_count s))"
proof -
  obtain as where "encodable env as" "ss_log s = log_of env as" "ss_records s = foldl apply_action [] as" "ss_action_count s = length as"
    using store_run_ok [OF assms(1,2)] unfolding store_ok_def recoverable_def by blast
  then show ?thesis using open_log [OF assms(1) _ assms(3-5)] by simp
qed

theorem restart_recovers_store_witness:
  "ss_records (store_open an_env None (ss_log a_stored @ ''{'')) = [(''n1'', a_notice)]"
proof -
  have "store_open an_env None (ss_log a_stored @ take 1 ''{1}'') =
      (if 1 = length ''{1}'' then opened (ss_log a_stored @ ''{1}'') (apply_action (ss_records a_stored) a_deletion) (ss_action_count a_stored + 1)
       else opened (ss_log a_stored @ take 1 ''{1}'') (ss_records a_stored) (ss_action_count a_stored))"
    by (rule restart_recovers_store [OF an_env_faithful a_stored_run]) (auto intro!: is_utf8_ascii simp: is_ascii_def)
  then show ?thesis by (simp add: a_stored_state opened_def)
qed

text \<open>
  C18. The first notification after such a crash makes the store unreadable.  The start after the crash
  tolerates the line that was cut short but leaves it in the log, so the next action is appended to
  the same line; unless the two happen to be one JSON text, the following start refuses the log and
  serves no notification at all.
\<close>

theorem append_after_crash_loses_store:
  assumes "json_faithful env" and "store_run env s" and "se_encode env a = Some line" and "0 < k" and "k \<le> length line"
    and "is_utf8 (take k line)" and "append_action_locked env Written (store_open env None (ss_log s @ take k line)) b = (s', Ok ())"
    and "se_encode env b = Some appended" and "se_decode env (take k line @ appended) = Err cause"
  shows "ss_unavailable (store_open env None (ss_log s @ take k line)) = None \<and>
    ss_unavailable (store_open env None (ss_log s')) \<noteq> None \<and> ss_records (store_open env None (ss_log s')) = []"
proof -
  let ?p = "take k line"
  obtain as where as: "encodable env as" "ss_log s = log_of env as" using store_run_ok [OF assms(1,2)]
    unfolding store_ok_def recoverable_def by blast
  note first = open_log [OF assms(1) as(1) assms(3,5,6)]
  have ready: "ss_log (store_open env None (ss_log s @ ?p)) = log_of env as @ ?p" "ss_file (store_open env None (ss_log s @ ?p))"
    "ss_unavailable (store_open env None (ss_log s @ ?p)) = None"
    using assms(5) unfolding as(2) first by (auto simp: opened_def)
  have log: "ss_log s' = log_of env as @ (?p @ appended) @ newline # []"
    using assms(7,8) ready by (auto simp: append_action_locked_def Let_def)
  note f = faithful_text [OF assms(1,3)] and g = faithful_text [OF assms(1,8)]
  have plain: "\<forall>c \<in> set (?p @ appended). 32 \<le> byte_val c" "newline \<notin> set (?p @ appended)"
    using f(2,4) g(2,4) in_set_takeD [of _ k line] by auto
  obtain rest where "line = CHR ''{'' # rest" using assms(1,3) unfolding json_faithful_def by blast
  then have "trim_chars (utf8_chars (?p @ appended)) \<noteq> []" using brace_not_blank assms(4) by (cases k) auto
  then have "replay_lines env (length as) (split_inclusive ((?p @ appended) @ newline # [])) (foldl apply_action [] as, length as) =
      Err (ErrStoreParse (length as + 1) cause)"
    unfolding split_inclusive_line [OF plain(2)]
    using assms(9) strip_line_end_line(1) [OF plain(1)]
    by (simp add: Let_def is_tolerated_trailing_partial_def suffix_def)
  then have "\<exists>e. replay env (ss_log s') = Err e"
    using replay_log [OF assms(1) as(1), of 0 "(?p @ appended) @ newline # []" "[]" 0] unfolding log replay_def by auto
  then show ?thesis using ready(3) by (auto simp: store_open_def unavailable_store_def)
qed

theorem append_after_crash_loses_store_witness:
  "\<exists>s'. append_action_locked an_env Written (store_open an_env None (ss_log a_stored @ ''{'')) a_deletion = (s', Ok ()) \<and>
     ss_unavailable (store_open an_env None (ss_log s')) \<noteq> None"
proof -
  let ?s = "store_open an_env None (ss_log a_stored @ take 1 ''{1}'')"
  have "ss_file ?s"
    using open_log [OF an_env_faithful _ an_env_texts(2), of "[a_creation]" 1]
    by (simp add: a_stored_state opened_def is_utf8_ascii is_ascii_def)
  then obtain s' where s': "append_action_locked an_env Written ?s a_deletion = (s', Ok ())"
    by (simp add: append_action_locked_def Let_def)
  have "ss_unavailable ?s = None \<and> ss_unavailable (store_open an_env None (ss_log s')) \<noteq> None \<and>
      ss_records (store_open an_env None (ss_log s')) = []"
    by (rule append_after_crash_loses_store [OF an_env_faithful a_stored_run an_env_texts(2) _ _ _ s' an_env_texts(2), where cause = JsonSyntax])
      (auto intro!: is_utf8_ascii simp: is_ascii_def an_env_def)
  then show ?thesis using s' by auto
qed



text \<open>
  C19. A session has at most one unread turn notification.  Over every run, whatever reports, updates,
  resolves, compactions and restarts come, at most one record of a turn key is an unread completed turn.
\<close>

theorem one_unread_turn_per_session:
  assumes "json_faithful env" and "store_run env s"
  shows "length (filter (unread_turn K) (record_values s)) \<le> 1"
proof -
  have ok: "records_ok (ss_records s)" by (rule run_available [OF assms])
  have same: "x = y" if "x \<in> set (record_values s)" "y \<in> set (record_values s)" "unread_turn K x" "unread_turn K y" for x y
    using store_run_one_turn [OF assms] that values_lookup [OF ok] unfolding one_unread_turn_def by (metis option.inject)
  let ?turns = "filter (unread_turn K) (record_values s)"
  have "distinct ?turns" using distinct_filtered_ids [OF distinct_value_ids [OF ok]] by (simp add: distinct_map)
  moreover have "x = y" if "x \<in> set ?turns" "y \<in> set ?turns" for x y using same that by simp
  ultimately show ?thesis by (cases ?turns; cases "tl ?turns") (simp, simp, simp, metis distinct_length_2_or_more list.sel(3) list.set_intros)
qed

theorem one_unread_turn_per_session_witness:
  "length (filter (unread_turn ''turn:s1'') (record_values a_stored)) = 1"
proof -
  have "is_turn_dedupe_key ''turn:s1''"
    by (simp add: is_turn_dedupe_key_def reserved_dedupe_session_suffix_def ATTENTION_DEDUPE_KEY_PREFIX_def TURN_DEDUPE_KEY_PREFIX_def
        strip_prefix_def)
  then have "a_notice \<in> set (filter (unread_turn ''turn:s1'') (record_values a_stored))"
    by (simp add: record_values_def a_stored_state unread_turn_def)
  then have "0 < length (filter (unread_turn ''turn:s1'') (record_values a_stored))" by (rule length_pos_if_in_set)
  then show ?thesis using one_unread_turn_per_session [OF an_env_faithful a_stored_run, of "''turn:s1''"] by linarith
qed

text \<open>
  C21. The pages of a listing are the listing.  A client that asks for pages of any positive size and
  follows the cursors gets, over one state of the store, exactly the records of the listing without a
  limit, each once and in the same order, in pages of at most that size, and reaches the end.
\<close>

theorem list_pages_exact:
  assumes "json_faithful env" and "store_run env s" and "cursors_ok env s" and "0 < limit"
    and "store_list env s (p\<lparr>lp_limit := None, lp_cursor := None\<rparr>) = Ok all"
  shows "\<exists>pages. follow_pages env s (p\<lparr>lp_limit := Some limit, lp_cursor := None\<rparr>) (length (lr_notifications all) + 1) = Some pages \<and>
    concat pages = lr_notifications all \<and> (\<forall>page \<in> set pages. length page \<le> limit)"
proof -
  note ok = run_available [OF assms(1,2)]
  obtain after before where times: "parse_optional_timestamp env (lp_created_after p) = Ok after"
    "parse_optional_timestamp env (lp_created_before p) = Ok before"
    using assms(5) ok(1) unfolding store_list_def by (auto elim!: and_then_OkE)
  let ?p = "p\<lparr>lp_limit := Some limit\<rparr>"
  let ?xs = "listing env s ?p after before"
  have xs: "lr_notifications all = ?xs"
    using assms(5) store_list_page [OF ok(1), of env "p\<lparr>lp_limit := None, lp_cursor := None\<rparr>" after before] times
    by (auto simp: listing_def Let_def)
  have first: "store_list env s (?p\<lparr>lp_cursor := None\<rparr>) = Ok (page_of ?xs limit 0)"
    using store_list_pages(1) [OF ok(1) assms(3) ok(2), of "?p\<lparr>lp_cursor := None\<rparr>" after before limit] times assms(4)
    by (simp add: listing_def)
  show ?thesis
  proof (cases "limit < length ?xs")
    case True
    then have "limit - 1 < length ?xs" "length ?xs \<le> (limit - 1) + length ?xs" by simp_all
    from follow_pages_from [OF ok(1) assms(3) ok(2), of ?p after before limit, OF _ _ _ assms(4) this] times obtain pages where more:
      "follow_pages env s (?p\<lparr>lp_cursor := Some (encode_cursor (?xs ! (limit - 1)))\<rparr>) (length ?xs) = Some pages"
      "concat pages = drop limit ?xs" "\<forall>page \<in> set pages. length page \<le> limit" using assms(4) by auto
    have "follow_pages env s (?p\<lparr>lp_cursor := None\<rparr>) (length ?xs + 1) = Some (take limit ?xs # pages)"
      using first more(1) True by (simp add: page_of_def)
    then show ?thesis using more(2,3) xs by (intro exI [of _ "take limit ?xs # pages"]) simp
  next
    case False
    then show ?thesis using first xs by (simp add: page_of_def)
  qed
qed

definition any_notice :: list_params where
  "any_notice =
     \<lparr>lp_status = None, lp_kind = None, lp_severity = None, lp_provider = None, lp_session_id = None, lp_created_after = None,
      lp_created_before = None, lp_limit = None, lp_cursor = None\<rparr>"

theorem list_pages_exact_witness:
  "\<exists>pages. follow_pages an_env a_stored (any_notice\<lparr>lp_limit := Some 1\<rparr>) 2 = Some pages \<and> concat pages = [a_notice]"
proof -
  have all: "store_list an_env a_stored (any_notice\<lparr>lp_limit := None, lp_cursor := None\<rparr>) = Ok \<lparr>lr_notifications = [a_notice], lr_next_cursor = None\<rparr>"
    by (simp add: store_list_def any_notice_def ensure_available_def a_stored_state parse_optional_timestamp_def record_values_def
        list_matches_def record_in_time_range_def parse_timestamp_def sort_records_for_list_def an_env_def Let_def)
  have "cursors_ok an_env a_stored"
    by (simp add: cursors_ok_def record_values_def a_stored_state an_env_def a_time_def LIST_CURSOR_SEPARATOR_def)
  from list_pages_exact [OF an_env_faithful a_stored_run this _ all, of 1] show ?thesis
    by (simp add: any_notice_def numeral_2_eq_2 del: follow_pages.simps) blast
qed

end
