(* ===== verification/Spec2Isabelle.thy ===== *)
theory Spec2Isabelle
  imports Token_Vault Stream_Frames Input_Writer Detector_Run Turn_Guarantees Turn_Wait_Guarantees Attention_Guarantees Notify_Guarantees
begin

text \<open>
  Verification of pohunek: a daemon that runs coding agents in terminal sessions.  Each session has a
  worker process (\<open>crates/session-worker\<close>) that owns the PTY: it keeps a bounded history of the
  output, fans it out to subscribers, and writes input.  The daemon (\<open>crates/daemon\<close>) talks to the
  worker over a control socket with newline-delimited messages and over data sockets with framed
  bytes (\<open>crates/worker-protocol\<close>), and watches the output of every session to tell what the agent is
  doing.  \<open>crates/terminal\<close> holds the terminal code both sides use.

  \<^bold>\<open>Conventions.\<close>  A Rust function is a HOL function with the same name where HOL allows it.  A function
  on \<open>&mut self\<close> takes the state and returns it updated, next to its result; a fallible function
  returns \<open>Ok\<close> or \<open>Err\<close> (\<^const>\<open>Inr\<close>, \<^const>\<open>Inl\<close>), and every early return and \<open>?\<close> of the source is a
  branch.  Bytes are characters, strings are the byte lists of their UTF-8 encoding, \<open>u64\<close> and \<open>usize\<close>
  are natural numbers with the checked, saturating and wrapping arithmetic of the source written out
  (theory \<open>Prelude\<close>); clock readings are arguments.  Code of other crates is an argument: the vt100,
  vte and unicode-width crates (record \<open>vt_grid\<close> and the argument \<open>vt\<close>), base64, SHA-256, the JSON
  encoder and decoder, TOML, the regex engine and Unicode lowercasing (record \<open>manifest_env\<close>).  Where a
  theorem relies on them, the law is a named hypothesis (\<open>vt_streaming\<close>: feeding in pieces is feeding at
  once; a decoder that inverts its encoder) and a witness instantiates it.  Library functions of Rust
  on text are defined in theory \<open>Rust_Text\<close>.  The locale \<open>step_relation\<close> of \<open>Prelude\<close> lifts what one
  step keeps to every sequence of steps; it is interpreted on the edits of the turn table and of the
  notification store, on the detector and on the world a turn wait observes.

  \<^bold>\<open>Output of a session\<close> (\<open>session-worker/src/output.rs\<close>, \<open>probe.rs\<close>, \<open>terminal/src/snapshot.rs\<close>).
  \<open>Output_Ring\<close> is the bounded history, \<open>Osc_Tracker\<close> the terminal model behind repaints,
  \<open>Output_Queue\<close> the bounded queue of one subscriber, \<open>Output_Hub\<close> the hub that owns them.
  \<open>Output_Run\<close> relates every interleaving of pushes, subscriptions, receives, resizes, closes and drops
  to the complete history and to what each subscriber saw; \<open>Output_Guarantees\<close> has the results:
  streams accepted by the viewer specification, bounded memory, draining, exact observation pages, and
  when the end of the output is delivered or lost.  The locales \<open>byte_machine\<close>, \<open>draining_source\<close> and
  \<open>paged_log\<close> are the interfaces between them and are interpreted on the model.

  \<^bold>\<open>Protocol\<close> (\<open>worker-protocol/src\<close>).  \<open>Worker_Identity\<close>: identifiers and version negotiation.
  \<open>Token_Vault\<close>: one-use stream tokens.  \<open>Control_Codec\<close>: the control lines.  \<open>Data_Frame\<close>: the frames.
  \<open>Stream_Frames\<close> (\<open>session-worker/src/server.rs\<close>) puts output events on a data socket and composes the
  hub with the frames: what a client reads is the history.

  \<^bold>\<open>Input of a session\<close> (\<open>session-worker/src/input.rs\<close>, \<open>daemon/src/runtime/client.rs\<close>).
  \<open>Input_Dedup\<close>: identifiers, admission and retention of control writes; \<open>Input_Writer\<close>: the lock
  protocol and the write loop as interleaved steps.

  \<^bold>\<open>Activity detection\<close> (\<open>daemon/src/detect\<close>, \<open>terminal/src/screen.rs\<close>, \<open>terminal/src/program_status.rs\<close>).
  \<open>Program_Status\<close>: status reports and probe replies.  \<open>Detect_Machine\<close>: the debounced state machine.
  \<open>Detect_Osc\<close>: control strings.  \<open>Detect_Manifest\<close>: compilation and matching of manifests.
  \<open>Screen_Tracker\<close>: the screen and its regions.  \<open>Detector\<close> composes them; \<open>Detector_Run\<close> has what
  holds in all its runs.

  \<^bold>\<open>Turns of a session\<close> (\<open>daemon/src/session/turn_events.rs\<close>, \<open>turn_wait.rs\<close>, parts of \<open>session/mod.rs\<close>, and
  \<open>protocol/src/turn_wait.rs\<close>).  \<open>Turn_Table\<close>: the recent turns of one session and the input they answer.
  \<open>Turn_Run\<close> reduces every operation to small edits of the table and proves what edits keep;
  \<open>Turn_Guarantees\<close> has the results over all runs: the life cycle of a turn, that only a turn that went
  idle is reported, and that output alone makes up no turn.  \<open>Turn_Journal\<close>: the bounded journal of turn
  events, cursors and waiter slots; the locale \<open>log_reader\<close> is what its readers rely on.  \<open>Turn_Wait\<close>: the
  long wait, which reads the registry once per lock it takes.  \<open>Turn_Wait_Run\<close> has the steps the daemon
  may take between two reads and what the reads see; \<open>Turn_Wait_Guarantees\<close> has the results: chained
  waits neither lose nor repeat an event, exits are not missed, no wake-up is lost, every wait ends, a
  cursor is reset only after an eviction, and slots are exact.

  \<^bold>\<open>Notifications of a session\<close> (\<open>daemon/src/notifications/coordinator.rs\<close>, parts of \<open>notifications/mod.rs\<close>).
  \<open>Attention\<close>: the task that holds a notification pending for the debounce window; the answers of the
  store, the registry and the clocks are arguments, and what the task did is a list of effects.
  \<open>Attention_Run\<close> has its steps, split wherever it awaits, with the turns of \<open>Turn_Table\<close> moving in
  between, and shows that each turn is reported once and that no entry is left without a timer.
  \<open>Attention_Guarantees\<close> adds the debounce window and a create that shields an inbox record.
  \<open>Notify_Store\<close>: the append-only store behind it (\<open>store.rs\<close>) with its log as bytes, replay, deduplication,
  lifecycle, listing and compaction.  \<open>Notify_Run\<close> reduces its operations to edits of the records and the
  log; \<open>Notify_Recovery\<close> shows what replay and compaction make of the log of a run; \<open>Notify_Guarantees\<close>
  has the results: recovery after a crash and what an append after it destroys, records are not lost,
  one unread turn per session, and pages that add up to the listing.

  \<^bold>\<open>Bounds and loops.\<close>  Every loop of the modelled code is a structurally recursive function, a fold over
  the bytes or a function with a termination proof; there is no fuel.  The loops that wait (the reader of
  a frame, the drain of a subscriber, the write of a plan, the wait for a turn event) run over an explicit
  sequence of what the environment answers, and the liveness results say which answers are enough.

  \<^bold>\<open>Not modelled.\<close>  Process spawning, sockets, the file system, the database, the HTTP and websocket
  servers, the operating system and the async runtime: the model has the state changes under each lock
  and takes their order from an arbitrary run.  The cancellation of a write that is dropped midway, the
  select loops of the stream tasks, session creation, resumption and reconciliation, worktrees and
  integrations, packages, the relay, the command line and the SDK are not modelled either.
\<close>

end
